(* ===== verification/Prelude.thy ===== *)
theory Prelude
  imports Main "HOL-Library.Word" "HOL-Library.Monad_Syntax"
begin

text \<open>
  Shared vocabulary of the PrisKV development.

  \<^item> Machine integers. Bit-level code works on words (\<open>u8\<close>, \<open>u32\<close>, \<open>u64\<close>).
    Counters, sizes and indices are \<open>nat\<close> (or \<open>int\<close> where the C type is signed)
    and every C operation that can leave its type's range goes through \<open>u16\<close>,
    \<open>u32n\<close>, \<open>u64n\<close> or \<open>s64\<close>, which write the wrap-around out.
  \<^item> Addresses are byte addresses, \<open>addr = nat\<close>; a pointer that may be NULL is an
    \<open>addr option\<close>.
  \<^item> Failure. An operation whose C body can stop the process (an \<open>assert\<close> that
    fails, a division by zero) or leave the objects it owns (an access out of bounds, an
    unlink of a node that is in no list) returns an \<open>option\<close>: \<open>None\<close> is that
    failure. An ordinary error return of the C code is a value inside \<open>Some\<close>.
\<close>

type_synonym u8 = "8 word"
type_synonym u32 = "32 word"
type_synonym u64 = "64 word"
type_synonym bytes = "u8 list"
type_synonym addr = nat

named_theorems wrap_simps \<open>elimination of the machine-integer wrap-around within range\<close>

definition u16n :: "nat \<Rightarrow> nat" where
  "u16n n = n mod 2 ^ 16"

definition u32n :: "nat \<Rightarrow> nat" where
  "u32n n = n mod 2 ^ 32"

definition u64n :: "nat \<Rightarrow> nat" where
  "u64n n = n mod 2 ^ 64"

definition s64 :: "int \<Rightarrow> int" where
  "s64 x = (x + 2 ^ 63) mod 2 ^ 64 - 2 ^ 63"

text \<open>Subtraction on unsigned C types of 32 bits.\<close>

definition u32_sub :: "nat \<Rightarrow> nat \<Rightarrow> nat" where
  "u32_sub a b = u32n (a + (2 ^ 32 - u32n b))"

text \<open>C's integer division truncates towards zero.\<close>

definition c_div :: "int \<Rightarrow> int \<Rightarrow> int" where
  "c_div a b = sgn a * sgn b * (\<bar>a\<bar> div \<bar>b\<bar>)"

subsection \<open>Wrap-around within range\<close>

lemma u16n_id [wrap_simps]: "n < 65536 \<Longrightarrow> u16n n = n"
  by (simp add: u16n_def)

lemma u32n_id [wrap_simps]: "n < 4294967296 \<Longrightarrow> u32n n = n"
  by (simp add: u32n_def)

lemma u64n_id [wrap_simps]: "n < 18446744073709551616 \<Longrightarrow> u64n n = n"
  by (simp add: u64n_def)

lemma s64_id [wrap_simps]:
  "- 9223372036854775808 \<le> x \<Longrightarrow> x < 9223372036854775808 \<Longrightarrow> s64 x = x"
  by (simp add: s64_def)

lemma u32n_less [simp]: "u32n n < 4294967296"
  by (simp add: u32n_def)

lemma u16n_less [simp]: "u16n n < 65536"
  by (simp add: u16n_def)

lemma u64n_less [simp]: "u64n n < 18446744073709551616"
  by (simp add: u64n_def)

lemma u32_sub_id [wrap_simps]: "b \<le> a \<Longrightarrow> a < 4294967296 \<Longrightarrow> u32_sub a b = a - b"
proof -
  assume le: "b \<le> a" and less: "a < 4294967296"
  then have "u32n b = b" by (simp add: u32n_def)
  moreover have "a + (2 ^ 32 - b) = (a - b) + 2 ^ 32" using le less by simp
  ultimately have "u32_sub a b = (a - b + 2 ^ 32) mod 2 ^ 32"
    by (simp only: u32_sub_def u32n_def)
  with less show ?thesis by simp
qed

lemma u32_sub_wrap: "a < b \<Longrightarrow> b < 4294967296 \<Longrightarrow> u32_sub a b = 4294967296 + a - b"
  by (simp add: u32_sub_def u32n_def)

lemma c_div_nonneg [simp]: "0 \<le> a \<Longrightarrow> 0 < b \<Longrightarrow> c_div a b = a div b"
  by (cases "a = 0") (simp_all add: c_div_def)

lemma c_div_neg: "a < 0 \<Longrightarrow> 0 < b \<Longrightarrow> c_div a b = - ((- a) div b)"
  by (simp add: c_div_def)

lemma ivl_disjoint_iff:
  "a < b \<Longrightarrow> c < d \<Longrightarrow> {a..<b} \<inter> {c..<d} = {} \<longleftrightarrow> b \<le> c \<or> d \<le> (a :: nat)"
  by (auto simp: disjoint_iff)

subsection \<open>Options\<close>

lemma bind_Some_iff [simp]:
  "Option.bind m f = Some y \<longleftrightarrow> (\<exists>x. m = Some x \<and> f x = Some y)"
  by (cases m) auto

lemma find_None_iff_all: "find P xs = None \<longleftrightarrow> (\<forall>x \<in> set xs. \<not> P x)"
  by (induction xs) auto

lemma find_SomeD: "find P xs = Some x \<Longrightarrow> x \<in> set xs \<and> P x"
  by (induction xs) (auto split: if_splits)

lemma find_Some_first:
  "find P xs = Some x \<Longrightarrow> \<exists>ys zs. xs = ys @ x # zs \<and> P x \<and> (\<forall>y \<in> set ys. \<not> P y)"
proof (induction xs)
  case Nil
  then show ?case by simp
next
  case (Cons a xs)
  show ?case
  proof (cases "P a")
    case True
    with Cons.prems show ?thesis by (intro exI [of _ "[]"] exI [of _ xs]) auto
  next
    case False
    with Cons obtain ys zs where "xs = ys @ x # zs" "P x" "\<forall>y \<in> set ys. \<not> P y"
      by auto
    with False show ?thesis by (intro exI [of _ "a # ys"] exI [of _ zs]) auto
  qed
qed

subsection \<open>Lists\<close>

lemma remove1_distinct_filter:
  "distinct xs \<Longrightarrow> remove1 x xs = filter (\<lambda>y. y \<noteq> x) xs"
  by (induction xs) (auto intro: filter_id_conv [THEN iffD2, symmetric])

lemma set_list_update_other:
  "i \<noteq> j \<Longrightarrow> (xs[i := v]) ! j = xs ! j"
  by simp

end
