(* ===== verification/Utils.thy ===== *)
theory Utils
  imports Prelude
begin

unbundle bit_operations_syntax

text \<open>
  \<open>include/priskv-utils.h\<close>: the alignment and power-of-two macros, the minimum and
  time helpers, the byte comparison and the parsing of sizes with a unit.
\<close>

section \<open>Macros\<close>

definition ALIGN_UP :: "'a::len word \<Rightarrow> 'a word \<Rightarrow> 'a word" where
  "ALIGN_UP x ALIGNMENT = (x + (ALIGNMENT - 1)) AND NOT (ALIGNMENT - 1)"

definition ALIGN_DOWN :: "'a::len word \<Rightarrow> 'a word \<Rightarrow> 'a word" where
  "ALIGN_DOWN x ALIGNMENT = x AND NOT (ALIGNMENT - 1)"

definition IS_POWER_OF_2 :: "'a::len word \<Rightarrow> bool" where
  "IS_POWER_OF_2 x \<longleftrightarrow> x AND (x - 1) = 0"

section \<open>Small helpers\<close>

definition priskv_min_u16 :: "nat \<Rightarrow> nat \<Rightarrow> nat" where
  "priskv_min_u16 a b = (if a < b then a else b)"

definition priskv_min_u32 :: "nat \<Rightarrow> nat \<Rightarrow> nat" where
  "priskv_min_u32 a b = (if a < b then a else b)"

section \<open>Time\<close>

text \<open>\<open>struct timeval\<close>: both fields are signed 64-bit.\<close>

record timeval =
  tv_sec :: int
  tv_usec :: int

definition priskv_time_elapsed_us :: "timeval \<Rightarrow> timeval \<Rightarrow> int" where
  "priskv_time_elapsed_us start fin =
     s64 (s64 (s64 (tv_sec fin - tv_sec start) * 1000000) + s64 (tv_usec fin - tv_usec start))"

definition priskv_time_elapsed_ms :: "timeval \<Rightarrow> timeval \<Rightarrow> int" where
  "priskv_time_elapsed_ms start fin =
     s64 (s64 (s64 (tv_sec fin - tv_sec start) * 1000)
       + c_div (s64 (tv_usec fin - tv_usec start)) 1000)"

definition priskv_time_add_ms :: "timeval \<Rightarrow> nat \<Rightarrow> timeval" where
  "priskv_time_add_ms t milliseconds =
     (let usec = s64 (tv_usec t + int (milliseconds mod 1000) * 1000)
      in t\<lparr>tv_sec := s64 (tv_sec t + int (milliseconds div 1000) + c_div usec 1000000),
           tv_usec := usec - c_div usec 1000000 * 1000000\<rparr>)"

text \<open>A normalised time stamp, as \<open>gettimeofday\<close> delivers it.\<close>

definition timeval_ok :: "timeval \<Rightarrow> bool" where
  "timeval_ok t \<longleftrightarrow> 0 \<le> tv_sec t \<and> tv_sec t < 2 ^ 40 \<and> 0 \<le> tv_usec t \<and> tv_usec t < 1000000"

definition us_of :: "timeval \<Rightarrow> int" where
  "us_of t = tv_sec t * 1000000 + tv_usec t"

section \<open>The macros on natural numbers\<close>

lemma and_not_mask_sub: "(y :: 'a::len word) AND NOT (mask k) = y - take_bit k y"
proof -
  have "(y AND NOT (mask k)) + (y AND mask k) = (y AND NOT (mask k)) OR (y AND mask k)"
    by (rule disjunctive_add) (auto simp: bit_simps)
  also have "\<dots> = y" by (rule bit_word_eqI) (auto simp: bit_simps)
  finally show ?thesis by (simp add: take_bit_eq_mask algebra_simps)
qed

lemma unat_and_not_mask:
  "unat ((y :: 'a::len word) AND NOT (mask k)) = unat y div 2 ^ k * 2 ^ k"
proof -
  have t: "unat (take_bit k y) = unat y mod 2 ^ k"
    by (simp add: unsigned_take_bit_eq flip: take_bit_eq_mod)
  then have le: "take_bit k y \<le> y" by (simp add: word_le_nat_alt)
  have "unat (y AND NOT (mask k)) = unat y - unat y mod 2 ^ k"
    using le by (simp add: and_not_mask_sub unat_sub t)
  then show ?thesis by (simp add: minus_mod_eq_div_mult)
qed

lemma ALIGN_UP_mask: "ALIGN_UP x (2 ^ k) = (x + mask k) AND NOT (mask k)"
  by (simp only: ALIGN_UP_def mask_eq_exp_minus_1)

lemma unat_ALIGN_UP:
  assumes "k < LENGTH('a)" and "unat x + 2 ^ k - 1 < 2 ^ LENGTH('a)"
  shows "unat (ALIGN_UP (x :: 'a::len word) (2 ^ k)) = (unat x + 2 ^ k - 1) div 2 ^ k * 2 ^ k"
proof -
  have "unat (mask k :: 'a word) = nat (mask k)"
    using assms(1) by (simp add: unat_eq_nat_uint uint_mask_eq)
  also have "\<dots> = 2 ^ k - 1" by (simp only: nat_mask_eq) (simp only: mask_eq_exp_minus_1)
  finally have "unat (mask k :: 'a word) = 2 ^ k - 1" .
  then have "unat (x + mask k) = unat x + 2 ^ k - 1"
    using assms(2) by (simp add: unat_word_ariths)
  then show ?thesis by (simp only: ALIGN_UP_mask unat_and_not_mask)
qed

lemma unat_highest_bit:
  assumes "x \<noteq> (0 :: 'a::len word)"
  obtains k where "k < LENGTH('a)" "2 ^ k \<le> unat x" "unat x < 2 ^ Suc k"
proof -
  have pos: "0 < unat x" using assms by (simp add: unat_gt_0)
  obtain k where k: "2 ^ k \<le> unat x" "unat x < 2 ^ Suc k"
    using ex_power_ivl1 [of 2 "unat x"] pos by auto
  have "k < LENGTH('a)"
    using le_less_trans [OF k(1) unsigned_less [of x]] by simp
  from this k show ?thesis by (rule that)
qed

lemma bit_highest: "2 ^ k \<le> unat x \<Longrightarrow> unat x < 2 ^ Suc k \<Longrightarrow> bit (x :: 'a::len word) k"
proof -
  assume "2 ^ k \<le> unat x" "unat x < 2 ^ Suc k"
  then have "unat x div 2 ^ k = 1" by (intro div_nat_eqI) auto
  then have "bit (unat x) k" by (simp add: bit_iff_odd)
  then show ?thesis by (simp add: bit_unsigned_iff)
qed

lemma IS_POWER_OF_2_iff:
  "IS_POWER_OF_2 (x :: 'a::len word) \<longleftrightarrow> x = 0 \<or> (\<exists>k < LENGTH('a). x = 2 ^ k)"
proof
  assume p: "IS_POWER_OF_2 x"
  show "x = 0 \<or> (\<exists>k < LENGTH('a). x = 2 ^ k)"
  proof (cases "x = 0")
    case False
    then obtain k where k: "k < LENGTH('a)" "2 ^ k \<le> unat x" "unat x < 2 ^ Suc k"
      by (rule unat_highest_bit)
    have "unat x = 2 ^ k"
    proof (rule ccontr)
      assume "unat x \<noteq> 2 ^ k"
      moreover have "unat (x - 1) = unat x - 1" using False by (simp add: unat_minus_one)
      ultimately have "bit (x - 1) k" using k by (intro bit_highest) auto
      with bit_highest [OF k(2,3)] have "bit (x AND (x - 1)) k" by (simp add: bit_and_iff)
      with p show False by (simp add: IS_POWER_OF_2_def)
    qed
    then have "of_nat (unat x) = (of_nat (2 ^ k) :: 'a word)" by (rule arg_cong)
    then have "x = 2 ^ k" by simp
    with k(1) show ?thesis by blast
  qed simp
next
  assume "x = 0 \<or> (\<exists>k < LENGTH('a). x = 2 ^ k)"
  then show "IS_POWER_OF_2 x"
  proof
    assume "\<exists>k < LENGTH('a). x = 2 ^ k"
    then obtain k where x: "x = 2 ^ k" by blast
    have "(2 ^ k :: 'a word) AND mask k = 0"
      by (rule bit_word_eqI) (auto simp: bit_simps)
    then show ?thesis by (simp only: IS_POWER_OF_2_def x mask_eq_exp_minus_1)
  qed (simp add: IS_POWER_OF_2_def)
qed

section \<open>Time arithmetic within range\<close>

lemma priskv_time_add_ms_eq:
  assumes "timeval_ok t" and "ms < 2 ^ 64"
  defines "u \<equiv> tv_usec t + int (ms mod 1000) * 1000"
  shows "priskv_time_add_ms t ms =
      t\<lparr>tv_sec := tv_sec t + int (ms div 1000) + u div 1000000, tv_usec := u mod 1000000\<rparr>"
    and "0 \<le> u" and "u < 2000000"
proof -
  have m: "0 \<le> int (ms mod 1000)" "int (ms mod 1000) < 1000" by simp_all
  then show u: "0 \<le> u" "u < 2000000"
    using assms(1) by (auto simp: u_def timeval_ok_def)
  then have su: "s64 u = u" by (simp add: wrap_simps)
  have d: "0 \<le> u div 1000000" "u div 1000000 \<le> 1" using u by simp_all
  have "int (ms div 1000) < 2 ^ 55" using assms(2) by simp
  then have ss: "s64 (tv_sec t + int (ms div 1000) + u div 1000000)
      = tv_sec t + int (ms div 1000) + u div 1000000"
    using assms(1) d by (intro s64_id) (auto simp: timeval_ok_def)
  show "priskv_time_add_ms t ms =
      t\<lparr>tv_sec := tv_sec t + int (ms div 1000) + u div 1000000, tv_usec := u mod 1000000\<rparr>"
    using u(1) su ss
    by (simp add: priskv_time_add_ms_def Let_def minus_div_mult_eq_mod flip: u_def)
qed

lemma int_ms_split: "int ms * 1000 = int (ms div 1000) * 1000000 + int (ms mod 1000) * 1000"
proof -
  have "int ms = int (ms div 1000) * 1000 + int (ms mod 1000)"
    by (simp add: zdiv_int zmod_int)
  then show ?thesis by simp
qed

lemma priskv_time_add_ms_us:
  assumes "timeval_ok t" and "ms < 2 ^ 64"
  shows "us_of (priskv_time_add_ms t ms) = us_of t + int ms * 1000"
proof -
  note eq = priskv_time_add_ms_eq [OF assms]
  define u where "u = tv_usec t + int (ms mod 1000) * 1000"
  have "u = u div 1000000 * 1000000 + u mod 1000000" by simp
  then show ?thesis
    using int_ms_split [of ms]
    by (simp add: us_of_def eq(1) flip: u_def)
qed

lemma priskv_time_add_ms_range:
  assumes "timeval_ok t" and "ms < 2 ^ 64"
  shows "0 \<le> tv_usec (priskv_time_add_ms t ms)"
    and "tv_usec (priskv_time_add_ms t ms) < 1000000"
    and "0 \<le> tv_sec (priskv_time_add_ms t ms)"
    and "tv_sec (priskv_time_add_ms t ms) \<le> tv_sec t + int (ms div 1000) + 1"
  using assms(1) priskv_time_add_ms_eq [OF assms] by (auto simp: timeval_ok_def)

text \<open>Any time stamp the store keeps: normalised, and far enough from the end of the range.\<close>

definition expire_ok :: "timeval \<Rightarrow> bool" where
  "expire_ok e \<longleftrightarrow> 0 \<le> tv_sec e \<and> tv_sec e < 2 ^ 53 \<and> 0 \<le> tv_usec e \<and> tv_usec e < 1000000"

lemma priskv_time_add_ms_expire_ok:
  assumes "timeval_ok t" and "ms \<le> 2 ^ 62"
  shows "expire_ok (priskv_time_add_ms t ms)"
proof -
  have ms: "ms < 2 ^ 64" using assms(2) by simp
  have "int (ms div 1000) \<le> 2 ^ 62 div 1000" using assms(2) by simp
  then show ?thesis
    using priskv_time_add_ms_range [OF assms(1) ms] assms(1)
    by (auto simp: expire_ok_def timeval_ok_def)
qed

lemma priskv_time_elapsed_ms_eq:
  assumes "expire_ok e" and "timeval_ok now"
  shows "priskv_time_elapsed_ms e now =
    (tv_sec now - tv_sec e) * 1000 + c_div (tv_usec now - tv_usec e) 1000"
proof -
  define ds where "ds = tv_sec now - tv_sec e"
  define du where "du = tv_usec now - tv_usec e"
  have ds: "- 9007199254740992 < ds" "ds < 1099511627776"
    and du: "-1000000 < du" "du < 1000000"
    using assms by (auto simp: ds_def du_def expire_ok_def timeval_ok_def)
  have "s64 ds = ds" "s64 du = du" "s64 (ds * 1000) = ds * 1000"
    using ds du by (simp_all add: wrap_simps)
  moreover have "\<bar>c_div du 1000\<bar> \<le> 1000"
    using du by (cases "0 \<le> du") (auto simp: c_div_neg)
  then have "s64 (ds * 1000 + c_div du 1000) = ds * 1000 + c_div du 1000"
    using ds by (intro s64_id) auto
  ultimately show ?thesis
    by (simp add: priskv_time_elapsed_ms_def flip: ds_def du_def)
qed

lemma priskv_time_elapsed_ms_pos:
  assumes "expire_ok e" and "timeval_ok now"
  shows "0 < priskv_time_elapsed_ms e now \<Longrightarrow> us_of e < us_of now"
    and "us_of e + 1000 \<le> us_of now \<Longrightarrow> 0 < priskv_time_elapsed_ms e now"
proof -
  define ds where "ds = tv_sec now - tv_sec e"
  define du where "du = tv_usec now - tv_usec e"
  have du: "-1000000 < du" "du < 1000000"
    using assms by (auto simp: du_def expire_ok_def timeval_ok_def)
  have us: "us_of now - us_of e = ds * 1000000 + du"
    by (simp add: us_of_def ds_def du_def algebra_simps)
  have el: "priskv_time_elapsed_ms e now = ds * 1000 + c_div du 1000"
    using priskv_time_elapsed_ms_eq [OF assms] by (simp add: ds_def du_def)
  show "0 < priskv_time_elapsed_ms e now \<Longrightarrow> us_of e < us_of now"
    using us el du by (cases "0 \<le> du") (auto simp: c_div_neg)
  show "us_of e + 1000 \<le> us_of now \<Longrightarrow> 0 < priskv_time_elapsed_ms e now"
    using us el du by (cases "0 \<le> du") (auto simp: c_div_neg)
qed

section \<open>Byte comparison\<close>

text \<open>\<open>*(uint64_t * )p\<close> on a little-endian machine.\<close>

primrec le_nat :: "bytes \<Rightarrow> nat" where
  "le_nat [] = 0"
| "le_nat (b # bs) = unat b + 256 * le_nat bs"

definition load_u64 :: "bytes \<Rightarrow> u64" where
  "load_u64 bs = of_nat (le_nat (take 8 bs))"

primrec memcmp64_tail :: "bytes \<Rightarrow> u8 \<Rightarrow> int" where
  "memcmp64_tail [] val = 0"
| "memcmp64_tail (b # bs) val =
     (if b \<noteq> val then int (unat b) - int (unat val) else memcmp64_tail bs val)"

function priskv_memcmp64 :: "bytes \<Rightarrow> u8 \<Rightarrow> int" where
  "priskv_memcmp64 s val =
     (if 8 \<le> length s then
        (let val64 = load_u64 (replicate 8 val)
         in if load_u64 s \<noteq> val64 then sint (load_u64 s - val64)
            else priskv_memcmp64 (drop 8 s) val)
      else memcmp64_tail s val)"
  by pat_completeness auto
termination
  by (relation "measure (\<lambda>(s, val). length s)") auto

declare priskv_memcmp64.simps [simp del]

lemma le_nat_less: "le_nat bs < 256 ^ length bs"
proof (induction bs)
  case (Cons b bs)
  have "unat b < 256" using unsigned_less [of b] by simp
  with Cons.IH show ?case by simp
qed simp

lemma le_nat_inj: "length xs = length ys \<Longrightarrow> le_nat xs = le_nat ys \<Longrightarrow> xs = ys"
proof (induction xs ys rule: list_induct2)
  case (Cons x xs y ys)
  have x: "unat x < 256" and y: "unat y < 256"
    using unsigned_less [of x] unsigned_less [of y] by simp_all
  from Cons.prems have eq: "unat x + 256 * le_nat xs = unat y + 256 * le_nat ys" by simp
  then have "(unat x + 256 * le_nat xs) mod 256 = (unat y + 256 * le_nat ys) mod 256" by simp
  with x y have "unat x = unat y" by simp
  with eq Cons.IH show ?case by (simp add: unsigned_word_eqI)
qed simp

lemma load_u64_eq_iff:
  assumes "length xs = 8" "length ys = 8"
  shows "load_u64 xs = load_u64 ys \<longleftrightarrow> xs = ys"
proof -
  have "le_nat xs < 2 ^ 64" "le_nat ys < 2 ^ 64"
    using le_nat_less [of xs] le_nat_less [of ys] assms by simp_all
  then have "load_u64 xs = load_u64 ys \<longleftrightarrow> le_nat xs = le_nat ys"
    using assms by (simp add: load_u64_def word_of_nat_eq_iff take_bit_nat_eq_self)
  with assms show ?thesis using le_nat_inj [of xs ys] by auto
qed

lemma load_u64_take: "load_u64 s = load_u64 (take 8 s)"
  by (simp add: load_u64_def)

lemma memcmp64_tail_0: "memcmp64_tail s val = 0 \<longleftrightarrow> (\<forall>b \<in> set s. b = val)"
  by (induction s) (auto simp: unsigned_word_eqI)

lemma replicate_8_eq: "length s = 8 \<Longrightarrow> s = replicate 8 v \<longleftrightarrow> (\<forall>b \<in> set s. b = v)"
  by (metis in_set_replicate replicate_eqI)

lemma priskv_memcmp64_zero_iff:
  "priskv_memcmp64 s val = 0 \<longleftrightarrow> (\<forall>b \<in> set s. b = val)"
proof (induction s val rule: priskv_memcmp64.induct)
  case (1 s val)
  show ?case
  proof (cases "8 \<le> length s")
    case False
    then show ?thesis by (simp add: priskv_memcmp64.simps [of s] memcmp64_tail_0)
  next
    case True
    define v where "v = load_u64 (replicate 8 val)"
    have len: "length (take 8 s) = 8" using True by simp
    have eq: "load_u64 s = v \<longleftrightarrow> (\<forall>b \<in> set (take 8 s). b = val)"
      using load_u64_eq_iff [OF len, of "replicate 8 val"] replicate_8_eq [OF len, of val]
      by (simp add: v_def flip: load_u64_take)
    have split: "set s = set (take 8 s) \<union> set (drop 8 s)"
      by (metis append_take_drop_id set_append)
    show ?thesis
    proof (cases "load_u64 s = v")
      case same: True
      then have "priskv_memcmp64 s val = priskv_memcmp64 (drop 8 s) val"
        using True by (simp add: priskv_memcmp64.simps [of s] Let_def flip: v_def)
      with "1.IH" [OF True refl] same eq split show ?thesis by (auto simp flip: v_def)
    next
      case False
      then have "priskv_memcmp64 s val = sint (load_u64 s - v)"
        using True by (simp add: priskv_memcmp64.simps [of s] Let_def flip: v_def)
      moreover have "sint (load_u64 s - v) \<noteq> 0" using False by (simp add: signed_eq_0_iff)
      ultimately show ?thesis using False eq split by auto
    qed
  qed
qed

section \<open>Sizes with a unit\<close>

text \<open>
  C strings are the characters before the terminating NUL. \<open>strtoll\<close> in base 10 skips
  white space, reads a sign and digits, and saturates at the ends of the 64-bit range
  with \<open>errno = ERANGE\<close>. Its result is the value, the unread rest (the whole string
  when there is no digit) and whether it set \<open>errno\<close>.
\<close>

definition is_space :: "char \<Rightarrow> bool" where
  "is_space c \<longleftrightarrow> of_char c \<in> {9, 10, 11, 12, 13, 32 :: nat}"

definition is_digit :: "char \<Rightarrow> bool" where
  "is_digit c \<longleftrightarrow> 48 \<le> (of_char c :: nat) \<and> (of_char c :: nat) \<le> 57"

definition digit_val :: "char \<Rightarrow> int" where
  "digit_val c = int (of_char c) - 48"

definition dec_val :: "string \<Rightarrow> int" where
  "dec_val ds = foldl (\<lambda>a d. 10 * a + digit_val d) 0 ds"

definition strtoll :: "string \<Rightarrow> int \<times> string \<times> bool" where
  "strtoll str =
     (let s = dropWhile is_space str;
          neg = (s \<noteq> [] \<and> hd s = CHR ''-'');
          t = (if s \<noteq> [] \<and> (hd s = CHR ''-'' \<or> hd s = CHR ''+'') then tl s else s);
          ds = takeWhile is_digit t;
          v = (if neg then - dec_val ds else dec_val ds)
      in if ds = [] then (0, str, False)
         else if v < - (2 ^ 63) then (- (2 ^ 63), dropWhile is_digit t, True)
         else if v \<ge> 2 ^ 63 then (2 ^ 63 - 1, dropWhile is_digit t, True)
         else (v, dropWhile is_digit t, False))"

definition tolower :: "char \<Rightarrow> char" where
  "tolower c = (if 65 \<le> (of_char c :: nat) \<and> (of_char c :: nat) \<le> 90
     then char_of ((of_char c :: nat) + 32) else c)"

definition priskv_get_mult_bytes :: "string \<Rightarrow> int option" where
  "priskv_get_mult_bytes p =
     (if p = [] then Some 1
      else let c = map tolower (filter (\<lambda>x. x \<noteq> CHR '' '') p)
           in if c \<in> {''p'', ''pb'', ''pib''} then Some (1024 ^ 5)
              else if c \<in> {''t'', ''tb'', ''tib''} then Some (1024 ^ 4)
              else if c \<in> {''g'', ''gb'', ''gib''} then Some (1024 ^ 3)
              else if c \<in> {''m'', ''mb'', ''mib''} then Some (1024 ^ 2)
              else if c \<in> {''k'', ''kb'', ''kib''} then Some 1024
              else None)"

text \<open>
  \<open>priskv_str2num\<close> returns -1 (here \<open>None\<close>) or stores the number. It looks at
  \<open>errno\<close> without clearing it first; \<open>erange\<close> is whether an earlier call left
  \<open>ERANGE\<close> there.
\<close>

definition priskv_str2num :: "bool \<Rightarrow> string \<Rightarrow> int option" where
  "priskv_str2num erange str =
     (let (result, unit, set_erange) = strtoll str
      in if result = 0 \<and> unit = str then None
         else if erange \<or> set_erange then None
         else case priskv_get_mult_bytes unit of
                None \<Rightarrow> None
              | Some mult \<Rightarrow> Some (s64 (result * mult)))"

lemma takeWhile_digits:
  "\<forall>d \<in> set ds. is_digit d \<Longrightarrow> (u = [] \<or> \<not> is_digit (hd u)) \<Longrightarrow>
     takeWhile is_digit (ds @ u) = ds \<and> dropWhile is_digit (ds @ u) = u"
  by (cases u) (auto simp: takeWhile_append dropWhile_append)

lemma digit_not_special:
  "is_digit c \<Longrightarrow> \<not> is_space c \<and> c \<noteq> CHR ''-'' \<and> c \<noteq> CHR ''+''"
  by (auto simp: is_digit_def is_space_def)

lemma strtoll_digits:
  assumes "ds \<noteq> []" "\<forall>d \<in> set ds. is_digit d" "u = [] \<or> \<not> is_digit (hd u)"
    and "dec_val ds < 2 ^ 63" "0 \<le> dec_val ds"
  shows "strtoll (ds @ u) = (dec_val ds, u, False)"
proof -
  obtain c cs where ds: "ds = c # cs" using assms(1) by (cases ds) auto
  with assms(2) have "\<not> is_space c \<and> c \<noteq> CHR ''-'' \<and> c \<noteq> CHR ''+''"
    using digit_not_special by simp
  with ds have "dropWhile is_space (ds @ u) = ds @ u" "hd (ds @ u) \<noteq> CHR ''-''"
    "hd (ds @ u) \<noteq> CHR ''+''" by auto
  with assms takeWhile_digits [OF assms(2,3)] show ?thesis
    by (simp add: strtoll_def Let_def)
qed

lemma dec_val_nonneg:
  assumes "\<forall>d \<in> set ds. is_digit d"
  shows "0 \<le> dec_val ds"
proof -
  have "0 \<le> a \<Longrightarrow> \<forall>d \<in> set ds. is_digit d \<Longrightarrow>
      0 \<le> foldl (\<lambda>a d. 10 * a + digit_val d) a ds" for a
  proof (induction ds arbitrary: a)
    case (Cons d ds)
    then have "0 \<le> digit_val d"
      by (simp add: is_digit_def digit_val_def)
    with Cons show ?case by simp
  qed simp
  with assms show ?thesis by (simp add: dec_val_def)
qed

lemma priskv_str2num_value:
  assumes "ds \<noteq> []" "\<forall>d \<in> set ds. is_digit d"
    and "priskv_get_mult_bytes u = Some m" "u = [] \<or> \<not> is_digit (hd u)"
    and "dec_val ds * m < 2 ^ 63"
  shows "priskv_str2num False (ds @ u) = Some (dec_val ds * m)"
proof -
  have pos: "0 \<le> dec_val ds" using assms(2) by (rule dec_val_nonneg)
  have m: "1 \<le> m" using assms(3)
    by (auto simp: priskv_get_mult_bytes_def Let_def split: if_splits)
  have "dec_val ds * 1 \<le> dec_val ds * m" using pos m by (intro mult_left_mono)
  with assms(5) have lt: "dec_val ds < 2 ^ 63" by linarith
  have st: "strtoll (ds @ u) = (dec_val ds, u, False)"
    using assms(1,2,4) lt pos by (rule strtoll_digits)
  have nn: "0 \<le> dec_val ds * m" using pos m by simp
  have "u \<noteq> ds @ u" using assms(1) by simp
  moreover have "s64 (dec_val ds * m) = dec_val ds * m"
    by (rule s64_id) (use assms(5) nn in simp_all)
  ultimately show ?thesis
    using st assms(3) by (simp add: priskv_str2num_def Let_def)
qed

section \<open>Shortening a key for the log\<close>

text \<open>
  \<open>strncpy (dst, src, n)\<close> writes exactly \<open>n\<close> bytes: the source up to its NUL, then
  zeros. The destination buffer is a list of bytes; what is not written is kept.
\<close>

definition strncpy :: "bytes \<Rightarrow> nat \<Rightarrow> bytes" where
  "strncpy src n = (let s = takeWhile (\<lambda>b. b \<noteq> 0) (take n src) in s @ replicate (n - length s) 0)"

definition priskv_string_shorten :: "bytes \<Rightarrow> nat \<Rightarrow> bytes \<Rightarrow> nat \<Rightarrow> bytes" where
  "priskv_string_shorten src src_len dst dst_len =
     (if dst_len \<le> src_len then
        let d = strncpy src (dst_len - 1) @ [0] @ drop dst_len dst
        in if dst_len > 6 then take (dst_len - 4) d @ [46, 46, 46, 0] @ drop dst_len d else d
      else strncpy src src_len @ [0] @ drop (Suc src_len) dst)"

lemma length_strncpy [simp]: "length (strncpy src n) = n"
proof -
  have "length (takeWhile (\<lambda>b. b \<noteq> 0) (take n src)) \<le> n"
    by (rule order_trans [OF length_takeWhile_le]) simp
  then show ?thesis by (simp add: strncpy_def Let_def)
qed

lemma priskv_string_shorten_bounded:
  assumes "0 < dst_len" "length dst = dst_len"
  shows "length (priskv_string_shorten src src_len dst dst_len) = dst_len"
    and "0 \<in> set (priskv_string_shorten src src_len dst dst_len)"
  using assms by (auto simp: priskv_string_shorten_def Let_def)

end
