(* ===== verification/Crc.thy ===== *)
theory Crc
  imports Utils
begin

unbundle bit_operations_syntax

text \<open>
  \<open>server/crc.c\<close>: the table-driven CRC over the bytes of a key that selects its hash
  bucket. The unrolled loops are shown equal to a fold over the bytes, and every byte step
  equal to eight steps of the bitwise shift register with the reflected polynomial
  \<open>0xEDB88320\<close> (\<open>crc_bit\<close>), which is the reference the table is computed from.
\<close>

definition priskv_crc_table :: "u32 list" where
  "priskv_crc_table =
    [0x00000000, 0x77073096, 0xEE0E612C, 0x990951BA, 0x076DC419, 0x706AF48F, 0xE963A535,
     0x9E6495A3, 0x0EDB8832, 0x79DCB8A4, 0xE0D5E91E, 0x97D2D988, 0x09B64C2B, 0x7EB17CBD,
     0xE7B82D07, 0x90BF1D91, 0x1DB71064, 0x6AB020F2, 0xF3B97148, 0x84BE41DE, 0x1ADAD47D,
     0x6DDDE4EB, 0xF4D4B551, 0x83D385C7, 0x136C9856, 0x646BA8C0, 0xFD62F97A, 0x8A65C9EC,
     0x14015C4F, 0x63066CD9, 0xFA0F3D63, 0x8D080DF5, 0x3B6E20C8, 0x4C69105E, 0xD56041E4,
     0xA2677172, 0x3C03E4D1, 0x4B04D447, 0xD20D85FD, 0xA50AB56B, 0x35B5A8FA, 0x42B2986C,
     0xDBBBC9D6, 0xACBCF940, 0x32D86CE3, 0x45DF5C75, 0xDCD60DCF, 0xABD13D59, 0x26D930AC,
     0x51DE003A, 0xC8D75180, 0xBFD06116, 0x21B4F4B5, 0x56B3C423, 0xCFBA9599, 0xB8BDA50F,
     0x2802B89E, 0x5F058808, 0xC60CD9B2, 0xB10BE924, 0x2F6F7C87, 0x58684C11, 0xC1611DAB,
     0xB6662D3D, 0x76DC4190, 0x01DB7106, 0x98D220BC, 0xEFD5102A, 0x71B18589, 0x06B6B51F,
     0x9FBFE4A5, 0xE8B8D433, 0x7807C9A2, 0x0F00F934, 0x9609A88E, 0xE10E9818, 0x7F6A0DBB,
     0x086D3D2D, 0x91646C97, 0xE6635C01, 0x6B6B51F4, 0x1C6C6162, 0x856530D8, 0xF262004E,
     0x6C0695ED, 0x1B01A57B, 0x8208F4C1, 0xF50FC457, 0x65B0D9C6, 0x12B7E950, 0x8BBEB8EA,
     0xFCB9887C, 0x62DD1DDF, 0x15DA2D49, 0x8CD37CF3, 0xFBD44C65, 0x4DB26158, 0x3AB551CE,
     0xA3BC0074, 0xD4BB30E2, 0x4ADFA541, 0x3DD895D7, 0xA4D1C46D, 0xD3D6F4FB, 0x4369E96A,
     0x346ED9FC, 0xAD678846, 0xDA60B8D0, 0x44042D73, 0x33031DE5, 0xAA0A4C5F, 0xDD0D7CC9,
     0x5005713C, 0x270241AA, 0xBE0B1010, 0xC90C2086, 0x5768B525, 0x206F85B3, 0xB966D409,
     0xCE61E49F, 0x5EDEF90E, 0x29D9C998, 0xB0D09822, 0xC7D7A8B4, 0x59B33D17, 0x2EB40D81,
     0xB7BD5C3B, 0xC0BA6CAD, 0xEDB88320, 0x9ABFB3B6, 0x03B6E20C, 0x74B1D29A, 0xEAD54739,
     0x9DD277AF, 0x04DB2615, 0x73DC1683, 0xE3630B12, 0x94643B84, 0x0D6D6A3E, 0x7A6A5AA8,
     0xE40ECF0B, 0x9309FF9D, 0x0A00AE27, 0x7D079EB1, 0xF00F9344, 0x8708A3D2, 0x1E01F268,
     0x6906C2FE, 0xF762575D, 0x806567CB, 0x196C3671, 0x6E6B06E7, 0xFED41B76, 0x89D32BE0,
     0x10DA7A5A, 0x67DD4ACC, 0xF9B9DF6F, 0x8EBEEFF9, 0x17B7BE43, 0x60B08ED5, 0xD6D6A3E8,
     0xA1D1937E, 0x38D8C2C4, 0x4FDFF252, 0xD1BB67F1, 0xA6BC5767, 0x3FB506DD, 0x48B2364B,
     0xD80D2BDA, 0xAF0A1B4C, 0x36034AF6, 0x41047A60, 0xDF60EFC3, 0xA867DF55, 0x316E8EEF,
     0x4669BE79, 0xCB61B38C, 0xBC66831A, 0x256FD2A0, 0x5268E236, 0xCC0C7795, 0xBB0B4703,
     0x220216B9, 0x5505262F, 0xC5BA3BBE, 0xB2BD0B28, 0x2BB45A92, 0x5CB36A04, 0xC2D7FFA7,
     0xB5D0CF31, 0x2CD99E8B, 0x5BDEAE1D, 0x9B64C2B0, 0xEC63F226, 0x756AA39C, 0x026D930A,
     0x9C0906A9, 0xEB0E363F, 0x72076785, 0x05005713, 0x95BF4A82, 0xE2B87A14, 0x7BB12BAE,
     0x0CB61B38, 0x92D28E9B, 0xE5D5BE0D, 0x7CDCEFB7, 0x0BDBDF21, 0x86D3D2D4, 0xF1D4E242,
     0x68DDB3F8, 0x1FDA836E, 0x81BE16CD, 0xF6B9265B, 0x6FB077E1, 0x18B74777, 0x88085AE6,
     0xFF0F6A70, 0x66063BCA, 0x11010B5C, 0x8F659EFF, 0xF862AE69, 0x616BFFD3, 0x166CCF45,
     0xA00AE278, 0xD70DD2EE, 0x4E048354, 0x3903B3C2, 0xA7672661, 0xD06016F7, 0x4969474D,
     0x3E6E77DB, 0xAED16A4A, 0xD9D65ADC, 0x40DF0B66, 0x37D83BF0, 0xA9BCAE53, 0xDEBB9EC5,
     0x47B2CF7F, 0x30B5FFE9, 0xBDBDF21C, 0xCABAC28A, 0x53B39330, 0x24B4A3A6, 0xBAD03605,
     0xCDD70693, 0x54DE5729, 0x23D967BF, 0xB3667A2E, 0xC4614AB8, 0x5D681B02, 0x2A6F2B94,
     0xB40BBE37, 0xC30C8EA1, 0x5A05DF1B, 0x2D02EF8D]"

text \<open>The macros \<open>priskv_crc32_1\<close> to \<open>priskv_crc32_8\<close> read at \<open>buf\<close> and advance it.\<close>

definition priskv_crc32_1 :: "u32 \<times> bytes \<Rightarrow> u32 \<times> bytes" where
  "priskv_crc32_1 = (\<lambda>(crc, buf).
     ((priskv_crc_table ! unat ((crc XOR ucast (hd buf)) AND 0xff)) XOR drop_bit 8 crc, tl buf))"

definition priskv_crc32_2 :: "u32 \<times> bytes \<Rightarrow> u32 \<times> bytes" where
  "priskv_crc32_2 s = priskv_crc32_1 (priskv_crc32_1 s)"

definition priskv_crc32_4 :: "u32 \<times> bytes \<Rightarrow> u32 \<times> bytes" where
  "priskv_crc32_4 s = priskv_crc32_2 (priskv_crc32_2 s)"

definition priskv_crc32_8 :: "u32 \<times> bytes \<Rightarrow> u32 \<times> bytes" where
  "priskv_crc32_8 s = priskv_crc32_4 (priskv_crc32_4 s)"

text \<open>The three loops over the remaining length.\<close>

fun crc32_while :: "nat \<Rightarrow> (u32 \<times> bytes \<Rightarrow> u32 \<times> bytes) \<Rightarrow> nat \<Rightarrow> u32 \<times> bytes \<Rightarrow> nat \<times> u32 \<times> bytes"
where
  "crc32_while n f len s =
     (if 0 < n \<and> n \<le> len then crc32_while n f (len - n) (f s) else (len, s))"

definition priskv_crc32 :: "bytes \<Rightarrow> u32" where
  "priskv_crc32 buf =
     (let (len, s) = crc32_while 8 priskv_crc32_8 (length buf) (0, buf);
          (len, s) = crc32_while 4 priskv_crc32_4 len s;
          (len, s) = crc32_while 1 priskv_crc32_1 len s
      in fst s)"

declare crc32_while.simps [simp del]

section \<open>The reference\<close>

definition crc_bit :: "u32 \<Rightarrow> u32" where
  "crc_bit x = (if bit x 0 then drop_bit 1 x XOR 0xEDB88320 else drop_bit 1 x)"

definition crc_byte_ref :: "u32 \<Rightarrow> u8 \<Rightarrow> u32" where
  "crc_byte_ref crc b = (crc_bit ^^ 8) (crc XOR ucast b)"

definition crc32_ref :: "bytes \<Rightarrow> u32" where
  "crc32_ref buf = foldl crc_byte_ref 0 buf"

section \<open>Table and loops against the reference\<close>

lemma crc_bit_odd: "bit x 0 \<Longrightarrow> crc_bit x = drop_bit 1 x XOR 0xEDB88320"
  by (simp add: crc_bit_def)
lemma crc_bit_even: "\<not> bit x 0 \<Longrightarrow> crc_bit x = drop_bit 1 x"
  by (simp add: crc_bit_def)

lemma crc_bit_xor: "crc_bit (x XOR y) = crc_bit x XOR crc_bit y"
  by (cases "bit x 0"; cases "bit y 0")
    (simp_all add: crc_bit_def bit_xor_iff drop_bit_xor xor.assoc xor.left_commute xor.commute)

lemma crc_bits_xor: "(crc_bit ^^ n) (x XOR y) = (crc_bit ^^ n) x XOR (crc_bit ^^ n) y"
  by (induction n) (simp_all add: crc_bit_xor)

lemma crc_bits_high: "(\<forall>i < n. \<not> bit x i) \<Longrightarrow> (crc_bit ^^ n) x = drop_bit n x"
proof (induction n arbitrary: x)
  case (Suc n)
  then have "crc_bit x = drop_bit 1 x" by (simp add: crc_bit_even)
  moreover have "\<forall>i < n. \<not> bit (drop_bit 1 x) i" using Suc.prems by (simp add: bit_drop_bit_eq)
  ultimately show ?case using Suc.IH by (simp add: funpow_swap1)
qed simp

lemma funpow_8: "(f ^^ 8) x = f (f (f (f (f (f (f (f x)))))))"
  by (simp add: numeral_eq_Suc)

lemma priskv_crc_table_correct:
  "map (\<lambda>i. (crc_bit ^^ 8) (of_nat i)) [0..<256] = priskv_crc_table"
  by (simp add: upt_conv_Cons funpow_8 crc_bit_odd crc_bit_even priskv_crc_table_def)

lemma crc_table_nth: "i < 256 \<Longrightarrow> priskv_crc_table ! i = (crc_bit ^^ 8) (of_nat i)"
  by (simp flip: priskv_crc_table_correct)

lemma crc_byte_table:
  "priskv_crc_table ! unat ((crc XOR ucast b) AND 0xff) XOR drop_bit 8 crc = crc_byte_ref crc b"
proof -
  define x where "x = crc XOR (ucast b :: u32)"
  have ff: "(0xff :: u32) = mask 8" by (simp add: mask_eq_exp_minus_1)
  have split: "x = (x AND 0xff) XOR (x AND NOT (mask 8))"
    unfolding ff by (rule bit_word_eqI) (auto simp: bit_simps)
  have hi: "(crc_bit ^^ 8) (x AND NOT (mask 8)) = drop_bit 8 x"
  proof -
    have "(crc_bit ^^ 8) (x AND NOT (mask 8)) = drop_bit 8 (x AND NOT (mask 8))"
      by (rule crc_bits_high) (auto simp: bit_simps)
    also have "\<dots> = drop_bit 8 x"
      by (rule bit_word_eqI) (auto simp: bit_simps dest: bit_imp_le_length)
    finally show ?thesis .
  qed
  have lo: "unat (x AND 0xff) < 256"
    using word_and_le1 [of x "0xff"] by (simp add: word_le_nat_alt)
  have "(crc_bit ^^ 8) x = (crc_bit ^^ 8) (x AND 0xff) XOR drop_bit 8 x"
    by (subst split, simp only: crc_bits_xor hi)
  also have "\<dots> = priskv_crc_table ! unat (x AND 0xff) XOR drop_bit 8 x"
    using crc_table_nth [OF lo] by simp
  also have "drop_bit 8 x = drop_bit 8 crc"
    by (rule bit_word_eqI) (auto simp: x_def bit_simps dest: bit_imp_le_length)
  finally show ?thesis by (simp add: crc_byte_ref_def x_def)
qed

lemma priskv_crc32_1_eq: "priskv_crc32_1 (crc, b # buf) = (crc_byte_ref crc b, buf)"
  by (simp add: priskv_crc32_1_def crc_byte_table)

definition crc_takes :: "(u32 \<times> bytes \<Rightarrow> u32 \<times> bytes) \<Rightarrow> nat \<Rightarrow> bool" where
  "crc_takes f n \<longleftrightarrow>
     (\<forall>crc xs ys. length xs = n \<longrightarrow> f (crc, xs @ ys) = (foldl crc_byte_ref crc xs, ys))"

lemma crc_takes_1: "crc_takes priskv_crc32_1 1"
  by (auto simp: crc_takes_def length_Suc_conv priskv_crc32_1_eq)

lemma crc_takes_twice:
  assumes "crc_takes f n" and "\<And>s. g s = f (f s)"
  shows "crc_takes g (n + n)"
  unfolding crc_takes_def
proof (intro allI impI)
  fix crc and xs ys :: bytes
  assume len: "length xs = n + n"
  then have xs: "xs @ ys = take n xs @ drop n xs @ ys" by simp
  have "f (crc, xs @ ys) = (foldl crc_byte_ref crc (take n xs), drop n xs @ ys)"
    using assms(1) len unfolding xs crc_takes_def by simp
  moreover have "f (c, drop n xs @ ys) = (foldl crc_byte_ref c (drop n xs), ys)" for c
    using assms(1) len by (simp add: crc_takes_def)
  ultimately show "g (crc, xs @ ys) = (foldl crc_byte_ref crc xs, ys)"
    by (simp add: assms(2) flip: foldl_append)
qed

lemma crc_takes_8: "crc_takes priskv_crc32_8 8" and crc_takes_4: "crc_takes priskv_crc32_4 4"
proof -
  have 2: "crc_takes priskv_crc32_2 2"
    using crc_takes_twice [OF crc_takes_1 priskv_crc32_2_def] by (simp add: numeral_2_eq_2)
  show 4: "crc_takes priskv_crc32_4 4"
    using crc_takes_twice [OF 2 priskv_crc32_4_def] by simp
  show "crc_takes priskv_crc32_8 8"
    using crc_takes_twice [OF 4 priskv_crc32_8_def] by simp
qed

lemma crc32_while_split:
  assumes "crc_takes f n" "0 < n"
  shows "\<exists>xs zs. ys = xs @ zs \<and> length zs < n
     \<and> crc32_while n f (length ys) (crc, ys) = (length zs, foldl crc_byte_ref crc xs, zs)"
proof (induction "length ys" arbitrary: ys crc rule: less_induct)
  case less
  show ?case
  proof (cases "n \<le> length ys")
    case False
    then show ?thesis
      by (intro exI [of _ "[]"] exI [of _ ys]) (simp add: crc32_while.simps [of n])
  next
    case True
    define crc' where "crc' = foldl crc_byte_ref crc (take n ys)"
    have "f (crc, take n ys @ drop n ys) = (crc', drop n ys)"
      using assms(1) True unfolding crc_takes_def crc'_def by (simp del: append_take_drop_id)
    then have step: "crc32_while n f (length ys) (crc, ys)
        = crc32_while n f (length (drop n ys)) (crc', drop n ys)"
      using True assms(2) by (subst crc32_while.simps) simp
    have "length (drop n ys) < length ys" using True assms(2) by simp
    from less [OF this, of crc'] obtain xs zs where
      rest: "drop n ys = xs @ zs" "length zs < n"
      "crc32_while n f (length (drop n ys)) (crc', drop n ys)
         = (length zs, foldl crc_byte_ref crc' xs, zs)" by blast
    have "ys = (take n ys @ xs) @ zs" by (metis append_take_drop_id append.assoc rest(1))
    moreover have "crc32_while n f (length ys) (crc, ys)
        = (length zs, foldl crc_byte_ref crc (take n ys @ xs), zs)"
      using step rest(3) by (simp add: crc'_def)
    ultimately show ?thesis using rest(2) by blast
  qed
qed

lemma priskv_crc32_ref: "priskv_crc32 buf = crc32_ref buf"
proof -
  obtain xs zs where 8: "buf = xs @ zs"
    "crc32_while 8 priskv_crc32_8 (length buf) (0, buf) = (length zs, foldl crc_byte_ref 0 xs, zs)"
    using crc32_while_split [OF crc_takes_8, of buf 0] by auto
  obtain xs' zs' where 4: "zs = xs' @ zs'"
    "crc32_while 4 priskv_crc32_4 (length zs) (foldl crc_byte_ref 0 xs, zs)
       = (length zs', foldl crc_byte_ref (foldl crc_byte_ref 0 xs) xs', zs')"
    using crc32_while_split [OF crc_takes_4, of zs "foldl crc_byte_ref 0 xs"] by auto
  obtain xs'' where 1: "zs' = xs''"
    "crc32_while 1 priskv_crc32_1 (length zs') (foldl crc_byte_ref (foldl crc_byte_ref 0 xs) xs', zs')
       = (0, foldl crc_byte_ref (foldl crc_byte_ref (foldl crc_byte_ref 0 xs) xs') xs'', [])"
    using crc32_while_split [OF crc_takes_1, of zs' "foldl crc_byte_ref (foldl crc_byte_ref 0 xs) xs'"]
    by auto
  from 8 4 1 show ?thesis
    by (simp add: priskv_crc32_def crc32_ref_def)
qed


end
