(* ===== verification/Alloc.thy ===== *)
theory Alloc
  imports Prelude
begin

text \<open>
  The contract of the two allocators of the server. A state is well formed (\<open>inv\<close>), has a
  set of live regions (address and length), and offers an allocation that may answer NULL
  and a free. The client of the contract is a run of operations that only frees what it
  owns; its lemmas hold for the slab of the key nodes and for the buddy of the values.
\<close>

section \<open>Regions\<close>

type_synonym region = "addr \<times> nat"

definition bytes_of :: "region \<Rightarrow> addr set" where
  "bytes_of r = {fst r..<fst r + snd r}"

definition separated :: "region set \<Rightarrow> bool" where
  "separated R \<longleftrightarrow> (\<forall>r \<in> R. 0 < snd r)
     \<and> (\<forall>r \<in> R. \<forall>q \<in> R. r \<noteq> q \<longrightarrow> bytes_of r \<inter> bytes_of q = {})"

lemma separated_same_addr:
  assumes "separated R" "(a, m) \<in> R" "(a, n) \<in> R"
  shows "m = n"
proof (rule ccontr)
  assume "m \<noteq> n"
  then have "(a, m) \<noteq> (a, n)" by simp
  with assms have "bytes_of (a, m) \<inter> bytes_of (a, n) = {}" unfolding separated_def by blast
  moreover have "0 < m" "0 < n" using assms by (auto simp: separated_def)
  ultimately show False by (auto simp: bytes_of_def)
qed

lemma separated_mono: "separated R \<Longrightarrow> Q \<subseteq> R \<Longrightarrow> separated Q"
  unfolding separated_def by blast

lemma separated_Un:
  assumes "separated A" "separated B"
    and cross: "\<And>r q. r \<in> A \<Longrightarrow> q \<in> B \<Longrightarrow> bytes_of r \<inter> bytes_of q = {}"
  shows "separated (A \<union> B)"
  unfolding separated_def
proof (intro conjI ballI impI)
  fix r q assume "r \<in> A \<union> B" "q \<in> A \<union> B" "r \<noteq> q"
  with assms(1,2) cross [of r q] cross [of q r] show "bytes_of r \<inter> bytes_of q = {}"
    unfolding separated_def by blast
qed (use assms(1,2) in \<open>auto simp: separated_def\<close>)

section \<open>The interface\<close>

text \<open>What a client may ask for in a run.\<close>

datatype alloc_op = Alloc nat | Free addr

locale allocator =
  fixes inv :: "'s \<Rightarrow> bool"
    and live :: "'s \<Rightarrow> region set"
    and serves :: "'s \<Rightarrow> nat \<Rightarrow> bool"
    and alloc :: "'s \<Rightarrow> nat \<Rightarrow> (addr option \<times> 's) option"
    and free :: "'s \<Rightarrow> addr \<Rightarrow> 's option"
  assumes live_separated: "inv s \<Longrightarrow> separated (live s)"
    and alloc_returns: "inv s \<Longrightarrow> serves s n \<Longrightarrow> \<exists>r. alloc s n = Some r"
    and alloc_NULL: "inv s \<Longrightarrow> serves s n \<Longrightarrow> alloc s n = Some (None, s') \<Longrightarrow> s' = s"
    and alloc_block: "inv s \<Longrightarrow> serves s n \<Longrightarrow> alloc s n = Some (Some a, s') \<Longrightarrow>
      inv s' \<and> (\<exists>m \<ge> n. (a, m) \<notin> live s \<and> live s' = insert (a, m) (live s))"
    and serves_alloc: "inv s \<Longrightarrow> serves s k \<Longrightarrow> alloc s k = Some (r, s') \<Longrightarrow> serves s' n = serves s n"
    and free_block: "inv s \<Longrightarrow> (a, m) \<in> live s \<Longrightarrow>
      \<exists>s'. free s a = Some s' \<and> inv s' \<and> live s' = live s - {(a, m)}"
    and serves_free: "inv s \<Longrightarrow> (a, m) \<in> live s \<Longrightarrow> free s a = Some s' \<Longrightarrow> serves s' n = serves s n"
begin

lemma alloc_fresh:
  assumes "inv s" "serves s n" "alloc s n = Some (Some a, s')"
  shows "a \<notin> fst ` live s"
proof
  assume "a \<in> fst ` live s"
  then obtain k where k: "(a, k) \<in> live s" by auto
  from alloc_block [OF assms] obtain m where m: "inv s'" "(a, m) \<notin> live s"
    "live s' = insert (a, m) (live s)" by blast
  with k have "k = m" using separated_same_addr [OF live_separated [OF m(1)], of a k m] by simp
  with k m show False by simp
qed

lemma alloc_disjoint:
  assumes "inv s" "serves s n" "alloc s n = Some (Some a, s')" "r \<in> live s"
  shows "{a..<a + n} \<inter> bytes_of r = {}"
proof -
  from alloc_block [OF assms(1-3)] obtain m where m: "inv s'" "n \<le> m" "(a, m) \<notin> live s"
    "live s' = insert (a, m) (live s)" by blast
  from assms(4) m(3) have "(a, m) \<noteq> r" by blast
  with live_separated [OF m(1)] assms(4) m(4) have "bytes_of (a, m) \<inter> bytes_of r = {}"
    unfolding separated_def by blast
  moreover have "{a..<a + n} \<subseteq> bytes_of (a, m)" using m(2) by (auto simp: bytes_of_def)
  ultimately show ?thesis by blast
qed

lemma alloc_free:
  assumes "inv s" "serves s n" "alloc s n = Some (Some a, s')"
  shows "\<exists>s''. free s' a = Some s'' \<and> inv s'' \<and> live s'' = live s"
proof -
  from alloc_block [OF assms] obtain m where m: "inv s'" "(a, m) \<notin> live s"
    "live s' = insert (a, m) (live s)" by blast
  then have "(a, m) \<in> live s'" by simp
  from free_block [OF m(1) this] m(2,3) show ?thesis by auto
qed

lemma free_addrs:
  assumes "inv s" "a \<in> fst ` live s" "free s a = Some s'"
  shows "inv s'" "fst ` live s' = fst ` live s - {a}"
proof -
  from assms(2) obtain m where m: "(a, m) \<in> live s" by auto
  from free_block [OF assms(1) m] assms(3) show "inv s'" by simp
  from free_block [OF assms(1) m] assms(3) have l: "live s' = live s - {(a, m)}" by simp
  have "r \<in> live s \<and> r \<noteq> (a, m) \<longleftrightarrow> r \<in> live s \<and> fst r \<noteq> a" for r
    using separated_same_addr [OF live_separated [OF assms(1)] _ m] by (cases r) auto
  then show "fst ` live s' = fst ` live s - {a}" unfolding l by blast
qed

text \<open>A run: a \<open>Free\<close> of an address that is not live is outside the contract.\<close>

fun run :: "alloc_op list \<Rightarrow> 's \<Rightarrow> 's option" where
  "run [] s = Some s"
| "run (Alloc n # ops) s = (case alloc s n of None \<Rightarrow> None | Some (_, s') \<Rightarrow> run ops s')"
| "run (Free a # ops) s =
     (if a \<in> fst ` live s then (case free s a of None \<Rightarrow> None | Some s' \<Rightarrow> run ops s') else run ops s)"

fun served :: "'s \<Rightarrow> alloc_op \<Rightarrow> bool" where
  "served s (Alloc n) = serves s n"
| "served s (Free a) = True"

lemma served_alloc:
  "inv s \<Longrightarrow> serves s k \<Longrightarrow> alloc s k = Some (r, s') \<Longrightarrow> served s' op' = served s op'"
  by (cases op') (simp_all add: serves_alloc [of s k r s'])

lemma served_free:
  "inv s \<Longrightarrow> (a, m) \<in> live s \<Longrightarrow> free s a = Some s' \<Longrightarrow> served s' op' = served s op'"
  by (cases op') (simp_all add: serves_free [of s a m s'])

lemma run_inv:
  assumes "inv s" "\<forall>op' \<in> set ops. served s op'"
  shows "\<exists>s'. run ops s = Some s' \<and> inv s' \<and> separated (live s')"
  using assms
proof (induction ops arbitrary: s)
  case Nil then show ?case by (simp add: live_separated)
next
  case (Cons op' ops)
  show ?case
  proof (cases op')
    case (Alloc n)
    with Cons.prems have n: "serves s n" by simp
    from alloc_returns [OF Cons.prems(1) n] obtain r s' where r: "alloc s n = Some (r, s')" by auto
    with alloc_NULL [OF Cons.prems(1) n] alloc_block [OF Cons.prems(1) n] Cons.prems(1)
    have "inv s'" by (cases r) auto
    moreover from Cons.prems(2) have "\<forall>op' \<in> set ops. served s' op'"
      using served_alloc [OF Cons.prems(1) n r] by simp
    ultimately show ?thesis using Cons.IH [of s'] Alloc r by simp
  next
    case (Free a)
    show ?thesis
    proof (cases "a \<in> fst ` live s")
      case True
      then obtain m where m: "(a, m) \<in> live s" by auto
      from free_block [OF Cons.prems(1) m] obtain s' where "free s a = Some s'" "inv s'" by blast
      moreover from Cons.prems(2) have "\<forall>op' \<in> set ops. served s' op'"
        using served_free [OF Cons.prems(1) m \<open>free s a = Some s'\<close>] by simp
      ultimately show ?thesis using Cons.IH [of s'] Free True by simp
    next
      case False then show ?thesis using Cons.IH [of s] Cons.prems Free by simp
    qed
  qed
qed

end

end
