(* ===== verification/Slab.thy ===== *)
theory Slab
  imports Utils Alloc
begin

unbundle bit_operations_syntax

text \<open>
  \<open>server/slab.c\<close>: the allocator of fixed-size objects that holds the key nodes. A set
  bit of the bitmap is an available object. The spin lock makes every operation atomic.
\<close>

section \<open>State and operations\<close>

record priskv_slab =
  slab_name :: string
  slab_size :: nat
  slab_inuse :: nat
  slab_objects :: nat
  slab_base :: addr
  slab_lindex :: nat
  slab_bitmap :: "u64 list"

abbreviation BITS_OF_UL :: nat where
  "BITS_OF_UL \<equiv> 64"

definition set_bit_ul :: "u64 \<Rightarrow> nat \<Rightarrow> u64" where
  "set_bit_ul val b = val OR push_bit b 1"

definition clear_bit_ul :: "u64 \<Rightarrow> nat \<Rightarrow> u64" where
  "clear_bit_ul val b = val AND NOT (push_bit b 1)"

text \<open>\<open>__builtin_ffsl\<close>: one plus the index of the least significant set bit, 0 for 0.\<close>

definition ffsl :: "u64 \<Rightarrow> nat" where
  "ffsl w = (case find (bit w) [0..<64] of None \<Rightarrow> 0 | Some i \<Rightarrow> Suc i)"

text \<open>The number of bits rounded up to whole words, in a \<open>uint32_t\<close>.\<close>

definition slab_bits :: "nat \<Rightarrow> nat" where
  "slab_bits objects = u32n (unat (ALIGN_UP (of_nat objects :: u64) 64))"

text \<open>
  \<open>priskv_slab_create\<close>: \<open>Some None\<close> is the NULL return, \<open>None\<close> the write past the
  bitmap that an object count near the end of the 32-bit range causes.
\<close>

definition priskv_slab_create ::
  "string \<Rightarrow> addr option \<Rightarrow> nat \<Rightarrow> nat \<Rightarrow> priskv_slab option option"
where
  "priskv_slab_create name base sz objects =
     (case base of
        None \<Rightarrow> Some None
      | Some b \<Rightarrow>
          if sz = 0 then Some None
          else if objects = 0 then Some None
          else
            let bits = slab_bits objects;
                bm0 = replicate (bits div BITS_OF_UL) 0
            in if bits < objects then None
               else Some (Some \<lparr>slab_name = take 63 name, slab_size = sz, slab_inuse = 0,
                 slab_objects = objects, slab_base = b, slab_lindex = 0,
                 slab_bitmap = fold (\<lambda>index bm. bm[index div BITS_OF_UL :=
                   set_bit_ul (bm ! (index div BITS_OF_UL)) (index mod BITS_OF_UL)])
                   [0..<objects] bm0\<rparr>))"

text \<open>\<open>__slab_alloc\<close>: take the first available object of one word.\<close>

definition slab_alloc_word :: "priskv_slab \<Rightarrow> nat \<Rightarrow> (addr \<times> priskv_slab) option" where
  "slab_alloc_word s index =
     (let w = slab_bitmap s ! index;
          found = ffsl w - 1
      in if index * BITS_OF_UL + found < slab_objects s
         then Some (slab_base s + (index * BITS_OF_UL + found) * slab_size s,
                s\<lparr>slab_bitmap := (slab_bitmap s)[index := clear_bit_ul w found],
                  slab_inuse := u32n (slab_inuse s + 1)\<rparr>)
         else None)"

definition priskv_slab_reserve :: "priskv_slab \<Rightarrow> int \<Rightarrow> (addr \<times> priskv_slab) option" where
  "priskv_slab_reserve s index =
     (if 0 \<le> index \<and> index < int (slab_objects s) then
        let i = nat index
        in Some (slab_base s + i * slab_size s,
             s\<lparr>slab_bitmap := (slab_bitmap s)[i div BITS_OF_UL :=
                  clear_bit_ul (slab_bitmap s ! (i div BITS_OF_UL)) (i mod BITS_OF_UL)],
               slab_inuse := u32n (slab_inuse s + 1)\<rparr>)
      else None)"

definition priskv_slab_alloc :: "priskv_slab \<Rightarrow> (addr option \<times> priskv_slab) option" where
  "priskv_slab_alloc s =
     (let words = slab_bits (slab_objects s) div BITS_OF_UL;
          avail = (\<lambda>index. slab_bitmap s ! index \<noteq> 0);
          found = (case find avail [slab_lindex s..<words] of
                     Some index \<Rightarrow> Some index
                   | None \<Rightarrow> find avail [0..<slab_lindex s])
      in case found of
           None \<Rightarrow> Some (None, s)
         | Some index \<Rightarrow> do {
             (a, s') \<leftarrow> slab_alloc_word s index;
             Some (Some a, s'\<lparr>slab_lindex := index\<rparr>)
           })"

text \<open>\<open>__priskv_slab_index\<close>, which \<open>priskv_slab_index\<close> exports: -1 for an address
  between two objects; the assertion bounds the index from above only.\<close>

definition priskv_slab_index :: "priskv_slab \<Rightarrow> addr \<Rightarrow> int option" where
  "priskv_slab_index s a =
     (if slab_size s = 0 then None
      else let d = int a - int (slab_base s);
               q = c_div d (int (slab_size s))
           in if d \<noteq> q * int (slab_size s) then Some (-1)
              else if q < int (slab_objects s) then Some q
              else None)"

definition priskv_slab_free :: "priskv_slab \<Rightarrow> addr \<Rightarrow> priskv_slab option" where
  "priskv_slab_free s a = do {
     index \<leftarrow> priskv_slab_index s a;
     if index < 0 then None
     else
       let i = nat index;
           s' = s\<lparr>slab_bitmap := (slab_bitmap s)[i div BITS_OF_UL :=
                    set_bit_ul (slab_bitmap s ! (i div BITS_OF_UL)) (i mod BITS_OF_UL)],
                  slab_inuse := u32_sub (slab_inuse s) 1\<rparr>
       in if slab_inuse s' < slab_objects s' then Some s' else None
   }"

section \<open>Bits and words\<close>

lemma bit_set_bit_ul: "b < 64 \<Longrightarrow> bit (set_bit_ul w b) i \<longleftrightarrow> i = b \<or> bit w i"
  by (auto simp: set_bit_ul_def bit_simps)

lemma bit_clear_bit_ul: "bit (clear_bit_ul w b) i \<longleftrightarrow> i \<noteq> b \<and> bit w i"
  by (auto simp: clear_bit_ul_def bit_simps dest: bit_imp_le_length)

lemma ffsl_Suc: "w \<noteq> 0 \<Longrightarrow> \<exists>i < 64. ffsl w = Suc i \<and> bit w i"
proof -
  assume "w \<noteq> 0"
  then obtain i where "bit w i" by (auto simp: bit_eq_iff)
  then have "i \<in> set [0..<64]" by (auto dest: bit_imp_le_length)
  with \<open>bit w i\<close> obtain j where "find (bit w) [0..<64] = Some j"
    by (cases "find (bit w) [0..<64]") (auto simp: find_None_iff_all)
  with find_SomeD [OF this] show ?thesis by (auto simp: ffsl_def)
qed

lemma slab_bits_eq:
  assumes "n \<le> 2 ^ 31"
  shows "slab_bits n = (n + 63) div 64 * 64"
proof -
  have n: "unat (of_nat n :: u64) = n"
    using assms by (simp add: unat_of_nat take_bit_nat_eq_self)
  have "unat (ALIGN_UP (of_nat n :: u64) (2 ^ 6)) = (n + 2 ^ 6 - 1) div 2 ^ 6 * 2 ^ 6"
    using unat_ALIGN_UP [of 6 "of_nat n :: u64"] assms by (simp add: n)
  moreover have "(n + 63) div 64 * 64 < 2 ^ 32" using assms by simp
  ultimately show ?thesis by (simp add: slab_bits_def wrap_simps)
qed

section \<open>Invariant\<close>

definition slab_bit :: "priskv_slab \<Rightarrow> nat \<Rightarrow> bool" where
  "slab_bit s i \<longleftrightarrow> i < 64 * length (slab_bitmap s) \<and> bit (slab_bitmap s ! (i div 64)) (i mod 64)"

text \<open>The objects in use.\<close>

definition slab_used :: "priskv_slab \<Rightarrow> nat set" where
  "slab_used s = {i. i < slab_objects s \<and> \<not> slab_bit s i}"

definition slab_ok :: "priskv_slab \<Rightarrow> bool" where
  "slab_ok s \<longleftrightarrow>
     0 < slab_size s \<and> 0 < slab_objects s \<and> slab_objects s \<le> 2 ^ 31
     \<and> length (slab_bitmap s) = (slab_objects s + 63) div 64
     \<and> (\<forall>i. slab_bit s i \<longrightarrow> i < slab_objects s)
     \<and> slab_inuse s = card (slab_used s)
     \<and> slab_lindex s < length (slab_bitmap s)"

lemma finite_slab_used [simp]: "finite (slab_used s)"
  by (simp add: slab_used_def)

lemma card_slab_used: "card (slab_used s) \<le> slab_objects s"
  using card_mono [of "{..<slab_objects s}" "slab_used s"] by (auto simp: slab_used_def)

lemma slab_bit_update:
  assumes "i < 64 * length (slab_bitmap s)"
    and "\<And>k. k < 64 \<Longrightarrow> bit w k \<longleftrightarrow> (if k = i mod 64 then v else bit (slab_bitmap s ! (i div 64)) k)"
    and "slab_bitmap s' = (slab_bitmap s)[i div 64 := w]"
  shows "slab_bit s' j \<longleftrightarrow> (if j = i then v else slab_bit s j)"
proof -
  have "j div 64 = i div 64 \<and> j mod 64 = i mod 64 \<longleftrightarrow> j = i"
    by (metis div_mult_mod_eq)
  then show ?thesis
    using assms by (auto simp: slab_bit_def nth_list_update)
qed

lemma slab_used_take:
  assumes "slab_ok s" "slab_bit s i"
    and "slab_bitmap s' = (slab_bitmap s)[i div 64 := clear_bit_ul (slab_bitmap s ! (i div 64)) (i mod 64)]"
    and "slab_objects s' = slab_objects s"
  shows "slab_used s' = insert i (slab_used s)" "i \<notin> slab_used s"
    and "slab_bit s' j \<Longrightarrow> slab_bit s j"
proof -
  have "slab_bit s' j \<longleftrightarrow> (if j = i then False else slab_bit s j)" for j
    using assms(2,3) by (intro slab_bit_update) (auto simp: bit_clear_bit_ul slab_bit_def)
  then show "slab_used s' = insert i (slab_used s)" "i \<notin> slab_used s"
    "slab_bit s' j \<Longrightarrow> slab_bit s j"
    using assms by (auto simp: slab_used_def slab_ok_def split: if_splits)
qed

lemma slab_used_put:
  assumes "slab_ok s" "i < slab_objects s"
    and "slab_bitmap s' = (slab_bitmap s)[i div 64 := set_bit_ul (slab_bitmap s ! (i div 64)) (i mod 64)]"
    and "slab_objects s' = slab_objects s"
  shows "slab_used s' = slab_used s - {i}"
    and "slab_bit s' j \<Longrightarrow> j = i \<or> slab_bit s j"
proof -
  have "i < 64 * length (slab_bitmap s)" using assms(1,2) by (auto simp: slab_ok_def)
  then have "slab_bit s' j \<longleftrightarrow> (if j = i then True else slab_bit s j)" for j
    using assms(3) by (intro slab_bit_update) (auto simp: bit_set_bit_ul)
  then show "slab_used s' = slab_used s - {i}" "slab_bit s' j \<Longrightarrow> j = i \<or> slab_bit s j"
    using assms by (auto simp: slab_used_def split: if_splits)
qed

lemma slab_word_avail:
  assumes "slab_ok s" "index < length (slab_bitmap s)" "slab_bitmap s ! index \<noteq> 0"
  defines "i \<equiv> index * 64 + (ffsl (slab_bitmap s ! index) - 1)"
  shows "slab_bit s i" "i < slab_objects s" "i div 64 = index"
    "i mod 64 = ffsl (slab_bitmap s ! index) - 1"
proof -
  obtain k where k: "k < 64" "ffsl (slab_bitmap s ! index) = Suc k" "bit (slab_bitmap s ! index) k"
    using ffsl_Suc [OF assms(3)] by blast
  then have i: "i = index * 64 + k" by (simp add: i_def)
  with k show d: "i div 64 = index" "i mod 64 = ffsl (slab_bitmap s ! index) - 1" by simp_all
  show b: "slab_bit s i" using d k assms(2) i by (simp add: slab_bit_def)
  with assms(1) show "i < slab_objects s" by (simp add: slab_ok_def)
qed

lemma slab_alloc_word_ok:
  assumes "slab_ok s" "index < length (slab_bitmap s)" "slab_bitmap s ! index \<noteq> 0"
  shows "\<exists>i s'. slab_alloc_word s index = Some (slab_base s + i * slab_size s, s')
     \<and> slab_ok s' \<and> i < slab_objects s \<and> i \<notin> slab_used s \<and> slab_used s' = insert i (slab_used s)
     \<and> slab_base s' = slab_base s \<and> slab_size s' = slab_size s \<and> slab_objects s' = slab_objects s
     \<and> length (slab_bitmap s') = length (slab_bitmap s)"
proof -
  define i where "i = index * 64 + (ffsl (slab_bitmap s ! index) - 1)"
  note w = slab_word_avail [OF assms, folded i_def]
  define s' where "s' = s\<lparr>slab_bitmap := (slab_bitmap s)[i div 64 :=
      clear_bit_ul (slab_bitmap s ! (i div 64)) (i mod 64)], slab_inuse := u32n (slab_inuse s + 1)\<rparr>"
  have al: "slab_alloc_word s index = Some (slab_base s + i * slab_size s, s')"
    using w unfolding slab_alloc_word_def Let_def i_def [symmetric] s'_def by simp
  have u: "slab_used s' = insert i (slab_used s)" "i \<notin> slab_used s"
    "\<And>j. slab_bit s' j \<Longrightarrow> slab_bit s j"
    using slab_used_take [OF assms(1) w(1), of s'] by (auto simp: s'_def)
  have "card (slab_used s') \<le> slab_objects s"
    using card_slab_used [of s'] by (simp add: s'_def)
  then have "slab_inuse s' = card (slab_used s')"
    using assms(1) u by (simp add: s'_def slab_ok_def wrap_simps)
  then have "slab_ok s'" using assms(1) u(3) by (auto simp: slab_ok_def s'_def)
  with al u w(2) show ?thesis by (intro exI [of _ i] exI [of _ s']) (simp add: s'_def)
qed

lemma slab_full_iff:
  assumes "slab_ok s"
  shows "(\<forall>index < length (slab_bitmap s). slab_bitmap s ! index = 0) \<longleftrightarrow>
     slab_used s = {..<slab_objects s}"
proof
  assume "\<forall>index < length (slab_bitmap s). slab_bitmap s ! index = 0"
  then have "\<not> slab_bit s i" for i by (auto simp: slab_bit_def)
  then show "slab_used s = {..<slab_objects s}" by (auto simp: slab_used_def)
next
  assume full: "slab_used s = {..<slab_objects s}"
  show "\<forall>index < length (slab_bitmap s). slab_bitmap s ! index = 0"
  proof (intro allI impI, rule ccontr)
    fix index assume "index < length (slab_bitmap s)" "slab_bitmap s ! index \<noteq> 0"
    from slab_word_avail [OF assms this] full show False by (auto simp: slab_used_def)
  qed
qed

text \<open>The word the allocation loops pick: some word with an available object, if any.\<close>

definition slab_pick :: "priskv_slab \<Rightarrow> nat option" where
  "slab_pick s = (case find (\<lambda>index. slab_bitmap s ! index \<noteq> 0)
       [slab_lindex s..<length (slab_bitmap s)] of
     Some index \<Rightarrow> Some index
   | None \<Rightarrow> find (\<lambda>index. slab_bitmap s ! index \<noteq> 0) [0..<slab_lindex s])"

lemma slab_pick_Some:
  "slab_ok s \<Longrightarrow> slab_pick s = Some index \<Longrightarrow>
     index < length (slab_bitmap s) \<and> slab_bitmap s ! index \<noteq> 0"
  by (auto simp: slab_pick_def slab_ok_def dest!: find_SomeD split: option.splits)

lemma slab_pick_None:
  assumes "slab_ok s"
  shows "slab_pick s = None \<longleftrightarrow> slab_used s = {..<slab_objects s}"
proof -
  have "slab_lindex s < length (slab_bitmap s)" using assms by (simp add: slab_ok_def)
  then have "slab_pick s = None \<longleftrightarrow>
      (\<forall>index < length (slab_bitmap s). slab_bitmap s ! index = 0)"
    by (auto simp: slab_pick_def find_None_iff_all split: option.splits dest!: find_SomeD)
  with slab_full_iff [OF assms] show ?thesis by simp
qed

lemma slab_alloc_pick:
  assumes "slab_ok s"
  shows "priskv_slab_alloc s = (case slab_pick s of None \<Rightarrow> Some (None, s)
     | Some index \<Rightarrow> map_option (\<lambda>(a, s'). (Some a, s'\<lparr>slab_lindex := index\<rparr>))
         (slab_alloc_word s index))"
proof -
  have "slab_bits (slab_objects s) div 64 = length (slab_bitmap s)"
    using assms by (simp add: slab_ok_def slab_bits_eq)
  then show ?thesis
    by (auto simp: priskv_slab_alloc_def slab_pick_def Let_def map_option_case
        split: option.splits Option.bind_splits)
qed

lemma slab_alloc_full:
  "slab_ok s \<Longrightarrow> slab_used s = {..<slab_objects s} \<Longrightarrow> priskv_slab_alloc s = Some (None, s)"
  using slab_pick_None [of s] by (simp add: slab_alloc_pick)

lemma slab_alloc_avail:
  assumes "slab_ok s" "slab_used s \<noteq> {..<slab_objects s}"
  shows "\<exists>i s'. priskv_slab_alloc s = Some (Some (slab_base s + i * slab_size s), s')
     \<and> slab_ok s' \<and> i < slab_objects s \<and> i \<notin> slab_used s \<and> slab_used s' = insert i (slab_used s)
     \<and> slab_base s' = slab_base s \<and> slab_size s' = slab_size s \<and> slab_objects s' = slab_objects s"
proof -
  from assms slab_pick_None obtain index where p: "slab_pick s = Some index" by blast
  note ix = slab_pick_Some [OF assms(1) p]
  with slab_alloc_word_ok [OF assms(1)] obtain i s' where
    w: "slab_alloc_word s index = Some (slab_base s + i * slab_size s, s')"
    and ok: "slab_ok s'" "i < slab_objects s" "i \<notin> slab_used s" "slab_used s' = insert i (slab_used s)"
     "slab_base s' = slab_base s" "slab_size s' = slab_size s" "slab_objects s' = slab_objects s"
     "length (slab_bitmap s') = length (slab_bitmap s)" by blast
  have u: "slab_used (s'\<lparr>slab_lindex := index\<rparr>) = slab_used s'"
    by (simp add: slab_used_def slab_bit_def)
  have "slab_ok (s'\<lparr>slab_lindex := index\<rparr>)"
    using ok ix by (simp add: slab_ok_def u) (simp add: slab_bit_def)
  with ok u w p assms(1) show ?thesis
    by (intro exI [of _ i] exI [of _ "s'\<lparr>slab_lindex := index\<rparr>"]) (simp add: slab_alloc_pick)
qed

lemma slab_index_object:
  "0 < slab_size s \<Longrightarrow> i < slab_objects s \<Longrightarrow>
     priskv_slab_index s (slab_base s + i * slab_size s) = Some (int i)"
  by (simp add: priskv_slab_index_def Let_def)

lemma slab_free_used:
  assumes "slab_ok s" "i \<in> slab_used s"
  shows "\<exists>s'. priskv_slab_free s (slab_base s + i * slab_size s) = Some s'
     \<and> slab_ok s' \<and> slab_used s' = slab_used s - {i}
     \<and> slab_base s' = slab_base s \<and> slab_size s' = slab_size s \<and> slab_objects s' = slab_objects s"
proof -
  from assms have i: "i < slab_objects s" and sz: "0 < slab_size s"
    by (simp_all add: slab_used_def slab_ok_def)
  define s' where "s' = s\<lparr>slab_bitmap := (slab_bitmap s)[i div 64 :=
      set_bit_ul (slab_bitmap s ! (i div 64)) (i mod 64)], slab_inuse := u32_sub (slab_inuse s) 1\<rparr>"
  have u: "slab_used s' = slab_used s - {i}" "\<And>j. slab_bit s' j \<Longrightarrow> j = i \<or> slab_bit s j"
    using slab_used_put [OF assms(1) i, of s'] by (auto simp: s'_def)
  have c: "0 < card (slab_used s)" using assms(2) by (auto simp: card_gt_0_iff)
  moreover have "card (slab_used s) \<le> 2 ^ 31" "card (slab_used s) \<le> slab_objects s"
    using card_slab_used [of s] assms(1) by (auto simp: slab_ok_def)
  ultimately have n: "slab_inuse s' = card (slab_used s) - 1" "slab_inuse s' < slab_objects s"
    using assms(1) by (auto simp: s'_def slab_ok_def wrap_simps)
  have "card (slab_used s') = card (slab_used s) - 1" using u assms(2) by simp
  then have "slab_ok s'" using assms(1) u(2) i n by (auto simp: slab_ok_def s'_def)
  moreover have "priskv_slab_free s (slab_base s + i * slab_size s) = Some s'"
    using slab_index_object [OF sz i] n(2) by (simp add: priskv_slab_free_def Let_def s'_def)
  ultimately show ?thesis using u by (auto simp: s'_def)
qed

lemma slab_reserve_free:
  assumes "slab_ok s" "i < slab_objects s" "i \<notin> slab_used s"
  shows "\<exists>s'. priskv_slab_reserve s (int i) = Some (slab_base s + i * slab_size s, s')
     \<and> slab_ok s' \<and> slab_used s' = insert i (slab_used s)
     \<and> slab_base s' = slab_base s \<and> slab_size s' = slab_size s \<and> slab_objects s' = slab_objects s"
proof -
  define s' where "s' = s\<lparr>slab_bitmap := (slab_bitmap s)[i div 64 :=
      clear_bit_ul (slab_bitmap s ! (i div 64)) (i mod 64)], slab_inuse := u32n (slab_inuse s + 1)\<rparr>"
  have b: "slab_bit s i" using assms by (simp add: slab_used_def)
  have u: "slab_used s' = insert i (slab_used s)" "\<And>j. slab_bit s' j \<Longrightarrow> slab_bit s j"
    using slab_used_take [OF assms(1) b, of s'] by (auto simp: s'_def)
  have "card (slab_used s') \<le> slab_objects s"
    using card_slab_used [of s'] by (simp add: s'_def)
  then have "slab_inuse s' = card (slab_used s')"
    using assms u by (simp add: s'_def slab_ok_def wrap_simps)
  then have "slab_ok s'" using assms(1) u(2) by (auto simp: slab_ok_def s'_def)
  then show ?thesis using u assms(2) by (auto simp: priskv_slab_reserve_def Let_def s'_def)
qed

lemma slab_create_bits:
  assumes "n \<le> 64 * length bm"
  defines "f \<equiv> \<lambda>index bm. bm[index div 64 :=
    set_bit_ul (bm ! (index div 64)) (index mod 64)]"
  shows "length (fold f [0..<n] bm) = length bm"
    and "k < length bm \<Longrightarrow> b < 64 \<Longrightarrow>
      bit (fold f [0..<n] bm ! k) b \<longleftrightarrow> bit (bm ! k) b \<or> k * 64 + b < n"
  using assms(1)
proof (induction n)
  case 0
  { case 1 then show ?case by simp next case 2 then show ?case by simp }
next
  case (Suc n)
  { case 1 then show ?case using Suc by (simp add: f_def) }
  { case 2
    have "k * 64 + b < Suc n \<longleftrightarrow> k * 64 + b < n \<or> k = n div 64 \<and> b = n mod 64"
      using 2(2) by (metis add.commute div_mult_mod_eq div_mult_self3 div_less mod_less
        mod_mult_self3 less_Suc_eq zero_neq_numeral add.right_neutral)
    moreover have "length (fold f [0..<n] bm) = length bm" using Suc 2 by simp
    moreover have "bit (fold f [0..<n] bm ! k) b \<longleftrightarrow> bit (bm ! k) b \<or> k * 64 + b < n"
      using Suc 2 by simp
    ultimately show ?case using 2 by (auto simp: f_def nth_list_update bit_set_bit_ul) }
qed

lemma slab_create_ok:
  assumes "0 < sz" "0 < objects" "objects \<le> 2 ^ 31"
  shows "\<exists>s. priskv_slab_create name (Some b) sz objects = Some (Some s)
    \<and> slab_ok s \<and> slab_used s = {} \<and> slab_base s = b \<and> slab_size s = sz \<and> slab_objects s = objects"
proof -
  have bits: "slab_bits objects = (objects + 63) div 64 * 64" using assms by (simp add: slab_bits_eq)
  then have ge: "\<not> slab_bits objects < objects" by simp
  define bm where "bm = fold (\<lambda>index bm. bm[index div 64 :=
    set_bit_ul (bm ! (index div 64)) (index mod 64)]) [0..<objects] (replicate ((objects + 63) div 64) (0::u64))"
  have n: "objects \<le> 64 * length (replicate ((objects + 63) div 64) (0::u64))" by simp
  define s where "s = \<lparr>slab_name = take 63 name, slab_size = sz, slab_inuse = 0, slab_objects = objects,
     slab_base = b, slab_lindex = 0, slab_bitmap = bm\<rparr>"
  have len: "length bm = (objects + 63) div 64" using slab_create_bits(1) [OF n] by (simp add: bm_def)
  have bit: "slab_bit s i \<longleftrightarrow> i < objects" for i
  proof (cases "i < 64 * length bm")
    case True
    then have "i div 64 < (objects + 63) div 64" using len by auto
    then show ?thesis using True slab_create_bits(2) [OF n, of "i div 64" "i mod 64"]
      by (simp add: slab_bit_def s_def bm_def)
  next
    case False then show ?thesis by (simp add: slab_bit_def s_def len)
  qed
  then have u: "slab_used s = {}" by (auto simp: slab_used_def s_def)
  have "slab_ok s" using assms bit u len by (simp add: slab_ok_def) (simp add: s_def)
  moreover have "priskv_slab_create name (Some b) sz objects = Some (Some s)"
    using assms ge by (simp add: priskv_slab_create_def Let_def bits s_def bm_def)
  ultimately show ?thesis using u by (auto simp: s_def)
qed

section \<open>The slab is an allocator\<close>

definition slab_live :: "priskv_slab \<Rightarrow> region set" where
  "slab_live s = (\<lambda>i. (slab_base s + i * slab_size s, slab_size s)) ` slab_used s"

lemma slab_objects_disjoint:
  assumes "i \<noteq> (j::nat)"
  shows "{b + i * z..<b + i * z + z} \<inter> {b + j * z..<b + j * z + z} = {}"
proof -
  have "i * z + z \<le> j * z \<or> j * z + z \<le> i * z"
    using assms mult_le_mono1 [of "Suc i" j z] mult_le_mono1 [of "Suc j" i z] by (cases "i < j") auto
  then show ?thesis by auto
qed

lemma slab_live_separated:
  assumes "slab_ok s"
  shows "separated (slab_live s)"
  unfolding separated_def
proof (intro conjI ballI impI)
  fix r q assume "r \<in> slab_live s" "q \<in> slab_live s" "r \<noteq> q"
  then obtain i j where "r = (slab_base s + i * slab_size s, slab_size s)"
    "q = (slab_base s + j * slab_size s, slab_size s)" "i \<noteq> j" by (auto simp: slab_live_def)
  then show "bytes_of r \<inter> bytes_of q = {}"
    using slab_objects_disjoint [of i j "slab_base s" "slab_size s"] by (simp add: bytes_of_def)
qed (use assms in \<open>auto simp: slab_live_def slab_ok_def\<close>)

lemma slab_object_inj: "slab_ok s \<Longrightarrow> slab_base s + i * slab_size s = slab_base s + j * slab_size s \<longleftrightarrow> i = j"
  by (auto simp: slab_ok_def)

interpretation slab: allocator slab_ok slab_live "\<lambda>s n. n \<le> slab_size s"
  "\<lambda>s _. priskv_slab_alloc s" priskv_slab_free
proof (unfold_locales, goal_cases)
  case (1 s) then show ?case by (rule slab_live_separated)
next
  case (2 s n) then show ?case
    using slab_alloc_full slab_alloc_avail by (cases "slab_used s = {..<slab_objects s}") blast+
next
  case (3 s n s') then show ?case
    using slab_alloc_full [of s] slab_alloc_avail [of s]
    by (cases "slab_used s = {..<slab_objects s}") auto
next
  case (4 s n a s')
  then have "slab_used s \<noteq> {..<slab_objects s}" using slab_alloc_full [of s] by auto
  from slab_alloc_avail [OF 4(1) this] 4 obtain i where i: "a = slab_base s + i * slab_size s"
    "slab_ok s'" "i \<notin> slab_used s" "slab_used s' = insert i (slab_used s)"
    "slab_base s' = slab_base s" "slab_size s' = slab_size s" by auto
  then have "(a, slab_size s) \<notin> slab_live s" "slab_live s' = insert (a, slab_size s) (slab_live s)"
    using slab_object_inj [OF 4(1)] by (auto simp: slab_live_def)
  with i(2) 4(2) show ?case by blast
next
  case (5 s k r s' n) then show ?case
    using slab_alloc_full [of s] slab_alloc_avail [of s]
    by (cases "slab_used s = {..<slab_objects s}") auto
next
  case (6 s a m)
  then obtain i where i: "i \<in> slab_used s" "a = slab_base s + i * slab_size s" "m = slab_size s"
    by (auto simp: slab_live_def)
  from slab_free_used [OF 6(1) i(1)] obtain s' where s': "priskv_slab_free s a = Some s'" "slab_ok s'"
    "slab_used s' = slab_used s - {i}" "slab_base s' = slab_base s" "slab_size s' = slab_size s"
    using i by blast
  then have "slab_live s' = slab_live s - {(a, m)}"
    using slab_object_inj [OF 6(1)] i by (auto simp: slab_live_def)
  with s' show ?case by blast
next
  case (7 s a m s' n)
  then obtain i where "i \<in> slab_used s" "a = slab_base s + i * slab_size s" by (auto simp: slab_live_def)
  with slab_free_used [OF 7(1)] 7(3) show ?case by fastforce
qed

section \<open>Properties\<close>

text \<open>
  C24: Start with a slab as \<open>priskv_slab_create\<close> returns it and run any sequence of
  allocations (of at most the object size) and of frees of live objects: no assertion
  fails, the invariant holds at the end, and the objects in use do not overlap.
\<close>

theorem slab_run_safe:
  assumes "priskv_slab_create name (Some b) sz objects = Some (Some s)"
    and "objects \<le> 2 ^ 31" "\<forall>op' \<in> set ops. slab.served s op'"
  shows "\<exists>s'. slab.run ops s = Some s' \<and> slab_ok s' \<and> separated (slab_live s')"
proof -
  from assms(1) have "0 < sz" "0 < objects"
    by (auto simp: priskv_slab_create_def split: if_splits)
  from slab_create_ok [OF this assms(2), of name b] assms(1) have "slab_ok s" by auto
  then show ?thesis using assms(3) by (rule slab.run_inv)
qed

theorem slab_run_safe_witness:
  "\<exists>s s'. priskv_slab_create ''k'' (Some 4096) 8 2 = Some (Some s)
     \<and> slab.run [Alloc 8, Alloc 8, Alloc 1, Free 4104, Alloc 2] s = Some s'
     \<and> slab_ok s' \<and> separated (slab_live s')"
proof -
  obtain s where s: "priskv_slab_create ''k'' (Some 4096) 8 2 = Some (Some s)" "slab_size s = 8"
    using slab_create_ok [of 8 2 "''k''" 4096] by auto
  from slab_run_safe [OF s(1), of "[Alloc 8, Alloc 8, Alloc 1, Free 4104, Alloc 2]"] s
  show ?thesis by auto
qed

end
