(* ===== verification/Buddy.thy ===== *)
theory Buddy
  imports Utils Alloc
begin

text \<open>
  \<open>server/buddy.c\<close>: the allocator of the value blocks. \<open>meta\<close> is a complete binary
  tree in an array: the entry of a node is the largest run of blocks its subtree can still
  serve. The first part translates the code, the second relates the array to a tree whose
  nodes are free, used or split, and the third shows that the code refines the tree and that
  the buddy is an allocator. Node indices are below \<open>2 * nmemb\<close>, hence the macros do not
  wrap for \<open>nmemb < 2 ^ 31\<close>; the mutex makes every operation atomic.
\<close>

section \<open>State and operations\<close>

record buddy =
  bd_nmemb :: nat
  bd_inuse :: nat
  bd_size :: nat
  bd_base :: addr
  bd_meta :: "nat list"

definition L_LEAF :: "nat \<Rightarrow> nat" where
  "L_LEAF index = index * 2 + 1"

definition R_LEAF :: "nat \<Rightarrow> nat" where
  "R_LEAF index = index * 2 + 2"

definition PARENT :: "nat \<Rightarrow> nat" where
  "PARENT index = (index + 1) div 2 - 1"

abbreviation is_pow2 :: "nat \<Rightarrow> bool" where
  "is_pow2 n \<equiv> IS_POWER_OF_2 (of_nat n :: u32)"

text \<open>\<open>32 - __builtin_clz(val)\<close>.\<close>

fun bit_width :: "nat \<Rightarrow> nat" where
  "bit_width n = (if n = 0 then 0 else Suc (bit_width (n div 2)))"

declare bit_width.simps [simp del]

text \<open>\<open>None\<close>: the count of leading zeros of 0, or a shift by 32, is undefined.\<close>

definition roundup_power_of_2 :: "nat \<Rightarrow> nat option" where
  "roundup_power_of_2 val = (if val = 0 \<or> 32 \<le> bit_width val then None else Some (2 ^ bit_width val))"

text \<open>The body of the loop of \<open>priskv_buddy_create\<close>.\<close>

definition create_step :: "nat \<Rightarrow> nat \<times> nat list \<Rightarrow> nat \<times> nat list" where
  "create_step i s =
     (let nodes = (if is_pow2 (i + 1) then fst s div 2 else fst s)
      in (nodes, (snd s)[i := nodes]))"

text \<open>
  \<open>priskv_buddy_create\<close>; \<open>mem\<close> is what the words behind the blocks hold. \<open>Some None\<close>
  is the NULL return, \<open>None\<close> a write past that memory.
\<close>

definition priskv_buddy_create :: "nat list \<Rightarrow> addr option \<Rightarrow> nat \<Rightarrow> nat \<Rightarrow> buddy option option" where
  "priskv_buddy_create mem base nmemb sz =
     (case base of
        None \<Rightarrow> Some None
      | Some b \<Rightarrow>
          if \<not> is_pow2 nmemb then Some None
          else
            let n = u32_sub (u32n (nmemb * 2)) 1
            in if length mem < n then None
               else Some (Some \<lparr>bd_nmemb = nmemb, bd_inuse = 0, bd_size = sz, bd_base = b,
                 bd_meta = snd (fold create_step [0..<n] (u32n (nmemb * 2), mem))\<rparr>))"

definition priskv_buddy_mem_size :: "nat \<Rightarrow> nat \<Rightarrow> nat" where
  "priskv_buddy_mem_size nmemb sz = u64n (nmemb * (sz + 4 * 2))"

text \<open>The loop of \<open>priskv_buddy_alloc\<close> that descends to a node of \<open>alignup\<close> blocks.
  \<open>None\<close>: a read past the array, or \<open>nodes\<close> reached 0 and the loop does not end.\<close>

function alloc_descend :: "nat list \<Rightarrow> nat \<Rightarrow> nat \<Rightarrow> nat \<Rightarrow> (nat \<times> nat) option" where
  "alloc_descend meta alignup nodes index =
     (if nodes = alignup then Some (nodes, index)
      else if nodes = 0 \<or> length meta \<le> L_LEAF index then None
      else alloc_descend meta alignup (nodes div 2)
        (if alignup \<le> meta ! L_LEAF index then L_LEAF index else R_LEAF index))"
  by pat_completeness auto
termination by (relation "measure (\<lambda>(_, _, nodes, _). nodes)") auto

text \<open>The loop that recomputes the maxima on the way to the root.\<close>

function alloc_up :: "nat list \<Rightarrow> nat \<Rightarrow> nat list option" where
  "alloc_up meta index =
     (if index = 0 then Some meta
      else let p = PARENT index
           in if length meta \<le> R_LEAF p then None
              else alloc_up (meta[p := max (meta ! L_LEAF p) (meta ! R_LEAF p)]) p)"
  by pat_completeness auto
termination by (relation "measure snd") (auto simp: PARENT_def)

text \<open>The number of blocks a request is rounded up to.\<close>

definition buddy_alignup :: "buddy \<Rightarrow> nat \<Rightarrow> nat option" where
  "buddy_alignup b sz =
     (let alignup = u32n ((sz + bd_size b - 1) div bd_size b)
      in if is_pow2 alignup then Some alignup else roundup_power_of_2 alignup)"

definition priskv_buddy_alloc :: "buddy \<Rightarrow> nat \<Rightarrow> (addr option \<times> buddy) option" where
  "priskv_buddy_alloc b sz =
     (if bd_size b = 0 then None
      else do {
        alignup \<leftarrow> buddy_alignup b sz;
        if length (bd_meta b) = 0 then None
        else if bd_meta b ! 0 < alignup then Some (None, b)
        else do {
          (nodes, index) \<leftarrow> alloc_descend (bd_meta b) alignup (bd_nmemb b) 0;
          if length (bd_meta b) \<le> index then None
          else if bd_meta b ! index = 0 then Some (None, b)
          else do {
            let offset = u32_sub (u32n ((index + 1) * nodes)) (bd_nmemb b);
            meta \<leftarrow> alloc_up ((bd_meta b)[index := 0]) index;
            Some (Some (bd_base b + offset * bd_size b),
              b\<lparr>bd_meta := meta, bd_inuse := u32n (bd_inuse b + alignup)\<rparr>)
          }
        }
      })"

text \<open>The loop of \<open>priskv_buddy_free\<close> that climbs to the first node whose entry is 0.
  \<open>Some None\<close> is the \<open>goto end\<close> at the root.\<close>

function free_climb :: "nat list \<Rightarrow> nat \<Rightarrow> nat \<Rightarrow> (nat \<times> nat) option option" where
  "free_climb meta nodes index =
     (if length meta \<le> index then None
      else if meta ! index = 0 then Some (Some (nodes, index))
      else if index = 0 then Some None
      else free_climb meta (u32n (nodes * 2)) (PARENT index))"
  by pat_completeness auto
termination by (relation "measure (\<lambda>(_, _, index). index)") (auto simp: PARENT_def)

text \<open>The loop that merges free buddies on the way to the root.\<close>

function free_up :: "nat list \<Rightarrow> nat \<Rightarrow> nat \<Rightarrow> nat list option" where
  "free_up meta nodes index =
     (if index = 0 then Some meta
      else let p = PARENT index; nodes' = u32n (nodes * 2)
           in if length meta \<le> R_LEAF p then None
              else
                let left_meta = meta ! L_LEAF p; right_meta = meta ! R_LEAF p
                in free_up (meta[p := (if u32n (left_meta + right_meta) = nodes' then nodes'
                     else max left_meta right_meta)]) nodes' p)"
  by pat_completeness auto
termination by (relation "measure (\<lambda>(_, _, index). index)") (auto simp: PARENT_def)

declare alloc_descend.simps [simp del] alloc_up.simps [simp del]
  free_climb.simps [simp del] free_up.simps [simp del]

definition priskv_buddy_free :: "buddy \<Rightarrow> addr \<Rightarrow> buddy option" where
  "priskv_buddy_free b a =
     (if bd_size b = 0 then None
      else
        let d = int a - int (bd_base b);
            offset = c_div d (int (bd_size b))
        in if offset * int (bd_size b) \<noteq> d then None
           else
             let index = nat ((offset + int (bd_nmemb b) - 1) mod 2 ^ 32)
             in if u32n (2 * bd_nmemb b) \<le> index then None
                else do {
                  found \<leftarrow> free_climb (bd_meta b) 1 index;
                  case found of
                    None \<Rightarrow> Some b
                  | Some (nodes, index) \<Rightarrow> do {
                      meta \<leftarrow> free_up ((bd_meta b)[index := nodes]) nodes index;
                      Some (b\<lparr>bd_meta := meta, bd_inuse := u32_sub (bd_inuse b) nodes\<rparr>)
                    }
                })"

section \<open>The tree an array stands for\<close>

datatype btree = Free_node | Used_node | Split btree btree

text \<open>The largest run of blocks a tree of height \<open>h\<close> serves.\<close>

fun room :: "nat \<Rightarrow> btree \<Rightarrow> nat" where
  "room h Free_node = 2 ^ h"
| "room h Used_node = 0"
| "room h (Split l r) = max (room (h - 1) l) (room (h - 1) r)"

definition join :: "btree \<Rightarrow> btree \<Rightarrow> btree" where
  "join l r = (if l = Free_node \<and> r = Free_node then Free_node else Split l r)"

text \<open>\<open>rep m h i t\<close>: the subtree of height \<open>h\<close> at index \<open>i\<close> stands for \<open>t\<close>.
  Below a free or used node every entry is the full run of its height.\<close>

fun rep :: "nat list \<Rightarrow> nat \<Rightarrow> nat \<Rightarrow> btree \<Rightarrow> bool" where
  "rep m 0 i Free_node = (m ! i = 1)"
| "rep m 0 i Used_node = (m ! i = 0)"
| "rep m 0 i (Split l r) = False"
| "rep m (Suc h) i Free_node =
     (m ! i = 2 ^ Suc h \<and> rep m h (L_LEAF i) Free_node \<and> rep m h (R_LEAF i) Free_node)"
| "rep m (Suc h) i Used_node =
     (m ! i = 0 \<and> rep m h (L_LEAF i) Free_node \<and> rep m h (R_LEAF i) Free_node)"
| "rep m (Suc h) i (Split l r) =
     (m ! i = max (m ! L_LEAF i) (m ! R_LEAF i) \<and> rep m h (L_LEAF i) l \<and> rep m h (R_LEAF i) r
      \<and> \<not> (l = Free_node \<and> r = Free_node))"

lemma rep_room: "rep m h i t \<Longrightarrow> m ! i = room h t"
  by (induction m h i t rule: rep.induct) auto

lemma room_le: "rep m h i t \<Longrightarrow> room h t \<le> 2 ^ h"
  by (induction m h i t rule: rep.induct) auto

lemma room_full: "rep m h i t \<Longrightarrow> room h t = 2 ^ h \<longleftrightarrow> t = Free_node"
proof (induction m h i t rule: rep.induct)
  case (6 m h i l r)
  then have "room h l \<le> 2 ^ h" "room h r \<le> 2 ^ h" using room_le by auto
  moreover have "(2 :: nat) ^ h < 2 ^ Suc h" by simp
  ultimately have "room h l < 2 ^ Suc h" "room h r < 2 ^ Suc h" by linarith+
  then have "room (Suc h) (Split l r) < 2 ^ Suc h" by (simp del: power_Suc)
  then show ?case by (simp del: power_Suc room.simps)
qed auto

lemma room_pow: "rep m h i t \<Longrightarrow> room h t = 0 \<or> (\<exists>k \<le> h. room h t = 2 ^ k)"
  by (induction m h i t rule: rep.induct) (auto simp: max_def intro: le_SucI)

text \<open>Writing outside a subtree does not change it.\<close>

definition below :: "nat \<Rightarrow> nat \<Rightarrow> bool" where
  "below i j \<longleftrightarrow> (\<exists>d. (j + 1) div 2 ^ d = i + 1)"

lemma below_refl [simp]: "below i i"
  by (auto simp: below_def intro: exI [of _ 0])

lemma below_child: "below (L_LEAF i) j \<Longrightarrow> below i j" "below (R_LEAF i) j \<Longrightarrow> below i j"
  unfolding below_def L_LEAF_def R_LEAF_def
proof (goal_cases)
  case 1 then obtain d where "(j + 1) div 2 ^ d = i * 2 + 2" by auto
  then have "(j + 1) div 2 ^ Suc d = i + 1" by (simp add: power_Suc2 div_mult2_eq del: power_Suc)
  then show ?case by blast
next
  case 2 then obtain d where "(j + 1) div 2 ^ d = i * 2 + 2 + 1" by auto
  then have "(j + 1) div 2 ^ Suc d = i + 1" by (simp add: power_Suc2 div_mult2_eq del: power_Suc)
  then show ?case by blast
qed

lemma below_le: "below i j \<Longrightarrow> i \<le> j"
  unfolding below_def using div_le_dividend by (metis Suc_eq_plus1 not_less_eq_eq)

lemma below_siblings: "below (L_LEAF i) j \<Longrightarrow> below (R_LEAF i) j \<Longrightarrow> False"
proof -
  assume "below (L_LEAF i) j" "below (R_LEAF i) j"
  then obtain d e where d: "(j + 1) div 2 ^ d = 2 * i + 2" and e: "(j + 1) div 2 ^ e = 2 * i + 3"
    by (auto simp: below_def L_LEAF_def R_LEAF_def mult.commute eval_nat_numeral)
  consider "d = e" | k where "e = d + Suc k" | k where "d = e + Suc k"
    by (metis less_iff_Suc_add linorder_neqE_nat add_Suc_right)
  then show False
  proof cases
    case 1 with d e show False by simp
  next
    case 2 with d e have "(2 * i + 2) div 2 ^ Suc k = 2 * i + 3" by (metis power_add div_mult2_eq)
    then show False using div_le_dividend [of "2 * i + 2" "2 ^ Suc k"] by simp
  next
    case 3 with d e have "(2 * i + 3) div (2 * 2 ^ k) = 2 * i + 2" by (metis power_add power_Suc div_mult2_eq)
    then have "(i + 1) div 2 ^ k = 2 * i + 2" by (simp add: div_mult2_eq)
    then show False using div_le_dividend [of "i + 1" "2 ^ k"] by simp
  qed
qed

lemma rep_frame: "\<not> below i j \<Longrightarrow> rep (m[j := v]) h i t = rep m h i t"
proof (induction m h i t rule: rep.induct)
qed (auto dest: below_child simp: nth_list_update_neq | metis below_child below_refl nth_list_update_neq)+

section \<open>Positions in a tree\<close>

text \<open>A position is the list of the siblings met on the way to the root, with the side the
  path came from.\<close>

datatype step = From_left btree | From_right btree

type_synonym position = "step list"

fun plug :: "position \<Rightarrow> btree \<Rightarrow> btree" where
  "plug [] t = t"
| "plug (From_left r # c) t = plug c (join t r)"
| "plug (From_right l # c) t = plug c (join l t)"

text \<open>\<open>at m H h i c\<close>: in a tree of height \<open>H\<close>, the node \<open>i\<close> has height \<open>h\<close> and
  position \<open>c\<close>; the entries of its ancestors are not constrained.\<close>

fun at :: "nat list \<Rightarrow> nat \<Rightarrow> nat \<Rightarrow> nat \<Rightarrow> position \<Rightarrow> bool" where
  "at m H h i [] = (i = 0 \<and> h = H)"
| "at m H h i (From_left r # c) =
     (i = L_LEAF (PARENT i) \<and> rep m h (R_LEAF (PARENT i)) r \<and> at m H (Suc h) (PARENT i) c)"
| "at m H h i (From_right l # c) =
     (i = R_LEAF (PARENT i) \<and> rep m h (L_LEAF (PARENT i)) l \<and> at m H (Suc h) (PARENT i) c)"

lemma PARENT_LEAF [simp]: "PARENT (L_LEAF i) = i" "PARENT (R_LEAF i) = i"
  by (simp_all add: PARENT_def L_LEAF_def R_LEAF_def)

lemma LEAF_pos [simp]: "0 < L_LEAF i" "0 < R_LEAF i" "L_LEAF i \<noteq> 0" "R_LEAF i \<noteq> 0"
  by (simp_all add: L_LEAF_def R_LEAF_def)

lemma LEAF_less: "i < L_LEAF i" "L_LEAF i < R_LEAF i"
  by (simp_all add: L_LEAF_def R_LEAF_def)

lemma at_frame: "below i j \<Longrightarrow> at m H h i c \<Longrightarrow> at (m[j := v]) H h i c"
proof (induction c arbitrary: h i)
  case (Cons s c)
  define p where "p = PARENT i"
  show ?case
  proof (cases s)
    case (From_left r)
    with Cons.prems have i: "i = L_LEAF p" by (simp add: p_def)
    with Cons.prems have "\<not> below (R_LEAF p) j" "below p j" using below_siblings below_child by blast+
    with Cons From_left i show ?thesis by (simp add: rep_frame)
  next
    case (From_right l)
    with Cons.prems have i: "i = R_LEAF p" by (simp add: p_def)
    with Cons.prems have "\<not> below (L_LEAF p) j" "below p j" using below_siblings below_child by blast+
    with Cons From_right i show ?thesis by (simp add: rep_frame)
  qed
qed simp

text \<open>The leaves below a node, by their heap numbers \<open>nmemb\<close> to \<open>2 * nmemb - 1\<close>.\<close>

lemma at_range: "at m H h i c \<Longrightarrow> 2 ^ H \<le> (i + 1) * 2 ^ h \<and> (i + 2) * 2 ^ h \<le> 2 ^ Suc H"
proof (induction c arbitrary: h i)
  case (Cons s c)
  define p where "p = PARENT i"
  from Cons.prems have "i = L_LEAF p \<or> i = R_LEAF p" and "at m H (Suc h) p c"
    by (cases s; simp add: p_def)+
  with Cons.IH [of "Suc h" p] have p: "2 ^ H \<le> (2 * p + 2) * 2 ^ h" "(2 * p + 4) * 2 ^ h \<le> 2 ^ Suc H"
    and i: "2 * p + 2 \<le> i + 1" "i + 2 \<le> 2 * p + 4"
    by (auto simp: L_LEAF_def R_LEAF_def algebra_simps)
  from mult_le_mono1 [OF i(1), of "2 ^ h"] mult_le_mono1 [OF i(2), of "2 ^ h"] p show ?case by linarith
qed simp

lemma at_height: "at m H h i c \<Longrightarrow> h \<le> H"
  by (induction c arbitrary: h i rule: list.induct) (simp, metis Suc_leD at.simps(2,3) step.exhaust)

lemma at_index: "at m H h i c \<Longrightarrow> i + 2 \<le> 2 ^ Suc H"
  using at_range [of m H h i c] mult_le_mono2 [of 1 "2 ^ h" "i + 2"] by simp

lemma at_up:
  assumes "at m H h i c" "i \<noteq> 0"
  obtains s c' where "c = s # c'" "at m H (Suc h) (PARENT i) c'"
  using assms by (cases c; cases "hd c") auto

section \<open>Climbing: both update loops rebuild the tree\<close>

lemma rep_join:
  assumes "rep m h (L_LEAF p) l" "rep m h (R_LEAF p) r" "p < length m"
    and "v = (if l = Free_node \<and> r = Free_node then 2 ^ Suc h else max (m ! L_LEAF p) (m ! R_LEAF p))"
  shows "rep (m[p := v]) (Suc h) p (join l r)"
proof -
  have "\<not> below (L_LEAF p) p" "\<not> below (R_LEAF p) p"
    using below_le LEAF_less by (meson not_le order.strict_trans)+
  then show ?thesis using assms LEAF_less [of p]
    by (auto simp: join_def rep_frame nth_list_update simp del: power_Suc)
qed

text \<open>One level of a position: the two children of the parent and what the parent becomes.\<close>

lemma at_level:
  assumes "length m = 2 ^ Suc H" "H \<le> 30" "at m H h i (s # c)" "rep m h i t"
  obtains p l r where "p = PARENT i" "i \<noteq> 0" "R_LEAF p < length m" "p < length m" "Suc h \<le> 30"
    "rep m h (L_LEAF p) l" "rep m h (R_LEAF p) r" "plug (s # c) t = plug c (join l r)"
    "t = l \<or> t = r" "at m H (Suc h) p c"
proof -
  define p where "p = PARENT i"
  obtain l r where lr: "rep m h (L_LEAF p) l" "rep m h (R_LEAF p) r" "plug (s # c) t = plug c (join l r)"
    "t = l \<or> t = r" and p: "at m H (Suc h) p c" and i0: "i \<noteq> 0"
    using assms(3,4) by (cases s) (auto simp: p_def, (metis LEAF_pos)+)
  have len: "R_LEAF p < length m" "p < length m"
    using at_range [OF p] assms(1) mult_le_mono2 [of 1 "2 ^ h" "2 * p + 4"]
    by (auto simp: R_LEAF_def algebra_simps)
  from at_height [OF p] assms(2) have "Suc h \<le> 30" by simp
  from that [OF p_def i0 len this lr p] show ?thesis .
qed

lemma free_up_rep:
  assumes "length m = 2 ^ Suc H" "H \<le> 30" "at m H h i c" "rep m h i t"
  shows "\<exists>m'. free_up m (2 ^ h) i = Some m' \<and> length m' = length m \<and> rep m' H 0 (plug c t)"
  using assms
proof (induction c arbitrary: m h i t)
  case Nil then show ?case by (simp add: free_up.simps)
next
  case (Cons s c)
  obtain p l r where p: "p = PARENT i" and i0: "i \<noteq> 0" and len: "R_LEAF p < length m" "p < length m"
    and h: "Suc h \<le> 30" and lr: "rep m h (L_LEAF p) l" "rep m h (R_LEAF p) r"
    and pl: "plug (s # c) t = plug c (join l r)" and at: "at m H (Suc h) p c"
    by (rule at_level [OF Cons.prems])
  define v where "v = (if l = Free_node \<and> r = Free_node then 2 ^ Suc h else max (m ! L_LEAF p) (m ! R_LEAF p))"
  have le: "m ! L_LEAF p \<le> 2 ^ h" "m ! R_LEAF p \<le> 2 ^ h"
    using room_le [OF lr(1)] room_le [OF lr(2)] rep_room [OF lr(1)] rep_room [OF lr(2)] by simp_all
  from h have "(2::nat) ^ Suc h \<le> 2 ^ 30" by (intro power_increasing) auto
  with le have w: "u32n (2 ^ h * 2) = 2 ^ Suc h"
    "u32n (m ! L_LEAF p + m ! R_LEAF p) = m ! L_LEAF p + m ! R_LEAF p"
    by (auto simp: wrap_simps)
  have "m ! L_LEAF p + m ! R_LEAF p = 2 ^ Suc h \<longleftrightarrow> l = Free_node \<and> r = Free_node"
    using le rep_room [OF lr(1)] rep_room [OF lr(2)] room_full [OF lr(1)] room_full [OF lr(2)] by auto
  then have step: "free_up m (2 ^ h) i = free_up (m[p := v]) (2 ^ Suc h) p"
    using i0 len w p by (subst free_up.simps) (simp add: Let_def v_def)
  have "rep (m[p := v]) (Suc h) p (join l r)" using rep_join lr len(2) v_def by blast
  moreover have "at (m[p := v]) H (Suc h) p c" using at_frame at by simp
  ultimately show ?case
    using Cons.IH [of "m[p := v]" "Suc h" p "join l r"] Cons.prems(1,2) pl step by simp
qed

lemma alloc_up_rep:
  assumes "length m = 2 ^ Suc H" "H \<le> 30" "at m H h i c" "rep m h i t" "t \<noteq> Free_node"
  shows "\<exists>m'. alloc_up m i = Some m' \<and> length m' = length m \<and> rep m' H 0 (plug c t)"
  using assms
proof (induction c arbitrary: m h i t)
  case Nil then show ?case by (simp add: alloc_up.simps)
next
  case (Cons s c)
  obtain p l r where p: "p = PARENT i" and i0: "i \<noteq> 0" and len: "R_LEAF p < length m" "p < length m"
    and lr: "rep m h (L_LEAF p) l" "rep m h (R_LEAF p) r" "t = l \<or> t = r"
    and pl: "plug (s # c) t = plug c (join l r)" and at: "at m H (Suc h) p c"
    by (rule at_level [OF Cons.prems(1-4)])
  have j: "join l r \<noteq> Free_node" "\<not> (l = Free_node \<and> r = Free_node)"
    using lr(3) Cons.prems(5) by (auto simp: join_def)
  define v where "v = max (m ! L_LEAF p) (m ! R_LEAF p)"
  have step: "alloc_up m i = alloc_up (m[p := v]) p"
    using i0 len p by (subst alloc_up.simps) (simp add: Let_def v_def)
  have "rep (m[p := v]) (Suc h) p (join l r)" using rep_join [OF lr(1,2) len(2), of v] v_def j(2) by simp
  moreover have "at (m[p := v]) H (Suc h) p c" using at_frame at by simp
  ultimately show ?case
    using Cons.IH [of "m[p := v]" "Suc h" p "join l r"] Cons.prems(1,2) pl step j(1) by simp
qed

section \<open>Descending: the allocation loop finds a free node\<close>

lemma join_Free [simp]: "join Free_node Free_node = Free_node"
  by (simp add: join_def)

text \<open>A free or split node opened one level, as the positions of its children.\<close>

lemma open_node:
  assumes "rep m (Suc h) i t" "at m H (Suc h) i c" "t \<noteq> Used_node"
  obtains l r where "rep m h (L_LEAF i) l" "rep m h (R_LEAF i) r" "t = join l r"
    "at m H h (L_LEAF i) (From_left r # c)" "at m H h (R_LEAF i) (From_right l # c)"
  using assms by (cases t) (auto simp: join_def)

lemma room_Used: "rep m h i t \<Longrightarrow> 0 < room h t \<Longrightarrow> t \<noteq> Used_node"
  by auto

lemma room_join: "rep m h (L_LEAF i) l \<Longrightarrow> rep m h (R_LEAF i) r \<Longrightarrow> k \<le> h \<Longrightarrow>
   2 ^ k \<le> room (Suc h) (join l r) \<longleftrightarrow> 2 ^ k \<le> room h l \<or> 2 ^ k \<le> room h r"
  by (auto simp: join_def le_max_iff_disj intro: order_trans [of _ "2 ^ h"])

lemma alloc_descend_rep:
  assumes "length m = 2 ^ Suc H" "k \<le> h" "at m H h i c" "rep m h i t" "2 ^ k \<le> room h t"
  shows "\<exists>j c'. alloc_descend m (2 ^ k) (2 ^ h) i = Some (2 ^ k, j)
     \<and> at m H k j c' \<and> rep m k j Free_node \<and> plug c' Free_node = plug c t"
  using assms(2-)
proof (induction h arbitrary: i c t)
  case 0
  then have "t = Free_node" by (cases t) auto
  with 0 show ?case by (auto simp: alloc_descend.simps)
next
  case (Suc h)
  show ?case
  proof (cases "k = Suc h")
    case True
    with Suc.prems room_le room_full have "t = Free_node" by (metis order_antisym)
    with Suc.prems True show ?thesis by (auto simp: alloc_descend.simps)
  next
    case False
    with Suc.prems have k: "k \<le> h" by simp
    have "0 < room (Suc h) t" using Suc.prems(4) by (rule less_le_trans [rotated]) simp
    with room_Used [OF Suc.prems(3)] obtain l r where lr: "rep m h (L_LEAF i) l" "rep m h (R_LEAF i) r"
      "t = join l r" and at: "at m H h (L_LEAF i) (From_left r # c)" "at m H h (R_LEAF i) (From_right l # c)"
      using open_node [OF Suc.prems(3,2)] by blast
    have len: "\<not> length m \<le> L_LEAF i" using at_index [OF at(1)] assms(1) by simp
    have "(2::nat) ^ k < 2 ^ Suc h" using k by (intro power_strict_increasing) auto
    then have step: "alloc_descend m (2 ^ k) (2 ^ Suc h) i =
        alloc_descend m (2 ^ k) (2 ^ h) (if 2 ^ k \<le> room h l then L_LEAF i else R_LEAF i)"
      using len rep_room [OF lr(1)] by (subst alloc_descend.simps) simp
    show ?thesis
    proof (cases "2 ^ k \<le> room h l")
      case True
      with Suc.IH [OF k at(1) lr(1)] step lr(3) show ?thesis by simp
    next
      case False
      then have "2 ^ k \<le> room h r" using room_join [OF lr(1,2) k] lr(3) Suc.prems(4) by simp
      with Suc.IH [OF k at(2) lr(2)] step lr(3) False show ?thesis by simp
    qed
  qed
qed

section \<open>The blocks in use\<close>

text \<open>A block is its first leaf, by heap number, and its number of leaves.\<close>

fun used :: "nat \<Rightarrow> nat \<Rightarrow> btree \<Rightarrow> (nat \<times> nat) set" where
  "used h i Free_node = {}"
| "used h i Used_node = {((i + 1) * 2 ^ h, 2 ^ h)}"
| "used h i (Split l r) = used (h - 1) (L_LEAF i) l \<union> used (h - 1) (R_LEAF i) r"

fun used_at :: "nat \<Rightarrow> nat \<Rightarrow> position \<Rightarrow> (nat \<times> nat) set" where
  "used_at h i [] = {}"
| "used_at h i (From_left r # c) = used h (R_LEAF (PARENT i)) r \<union> used_at (Suc h) (PARENT i) c"
| "used_at h i (From_right l # c) = used h (L_LEAF (PARENT i)) l \<union> used_at (Suc h) (PARENT i) c"

lemma used_join [simp]: "used (Suc h) i (join l r) = used h (L_LEAF i) l \<union> used h (R_LEAF i) r"
  by (auto simp: join_def)

lemma used_plug: "at m H h i c \<Longrightarrow> used H 0 (plug c t) = used h i t \<union> used_at h i c"
proof (induction c arbitrary: h i t)
  case (Cons s c) then show ?case
  proof (cases s)
    case (From_left r) with Cons show ?thesis by auto
  next
    case (From_right l) with Cons show ?thesis by auto
  qed
qed simp

definition node_leaves :: "nat \<Rightarrow> nat \<Rightarrow> nat set" where
  "node_leaves h i = {(i + 1) * 2 ^ h..<(i + 2) * 2 ^ h}"

lemma node_leaves_Un: "node_leaves (Suc h) i = node_leaves h (L_LEAF i) \<union> node_leaves h (R_LEAF i)"
  and node_leaves_Int: "node_leaves h (L_LEAF i) \<inter> node_leaves h (R_LEAF i) = {}"
proof -
  have "(R_LEAF i + 1) * (2::nat) ^ h = (L_LEAF i + 2) * 2 ^ h" "(i + 1) * (2::nat) ^ Suc h = (L_LEAF i + 1) * 2 ^ h"
    "(i + 2) * (2::nat) ^ Suc h = (R_LEAF i + 2) * 2 ^ h"
    by (simp_all add: L_LEAF_def R_LEAF_def algebra_simps)
  moreover have "(L_LEAF i + 1) * (2::nat) ^ h \<le> (L_LEAF i + 2) * 2 ^ h" "(R_LEAF i + 1) * (2::nat) ^ h \<le> (R_LEAF i + 2) * 2 ^ h"
    by (intro mult_le_mono1; simp)+
  ultimately show "node_leaves (Suc h) i = node_leaves h (L_LEAF i) \<union> node_leaves h (R_LEAF i)"
    "node_leaves h (L_LEAF i) \<inter> node_leaves h (R_LEAF i) = {}"
    unfolding node_leaves_def by (simp_all only: ivl_disj_un_two(3)) auto
qed

lemma leaf_node: "x \<in> node_leaves h i \<Longrightarrow> x div 2 ^ h = i + 1"
  by (intro div_nat_eqI) (auto simp: node_leaves_def algebra_simps)

lemma used_within: "rep m h i t \<Longrightarrow> b \<in> used h i t \<Longrightarrow> bytes_of b \<subseteq> node_leaves h i \<and> 0 < snd b"
proof (induction m h i t rule: rep.induct)
  case (6 m h i l r)
  then show ?case by (auto simp: node_leaves_Un)
qed (auto simp: bytes_of_def node_leaves_def)

lemma used_separated: "rep m h i t \<Longrightarrow> separated (used h i t)"
proof (induction m h i t rule: rep.induct)
  case (6 m h i l r)
  then have lr: "rep m h (L_LEAF i) l" "rep m h (R_LEAF i) r" by simp_all
  have d: "bytes_of b \<inter> bytes_of b' = {}" if "b \<in> used h (L_LEAF i) l" "b' \<in> used h (R_LEAF i) r" for b b'
    using used_within [OF lr(1) that(1)] used_within [OF lr(2) that(2)] node_leaves_Int [where h = h and i = i] by blast
  from 6 lr have "separated (used h (L_LEAF i) l)" "separated (used h (R_LEAF i) r)" by auto
  then show ?case using d by (simp add: separated_Un)
qed (auto simp: separated_def)

fun blocks :: "nat \<Rightarrow> btree \<Rightarrow> nat" where
  "blocks h Free_node = 0"
| "blocks h Used_node = 2 ^ h"
| "blocks h (Split l r) = blocks (h - 1) l + blocks (h - 1) r"

fun blocks_at :: "nat \<Rightarrow> position \<Rightarrow> nat" where
  "blocks_at h [] = 0"
| "blocks_at h (From_left r # c) = blocks h r + blocks_at (Suc h) c"
| "blocks_at h (From_right l # c) = blocks h l + blocks_at (Suc h) c"

lemma blocks_plug: "at m H h i c \<Longrightarrow> blocks H (plug c t) = blocks h t + blocks_at h c"
proof (induction c arbitrary: h i t)
  case (Cons s c)
  have j: "blocks (Suc h) (join l r) = blocks h l + blocks h r" for l r by (auto simp: join_def)
  from Cons show ?case by (cases s) (auto simp: j)
qed simp

lemma blocks_le: "rep m h i t \<Longrightarrow> blocks h t \<le> 2 ^ h"
  by (induction m h i t rule: rep.induct) auto

lemma used_fresh:
  assumes "at m H h i c" "b \<in> used_at h i c"
  shows "bytes_of b \<inter> node_leaves h i = {}"
  using assms
proof (induction c arbitrary: h i)
  case (Cons s c)
  define p where "p = PARENT i"
  have sub: "node_leaves h i \<subseteq> node_leaves (Suc h) p" if "i = L_LEAF p \<or> i = R_LEAF p"
    using that node_leaves_Un [where h = h and i = p] by auto
  show ?case
  proof (cases s)
    case (From_left r)
    with Cons.prems have i: "i = L_LEAF p" "rep m h (R_LEAF p) r" "at m H (Suc h) p c"
      "b \<in> used h (R_LEAF p) r \<or> b \<in> used_at (Suc h) p c" by (auto simp: p_def)
    show ?thesis using i(4)
    proof
      assume "b \<in> used h (R_LEAF p) r"
      with used_within [OF i(2)] node_leaves_Int [where h = h and i = p] i(1) show ?thesis by blast
    next
      assume "b \<in> used_at (Suc h) p c"
      with Cons.IH [OF i(3)] sub i(1) show ?thesis by blast
    qed
  next
    case (From_right l)
    with Cons.prems have i: "i = R_LEAF p" "rep m h (L_LEAF p) l" "at m H (Suc h) p c"
      "b \<in> used h (L_LEAF p) l \<or> b \<in> used_at (Suc h) p c" by (auto simp: p_def)
    show ?thesis using i(4)
    proof
      assume "b \<in> used h (L_LEAF p) l"
      with used_within [OF i(2)] node_leaves_Int [where h = h and i = p] i(1) show ?thesis by blast
    next
      assume "b \<in> used_at (Suc h) p c"
      with Cons.IH [OF i(3)] sub i(1) show ?thesis by blast
    qed
  qed
qed simp

section \<open>Climbing from a leaf\<close>

lemma rep_Free_path: "rep m h i Free_node \<Longrightarrow> x \<in> node_leaves h i \<Longrightarrow> d \<le> h \<Longrightarrow> m ! (x div 2 ^ d - 1) = 2 ^ d"
proof (induction h arbitrary: i)
  case 0 then show ?case by (simp add: node_leaves_def)
next
  case (Suc h)
  show ?case
  proof (cases "d = Suc h")
    case True
    with Suc.prems(2) leaf_node have "x div 2 ^ d = i + 1" by blast
    with Suc.prems(1) True show ?thesis by simp
  next
    case False
    from Suc.prems(2) have "x \<in> node_leaves h (L_LEAF i) \<or> x \<in> node_leaves h (R_LEAF i)"
      using node_leaves_Un [where h = h and i = i] by blast
    with Suc False show ?thesis by auto
  qed
qed

text \<open>A leaf is either in a used node, all of whose entries below are non-zero, or no node
  above it is zero.\<close>

lemma leaf_cases:
  assumes "rep m h i t" "at m H h i c" "x \<in> node_leaves h i"
  shows "(\<exists>k j c'. at m H k j c' \<and> rep m k j Used_node \<and> x \<in> node_leaves k j
            \<and> (\<forall>d < k. m ! (x div 2 ^ d - 1) \<noteq> 0) \<and> plug c' Used_node = plug c t)
       \<or> ((\<forall>d \<le> h. m ! (x div 2 ^ d - 1) \<noteq> 0) \<and> x \<notin> \<Union> (bytes_of ` used h i t))"
  using assms
proof (induction h arbitrary: i t c)
  case 0
  then have x: "x = i + 1" by (simp add: node_leaves_def)
  show ?case
  proof (cases t)
    case Used_node
    with 0 show ?thesis by (intro disjI1 exI [of _ 0] exI [of _ i] exI [of _ c]) simp
  qed (use 0 x in auto)
next
  case (Suc h)
  show ?case
  proof (cases t)
    case Free_node
    with Suc.prems rep_Free_path [of m "Suc h" i x] show ?thesis by simp
  next
    case Used_node
    with Suc.prems have f: "rep m h (L_LEAF i) Free_node" "rep m h (R_LEAF i) Free_node" by simp_all
    have "x \<in> node_leaves h (L_LEAF i) \<or> x \<in> node_leaves h (R_LEAF i)"
      using node_leaves_Un [where h = h and i = i] Suc.prems(3) by blast
    then have "m ! (x div 2 ^ d - 1) \<noteq> 0" if "d < Suc h" for d
      using rep_Free_path [OF f(1), of x d] rep_Free_path [OF f(2), of x d] that by auto
    with Suc.prems Used_node show ?thesis by blast
  next
    case (Split l r)
    with open_node [OF Suc.prems(1,2)] obtain l' r' where
      lr: "rep m h (L_LEAF i) l'" "rep m h (R_LEAF i) r'" "t = join l' r'"
      and at: "at m H h (L_LEAF i) (From_left r' # c)" "at m H h (R_LEAF i) (From_right l' # c)" by blast
    have top: "m ! (x div 2 ^ Suc h - 1) = max (m ! L_LEAF i) (m ! R_LEAF i)"
      using Suc.prems(1) Split leaf_node [OF Suc.prems(3)] by (simp del: power_Suc)
    consider "x \<in> node_leaves h (L_LEAF i)" | "x \<in> node_leaves h (R_LEAF i)"
      using node_leaves_Un [where h = h and i = i] Suc.prems(3) by blast
    then show ?thesis
    proof cases
      case 1
      then have "x \<notin> \<Union> (bytes_of ` used h (R_LEAF i) r')"
        using used_within [OF lr(2)] node_leaves_Int [where h = h and i = i] by blast
      with Suc.IH [OF lr(1) at(1) 1] lr(3) top leaf_node [OF 1] show ?thesis
        by (auto simp: le_Suc_eq simp del: power_Suc)
    next
      case 2
      then have "x \<notin> \<Union> (bytes_of ` used h (L_LEAF i) l')"
        using used_within [OF lr(1)] node_leaves_Int [where h = h and i = i] by blast
      with Suc.IH [OF lr(2) at(2) 2] lr(3) top leaf_node [OF 2] show ?thesis
        by (auto simp: le_Suc_eq simp del: power_Suc)
    qed
  qed
qed

lemma free_climb_path:
  assumes "length m = 2 ^ Suc H" "H \<le> 30" "D \<le> H" "2 ^ H \<le> x" "x < 2 ^ Suc H"
    and "\<forall>d < D. m ! (x div 2 ^ d - 1) \<noteq> 0"
  shows "free_climb m 1 (x - 1) = free_climb m (2 ^ D) (x div 2 ^ D - 1)"
  using assms(3,6)
proof (induction D)
  case (Suc D)
  then have IH: "free_climb m 1 (x - 1) = free_climb m (2 ^ D) (x div 2 ^ D - 1)" by simp
  have "2 ^ H div 2 ^ D \<le> x div 2 ^ D" by (intro div_le_mono) (rule assms(4))
  moreover have "2 ^ H div 2 ^ D = (2::nat) ^ (H - D)" using Suc.prems by (simp add: power_diff)
  moreover have "(2::nat) ^ 1 \<le> 2 ^ (H - D)" using Suc.prems by (intro power_increasing) auto
  ultimately have ge: "2 \<le> x div 2 ^ D" by simp
  have "x div 2 ^ D \<le> x" by simp
  then have len: "x div 2 ^ D - 1 < length m" using assms(1,5) by linarith
  have p: "PARENT (x div 2 ^ D - 1) = x div 2 ^ Suc D - 1"
    using ge by (simp add: PARENT_def power_Suc2 div_mult2_eq del: power_Suc)
  have "(2::nat) ^ Suc D \<le> 2 ^ 30" using Suc.prems assms(2) by (intro power_increasing) auto
  then have "u32n (2 ^ D * 2) = 2 ^ Suc D" by (simp add: wrap_simps)
  moreover have "m ! (x div 2 ^ D - 1) \<noteq> 0" using Suc.prems by blast
  ultimately show ?case
    using ge len p unfolding IH by (subst free_climb.simps) (simp del: power_Suc)
qed simp

section \<open>The buddy as an allocator\<close>

definition buddy_rep :: "buddy \<Rightarrow> nat \<Rightarrow> btree \<Rightarrow> bool" where
  "buddy_rep b H t \<longleftrightarrow> bd_nmemb b = 2 ^ H \<and> H \<le> 30 \<and> 0 < bd_size b
     \<and> length (bd_meta b) = 2 ^ Suc H \<and> rep (bd_meta b) H 0 t \<and> bd_inuse b = blocks H t"

definition buddy_ok :: "buddy \<Rightarrow> bool" where
  "buddy_ok b \<longleftrightarrow> (\<exists>H t. buddy_rep b H t)"

text \<open>The array determines the tree.\<close>

lemma rep_unique: "rep m h i t \<Longrightarrow> rep m h i t' \<Longrightarrow> t = t'"
proof (induction h arbitrary: i t t')
  case 0 then show ?case by (cases t; cases t') auto
next
  case (Suc h)
  have room: "room (Suc h) t = room (Suc h) t'" using Suc.prems rep_room by metis
  have free: "t = Free_node \<longleftrightarrow> t' = Free_node"
    using room_full [OF Suc.prems(1)] room_full [OF Suc.prems(2)] room by simp
  have "False" if "rep m h (L_LEAF i) l" "rep m h (R_LEAF i) r" "\<not> (l = Free_node \<and> r = Free_node)"
    "rep m h (L_LEAF i) Free_node" "rep m h (R_LEAF i) Free_node" for l r
    using that Suc.IH by blast
  with free Suc show ?case by (cases t; cases t') auto
qed

lemma buddy_rep_unique:
  assumes "buddy_rep b H t" "buddy_rep b H' t'"
  shows "H = H' \<and> t = t'"
proof -
  have "(2::nat) ^ H = 2 ^ H'" using assms by (simp add: buddy_rep_def)
  then have "H = H'" by simp
  with assms rep_unique show ?thesis unfolding buddy_rep_def by blast
qed

text \<open>The region of a block, and the live regions.\<close>

definition block_region :: "buddy \<Rightarrow> nat \<times> nat \<Rightarrow> region" where
  "block_region b x = (bd_base b + (fst x - bd_nmemb b) * bd_size b, snd x * bd_size b)"

definition buddy_live :: "buddy \<Rightarrow> region set" where
  "buddy_live b = {block_region b x | x H t. buddy_rep b H t \<and> x \<in> used H 0 t}"

lemma buddy_live_rep: "buddy_rep b H t \<Longrightarrow> buddy_live b = block_region b ` used H 0 t"
  unfolding buddy_live_def using buddy_rep_unique by blast

definition buddy_serves :: "buddy \<Rightarrow> nat \<Rightarrow> bool" where
  "buddy_serves b n \<longleftrightarrow> 0 < n \<and> n < 2 ^ 32 \<and> (n + bd_size b - 1) div bd_size b \<le> 2 ^ 31"

text \<open>The number of blocks the code rounds a request up to.\<close>

lemma bit_width_0 [simp]: "bit_width 0 = 0"
  by (simp add: bit_width.simps)

lemma bit_width_less: "n < 2 ^ bit_width n"
proof (induction n rule: bit_width.induct)
  case (1 n)
  show ?case
  proof (cases "n = 0")
    case False
    with 1 have "n div 2 < 2 ^ bit_width (n div 2)" by simp
    with False show ?thesis by (subst bit_width.simps) simp
  qed (simp add: bit_width.simps)
qed

lemma bit_width_le: "0 < n \<Longrightarrow> 2 ^ (bit_width n - 1) \<le> n"
proof (induction n rule: bit_width.induct)
  case (1 n)
  show ?case
  proof (cases "n div 2 = 0")
    case True
    then have "n = 1" using 1 by simp
    then show ?thesis by (simp add: bit_width.simps)
  next
    case False
    then have "2 ^ (bit_width (n div 2) - 1) \<le> n div 2" using 1 by simp
    moreover have "0 < bit_width (n div 2)" using False by (simp add: bit_width.simps [of "n div 2"])
    then have "bit_width n - 1 = Suc (bit_width (n div 2) - 1)"
      using 1(2) by (subst bit_width.simps) simp
    ultimately show ?thesis by simp
  qed
qed

lemma of_nat_u32_eq: "a < 2 ^ 32 \<Longrightarrow> b < 2 ^ 32 \<Longrightarrow> (of_nat a :: u32) = of_nat b \<longleftrightarrow> a = b"
  by (simp add: word_of_nat_eq_iff take_bit_nat_eq_self)

lemma is_pow2_iff:
  assumes "n < 2 ^ 32"
  shows "is_pow2 n \<longleftrightarrow> n = 0 \<or> (\<exists>k < 32. n = 2 ^ k)"
proof -
  have "(of_nat n :: u32) = 2 ^ k \<longleftrightarrow> n = 2 ^ k" if "k < 32" for k
  proof -
    have "(2::nat) ^ k < 2 ^ 32" using that by (intro power_strict_increasing) auto
    from of_nat_u32_eq [OF assms this] show ?thesis by simp
  qed
  moreover have "(of_nat n :: u32) = 0 \<longleftrightarrow> n = 0" using of_nat_u32_eq [OF assms, of 0] by simp
  ultimately show ?thesis by (auto simp: IS_POWER_OF_2_iff)
qed

text \<open>\<open>blocks_for\<close>: the least power of two of blocks that holds a request.\<close>

lemma roundup_least:
  assumes "0 < a" "a \<le> 2 ^ 31"
  shows "\<exists>k \<le> 31. (if is_pow2 a then Some a else roundup_power_of_2 a) = Some (2 ^ k)
     \<and> a \<le> 2 ^ k \<and> (\<forall>j. a \<le> 2 ^ j \<longrightarrow> k \<le> j)"
proof (cases "is_pow2 a")
  case True
  with assms is_pow2_iff [of a] obtain k where k: "a = 2 ^ k" by auto
  with assms have "k \<le> 31" by (metis one_less_numeral_iff power_le_imp_le_exp semiring_norm(76))
  with k True show ?thesis by (intro exI [of _ k]) simp
next
  case False
  define k where "k = bit_width a"
  have n: "a \<noteq> 2 ^ j" if "j < 32" for j using False is_pow2_iff [of a] assms that by auto
  have "a < 2 ^ 31" using n [of 31] assms by simp
  then have "(2::nat) ^ (k - 1) < 2 ^ 31" using bit_width_le [OF assms(1)] by (simp add: k_def)
  then have "k - 1 < 31" by (rule power_less_imp_less_exp [rotated]) simp
  then have k31: "k \<le> 31" by simp
  have least: "k \<le> j" if "a \<le> 2 ^ j" for j
  proof (rule ccontr)
    assume "\<not> k \<le> j"
    then have "(2::nat) ^ j \<le> 2 ^ (k - 1)" by (intro power_increasing) auto
    with bit_width_le [OF assms(1)] that have "a = 2 ^ j" unfolding k_def by linarith
    with n [of j] \<open>\<not> k \<le> j\<close> k31 show False by simp
  qed
  have "roundup_power_of_2 a = Some (2 ^ k)" using assms(1) k31 by (simp add: roundup_power_of_2_def k_def)
  with False k31 least bit_width_less [of a] show ?thesis by (intro exI [of _ k]) (simp add: k_def)
qed

text \<open>\<open>order_for b n k\<close>: \<open>2 ^ k\<close> is the least power of two of blocks that holds \<open>n\<close> bytes.\<close>

definition order_for :: "buddy \<Rightarrow> nat \<Rightarrow> nat \<Rightarrow> bool" where
  "order_for b n k \<longleftrightarrow> n \<le> 2 ^ k * bd_size b \<and> (\<forall>j. n \<le> 2 ^ j * bd_size b \<longrightarrow> k \<le> j)"

lemma div_up_le: "0 < z \<Longrightarrow> (n + z - 1) div z \<le> k \<longleftrightarrow> n \<le> k * (z::nat)"
proof -
  assume z: "0 < z"
  then have "(n + z - 1) div z \<le> k \<longleftrightarrow> n + z - 1 < Suc k * z"
    by (metis less_Suc_eq_le div_less_iff_less_mult)
  then show ?thesis using z by (cases z) auto
qed

lemma order_for_unique: "order_for b n k \<Longrightarrow> order_for b n j \<Longrightarrow> k = j"
  by (simp add: order_for_def order_antisym)

lemma alignup_order:
  assumes "0 < bd_size b" "buddy_serves b n"
  shows "\<exists>k \<le> 31. order_for b n k \<and> buddy_alignup b n = Some (2 ^ k)"
proof -
  define a where "a = (n + bd_size b - 1) div bd_size b"
  have a: "0 < a" "a \<le> 2 ^ 31" "u32n a = a"
    using assms by (auto simp: a_def buddy_serves_def wrap_simps div_greater_zero_iff)
  from roundup_least [OF a(1,2)] obtain k where k: "k \<le> 31"
    "(if is_pow2 a then Some a else roundup_power_of_2 a) = Some (2 ^ k)"
    "a \<le> 2 ^ k" "\<forall>j. a \<le> 2 ^ j \<longrightarrow> k \<le> j" by blast
  have "a \<le> 2 ^ j \<longleftrightarrow> n \<le> 2 ^ j * bd_size b" for j
    unfolding a_def by (rule div_up_le) (rule assms(1))
  with k have "order_for b n k" by (simp add: order_for_def)
  moreover have "buddy_alignup b n = Some (2 ^ k)"
    unfolding buddy_alignup_def a_def [symmetric] a(3) Let_def by (rule k(2))
  ultimately show ?thesis using k(1) by blast
qed

lemma buddy_alignup_eq:
  "0 < bd_size b \<Longrightarrow> buddy_serves b n \<Longrightarrow> order_for b n k \<Longrightarrow> buddy_alignup b n = Some (2 ^ k)"
  using alignup_order order_for_unique by blast

lemma buddy_alloc_NULL:
  assumes "buddy_rep b H t" "buddy_serves b n" "order_for b n k" "room H t < 2 ^ k"
  shows "priskv_buddy_alloc b n = Some (None, b)"
proof -
  from assms(1) have b: "0 < bd_size b" "bd_meta b \<noteq> []" "bd_meta b ! 0 = room H t"
    by (auto simp: buddy_rep_def rep_room)
  with buddy_alignup_eq [OF b(1) assms(2,3)] assms(4) show ?thesis
    by (simp add: priskv_buddy_alloc_def)
qed

lemma buddy_take:
  assumes "buddy_rep b H t" "at (bd_meta b) H k j c" "rep (bd_meta b) k j Free_node" "plug c Free_node = t"
  defines "x \<equiv> ((j + 1) * 2 ^ k, 2 ^ k)"
  shows "\<exists>m. alloc_up ((bd_meta b)[j := 0]) j = Some m
     \<and> buddy_rep (b\<lparr>bd_meta := m, bd_inuse := u32n (bd_inuse b + 2 ^ k)\<rparr>) H (plug c Used_node)
     \<and> used H 0 (plug c Used_node) = insert x (used H 0 t) \<and> x \<notin> used H 0 t"
proof -
  let ?m = "(bd_meta b)[j := 0]"
  from assms(1) have len: "length (bd_meta b) = 2 ^ Suc H" "H \<le> 30" and nb: "bd_inuse b = blocks H t"
    by (simp_all add: buddy_rep_def)
  have j: "j < length (bd_meta b)" using at_index [OF assms(2)] len by simp
  have "\<not> below (L_LEAF j) j" "\<not> below (R_LEAF j) j"
    using below_le LEAF_less by (meson not_le order.strict_trans)+
  with assms(3) j have "rep ?m k j Used_node" by (cases k) (simp_all add: rep_frame)
  moreover have at: "at ?m H k j c" using at_frame [OF below_refl assms(2)] .
  ultimately obtain m where m: "alloc_up ?m j = Some m" "length m = length ?m" "rep m H 0 (plug c Used_node)"
    using alloc_up_rep [of ?m H k j c Used_node] len by auto
  have bl: "blocks H (plug c Used_node) = blocks H t + 2 ^ k"
    using blocks_plug [OF assms(2)] assms(4) by force
  moreover have "blocks H (plug c Used_node) \<le> 2 ^ 30"
    using blocks_le [OF m(3)] power_increasing [OF len(2), of "2::nat"] by simp
  ultimately have "u32n (bd_inuse b + 2 ^ k) = blocks H (plug c Used_node)"
    using nb by (simp add: wrap_simps)
  then have r: "buddy_rep (b\<lparr>bd_meta := m, bd_inuse := u32n (bd_inuse b + 2 ^ k)\<rparr>) H (plug c Used_node)"
    using assms(1) m by (simp add: buddy_rep_def)
  have u: "used H 0 (plug c s) = used k j s \<union> used_at k j c" for s using used_plug [OF assms(2)] .
  have "x \<notin> used H 0 t"
  proof
    assume "x \<in> used H 0 t"
    with u [of Free_node] assms(4) have "x \<in> used_at k j c" by simp
    from used_fresh [OF assms(2) this] show False by (auto simp: x_def bytes_of_def node_leaves_def)
  qed
  with m(1) r u [of Free_node] u [of Used_node] assms(4) show ?thesis by (auto simp: x_def)
qed

lemma buddy_alloc_block:
  assumes "buddy_rep b H t" "buddy_serves b n" "order_for b n k" "2 ^ k \<le> room H t"
  shows "\<exists>x b' t'. priskv_buddy_alloc b n = Some (Some (fst (block_region b (x, 2 ^ k))), b')
     \<and> buddy_rep b' H t' \<and> used H 0 t' = insert (x, 2 ^ k) (used H 0 t) \<and> (x, 2 ^ k) \<notin> used H 0 t
     \<and> bd_nmemb b' = bd_nmemb b \<and> bd_size b' = bd_size b \<and> bd_base b' = bd_base b"
proof -
  from assms(1) have b: "0 < bd_size b" "bd_meta b \<noteq> []" "bd_meta b ! 0 = room H t"
    "length (bd_meta b) = 2 ^ Suc H" "rep (bd_meta b) H 0 t" "bd_nmemb b = 2 ^ H" "H \<le> 30"
    by (auto simp: buddy_rep_def rep_room)
  have kH: "k \<le> H" using assms(4) room_le [OF b(5)]
    by (metis le_trans one_less_numeral_iff power_le_imp_le_exp semiring_norm(76))
  from alloc_descend_rep [OF b(4) kH _ b(5) assms(4), of "[]"]
  obtain j c where d: "alloc_descend (bd_meta b) (2 ^ k) (2 ^ H) 0 = Some (2 ^ k, j)"
    "at (bd_meta b) H k j c" "rep (bd_meta b) k j Free_node" "plug c Free_node = t" by auto
  from buddy_take [OF assms(1) d(2-4)] obtain m where m: "alloc_up ((bd_meta b)[j := 0]) j = Some m"
    "buddy_rep (b\<lparr>bd_meta := m, bd_inuse := u32n (bd_inuse b + 2 ^ k)\<rparr>) H (plug c Used_node)"
    "used H 0 (plug c Used_node) = insert ((j + 1) * 2 ^ k, 2 ^ k) (used H 0 t)"
    "((j + 1) * 2 ^ k, 2 ^ k) \<notin> used H 0 t" by blast
  have j: "j < length (bd_meta b)" "bd_meta b ! j \<noteq> 0"
    using at_index [OF d(2)] rep_room [OF d(3)] b(4) by auto
  have "(2::nat) ^ Suc H \<le> 2 ^ 31" using b(7) by (intro power_increasing) auto
  with at_range [OF d(2)] have "(j + 1) * 2 ^ k < 2 ^ 32" "2 ^ H \<le> (j + 1) * 2 ^ k"
    by (auto simp: algebra_simps)
  then have off: "u32_sub (u32n ((j + 1) * 2 ^ k)) (bd_nmemb b) = (j + 1) * 2 ^ k - bd_nmemb b"
    using b(6) by (simp add: wrap_simps)
  have "priskv_buddy_alloc b n = Some (Some (bd_base b + ((j + 1) * 2 ^ k - bd_nmemb b) * bd_size b),
      b\<lparr>bd_meta := m, bd_inuse := u32n (bd_inuse b + 2 ^ k)\<rparr>)"
    using buddy_alignup_eq [OF b(1) assms(2,3)] d(1) m(1) j assms(4) b(1-3,6) off
    by (simp add: priskv_buddy_alloc_def Let_def del: mult_Suc)
  with m(2-4) show ?thesis
    by (intro exI [of _ "(j + 1) * 2 ^ k"] exI [of _ "b\<lparr>bd_meta := m, bd_inuse := u32n (bd_inuse b + 2 ^ k)\<rparr>"]
        exI [of _ "plug c Used_node"]) (simp add: block_region_def)
qed

text \<open>Freeing: any block-aligned address inside a used block frees that block, an address
  outside every used block changes nothing.\<close>

lemma buddy_free_step:
  assumes "buddy_rep b H t" "x \<in> node_leaves H 0"
  shows "priskv_buddy_free b (bd_base b + (x - bd_nmemb b) * bd_size b) = do {
     found \<leftarrow> free_climb (bd_meta b) 1 (x - 1);
     case found of
       None \<Rightarrow> Some b
     | Some (nodes, index) \<Rightarrow> do {
         meta \<leftarrow> free_up ((bd_meta b)[index := nodes]) nodes index;
         Some (b\<lparr>bd_meta := meta, bd_inuse := u32_sub (bd_inuse b) nodes\<rparr>)
       }}"
proof -
  from assms have b: "bd_nmemb b = 2 ^ H" "H \<le> 30" "0 < bd_size b" and x: "2 ^ H \<le> x" "x < 2 * 2 ^ H"
    by (auto simp: buddy_rep_def node_leaves_def)
  have "(2::nat) ^ H \<le> 2 ^ 30" using b(2) by (intro power_increasing) auto
  with x have "int (x - 2 ^ H) + 2 ^ H - 1 = int (x - 1)" "x - 1 < 2 ^ 32" "u32n (2 * 2 ^ H) = 2 * 2 ^ H"
    by (auto simp: wrap_simps of_nat_diff)
  then have "nat ((int (x - 2 ^ H) + int (2 ^ H) - 1) mod 2 ^ 32) = x - 1"
    by (simp add: zmod_int nat_mod_as_int flip: of_nat_mod)
  moreover have "nat (int x - 1) = x - Suc 0" "\<not> 2 * 2 ^ H \<le> x - Suc 0" using x by auto
  ultimately show ?thesis using b x \<open>u32n (2 * 2 ^ H) = 2 * 2 ^ H\<close>
    by (simp add: priskv_buddy_free_def Let_def)
qed

lemma buddy_free_used:
  assumes "buddy_rep b H t" "(y, n) \<in> used H 0 t" "y \<le> x" "x < y + n"
  shows "\<exists>b' t'. priskv_buddy_free b (bd_base b + (x - bd_nmemb b) * bd_size b) = Some b'
     \<and> buddy_rep b' H t' \<and> used H 0 t' = used H 0 t - {(y, n)}
     \<and> bd_nmemb b' = bd_nmemb b \<and> bd_size b' = bd_size b \<and> bd_base b' = bd_base b"
proof -
  from assms(1) have b: "length (bd_meta b) = 2 ^ Suc H" "H \<le> 30" "rep (bd_meta b) H 0 t"
    "bd_inuse b = blocks H t" by (simp_all add: buddy_rep_def)
  have x: "x \<in> node_leaves H 0" using used_within [OF b(3) assms(2)] assms(3,4) by (auto simp: bytes_of_def)
  have cov: "x \<in> \<Union> (bytes_of ` used H 0 t)" using assms(2-4) by (force simp: bytes_of_def)
  with leaf_cases [OF b(3) _ x, of H "[]"] obtain k j c where at: "at (bd_meta b) H k j c"
    and u: "rep (bd_meta b) k j Used_node" "x \<in> node_leaves k j"
    "\<forall>d < k. bd_meta b ! (x div 2 ^ d - 1) \<noteq> 0" "plug c Used_node = t" by auto
  from at_height [OF at] at_index [OF at] b(1) have k: "k \<le> H" and j: "j < length (bd_meta b)" by simp_all
  have "free_climb (bd_meta b) 1 (x - 1) = free_climb (bd_meta b) (2 ^ k) j"
    using free_climb_path [OF b(1,2) k _ _ u(3)] x leaf_node [OF u(2)] by (simp add: node_leaves_def)
  moreover have "bd_meta b ! j = 0" using rep_room [OF u(1)] by simp
  ultimately have climb: "free_climb (bd_meta b) 1 (x - 1) = Some (Some (2 ^ k, j))"
    using j by (simp add: free_climb.simps)
  let ?m = "(bd_meta b)[j := 2 ^ k]"
  have "\<not> below (L_LEAF j) j" "\<not> below (R_LEAF j) j"
    using below_le LEAF_less by (meson not_le order.strict_trans)+
  with u(1) j have "rep ?m k j Free_node" by (cases k) (simp_all add: rep_frame)
  moreover have "at ?m H k j c" using at_frame [OF below_refl at] .
  ultimately obtain m where m: "free_up ?m (2 ^ k) j = Some m" "length m = length ?m" "rep m H 0 (plug c Free_node)"
    using free_up_rep [of ?m H k j c Free_node] b by auto
  have "blocks H t = blocks H (plug c Free_node) + 2 ^ k"
    using blocks_plug [OF at] u(4) by force
  moreover have "blocks H t \<le> 2 ^ 30"
    using blocks_le [OF b(3)] power_increasing [OF b(2), of "2::nat"] by simp
  ultimately have "u32_sub (bd_inuse b) (2 ^ k) = blocks H (plug c Free_node)"
    using b(4) by (simp add: wrap_simps)
  then have r: "buddy_rep (b\<lparr>bd_meta := m, bd_inuse := u32_sub (bd_inuse b) (2 ^ k)\<rparr>) H (plug c Free_node)"
    using assms(1) m by (simp add: buddy_rep_def)
  have us: "used H 0 (plug c s) = used k j s \<union> used_at k j c" for s using used_plug [OF at] .
  let ?x = "((j + 1) * 2 ^ k, 2 ^ k)"
  have xin: "x \<in> bytes_of ?x" using u(2) by (simp add: bytes_of_def node_leaves_def algebra_simps)
  have "?x \<in> used H 0 t" using us [of Used_node] u(4) by simp
  moreover have "x \<in> bytes_of (y, n)" using assms(3,4) by (simp add: bytes_of_def)
  ultimately have eq: "?x = (y, n)"
    using used_separated [OF b(3)] assms(2) xin unfolding separated_def by blast
  have "?x \<notin> used_at k j c" using used_fresh [OF at, of ?x] xin u(2) by blast
  then have "used H 0 (plug c Free_node) = used H 0 t - {(y, n)}"
    using us [of Free_node] us [of Used_node] u(4) eq by auto
  with r m(1) climb buddy_free_step [OF assms(1) x] show ?thesis by auto
qed

lemma buddy_free_unused:
  assumes "buddy_rep b H t" "x \<in> node_leaves H 0" "x \<notin> \<Union> (bytes_of ` used H 0 t)"
  shows "priskv_buddy_free b (bd_base b + (x - bd_nmemb b) * bd_size b) = Some b"
proof -
  from assms(1) have b: "length (bd_meta b) = 2 ^ Suc H" "H \<le> 30" "rep (bd_meta b) H 0 t"
    by (simp_all add: buddy_rep_def)
  have no: False if "at (bd_meta b) H k j c" "x \<in> node_leaves k j" "plug c Used_node = t" for k j c
  proof -
    have "((j + 1) * 2 ^ k, 2 ^ k) \<in> used H 0 t"
      using used_plug [OF that(1), of Used_node] that(3) by simp
    moreover have "x \<in> bytes_of ((j + 1) * 2 ^ k, 2 ^ k)"
      using that(2) by (simp add: bytes_of_def node_leaves_def algebra_simps)
    ultimately show False using assms(3) by blast
  qed
  have nz: "\<forall>d \<le> H. bd_meta b ! (x div 2 ^ d - 1) \<noteq> 0"
    using leaf_cases [OF b(3) _ assms(2), of H "[]"] no by auto
  then have "free_climb (bd_meta b) 1 (x - 1) = free_climb (bd_meta b) (2 ^ H) 0"
    using free_climb_path [OF b(1,2) order_refl, of x] assms(2) leaf_node [OF assms(2)]
    by (simp add: node_leaves_def)
  moreover have "bd_meta b ! 0 \<noteq> 0" using nz leaf_node [OF assms(2)] by (metis add_diff_cancel_right' order_refl)
  ultimately show ?thesis using buddy_free_step [OF assms(1,2)] b(1) by (simp add: free_climb.simps)
qed

lemma block_region_separated:
  assumes "0 < bd_size b" "separated X" "\<forall>x \<in> X. bd_nmemb b \<le> fst x"
  shows "separated (block_region b ` X)"
  unfolding separated_def
proof (intro conjI ballI impI)
  fix r q assume "r \<in> block_region b ` X" "q \<in> block_region b ` X" "r \<noteq> q"
  then obtain x y where xy: "x \<in> X" "y \<in> X" "x \<noteq> y" "r = block_region b x" "q = block_region b y" by auto
  let ?z = "bd_size b" and ?n = "bd_nmemb b"
  from xy assms(2) have "bytes_of x \<inter> bytes_of y = {}" "0 < snd x" "0 < snd y" by (auto simp: separated_def)
  then have "fst x + snd x \<le> fst y \<or> fst y + snd y \<le> fst x"
    by (auto simp: bytes_of_def disjoint_iff)
  then have "(fst x - ?n + snd x) * ?z \<le> (fst y - ?n) * ?z \<or> (fst y - ?n + snd y) * ?z \<le> (fst x - ?n) * ?z"
    using assms(3) xy(1,2) by (auto intro!: mult_le_mono1)
  then show "bytes_of r \<inter> bytes_of q = {}"
    unfolding xy(4,5) by (auto simp: bytes_of_def block_region_def algebra_simps)
qed (use assms in \<open>auto simp: block_region_def separated_def\<close>)

lemma used_range:
  assumes "buddy_rep b H t" "x \<in> used H 0 t"
  shows "bd_nmemb b \<le> fst x" "fst x + snd x \<le> 2 * bd_nmemb b" "0 < snd x" "fst x \<in> node_leaves H 0"
proof -
  from assms(1) have n: "bd_nmemb b = 2 ^ H" and r: "rep (bd_meta b) H 0 t" by (simp_all add: buddy_rep_def)
  from used_within [OF r assms(2)] have w: "bytes_of x \<subseteq> node_leaves H 0" "0 < snd x" by simp_all
  then have "fst x \<in> bytes_of x" "fst x + snd x - 1 \<in> bytes_of x" by (auto simp: bytes_of_def)
  with w(1) have "fst x \<in> node_leaves H 0" "fst x + snd x - 1 \<in> node_leaves H 0" by blast+
  with w(2) n show "bd_nmemb b \<le> fst x" "fst x + snd x \<le> 2 * bd_nmemb b" "0 < snd x" "fst x \<in> node_leaves H 0"
    by (auto simp: node_leaves_def)
qed

lemma block_region_inj:
  "0 < bd_size b \<Longrightarrow> bd_nmemb b \<le> fst x \<Longrightarrow> bd_nmemb b \<le> fst y \<Longrightarrow>
     block_region b x = block_region b y \<longleftrightarrow> x = y"
  by (auto simp: block_region_def prod_eq_iff)

lemma block_region_cong:
  "bd_nmemb b' = bd_nmemb b \<Longrightarrow> bd_size b' = bd_size b \<Longrightarrow> bd_base b' = bd_base b \<Longrightarrow>
     block_region b' = block_region b"
  by (auto simp: block_region_def)

lemma buddy_alloc_cases:
  assumes "buddy_ok b" "buddy_serves b n" "priskv_buddy_alloc b n = Some (r, b')"
  shows "bd_nmemb b' = bd_nmemb b \<and> bd_size b' = bd_size b \<and> bd_base b' = bd_base b
     \<and> (case r of None \<Rightarrow> b' = b
        | Some a \<Rightarrow> buddy_ok b' \<and> (\<exists>m \<ge> n. (a, m) \<notin> buddy_live b \<and> buddy_live b' = insert (a, m) (buddy_live b)))"
proof -
  from assms(1) obtain H t where b: "buddy_rep b H t" by (auto simp: buddy_ok_def)
  then have z: "0 < bd_size b" by (simp add: buddy_rep_def)
  from alignup_order [OF z assms(2)] obtain k where k: "order_for b n k" by blast
  show ?thesis
  proof (cases "2 ^ k \<le> room H t")
    case True
    from buddy_alloc_block [OF b assms(2) k True] assms(3) obtain x t' where
      a: "r = Some (fst (block_region b (x, 2 ^ k)))" "buddy_rep b' H t'"
      "used H 0 t' = insert (x, 2 ^ k) (used H 0 t)" "(x, 2 ^ k) \<notin> used H 0 t"
      "bd_nmemb b' = bd_nmemb b" "bd_size b' = bd_size b" "bd_base b' = bd_base b" by auto
    have x: "bd_nmemb b \<le> x" using used_range(1) [OF a(2), of "(x, 2 ^ k)"] a(3,5) by simp
    have "block_region b (x, 2 ^ k) \<notin> buddy_live b"
      unfolding buddy_live_rep [OF b] using a(4) x block_region_inj [OF z] used_range(1) [OF b] by auto
    moreover have "buddy_live b' = insert (block_region b (x, 2 ^ k)) (buddy_live b)"
      using buddy_live_rep [OF b] buddy_live_rep [OF a(2)] a(3) block_region_cong [OF a(5-7)] by simp
    moreover have "n \<le> snd (block_region b (x, 2 ^ k))"
      using k by (simp add: order_for_def block_region_def)
    moreover obtain c m where "block_region b (x, 2 ^ k) = (c, m)" by fastforce
    moreover have "buddy_ok b'" using a(2) by (auto simp: buddy_ok_def)
    ultimately show ?thesis using a(1,5-7) by auto
  next
    case False
    with buddy_alloc_NULL [OF b assms(2) k] assms(3) show ?thesis by auto
  qed
qed

lemma buddy_alloc_total: "buddy_ok b \<Longrightarrow> buddy_serves b n \<Longrightarrow> \<exists>r. priskv_buddy_alloc b n = Some r"
proof -
  assume "buddy_ok b" "buddy_serves b n"
  then obtain H t where b: "buddy_rep b H t" by (auto simp: buddy_ok_def)
  then have "0 < bd_size b" by (simp add: buddy_rep_def)
  from alignup_order [OF this \<open>buddy_serves b n\<close>] obtain k where "order_for b n k" by blast
  with buddy_alloc_block [OF b \<open>buddy_serves b n\<close>] buddy_alloc_NULL [OF b \<open>buddy_serves b n\<close>]
  show ?thesis by (meson not_le)
qed

lemma buddy_free_live:
  assumes "buddy_ok b" "(a, m) \<in> buddy_live b"
  shows "\<exists>b'. priskv_buddy_free b a = Some b' \<and> buddy_ok b' \<and> buddy_live b' = buddy_live b - {(a, m)}
     \<and> bd_nmemb b' = bd_nmemb b \<and> bd_size b' = bd_size b \<and> bd_base b' = bd_base b"
proof -
  from assms(1) obtain H t where b: "buddy_rep b H t" by (auto simp: buddy_ok_def)
  then have z: "0 < bd_size b" by (simp add: buddy_rep_def)
  from assms(2) buddy_live_rep [OF b] obtain x n where x: "(x, n) \<in> used H 0 t" "(a, m) = block_region b (x, n)"
    by auto
  from used_range [OF b x(1)] have "x < x + n" by simp
  from buddy_free_used [OF b x(1) order_refl this] obtain b' t' where f:
    "priskv_buddy_free b a = Some b'" "buddy_rep b' H t'" "used H 0 t' = used H 0 t - {(x, n)}"
    "bd_nmemb b' = bd_nmemb b" "bd_size b' = bd_size b" "bd_base b' = bd_base b"
    using x(2) by (auto simp: block_region_def)
  have "block_region b ` (used H 0 t - {(x, n)}) = block_region b ` used H 0 t - {block_region b (x, n)}"
    using block_region_inj [OF z] used_range(1) [OF b] x(1) by auto
  then have "buddy_live b' = buddy_live b - {(a, m)}"
    using buddy_live_rep [OF b] buddy_live_rep [OF f(2)] f(3) block_region_cong [OF f(4-6)] x(2) by simp
  with f show ?thesis by (auto simp: buddy_ok_def)
qed

interpretation bdy: allocator buddy_ok buddy_live buddy_serves priskv_buddy_alloc priskv_buddy_free
proof (unfold_locales, goal_cases)
  case (1 b)
  then obtain H t where b: "buddy_rep b H t" by (auto simp: buddy_ok_def)
  then have "rep (bd_meta b) H 0 t" "0 < bd_size b" by (simp_all add: buddy_rep_def)
  with used_separated used_range(1) [OF b] show ?case
    unfolding buddy_live_rep [OF b] by (intro block_region_separated) auto
next
  case (2 b n) then show ?case by (rule buddy_alloc_total)
next
  case (3 b n b') then show ?case using buddy_alloc_cases [of b n None b'] by simp
next
  case (4 b n a b') then show ?case using buddy_alloc_cases [of b n "Some a" b'] by simp
next
  case (5 b k r b' n) then show ?case using buddy_alloc_cases [of b k r b'] by (simp add: buddy_serves_def)
next
  case (6 b a m) then show ?case using buddy_free_live by blast
next
  case (7 b a m b' n) then show ?case using buddy_free_live [of b a m] by (auto simp: buddy_serves_def)
qed

section \<open>Creation\<close>

lemma bit_width_eq: "2 ^ w \<le> n \<Longrightarrow> n < 2 ^ Suc w \<Longrightarrow> bit_width n = Suc w"
proof -
  assume n: "2 ^ w \<le> n" "n < 2 ^ Suc w"
  have pos: "0 < n" using n(1) by (rule less_le_trans [rotated]) simp
  have "(2::nat) ^ w < 2 ^ bit_width n" using n(1) bit_width_less [of n] by linarith
  then have "w < bit_width n" by simp
  moreover have "(2::nat) ^ (bit_width n - 1) < 2 ^ Suc w" using bit_width_le [OF pos] n(2) by linarith
  then have "bit_width n - 1 < Suc w" by (rule power_less_imp_less_exp [rotated]) simp
  ultimately show ?thesis by simp
qed

lemma bit_width_Suc:
  assumes "Suc n < 2 ^ 32"
  shows "bit_width (Suc n) = (if is_pow2 (n + 1) then Suc (bit_width n) else bit_width n)"
proof (cases "n = 0")
  case True then show ?thesis by (simp add: bit_width.simps IS_POWER_OF_2_def)
next
  case False
  then obtain w where w: "2 ^ w \<le> n" "n < 2 ^ Suc w" using ex_power_ivl1 [of 2 n] by auto
  have pow: "is_pow2 (Suc n) \<longleftrightarrow> (\<exists>k < 32. Suc n = 2 ^ k)" using is_pow2_iff [OF assms] by simp
  show ?thesis
  proof (cases "Suc n = 2 ^ Suc w")
    case True
    have "(2::nat) ^ Suc w < 2 ^ 32" using assms True by simp
    then have "Suc w < 32" by (rule power_less_imp_less_exp [rotated]) simp
    with True pow have "is_pow2 (n + 1)" by (metis Suc_eq_plus1)
    moreover have "bit_width (Suc n) = Suc (Suc w)" using True by (intro bit_width_eq) auto
    ultimately show ?thesis using bit_width_eq [OF w] by simp
  next
    case False
    with w have r: "2 ^ w < Suc n" "Suc n < 2 ^ Suc w" by auto
    have "\<not> is_pow2 (Suc n)"
    proof
      assume "is_pow2 (Suc n)"
      with pow obtain k where k: "Suc n = 2 ^ k" by blast
      with r have "(2::nat) ^ w < 2 ^ k" and less: "(2::nat) ^ k < 2 ^ Suc w" by simp_all
      then have "w < k" by simp
      moreover from less have "k < Suc w" by (rule power_less_imp_less_exp [rotated]) simp
      ultimately show False by simp
    qed
    with bit_width_eq [OF w] bit_width_eq [of w "Suc n"] r show ?thesis by simp
  qed
qed

lemma create_loop:
  assumes "H \<le> 30" "n < 2 ^ Suc H" "length mem = 2 ^ Suc H"
  shows "\<exists>meta. fold create_step [0..<n] (2 ^ Suc H, mem) = (2 ^ (Suc H - bit_width n), meta)
     \<and> length meta = 2 ^ Suc H \<and> (\<forall>i < n. meta ! i = 2 ^ (Suc H - bit_width (Suc i)))"
  using assms(2)
proof (induction n)
  case 0 then show ?case using assms(3) by simp
next
  case (Suc n)
  then obtain meta where m: "fold create_step [0..<n] (2 ^ Suc H, mem) = (2 ^ (Suc H - bit_width n), meta)"
    "length meta = 2 ^ Suc H" "\<forall>i < n. meta ! i = 2 ^ (Suc H - bit_width (Suc i))" by auto
  have "(2::nat) ^ Suc H \<le> 2 ^ 31" using assms(1) by (intro power_increasing) auto
  then have b: "bit_width (Suc n) = (if is_pow2 (n + 1) then Suc (bit_width n) else bit_width n)"
    using Suc.prems by (intro bit_width_Suc) simp
  have "(2::nat) ^ (bit_width (Suc n) - 1) < 2 ^ Suc H" using bit_width_le [of "Suc n"] Suc.prems by linarith
  then have "bit_width (Suc n) - 1 < Suc H" by (rule power_less_imp_less_exp [rotated]) simp
  then have "Suc H - bit_width n = Suc (Suc H - bit_width (Suc n))" if "is_pow2 (n + 1)"
    using b that by simp
  then have "create_step n (2 ^ (Suc H - bit_width n), meta) =
      (2 ^ (Suc H - bit_width (Suc n)), meta[n := 2 ^ (Suc H - bit_width (Suc n))])"
    using b by (cases "is_pow2 (n + 1)") (simp_all add: create_step_def Let_def del: of_nat_add of_nat_Suc)
  then show ?case using m Suc.prems by (auto simp: nth_list_update less_Suc_eq simp del: power_Suc)
qed

lemma rep_Free_I:
  "\<forall>d \<le> h. \<forall>j. (i + 1) * 2 ^ d \<le> j + 1 \<and> j + 1 < (i + 2) * 2 ^ d \<longrightarrow> m ! j = 2 ^ (h - d) \<Longrightarrow> rep m h i Free_node"
proof (induction h arbitrary: i)
  case 0 then show ?case by simp
next
  case (Suc h)
  have "m ! i = 2 ^ Suc h" using Suc.prems [rule_format, of 0 i] by simp
  moreover have "rep m h c Free_node" if "c = L_LEAF i \<or> c = R_LEAF i" for c
  proof (intro Suc.IH allI impI, elim conjE)
    fix d j assume "d \<le> h" and j: "(c + 1) * 2 ^ d \<le> j + 1" "j + 1 < (c + 2) * 2 ^ d"
    have "(i + 1) * 2 \<le> c + 1" "c + 2 \<le> (i + 2) * 2" using that by (auto simp: L_LEAF_def R_LEAF_def)
    then have "(i + 1) * 2 * 2 ^ d \<le> (c + 1) * 2 ^ d" "(c + 2) * 2 ^ d \<le> (i + 2) * 2 * 2 ^ d"
      by (intro mult_le_mono1; simp)+
    with j have "(i + 1) * 2 ^ Suc d \<le> j + 1 \<and> j + 1 < (i + 2) * 2 ^ Suc d" by (simp add: mult.assoc)
    from Suc.prems [rule_format, OF _ this] \<open>d \<le> h\<close> show "m ! j = 2 ^ (h - d)" by simp
  qed
  ultimately show ?case by simp
qed

lemma buddy_create_ok:
  assumes "H \<le> 30" "0 < sz" "length mem = 2 * 2 ^ H"
  shows "\<exists>b. priskv_buddy_create mem (Some base) (2 ^ H) sz = Some (Some b) \<and> buddy_rep b H Free_node
     \<and> bd_nmemb b = 2 ^ H \<and> bd_size b = sz \<and> bd_base b = base"
proof -
  let ?n = "2 ^ Suc H - 1 :: nat"
  have le: "(2::nat) ^ Suc H \<le> 2 ^ 31" using assms(1) by (intro power_increasing) auto
  then have n: "u32n (2 ^ H * 2) = 2 ^ Suc H" "u32_sub (2 ^ Suc H) 1 = ?n" by (simp_all add: wrap_simps)
  from create_loop [OF assms(1), of ?n mem] assms(3) obtain meta where
    m: "snd (fold create_step [0..<?n] (2 ^ Suc H, mem)) = meta"
    "length meta = 2 ^ Suc H" "\<forall>i < ?n. meta ! i = 2 ^ (Suc H - bit_width (Suc i))" by auto
  have "meta ! j = 2 ^ (H - d)" if "d \<le> H" "2 ^ d \<le> j + 1" "j + 1 < 2 * 2 ^ d" for d j
  proof -
    have "2 * (2::nat) ^ d \<le> 2 ^ Suc H" using that(1) by simp
    with that(3) have "j < ?n" by linarith
    moreover have "bit_width (Suc j) = Suc d" using that by (intro bit_width_eq) auto
    ultimately show ?thesis using m(3) by simp
  qed
  then have "rep meta H 0 Free_node" by (intro rep_Free_I) simp
  moreover have "is_pow2 (2 ^ H)"
  proof -
    have "2 ^ H < (2::nat) ^ 32" "H < 32" using le assms(1) by simp_all
    then show ?thesis using is_pow2_iff [of "2 ^ H"] by blast
  qed
  moreover have "\<not> length mem < ?n" using assms(3) by simp
  ultimately show ?thesis unfolding priskv_buddy_create_def Let_def n option.case m(1)
    using m(2) assms(1,2) by (simp add: buddy_rep_def del: power_Suc)
qed

section \<open>Completeness\<close>

lemma node_leaves_iff: "x \<in> node_leaves h i \<longleftrightarrow> x div 2 ^ h = i + 1"
proof
  assume "x div 2 ^ h = i + 1"
  then have "x = (i + 1) * 2 ^ h + x mod 2 ^ h" by (metis div_mult_mod_eq)
  moreover have "x mod 2 ^ h < 2 ^ h" by simp
  ultimately have "(i + 1) * 2 ^ h \<le> x" "x < (i + 1) * 2 ^ h + 2 ^ h" by linarith+
  then show "x \<in> node_leaves h i" by (simp add: node_leaves_def algebra_simps)
qed (rule leaf_node)

lemma used_empty: "rep m h i t \<Longrightarrow> used h i t = {} \<Longrightarrow> t = Free_node"
  by (induction m h i t rule: rep.induct) auto

lemma room_complete:
  assumes "rep m h i t" "k \<le> h" "node_leaves k j \<subseteq> node_leaves h i"
    "node_leaves k j \<inter> \<Union> (bytes_of ` used h i t) = {}"
  shows "2 ^ k \<le> room h t"
  using assms
proof (induction h arbitrary: i t)
  case 0
  have "j + 1 \<in> node_leaves 0 j" by (simp add: node_leaves_def)
  with 0 have "t \<noteq> Used_node" by (auto simp: node_leaves_def bytes_of_def)
  with 0 show ?case by (cases t) auto
next
  case (Suc h)
  define x where "x = (j + 1) * 2 ^ k"
  have x: "x \<in> node_leaves k j" by (simp add: x_def node_leaves_def)
  show ?case
  proof (cases t)
    case Free_node with Suc.prems(2) show ?thesis by (simp del: power_Suc)
  next
    case Used_node
    then have "\<Union> (bytes_of ` used (Suc h) i t) = node_leaves (Suc h) i"
      by (auto simp: bytes_of_def node_leaves_def)
    with Suc.prems x show ?thesis by blast
  next
    case (Split l r)
    with Suc.prems(1) have lr: "rep m h (L_LEAF i) l" "rep m h (R_LEAF i) r"
      "\<not> (l = Free_node \<and> r = Free_node)" by simp_all
    show ?thesis
    proof (cases "k = Suc h")
      case True
      have "x \<in> node_leaves (Suc h) i" using Suc.prems(3) x by blast
      with x True have "j = i" by (simp add: node_leaves_iff)
      have "used (Suc h) i t = {}"
      proof (rule ccontr)
        assume "used (Suc h) i t \<noteq> {}"
        then obtain b where b: "b \<in> used (Suc h) i t" by blast
        from used_within [OF Suc.prems(1) b] have "fst b \<in> bytes_of b" "bytes_of b \<subseteq> node_leaves k j"
          using True \<open>j = i\<close> by (auto simp: bytes_of_def)
        with Suc.prems(4) b show False by blast
      qed
      with Suc.prems(1) Split used_empty show ?thesis by blast
    next
      case False
      with Suc.prems have k: "k \<le> h" by simp
      from Suc.prems(3) x have "x \<in> node_leaves h (L_LEAF i) \<or> x \<in> node_leaves h (R_LEAF i)"
        using node_leaves_Un [of h i] by blast
      then obtain c s where c: "x \<in> node_leaves h c" "rep m h c s" "c = L_LEAF i \<and> s = l \<or> c = R_LEAF i \<and> s = r"
        using lr by blast
      have "y div 2 ^ h = (y div 2 ^ k) div 2 ^ (h - k)" for y :: nat
        using k by (metis div_mult2_eq le_add_diff_inverse power_add)
      then have "node_leaves k j \<subseteq> node_leaves h c" using c(1) x by (auto simp: node_leaves_iff)
      moreover have "used h c s \<subseteq> used (Suc h) i t" using c(3) Split by auto
      ultimately have "2 ^ k \<le> room h s" using Suc.IH [OF c(2) k] Suc.prems(4) by blast
      then show ?thesis using c(3) Split by auto
    qed
  qed
qed

text \<open>Runs of blocks, in addresses.\<close>

definition run_bytes :: "buddy \<Rightarrow> nat \<Rightarrow> nat \<Rightarrow> addr set" where
  "run_bytes b off n = {bd_base b + off * bd_size b..<bd_base b + (off + n) * bd_size b}"

lemma run_bytes_live:
  assumes "buddy_rep b H t" "0 < n"
  shows "run_bytes b off n \<inter> \<Union> (bytes_of ` buddy_live b) = {} \<longleftrightarrow>
    {off + bd_nmemb b..<off + n + bd_nmemb b} \<inter> \<Union> (bytes_of ` used H 0 t) = {}"
proof -
  let ?z = "bd_size b" and ?n = "bd_nmemb b"
  have z: "0 < ?z" using assms(1) by (simp add: buddy_rep_def)
  have *: "run_bytes b off n \<inter> bytes_of (block_region b x) = {} \<longleftrightarrow>
     {off + ?n..<off + n + ?n} \<inter> bytes_of x = {}" if "?n \<le> fst x" "0 < snd x" for x
  proof -
    from that(1) obtain y where y: "fst x = ?n + y" by (metis le_add_diff_inverse)
    have "run_bytes b off n \<inter> bytes_of (block_region b x) = {} \<longleftrightarrow>
        bd_base b + (off + n) * ?z \<le> bd_base b + y * ?z \<or> bd_base b + y * ?z + snd x * ?z \<le> bd_base b + off * ?z"
      unfolding run_bytes_def bytes_of_def block_region_def fst_conv snd_conv y add_diff_cancel_left'
      using z assms(2) that(2) by (intro ivl_disjoint_iff) auto
    also have "\<dots> \<longleftrightarrow> (off + n) * ?z \<le> y * ?z \<or> (y + snd x) * ?z \<le> off * ?z"
      by (simp add: add_mult_distrib)
    also have "\<dots> \<longleftrightarrow> off + n \<le> y \<or> y + snd x \<le> off" using z by simp
    also have "\<dots> \<longleftrightarrow> off + n + ?n \<le> fst x \<or> fst x + snd x \<le> off + ?n" using y by auto
    also have "\<dots> \<longleftrightarrow> {off + ?n..<off + n + ?n} \<inter> bytes_of x = {}"
      unfolding bytes_of_def using assms(2) that(2) by (intro ivl_disjoint_iff [symmetric]) auto
    finally show ?thesis .
  qed
  have "run_bytes b off n \<inter> bytes_of (block_region b x) = {} \<longleftrightarrow>
     {off + ?n..<off + n + ?n} \<inter> bytes_of x = {}" if "x \<in> used H 0 t" for x
    using * used_range(1,3) [OF assms(1) that] by blast
  then show ?thesis unfolding buddy_live_rep [OF assms(1)] by blast
qed

lemma buddy_NULL_iff:
  assumes "buddy_rep b H t" "buddy_serves b n" "order_for b n k"
  shows "priskv_buddy_alloc b n = Some (None, b) \<longleftrightarrow> room H t < 2 ^ k"
proof (cases "room H t < 2 ^ k")
  case False
  then have "2 ^ k \<le> room H t" by simp
  from buddy_alloc_block [OF assms this] False show ?thesis by auto
qed (simp add: buddy_alloc_NULL [OF assms])

lemma room_iff_run:
  assumes "buddy_rep b H t"
  shows "2 ^ k \<le> room H t \<longleftrightarrow> (\<exists>off. 2 ^ k dvd off \<and> off + 2 ^ k \<le> bd_nmemb b
     \<and> run_bytes b off (2 ^ k) \<inter> \<Union> (bytes_of ` buddy_live b) = {})"
    (is "_ \<longleftrightarrow> (\<exists>off. ?run off)")
proof
  from assms have b: "length (bd_meta b) = 2 ^ Suc H" "rep (bd_meta b) H 0 t" and n: "bd_nmemb b = 2 ^ H"
    by (simp_all add: buddy_rep_def)
  have leaves: "{off + 2 ^ H..<off + 2 ^ k + 2 ^ H} = node_leaves k j" if "off + 2 ^ H = (j + 1) * 2 ^ k" for off j
  proof -
    have e: "off + 2 ^ k + 2 ^ H = (j + 2) * 2 ^ k" using that by simp
    show ?thesis unfolding node_leaves_def that e ..
  qed
  assume le: "2 ^ k \<le> room H t"
  with room_le [OF b(2)] have "(2::nat) ^ k \<le> 2 ^ H" by linarith
  then have kH: "k \<le> H" by simp
  from alloc_descend_rep [OF b(1) kH _ b(2) le, of "[]"] obtain j c where
    d: "at (bd_meta b) H k j c" "plug c Free_node = t" by auto
  define off where "off = (j + 1) * 2 ^ k - 2 ^ H"
  have off: "off + 2 ^ H = (j + 1) * 2 ^ k" "off + 2 ^ k \<le> 2 ^ H"
    using at_range [OF d(1)] by (auto simp: off_def algebra_simps)
  have "(2::nat) ^ k dvd off + 2 ^ H" unfolding off(1) by simp
  moreover have p: "(2::nat) ^ k dvd 2 ^ H" using kH by (rule le_imp_power_dvd)
  ultimately have "2 ^ k dvd off" by (simp only: dvd_add_left_iff [OF p])
  moreover have "node_leaves k j \<inter> \<Union> (bytes_of ` used H 0 t) = {}"
    using used_fresh [OF d(1)] used_plug [OF d(1), of Free_node] d(2) by auto
  ultimately show "\<exists>off. ?run off"
    using off leaves [OF off(1)] run_bytes_live [OF assms, of "2 ^ k" off] n by auto
next
  from assms have b: "rep (bd_meta b) H 0 t" and n: "bd_nmemb b = 2 ^ H" by (simp_all add: buddy_rep_def)
  assume "\<exists>off. ?run off"
  then obtain off where off: "2 ^ k dvd off" "off + 2 ^ k \<le> 2 ^ H"
    "{off + 2 ^ H..<off + 2 ^ k + 2 ^ H} \<inter> \<Union> (bytes_of ` used H 0 t) = {}"
    using run_bytes_live [OF assms, of "2 ^ k"] n by auto
  from off(2) have "(2::nat) ^ k \<le> 2 ^ H" by linarith
  then have kH: "k \<le> H" by simp
  then have "(2::nat) ^ k dvd 2 ^ H" by (rule le_imp_power_dvd)
  with off(1) have "2 ^ k dvd off + 2 ^ H" by (rule dvd_add)
  then obtain q where q: "off + 2 ^ H = q * 2 ^ k" by (auto simp: dvd_def mult.commute)
  then have "q \<noteq> 0" by (intro notI) simp
  then obtain j where "q = j + 1" by (cases q) auto
  with q have j: "off + 2 ^ H = (j + 1) * 2 ^ k" by simp
  then have e: "off + 2 ^ k + 2 ^ H = (j + 2) * 2 ^ k" by simp
  have l: "{off + 2 ^ H..<off + 2 ^ k + 2 ^ H} = node_leaves k j" unfolding node_leaves_def j e ..
  have "node_leaves k j \<subseteq> node_leaves H 0"
    unfolding l [symmetric] using off(2) by (auto simp: node_leaves_def)
  with room_complete [OF b kH] off(3) l show "2 ^ k \<le> room H t" by simp
qed

lemma block_region_mem:
  assumes "0 < bd_size b" "bd_nmemb b \<le> fst x"
  shows "bd_base b + off * bd_size b \<in> bytes_of (block_region b x) \<longleftrightarrow> off + bd_nmemb b \<in> bytes_of x"
proof -
  let ?z = "bd_size b"
  from assms(2) obtain y where y: "fst x = bd_nmemb b + y" by (metis le_add_diff_inverse)
  have "bd_base b + off * ?z \<in> bytes_of (block_region b x) \<longleftrightarrow>
      y * ?z \<le> off * ?z \<and> off * ?z < (y + snd x) * ?z"
    by (simp add: bytes_of_def block_region_def y add_mult_distrib del: mult_le_cancel2 mult_less_cancel2)
  also have "\<dots> \<longleftrightarrow> y \<le> off \<and> off < y + snd x" using assms(1) by simp
  also have "\<dots> \<longleftrightarrow> off + bd_nmemb b \<in> bytes_of x" using y by (auto simp: bytes_of_def)
  finally show ?thesis .
qed

section \<open>Properties\<close>

text \<open>
  C11: Start with a buddy as \<open>priskv_buddy_create\<close> returns it on a power of two of blocks,
  with room for its array, and run any sequence of allocations and of frees of live blocks:
  no assertion fails and no loop leaves the array or runs forever, the array stays a
  consistent buddy tree with \<open>inuse\<close> its number of used blocks, and the live blocks do not
  overlap.
\<close>

theorem buddy_run_safe:
  assumes "priskv_buddy_create mem (Some base) (2 ^ H) sz = Some (Some b)"
    and "H \<le> 30" "0 < sz" "length mem = 2 * 2 ^ H" "\<forall>op' \<in> set ops. bdy.served b op'"
  shows "\<exists>b'. bdy.run ops b = Some b' \<and> buddy_ok b' \<and> separated (buddy_live b')"
proof -
  from buddy_create_ok [OF assms(2-4), of base] assms(1) have "buddy_ok b" by (auto simp: buddy_ok_def)
  then show ?thesis using assms(5) by (rule bdy.run_inv)
qed

theorem buddy_run_safe_witness:
  "\<exists>b b'. priskv_buddy_create (replicate 8 0) (Some 4096) (2 ^ 2) 16 = Some (Some b)
     \<and> bdy.run [Alloc 20, Alloc 1, Free 4096, Alloc 64] b = Some b'
     \<and> buddy_ok b' \<and> separated (buddy_live b')"
proof -
  obtain b where b: "priskv_buddy_create (replicate 8 0) (Some 4096) (2 ^ 2) 16 = Some (Some b)" "bd_size b = 16"
    using buddy_create_ok [of 2 16 "replicate 8 0" 4096] by auto
  from buddy_run_safe [OF b(1), of "[Alloc 20, Alloc 1, Free 4096, Alloc 64]"] b show ?thesis
    by (auto simp: buddy_serves_def)
qed

text \<open>
  C23: The allocation fails only when it must. For a request that rounds up to \<open>2 ^ k\<close>
  blocks, \<open>priskv_buddy_alloc\<close> returns NULL if and only if every run of \<open>2 ^ k\<close> blocks
  aligned to its own size meets a live block.
\<close>

theorem buddy_alloc_complete:
  assumes "buddy_ok b" "buddy_serves b n" "order_for b n k"
  shows "priskv_buddy_alloc b n = Some (None, b) \<longleftrightarrow>
     \<not> (\<exists>off. 2 ^ k dvd off \<and> off + 2 ^ k \<le> bd_nmemb b
        \<and> run_bytes b off (2 ^ k) \<inter> \<Union> (bytes_of ` buddy_live b) = {})"
proof -
  from assms(1) obtain H t where b: "buddy_rep b H t" by (auto simp: buddy_ok_def)
  show ?thesis unfolding buddy_NULL_iff [OF b assms(2,3)] room_iff_run [OF b, symmetric] by (simp add: not_le)
qed

theorem buddy_alloc_complete_witness:
  "\<exists>b. priskv_buddy_create (replicate 8 0) (Some 4096) (2 ^ 2) 16 = Some (Some b)
     \<and> priskv_buddy_alloc b 20 \<noteq> Some (None, b)"
proof -
  obtain b where b: "priskv_buddy_create (replicate 8 0) (Some 4096) (2 ^ 2) 16 = Some (Some b)"
    "buddy_rep b 2 Free_node" "bd_size b = 16" "bd_nmemb b = 4"
    using buddy_create_ok [of 2 16 "replicate 8 0" 4096] by auto
  have "order_for b 20 1"
  proof -
    have "1 \<le> j" if "20 \<le> (2::nat) ^ j * 16" for j using that by (cases j) auto
    then show ?thesis using b(3) by (simp add: order_for_def)
  qed
  moreover have ok: "buddy_ok b" "buddy_serves b 20" using b by (auto simp: buddy_ok_def buddy_serves_def)
  moreover have "2 ^ 1 dvd (2::nat) \<and> 2 + 2 ^ 1 \<le> bd_nmemb b
      \<and> run_bytes b 2 (2 ^ 1) \<inter> \<Union> (bytes_of ` buddy_live b) = {}"
    using b by (simp add: buddy_live_rep [OF b(2)])
  ultimately have "priskv_buddy_alloc b 20 \<noteq> Some (None, b)"
    using buddy_alloc_complete [of b 20 1] by blast
  with b(1) show ?thesis by blast
qed

text \<open>
  \<open>priskv_buddy_free\<close> of any block-aligned address frees exactly the live block that
  contains it, merging buddies (the array is again a consistent tree); when no live block
  contains the address, the call changes nothing.
\<close>

theorem buddy_free_exact:
  assumes "buddy_ok b" "off < bd_nmemb b"
  shows "(\<exists>a m b'. (a, m) \<in> buddy_live b \<and> bd_base b + off * bd_size b \<in> bytes_of (a, m)
            \<and> priskv_buddy_free b (bd_base b + off * bd_size b) = Some b'
            \<and> buddy_ok b' \<and> buddy_live b' = buddy_live b - {(a, m)})
       \<or> (bd_base b + off * bd_size b \<notin> \<Union> (bytes_of ` buddy_live b)
            \<and> priskv_buddy_free b (bd_base b + off * bd_size b) = Some b)"
proof -
  from assms(1) obtain H t where b: "buddy_rep b H t" by (auto simp: buddy_ok_def)
  then have n: "bd_nmemb b = 2 ^ H" and z: "0 < bd_size b" by (simp_all add: buddy_rep_def)
  let ?x = "off + bd_nmemb b" and ?a = "bd_base b + off * bd_size b"
  have in_iff: "?a \<in> bytes_of (block_region b x) \<longleftrightarrow> ?x \<in> bytes_of x" if "x \<in> used H 0 t" for x
    using block_region_mem [OF z used_range(1) [OF b that]] .
  show ?thesis
  proof (cases "?x \<in> \<Union> (bytes_of ` used H 0 t)")
    case True
    then obtain y m where y: "(y, m) \<in> used H 0 t" "?x \<in> bytes_of (y, m)" by auto
    then have "y \<le> ?x" "?x < y + m" by (auto simp: bytes_of_def)
    from buddy_free_used [OF b y(1) this] obtain b' t' where f:
      "priskv_buddy_free b ?a = Some b'" "buddy_rep b' H t'" "used H 0 t' = used H 0 t - {(y, m)}"
      "bd_nmemb b' = bd_nmemb b" "bd_size b' = bd_size b" "bd_base b' = bd_base b" by auto
    have "block_region b ` (used H 0 t - {(y, m)}) = block_region b ` used H 0 t - {block_region b (y, m)}"
      using block_region_inj [OF z] used_range(1) [OF b] y(1) by auto
    then have "buddy_live b' = buddy_live b - {block_region b (y, m)}"
      using buddy_live_rep [OF b] buddy_live_rep [OF f(2)] f(3) block_region_cong [OF f(4-6)] by simp
    moreover have "block_region b (y, m) \<in> buddy_live b" using y(1) buddy_live_rep [OF b] by blast
    moreover obtain c l where "block_region b (y, m) = (c, l)" by fastforce
    moreover have "buddy_ok b'" using f(2) by (auto simp: buddy_ok_def)
    ultimately show ?thesis using f(1) in_iff [OF y(1)] y(2) by auto
  next
    case False
    have "?x \<in> node_leaves H 0" using assms(2) n by (simp add: node_leaves_def)
    from buddy_free_unused [OF b this False] False in_iff show ?thesis
      by (intro disjI2) (auto simp: buddy_live_rep [OF b])
  qed
qed

theorem buddy_free_exact_witness:
  "\<exists>b. priskv_buddy_create (replicate 8 0) (Some 4096) (2 ^ 2) 16 = Some (Some b)
     \<and> priskv_buddy_free b (bd_base b + 3 * bd_size b) = Some b"
proof -
  obtain b where b: "priskv_buddy_create (replicate 8 0) (Some 4096) (2 ^ 2) 16 = Some (Some b)"
    "buddy_rep b 2 Free_node" "bd_nmemb b = 4"
    using buddy_create_ok [of 2 16 "replicate 8 0" 4096] by auto
  have "buddy_ok b" "buddy_live b = {}" using b(2) by (auto simp: buddy_ok_def buddy_live_rep [OF b(2)])
  with buddy_free_exact [of b 3] b show ?thesis by simp
qed

end
