(* ===== verification/Protocol.thy ===== *)
theory Protocol
  imports Prelude
begin

text \<open>
  \<open>include/priskv-protocol.h\<close> and \<open>priskv-protocol-helper.h\<close>: commands, statuses, the
  layout of requests and of the answer to KEYS, as both peers use them. Messages are byte
  buffers; the fields are big endian at the offsets the compiler gives the structures.
\<close>

section \<open>Buffers and byte order\<close>

text \<open>Reading and writing a field of a buffer.\<close>

definition rd :: "nat \<Rightarrow> nat \<Rightarrow> bytes \<Rightarrow> bytes" where
  "rd off n buf = take n (drop off buf)"

definition wr :: "nat \<Rightarrow> bytes \<Rightarrow> bytes \<Rightarrow> bytes" where
  "wr off bs buf = take off buf @ bs @ drop (off + length bs) buf"

primrec be_enc :: "nat \<Rightarrow> nat \<Rightarrow> bytes" where
  "be_enc 0 n = []"
| "be_enc (Suc k) n = of_nat (n div 256 ^ k) # be_enc k n"

definition be_dec :: "bytes \<Rightarrow> nat" where
  "be_dec bs = foldl (\<lambda>a b. a * 256 + unat b) 0 bs"

named_theorems buf_simps \<open>reading and writing disjoint fields\<close>

lemma length_wr [simp]: "off + length bs \<le> length buf \<Longrightarrow> length (wr off bs buf) = length buf"
  by (simp add: wr_def)

lemma rd_wr_same: "off + length bs \<le> length buf \<Longrightarrow> n = length bs \<Longrightarrow> rd off n (wr off bs buf) = bs"
  by (simp add: rd_def wr_def)

lemma rd_wr_before:
  "off + n \<le> off' \<Longrightarrow> off' + length bs \<le> length buf \<Longrightarrow> rd off n (wr off' bs buf) = rd off n buf"
  by (rule nth_equalityI) (auto simp: rd_def wr_def nth_append)

lemma rd_wr_after:
  "off' + length bs \<le> off \<Longrightarrow> off' + length bs \<le> length buf \<Longrightarrow> rd off n (wr off' bs buf) = rd off n buf"
  by (simp add: rd_def wr_def add.commute [of off] flip: drop_drop) (simp add: drop_drop)

lemmas rd_wr [buf_simps] = rd_wr_same rd_wr_before rd_wr_after

lemma length_be_enc [simp]: "length (be_enc k n) = k"
  by (induction k) auto

lemma be_dec_shift: "foldl (\<lambda>a b. a * 256 + unat (b :: u8)) x bs = x * 256 ^ length bs + be_dec bs"
proof (induction bs arbitrary: x)
  case (Cons b bs)
  from Cons [of "x * 256 + unat b"] Cons [of "unat b"] show ?case
    by (simp add: be_dec_def algebra_simps)
qed (simp add: be_dec_def)

lemma be_dec_Cons: "be_dec (b # bs) = unat b * 256 ^ length bs + be_dec bs"
  using be_dec_shift [of "unat b" bs] by (simp add: be_dec_def)

lemma be_dec_enc: "be_dec (be_enc k n) = n mod 256 ^ k"
proof (induction k)
  case (Suc k)
  have "unat (of_nat (n div 256 ^ k) :: u8) = n div 256 ^ k mod 256"
    by (simp add: unat_of_nat take_bit_eq_mod)
  then have "be_dec (be_enc (Suc k) n) = n div 256 ^ k mod 256 * 256 ^ k + n mod 256 ^ k"
    using Suc by (simp add: be_dec_Cons)
  also have "\<dots> = n mod (256 ^ k * 256)" by (simp add: mod_mult2_eq)
  finally show ?case by (simp add: mult.commute)
qed (simp add: be_dec_def)

lemma be_dec_enc_id [buf_simps]: "n < 256 ^ k \<Longrightarrow> be_dec (be_enc k n) = n"
  by (simp add: be_dec_enc)

section \<open>Commands and statuses\<close>

datatype priskv_req_command =
    PRISKV_COMMAND_GET | PRISKV_COMMAND_SET | PRISKV_COMMAND_TEST | PRISKV_COMMAND_DELETE
  | PRISKV_COMMAND_EXPIRE | PRISKV_COMMAND_KEYS | PRISKV_COMMAND_NRKEYS | PRISKV_COMMAND_FLUSH

definition PRISKV_COMMAND_MAX :: nat where
  "PRISKV_COMMAND_MAX = 8"

fun command_code :: "priskv_req_command \<Rightarrow> nat" where
  "command_code PRISKV_COMMAND_GET = 0"
| "command_code PRISKV_COMMAND_SET = 1"
| "command_code PRISKV_COMMAND_TEST = 2"
| "command_code PRISKV_COMMAND_DELETE = 3"
| "command_code PRISKV_COMMAND_EXPIRE = 4"
| "command_code PRISKV_COMMAND_KEYS = 5"
| "command_code PRISKV_COMMAND_NRKEYS = 6"
| "command_code PRISKV_COMMAND_FLUSH = 7"

definition all_commands :: "priskv_req_command list" where
  "all_commands = [PRISKV_COMMAND_GET, PRISKV_COMMAND_SET, PRISKV_COMMAND_TEST, PRISKV_COMMAND_DELETE,
     PRISKV_COMMAND_EXPIRE, PRISKV_COMMAND_KEYS, PRISKV_COMMAND_NRKEYS, PRISKV_COMMAND_FLUSH]"

text \<open>The command a number on the wire stands for in a \<open>switch\<close>.\<close>

definition command_of :: "nat \<Rightarrow> priskv_req_command option" where
  "command_of n = (if n < PRISKV_COMMAND_MAX then Some (all_commands ! n) else None)"

definition priskv_command_str :: "nat \<Rightarrow> string" where
  "priskv_command_str cmd =
     (if PRISKV_COMMAND_MAX \<le> cmd then ''unknown''
      else [''GET'', ''SET'', ''TEST'', ''DELETE'', ''EXPIRE'', ''KEYS'', ''NRKEYS'', ''FLUSH''] ! cmd)"

lemma command_of_code [simp]: "command_of (command_code c) = Some c"
  by (cases c) (simp_all add: command_of_def PRISKV_COMMAND_MAX_def all_commands_def)

lemma command_of_Some_iff: "command_of n = Some c \<longleftrightarrow> n = command_code c"
proof
  assume "command_of n = Some c"
  then have "n \<in> {0,1,2,3,4,5,6,7}" "c = all_commands ! n"
    by (auto simp: command_of_def PRISKV_COMMAND_MAX_def split: if_splits)
  then show "n = command_code c" by (auto simp: all_commands_def)
qed simp

datatype priskv_resp_status =
    PRISKV_RESP_STATUS_OK | PRISKV_RESP_STATUS_INVALID_COMMAND | PRISKV_RESP_STATUS_KEY_EMPTY
  | PRISKV_RESP_STATUS_KEY_TOO_BIG | PRISKV_RESP_STATUS_VALUE_EMPTY | PRISKV_RESP_STATUS_VALUE_TOO_BIG
  | PRISKV_RESP_STATUS_NO_SUCH_COMMAND | PRISKV_RESP_STATUS_NO_SUCH_KEY | PRISKV_RESP_STATUS_INVALID_SGL
  | PRISKV_RESP_STATUS_INVALID_REGEX | PRISKV_RESP_STATUS_KEY_UPDATING | PRISKV_RESP_STATUS_CONNECT_ERROR
  | PRISKV_RESP_STATUS_SERVER_ERROR | PRISKV_RESP_STATUS_NO_MEM

fun status_code :: "priskv_resp_status \<Rightarrow> nat" where
  "status_code PRISKV_RESP_STATUS_OK = 0"
| "status_code PRISKV_RESP_STATUS_INVALID_COMMAND = 0x100"
| "status_code PRISKV_RESP_STATUS_KEY_EMPTY = 0x101"
| "status_code PRISKV_RESP_STATUS_KEY_TOO_BIG = 0x102"
| "status_code PRISKV_RESP_STATUS_VALUE_EMPTY = 0x103"
| "status_code PRISKV_RESP_STATUS_VALUE_TOO_BIG = 0x104"
| "status_code PRISKV_RESP_STATUS_NO_SUCH_COMMAND = 0x105"
| "status_code PRISKV_RESP_STATUS_NO_SUCH_KEY = 0x106"
| "status_code PRISKV_RESP_STATUS_INVALID_SGL = 0x107"
| "status_code PRISKV_RESP_STATUS_INVALID_REGEX = 0x108"
| "status_code PRISKV_RESP_STATUS_KEY_UPDATING = 0x109"
| "status_code PRISKV_RESP_STATUS_CONNECT_ERROR = 0x10a"
| "status_code PRISKV_RESP_STATUS_SERVER_ERROR = 0x10b"
| "status_code PRISKV_RESP_STATUS_NO_MEM = 0x200"

definition PRISKV_KEY_MAX_TIMEOUT :: nat where
  "PRISKV_KEY_MAX_TIMEOUT = 0xffffffffffffffff"

section \<open>Requests\<close>

record priskv_keyed_sgl =
  sgl_addr :: nat
  sgl_length :: nat
  sgl_key :: nat

record priskv_request =
  rq_request_id :: nat
  rq_timeout :: nat
  rq_command :: nat
  rq_nsgl :: nat
  rq_key_length :: nat
  rq_sgls :: "priskv_keyed_sgl list"
  rq_key :: bytes

text \<open>\<open>sizeof (priskv_request)\<close> and \<open>sizeof (priskv_keyed_sgl)\<close>: 26 bytes of fields, 6 of
  padding and six time stamps of 16 bytes; an address and two 32-bit fields.\<close>

abbreviation request_struct_size :: nat where
  "request_struct_size \<equiv> 128"

abbreviation sgl_struct_size :: nat where
  "sgl_struct_size \<equiv> 16"

definition priskv_request_key_off :: "nat \<Rightarrow> nat" where
  "priskv_request_key_off nsgl = u16n (request_struct_size + sgl_struct_size * nsgl)"

definition priskv_request_size :: "nat \<Rightarrow> nat \<Rightarrow> nat" where
  "priskv_request_size nsgl keylen = u16n (priskv_request_key_off nsgl + keylen)"

definition priskv_sgl_size_from_be :: "priskv_keyed_sgl list \<Rightarrow> nat" where
  "priskv_sgl_size_from_be sgls = foldl (\<lambda>size sgl. u32n (size + sgl_length sgl)) 0 sgls"

text \<open>One entry of \<open>priskv_fillup_sql\<close> (client/rdma.c), at \<open>req->sgls[i]\<close>.\<close>

definition put_sgl :: "nat \<Rightarrow> priskv_keyed_sgl \<Rightarrow> bytes \<Rightarrow> bytes" where
  "put_sgl i sgl buf =
     (let off = request_struct_size + sgl_struct_size * i
      in wr (off + 12) (be_enc 4 (sgl_key sgl))
         (wr (off + 8) (be_enc 4 (sgl_length sgl)) (wr off (be_enc 8 (sgl_addr sgl)) buf)))"

definition priskv_fillup_sql :: "priskv_keyed_sgl list \<Rightarrow> bytes \<Rightarrow> bytes" where
  "priskv_fillup_sql sgls buf = fold (\<lambda>(i, sgl). put_sgl i sgl) (enumerate 0 sgls) buf"

text \<open>The part of \<open>priskv_rdma_req_send\<close> (client/rdma.c) that fills the request slot
  \<open>buf\<close> (the time stamp apart, which the server only reports).\<close>

definition put_request :: "priskv_request \<Rightarrow> bytes \<Rightarrow> bytes" where
  "put_request rq buf =
     wr (priskv_request_key_off (rq_nsgl rq)) (rq_key rq)
     (priskv_fillup_sql (rq_sgls rq)
     (wr 24 (be_enc 2 (rq_key_length rq))
     (wr 8 (be_enc 8 (rq_timeout rq))
     (wr 22 (be_enc 2 (rq_nsgl rq))
     (wr 16 (be_enc 2 (rq_command rq))
     (wr 0 (be_enc 8 (rq_request_id rq)) buf))))))"

text \<open>The reads of \<open>priskv_rdma_handle_recv\<close> and \<open>priskv_rdma_rw_req\<close> (server/rdma.c) from a
  message of \<open>len\<close> bytes. The key is what follows the entries; the server does not read the
  field \<open>key_length\<close>.\<close>

definition get_sgl :: "bytes \<Rightarrow> nat \<Rightarrow> priskv_keyed_sgl" where
  "get_sgl buf i =
     (let off = request_struct_size + sgl_struct_size * i
      in \<lparr>sgl_addr = be_dec (rd off 8 buf), sgl_length = be_dec (rd (off + 8) 4 buf),
          sgl_key = be_dec (rd (off + 12) 4 buf)\<rparr>)"

definition get_request :: "nat \<Rightarrow> bytes \<Rightarrow> priskv_request" where
  "get_request len buf =
     (let nsgl = be_dec (rd 22 2 buf); keyoff = priskv_request_key_off nsgl; keylen = u16n (len - keyoff)
      in \<lparr>rq_request_id = be_dec (rd 0 8 buf), rq_timeout = be_dec (rd 8 8 buf),
          rq_command = be_dec (rd 16 2 buf), rq_nsgl = nsgl, rq_key_length = keylen,
          rq_sgls = map (get_sgl buf) [0..<nsgl],
          rq_key = rd keyoff keylen buf\<rparr>)"

section \<open>The answer to KEYS\<close>

text \<open>One entry as \<open>priskv_get_keys\<close> (server/kv.c) writes it: key length, reserved, value
  length, key.\<close>

definition keys_resp_entry :: "bytes \<Rightarrow> nat \<Rightarrow> bytes" where
  "keys_resp_entry key valuelen =
     be_enc 2 (length key) @ be_enc 2 0 @ be_enc 4 valuelen @ key"

text \<open>The second loop of \<open>priskv_rdma_keys_req_cb\<close> (client/rdma.c) over the first
  \<open>valuelen\<close> bytes; \<open>None\<close> when an entry runs past them, which the first loop reports as a
  protocol error.\<close>

function keys_req_parse :: "bytes \<Rightarrow> (bytes \<times> nat) list option" where
  "keys_req_parse buf =
     (if buf = [] then Some []
      else if length buf < 8 + be_dec (rd 0 2 buf) then None
      else map_option (\<lambda>ks. (rd 8 (be_dec (rd 0 2 buf)) buf, be_dec (rd 4 4 buf)) # ks)
             (keys_req_parse (drop (8 + be_dec (rd 0 2 buf)) buf)))"
  by pat_completeness auto
termination by (relation "measure length") auto

declare keys_req_parse.simps [simp del]

section \<open>Round trips\<close>

definition sgl_ok :: "priskv_keyed_sgl \<Rightarrow> bool" where
  "sgl_ok sgl \<longleftrightarrow> sgl_addr sgl < 2 ^ 64 \<and> sgl_length sgl < 2 ^ 32 \<and> sgl_key sgl < 2 ^ 32"

text \<open>A request whose fields have their widths and whose total size fits its 16-bit count.\<close>

definition request_ok :: "priskv_request \<Rightarrow> bool" where
  "request_ok rq \<longleftrightarrow> rq_request_id rq < 2 ^ 64 \<and> rq_timeout rq < 2 ^ 64 \<and> rq_command rq < 2 ^ 16
     \<and> rq_nsgl rq = length (rq_sgls rq) \<and> rq_key_length rq = length (rq_key rq)
     \<and> (\<forall>sgl \<in> set (rq_sgls rq). sgl_ok sgl)
     \<and> request_struct_size + sgl_struct_size * rq_nsgl rq + rq_key_length rq < 2 ^ 16"

abbreviation sgls_from :: "nat \<Rightarrow> priskv_keyed_sgl list \<Rightarrow> bytes \<Rightarrow> bytes" where
  "sgls_from k sgls \<equiv> fold (\<lambda>(i, sgl). put_sgl i sgl) (enumerate k sgls)"

lemma put_sgl_frame:
  assumes "128 + 16 * i + 16 \<le> length buf"
  shows "length (put_sgl i sgl buf) = length buf"
    and "off + n \<le> 128 + 16 * i \<or> 128 + 16 * i + 16 \<le> off \<Longrightarrow> rd off n (put_sgl i sgl buf) = rd off n buf"
  using assms by (auto simp: put_sgl_def Let_def buf_simps)

lemma get_put_sgl:
  "128 + 16 * i + 16 \<le> length buf \<Longrightarrow> sgl_ok sgl \<Longrightarrow> get_sgl (put_sgl i sgl buf) i = sgl"
  by (simp add: get_sgl_def put_sgl_def Let_def buf_simps sgl_ok_def)

lemma sgls_from_frame:
  assumes "128 + 16 * (k + length sgls) \<le> length buf"
  shows "length (sgls_from k sgls buf) = length buf"
    and "off + n \<le> 128 + 16 * k \<or> 128 + 16 * (k + length sgls) \<le> off \<Longrightarrow>
      rd off n (sgls_from k sgls buf) = rd off n buf"
  using assms
proof (induction sgls arbitrary: k buf)
  case (Cons sgl sgls)
  { case 1 with Cons(1) [of "Suc k" "put_sgl k sgl buf"] put_sgl_frame(1) [of k buf sgl]
    show ?case by simp }
  { case 2 with Cons(2) [of "Suc k" "put_sgl k sgl buf"] put_sgl_frame(1) [of k buf sgl]
      put_sgl_frame(2) [of k buf off n sgl]
    show ?case by auto }
qed simp_all

lemma get_sgls_from:
  assumes "128 + 16 * (k + length sgls) \<le> length buf" "\<forall>sgl \<in> set sgls. sgl_ok sgl" "j < length sgls"
  shows "get_sgl (sgls_from k sgls buf) (k + j) = sgls ! j"
  using assms
proof (induction sgls arbitrary: k buf j)
  case (Cons sgl sgls)
  let ?b = "put_sgl k sgl buf"
  have len: "length ?b = length buf" using Cons.prems put_sgl_frame(1) by simp
  show ?case
  proof (cases j)
    case 0
    have "get_sgl (sgls_from (Suc k) sgls ?b) k = get_sgl ?b k"
      using Cons.prems len by (simp add: get_sgl_def Let_def sgls_from_frame(2))
    with 0 Cons.prems show ?thesis by (simp add: get_put_sgl)
  next
    case (Suc i)
    with Cons.IH [of "Suc k" ?b i] Cons.prems len show ?thesis by simp
  qed
qed simp

lemma get_put_request:
  assumes "request_ok rq" "priskv_request_size (rq_nsgl rq) (rq_key_length rq) \<le> length buf"
  shows "get_request (priskv_request_size (rq_nsgl rq) (rq_key_length rq)) (put_request rq buf) = rq"
proof -
  let ?n = "length (rq_sgls rq)" and ?k = "length (rq_key rq)"
  from assms(1) have ok: "rq_nsgl rq = ?n" "rq_key_length rq = ?k" "128 + 16 * ?n + ?k < 65536"
    and w: "rq_request_id rq < 2 ^ 64" "rq_timeout rq < 2 ^ 64" "rq_command rq < 2 ^ 16"
    and s: "\<forall>sgl \<in> set (rq_sgls rq). sgl_ok sgl"
    by (auto simp: request_ok_def)
  from ok have off: "priskv_request_key_off ?n = 128 + 16 * ?n"
    by (simp add: priskv_request_key_off_def wrap_simps)
  with ok assms(2) have len: "128 + 16 * ?n + ?k \<le> length buf"
    by (simp add: priskv_request_size_def wrap_simps)
  define b where "b = wr 24 (be_enc 2 ?k) (wr 8 (be_enc 8 (rq_timeout rq)) (wr 22 (be_enc 2 ?n)
     (wr 16 (be_enc 2 (rq_command rq)) (wr 0 (be_enc 8 (rq_request_id rq)) buf))))"
  have lb: "length b = length buf" using len by (simp add: b_def)
  have fields: "be_dec (rd 0 8 b) = rq_request_id rq" "be_dec (rd 8 8 b) = rq_timeout rq"
    "be_dec (rd 16 2 b) = rq_command rq" "be_dec (rd 22 2 b) = ?n" "be_dec (rd 24 2 b) = ?k"
    using len w ok(3) by (simp_all add: b_def buf_simps)
  let ?c = "sgls_from 0 (rq_sgls rq) b"
  have lc: "length ?c = length buf" using sgls_from_frame(1) len lb by simp
  have p: "put_request rq buf = wr (128 + 16 * ?n) (rq_key rq) ?c"
    using ok off by (simp add: put_request_def priskv_fillup_sql_def b_def)
  have low: "rd o' m (put_request rq buf) = rd o' m b" if "o' + m \<le> 128" for o' m
    using that len lb lc by (simp add: p rd_wr_before sgls_from_frame(2))
  have sgls: "map (get_sgl (put_request rq buf)) [0..<?n] = rq_sgls rq"
  proof (rule nth_equalityI)
    fix i assume "i < length (map (get_sgl (put_request rq buf)) [0..<?n])"
    then have i: "i < ?n" by simp
    then have "get_sgl (put_request rq buf) i = get_sgl ?c i"
      using len lc by (simp add: p get_sgl_def Let_def rd_wr_before)
    with get_sgls_from [of 0 "rq_sgls rq" b i] i s len lb
    show "map (get_sgl (put_request rq buf)) [0..<?n] ! i = rq_sgls rq ! i" by simp
  qed simp
  have key: "rd (128 + 16 * ?n) ?k (put_request rq buf) = rq_key rq"
    using len lc by (simp add: p rd_wr_same)
  have "priskv_request_size ?n ?k = 128 + 16 * ?n + ?k" using ok(3) off by (simp add: priskv_request_size_def wrap_simps)
  moreover have "u16n ?k = ?k" using ok(3) by (simp add: wrap_simps)
  ultimately show ?thesis using low fields sgls key off ok by (simp add: get_request_def Let_def)
qed

lemma keys_req_parse_entry:
  assumes "length key < 2 ^ 16" "valuelen < 2 ^ 32"
  shows "keys_req_parse (keys_resp_entry key valuelen @ rest) =
    map_option (\<lambda>ks. (key, valuelen) # ks) (keys_req_parse rest)"
proof -
  define buf where "buf = keys_resp_entry key valuelen @ rest"
  have f: "rd 0 2 buf = be_enc 2 (length key)" "rd 4 4 buf = be_enc 4 valuelen"
    "rd 8 (length key) buf = key" "drop (8 + length key) buf = rest" "8 + length key \<le> length buf"
    by (simp_all add: rd_def keys_resp_entry_def buf_def)
  have "be_dec (rd 0 2 buf) = length key" "be_dec (rd 4 4 buf) = valuelen"
    unfolding f using assms by (simp_all add: be_dec_enc)
  moreover have "buf \<noteq> []" using f(5) by (intro notI) simp
  ultimately have "keys_req_parse buf = map_option (\<lambda>ks. (key, valuelen) # ks) (keys_req_parse rest)"
    using f(3-5) by (subst keys_req_parse.simps) simp
  then show ?thesis by (simp add: buf_def)
qed

lemma keys_req_parse_entries:
  "\<forall>(key, valuelen) \<in> set ks. length key < 2 ^ 16 \<and> valuelen < 2 ^ 32 \<Longrightarrow>
     keys_req_parse (concat (map (\<lambda>(key, valuelen). keys_resp_entry key valuelen) ks)) = Some ks"
  by (induction ks) (auto simp: keys_req_parse_entry keys_req_parse.simps [of "[]"])

section \<open>Properties\<close>

text \<open>
  C25: The request the client writes is the request the server reads. For every request whose
  fields are in the widths of the wire format and that fits its slot, whatever the slot held
  before, the server's reads of the \<open>priskv_request_size\<close> bytes that are sent give back the identifier, the timeout, the command,
  every scatter-gather entry and the key.
\<close>

theorem request_roundtrip:
  assumes "request_ok rq" "priskv_request_size (rq_nsgl rq) (rq_key_length rq) \<le> length buf"
  shows "get_request (priskv_request_size (rq_nsgl rq) (rq_key_length rq)) (put_request rq buf) = rq"
  by (rule get_put_request [OF assms])

theorem request_roundtrip_witness:
  "get_request 146 (put_request \<lparr>rq_request_id = 7, rq_timeout = 1000, rq_command = 1, rq_nsgl = 1, rq_key_length = 2,
     rq_sgls = [\<lparr>sgl_addr = 4096, sgl_length = 64, sgl_key = 9\<rparr>], rq_key = [107, 49]\<rparr> (replicate 200 0)) =
   \<lparr>rq_request_id = 7, rq_timeout = 1000, rq_command = 1, rq_nsgl = 1, rq_key_length = 2,
     rq_sgls = [\<lparr>sgl_addr = 4096, sgl_length = 64, sgl_key = 9\<rparr>], rq_key = [107, 49]\<rparr>"
  using request_roundtrip [of "\<lparr>rq_request_id = 7, rq_timeout = 1000, rq_command = 1, rq_nsgl = 1, rq_key_length = 2,
     rq_sgls = [\<lparr>sgl_addr = 4096, sgl_length = 64, sgl_key = 9\<rparr>], rq_key = [107, 49]\<rparr>" "replicate 200 0"]
  by (simp add: request_ok_def sgl_ok_def priskv_request_size_def priskv_request_key_off_def wrap_simps)

end
