(* ===== verification/KV.thy ===== *)
theory KV
  imports Utils Crc Slab Buddy Protocol
begin

text \<open>
  \<open>server/kv.c\<close>: the key-value store. A key node lives in an object of the slab and its
  value in a block of the buddy; the hash chains and the LRU list hold the addresses of the
  nodes. \<open>None\<close> is a failed assertion, a division by zero or an access outside an object;
  an error the code returns is a status. Every call runs under the locks it takes, one call
  after the other; the time of day is an argument.
\<close>

section \<open>State\<close>

text \<open>\<open>priskv_key\<close> (memory.h), without the list links, the lock and the back pointer;
  \<open>pk_key\<close> is the whole area behind the structure in the slab object.\<close>

record priskv_key =
  pk_expire_time :: timeval
  pk_refcnt :: nat
  pk_inprocess :: bool
  pk_keylen :: nat
  pk_valuelen :: nat
  pk_value_off :: nat
  pk_key :: bytes

text \<open>\<open>sizeof (priskv_key)\<close>.\<close>

abbreviation key_struct_size :: nat where
  "key_struct_size \<equiv> 88"

definition priskv_mem_key_size :: "nat \<Rightarrow> nat" where
  "priskv_mem_key_size max_key_length = u16n (key_struct_size + max_key_length)"

record priskv_tiering_wait_head =
  pending_reqs :: "nat list"
  has_inflight_req :: bool

record priskv_kv =
  hash_heads :: "addr list list"
  tiering_wait_heads :: "priskv_tiering_wait_head list"
  lru_head :: "addr list"
  bucket_count :: nat
  max_keys :: nat
  max_key_length :: nat
  key_slab :: priskv_slab
  key_base :: addr
  value_buddy :: buddy
  value_base :: addr
  expire_routine_interval :: nat
  expire_routine_times :: nat
  expire_kv_count :: nat
  expire_kv_bytes :: nat
  key_mem :: "addr \<Rightarrow> priskv_key"

abbreviation node :: "priskv_kv \<Rightarrow> addr \<Rightarrow> priskv_key" where
  "node kv a \<equiv> key_mem kv a"

abbreviation set_node :: "addr \<Rightarrow> priskv_key \<Rightarrow> priskv_kv \<Rightarrow> priskv_kv" where
  "set_node a n kv \<equiv> kv\<lparr>key_mem := (key_mem kv)(a := n)\<rparr>"

text \<open>The key of a node: the first \<open>keylen\<close> bytes of its area.\<close>

definition key_of :: "priskv_key \<Rightarrow> bytes" where
  "key_of n = take (pk_keylen n) (pk_key n)"

text \<open>\<open>memset\<close> of a node to zero.\<close>

definition zero_key :: "priskv_key \<Rightarrow> priskv_key" where
  "zero_key n = \<lparr>pk_expire_time = \<lparr>tv_sec = 0, tv_usec = 0\<rparr>, pk_refcnt = 0, pk_inprocess = False,
     pk_keylen = 0, pk_valuelen = 0, pk_value_off = 0, pk_key = replicate (length (pk_key n)) 0\<rparr>"

section \<open>The LRU list\<close>

definition priskv_lru_access :: "priskv_kv \<Rightarrow> addr \<Rightarrow> bool \<Rightarrow> priskv_kv option" where
  "priskv_lru_access kv keynode is_in_list =
     (if is_in_list \<and> keynode \<notin> set (lru_head kv) then None
      else Some (kv\<lparr>lru_head := keynode #
        (if is_in_list then remove1 keynode (lru_head kv) else lru_head kv)\<rparr>))"

definition priskv_lru_evict :: "priskv_kv \<Rightarrow> addr option" where
  "priskv_lru_evict kv = (if lru_head kv = [] then None else Some (last (lru_head kv)))"

definition priskv_lru_del_key :: "priskv_kv \<Rightarrow> addr \<Rightarrow> priskv_kv option" where
  "priskv_lru_del_key kv keynode =
     (if keynode \<in> set (lru_head kv) then Some (kv\<lparr>lru_head := remove1 keynode (lru_head kv)\<rparr>)
      else None)"

section \<open>Creation\<close>

definition primes :: "nat list" where
  "primes = [32749, 65521, 131071, 262139, 524287, 1048573, 4194301, 16777213, 134217689]"

text \<open>The binary search of \<open>calculate_hash_bucket_count\<close>.\<close>

function bucket_search :: "nat \<Rightarrow> int \<Rightarrow> int \<Rightarrow> nat \<Rightarrow> nat" where
  "bucket_search n left right result =
     (if left \<le> right then
        let mid = left + (right - left) div 2
        in if primes ! nat mid \<le> n then bucket_search n (mid + 1) right (primes ! nat mid)
           else bucket_search n left (mid - 1) result
      else result)"
  by pat_completeness auto
termination by (relation "measure (\<lambda>(_, l, r, _). nat (r - l + 1))") (auto simp: Let_def)

declare bucket_search.simps [simp del]

definition calculate_hash_bucket_count :: "nat \<Rightarrow> nat" where
  "calculate_hash_bucket_count n =
     (if n < primes ! 0 then n
      else bucket_search n 0 (int (length primes) - 1) (primes ! 0))"

text \<open>\<open>mem\<close> is the memory of the key nodes and \<open>meta\<close> the words behind the value blocks
  before the call.\<close>

definition priskv_new_kv ::
  "(addr \<Rightarrow> priskv_key) \<Rightarrow> nat list \<Rightarrow> addr option \<Rightarrow> addr option \<Rightarrow> nat \<Rightarrow> nat \<Rightarrow> nat \<Rightarrow> nat
     \<Rightarrow> priskv_kv option"
where
  "priskv_new_kv mem meta kbase vbase keys keylength block_size nblocks =
     (case (kbase, vbase) of
        (Some kb, Some vb) \<Rightarrow> do {
          let bucket_count = calculate_hash_bucket_count keys;
          slab \<leftarrow> priskv_slab_create ''Keys'' (Some kb) (priskv_mem_key_size keylength) keys;
          key_slab \<leftarrow> slab;
          bdd \<leftarrow> priskv_buddy_create meta (Some vb) (u32n nblocks) block_size;
          value_buddy \<leftarrow> bdd;
          Some \<lparr>hash_heads = replicate bucket_count [],
            tiering_wait_heads = replicate bucket_count \<lparr>pending_reqs = [], has_inflight_req = False\<rparr>,
            lru_head = [], bucket_count = bucket_count, max_keys = keys,
            max_key_length = keylength, key_slab = key_slab, key_base = kb,
            value_buddy = value_buddy, value_base = vb, expire_routine_interval = 600,
            expire_routine_times = 0, expire_kv_count = 0, expire_kv_bytes = 0, key_mem = mem\<rparr>
        }
      | _ \<Rightarrow> None)"

section \<open>References and look up\<close>

definition priskv_value_to_pointer :: "priskv_kv \<Rightarrow> addr \<Rightarrow> addr" where
  "priskv_value_to_pointer kv keynode = value_base kv + pk_value_off (node kv keynode)"

definition priskv_pointer_to_value :: "priskv_kv \<Rightarrow> addr \<Rightarrow> nat" where
  "priskv_pointer_to_value kv val = val - value_base kv"

definition priskv_keynode_ref :: "priskv_kv \<Rightarrow> addr \<Rightarrow> priskv_kv" where
  "priskv_keynode_ref kv keynode =
     set_node keynode ((node kv keynode)\<lparr>pk_refcnt := u32n (pk_refcnt (node kv keynode) + 1)\<rparr>) kv"

definition priskv_keynode_deref :: "priskv_kv \<Rightarrow> addr \<Rightarrow> priskv_kv option" where
  "priskv_keynode_deref kv keynode =
     (let kv1 = set_node keynode
            ((node kv keynode)\<lparr>pk_refcnt := u32_sub (pk_refcnt (node kv keynode)) 1\<rparr>) kv
      in if pk_refcnt (node kv1 keynode) = 0 then do {
           value_buddy \<leftarrow> priskv_buddy_free (value_buddy kv1) (priskv_value_to_pointer kv1 keynode);
           key_slab \<leftarrow> priskv_slab_free (key_slab kv1) keynode;
           Some (set_node keynode (zero_key (node kv1 keynode))
             (kv1\<lparr>value_buddy := value_buddy, key_slab := key_slab\<rparr>))
         }
         else Some kv1)"

definition priskv_update_valuelen :: "priskv_kv \<Rightarrow> addr \<Rightarrow> nat \<Rightarrow> priskv_kv" where
  "priskv_update_valuelen kv keynode valuelen =
     set_node keynode ((node kv keynode)\<lparr>pk_valuelen := valuelen\<rparr>) kv"

definition priskv_key_timeout :: "priskv_key \<Rightarrow> timeval \<Rightarrow> bool" where
  "priskv_key_timeout n now =
     (if tv_sec (pk_expire_time n) < 0 \<or> tv_usec (pk_expire_time n) < 0 then False
      else priskv_time_elapsed_ms (pk_expire_time n) now > 0)"

definition hash_index :: "priskv_kv \<Rightarrow> bytes \<Rightarrow> nat" where
  "hash_index kv key = unat (priskv_crc32 key) mod bucket_count kv"

text \<open>Same length and \<open>memcmp\<close> equal.\<close>

definition key_matches :: "priskv_kv \<Rightarrow> bytes \<Rightarrow> addr \<Rightarrow> bool" where
  "key_matches kv key a \<longleftrightarrow> pk_keylen (node kv a) = length key \<and> take (length key) (pk_key (node kv a)) = key"

definition chain_del :: "priskv_kv \<Rightarrow> nat \<Rightarrow> addr \<Rightarrow> priskv_kv" where
  "chain_del kv i a = kv\<lparr>hash_heads := (hash_heads kv)[i := remove1 a (hash_heads kv ! i)]\<rparr>"

text \<open>The node found, whether it was expired, and the new state.\<close>

definition priskv_find_key ::
  "priskv_kv \<Rightarrow> timeval \<Rightarrow> bytes \<Rightarrow> nat \<Rightarrow> bool \<Rightarrow> (addr option \<times> bool \<times> priskv_kv) option"
where
  "priskv_find_key kv now key timeout pop =
     (if bucket_count kv = 0 \<or> length (hash_heads kv) \<le> hash_index kv key then None
      else
        let i = hash_index kv key
        in case find (key_matches kv key) (hash_heads kv ! i) of
             None \<Rightarrow> Some (None, False, kv)
           | Some a \<Rightarrow>
               if pop then Some (Some a, False, chain_del kv i a)
               else if priskv_key_timeout (node kv a) now then Some (Some a, True, chain_del kv i a)
               else
                 let kv1 = (if timeout < PRISKV_KEY_MAX_TIMEOUT
                            then set_node a ((node kv a)\<lparr>pk_expire_time := priskv_time_add_ms now timeout\<rparr>) kv
                            else kv)
                 in Some (Some a, False, priskv_keynode_ref kv1 a))"

text \<open>\<open>priskv_lru_del_key\<close> followed by \<open>__priskv_del_key\<close>, which only drops a reference.\<close>

definition lru_del_and_deref :: "priskv_kv \<Rightarrow> addr \<Rightarrow> priskv_kv option" where
  "lru_del_and_deref kv a = do { kv1 \<leftarrow> priskv_lru_del_key kv a; priskv_keynode_deref kv1 a }"

section \<open>GET\<close>

text \<open>Status, value address and length, key node.\<close>

type_synonym get_result = "priskv_resp_status \<times> (addr \<times> nat) option \<times> addr option"

definition priskv_get_key :: "priskv_kv \<Rightarrow> timeval \<Rightarrow> bytes \<Rightarrow> (get_result \<times> priskv_kv) option" where
  "priskv_get_key kv now key = do {
     (found, expired, kv1) \<leftarrow> priskv_find_key kv now key PRISKV_KEY_MAX_TIMEOUT False;
     case found of
       None \<Rightarrow> Some ((PRISKV_RESP_STATUS_NO_SUCH_KEY, None, None), kv1)
     | Some a \<Rightarrow>
         if expired then do {
           kv2 \<leftarrow> lru_del_and_deref kv1 a;
           Some ((PRISKV_RESP_STATUS_NO_SUCH_KEY, None, None), kv2)
         }
         else if pk_inprocess (node kv1 a) then
           Some ((PRISKV_RESP_STATUS_KEY_UPDATING, None, Some a), kv1)
         else do {
           kv2 \<leftarrow> priskv_lru_access kv1 a True;
           Some ((PRISKV_RESP_STATUS_OK,
             Some (priskv_value_to_pointer kv1 a, pk_valuelen (node kv1 a)), Some a), kv2)
         }
   }"

definition priskv_get_key_end :: "priskv_kv \<Rightarrow> addr option \<Rightarrow> priskv_kv option" where
  "priskv_get_key_end kv arg =
     (case arg of None \<Rightarrow> Some kv | Some a \<Rightarrow> priskv_keynode_deref kv a)"

section \<open>SET\<close>

definition priskv_insert_keynode :: "priskv_kv \<Rightarrow> addr \<Rightarrow> priskv_kv option" where
  "priskv_insert_keynode kv a =
     (let i = hash_index kv (key_of (node kv a))
      in if bucket_count kv = 0 \<or> length (hash_heads kv) \<le> i then None
         else Some (kv\<lparr>hash_heads := (hash_heads kv)[i := hash_heads kv ! i @ [a]]\<rparr>))"

text \<open>Allocation of what is still missing.\<close>

definition set_alloc_key :: "priskv_kv \<Rightarrow> addr option \<Rightarrow> (addr option \<times> priskv_kv) option" where
  "set_alloc_key kv keynode =
     (case keynode of
        Some a \<Rightarrow> Some (Some a, kv)
      | None \<Rightarrow> do { (r, s) \<leftarrow> priskv_slab_alloc (key_slab kv); Some (r, kv\<lparr>key_slab := s\<rparr>) })"

definition set_alloc_value :: "priskv_kv \<Rightarrow> addr option \<Rightarrow> nat \<Rightarrow> (addr option \<times> priskv_kv) option" where
  "set_alloc_value kv vaddr valuelen =
     (case vaddr of
        Some a \<Rightarrow> Some (Some a, kv)
      | None \<Rightarrow> do { (r, b) \<leftarrow> priskv_buddy_alloc (value_buddy kv) valuelen; Some (r, kv\<lparr>value_buddy := b\<rparr>) })"

definition MAX_EVICT_RETRIES :: nat where
  "MAX_EVICT_RETRIES = 128"

text \<open>The \<open>while (!vaddr || !keynode)\<close> loop of \<open>priskv_set_key\<close>. The flag of the result
  is false at \<open>goto out\<close>.\<close>

function evict_loop ::
  "priskv_kv \<Rightarrow> timeval \<Rightarrow> addr option \<Rightarrow> addr option \<Rightarrow> nat \<Rightarrow> nat
     \<Rightarrow> (bool \<times> addr option \<times> addr option \<times> priskv_kv) option"
where
  "evict_loop kv now keynode vaddr valuelen retries =
     (if vaddr \<noteq> None \<and> keynode \<noteq> None then Some (True, keynode, vaddr, kv)
      else if MAX_EVICT_RETRIES < retries then Some (False, keynode, vaddr, kv)
      else case priskv_lru_evict kv of
             None \<Rightarrow> Some (False, keynode, vaddr, kv)
           | Some tail \<Rightarrow> do {
               (old, _, kv1) \<leftarrow> priskv_find_key kv now (key_of (node kv tail)) PRISKV_KEY_MAX_TIMEOUT True;
               case old of
                 None \<Rightarrow> evict_loop kv1 now keynode vaddr valuelen (retries + 1)
               | Some a \<Rightarrow> do {
                   kv2 \<leftarrow> lru_del_and_deref kv1 a;
                   (keynode', kv3) \<leftarrow> set_alloc_key kv2 keynode;
                   (vaddr', kv4) \<leftarrow> set_alloc_value kv3 vaddr valuelen;
                   evict_loop kv4 now keynode' vaddr' valuelen (retries + 1)
                 }
             })"
  by pat_completeness auto
termination by (relation "measure (\<lambda>(_, _, _, _, _, retries). MAX_EVICT_RETRIES + 1 - retries)") auto

declare evict_loop.simps [simp del]

text \<open>The assignments to a fresh node; \<open>None\<close> when \<open>memcpy\<close> leaves the slab object.\<close>

definition init_keynode ::
  "priskv_kv \<Rightarrow> timeval \<Rightarrow> addr \<Rightarrow> addr \<Rightarrow> bytes \<Rightarrow> nat \<Rightarrow> nat \<Rightarrow> priskv_kv option"
where
  "init_keynode kv now a vaddr key valuelen timeout =
     (if length (pk_key (node kv a)) < length key then None
      else Some (set_node a ((node kv a)\<lparr>
        pk_inprocess := True,
        pk_expire_time := (if timeout < PRISKV_KEY_MAX_TIMEOUT then priskv_time_add_ms now timeout
                           else \<lparr>tv_sec = -1, tv_usec = -1\<rparr>),
        pk_keylen := length key,
        pk_value_off := priskv_pointer_to_value kv vaddr,
        pk_valuelen := valuelen,
        pk_key := key @ drop (length key) (pk_key (node kv a)),
        pk_refcnt := 0\<rparr>) kv))"

type_synonym set_result = "priskv_resp_status \<times> addr option \<times> addr option"

definition set_found ::
  "priskv_kv \<Rightarrow> timeval \<Rightarrow> addr \<Rightarrow> addr \<Rightarrow> bytes \<Rightarrow> nat \<Rightarrow> nat \<Rightarrow> (set_result \<times> priskv_kv) option"
where
  "set_found kv now a v key valuelen timeout = do {
     kv1 \<leftarrow> init_keynode kv now a v key valuelen timeout;
     let kv2 = priskv_keynode_ref kv1 a;
     kv3 \<leftarrow> priskv_lru_access kv2 a False;
     kv4 \<leftarrow> priskv_insert_keynode kv3 a;
     Some ((PRISKV_RESP_STATUS_OK, Some v, Some a), kv4)
   }"

text \<open>The code behind the label \<open>out\<close>.\<close>

definition set_out :: "priskv_kv \<Rightarrow> addr option \<Rightarrow> addr option \<Rightarrow> (set_result \<times> priskv_kv) option" where
  "set_out kv keynode vaddr = do {
     value_buddy \<leftarrow> (case vaddr of None \<Rightarrow> Some (value_buddy kv)
                     | Some v \<Rightarrow> priskv_buddy_free (value_buddy kv) v);
     key_slab \<leftarrow> (case keynode of None \<Rightarrow> Some (key_slab kv)
                  | Some a \<Rightarrow> priskv_slab_free (key_slab kv) a);
     Some ((PRISKV_RESP_STATUS_NO_MEM, None, None), kv\<lparr>value_buddy := value_buddy, key_slab := key_slab\<rparr>)
   }"

definition priskv_set_key ::
  "priskv_kv \<Rightarrow> timeval \<Rightarrow> bytes \<Rightarrow> nat \<Rightarrow> nat \<Rightarrow> (set_result \<times> priskv_kv) option"
where
  "priskv_set_key kv now key valuelen timeout = do {
     (old, _, kv1) \<leftarrow> priskv_find_key kv now key PRISKV_KEY_MAX_TIMEOUT True;
     kv2 \<leftarrow> (case old of None \<Rightarrow> Some kv1 | Some a \<Rightarrow> lru_del_and_deref kv1 a);
     (keynode, kv3) \<leftarrow> set_alloc_key kv2 None;
     (vaddr, kv4) \<leftarrow> set_alloc_value kv3 None valuelen;
     (ok, keynode', vaddr', kv5) \<leftarrow> evict_loop kv4 now keynode vaddr valuelen 0;
     case (ok, keynode', vaddr') of
       (True, Some a, Some v) \<Rightarrow> set_found kv5 now a v key valuelen timeout
     | _ \<Rightarrow> set_out kv5 keynode' vaddr'
   }"

definition priskv_set_key_end :: "priskv_kv \<Rightarrow> addr option \<Rightarrow> priskv_kv" where
  "priskv_set_key_end kv arg =
     (case arg of None \<Rightarrow> kv
      | Some a \<Rightarrow> set_node a ((node kv a)\<lparr>pk_inprocess := False\<rparr>) kv)"

section \<open>DELETE and EXPIRE\<close>

definition priskv_delete_key :: "priskv_kv \<Rightarrow> timeval \<Rightarrow> bytes \<Rightarrow> (priskv_resp_status \<times> priskv_kv) option" where
  "priskv_delete_key kv now key = do {
     (found, _, kv1) \<leftarrow> priskv_find_key kv now key PRISKV_KEY_MAX_TIMEOUT True;
     case found of
       None \<Rightarrow> Some (PRISKV_RESP_STATUS_NO_SUCH_KEY, kv1)
     | Some a \<Rightarrow> do { kv2 \<leftarrow> lru_del_and_deref kv1 a; Some (PRISKV_RESP_STATUS_OK, kv2) }
   }"

definition priskv_expire_key ::
  "priskv_kv \<Rightarrow> timeval \<Rightarrow> bytes \<Rightarrow> nat \<Rightarrow> (priskv_resp_status \<times> priskv_kv) option"
where
  "priskv_expire_key kv now key timeout = do {
     (found, expired, kv1) \<leftarrow> priskv_find_key kv now key timeout False;
     case found of
       None \<Rightarrow> Some (PRISKV_RESP_STATUS_NO_SUCH_KEY, kv1)
     | Some a \<Rightarrow>
         if expired then do {
           kv2 \<leftarrow> lru_del_and_deref kv1 a;
           Some (PRISKV_RESP_STATUS_NO_SUCH_KEY, kv2)
         }
         else do { kv2 \<leftarrow> priskv_keynode_deref kv1 a; Some (PRISKV_RESP_STATUS_OK, kv2) }
   }"

section \<open>KEYS and FLUSH\<close>

text \<open>
  The key as the C string in the 1024 bytes of \<open>safekey\<close>; the terminator needs one byte.
  \<open>regcomp\<close> and \<open>regexec\<close> are the C library's: a compiled expression is the set of the
  strings it matches.
\<close>

definition safekey :: "priskv_key \<Rightarrow> bytes option" where
  "safekey n = (if 1024 \<le> pk_keylen n then None else Some (takeWhile (\<lambda>b. b \<noteq> 0) (key_of n)))"

type_synonym regcomp = "bytes \<Rightarrow> (bytes \<Rightarrow> bool) option"

text \<open>All buckets in order, as the outer loops visit them.\<close>

definition all_chains :: "priskv_kv \<Rightarrow> addr list list option" where
  "all_chains kv = (if length (hash_heads kv) < bucket_count kv then None
     else Some (take (bucket_count kv) (hash_heads kv)))"

text \<open>The body of \<open>priskv_get_keys\<close>: bytes written, \<open>reallen\<close>, \<open>nkey\<close>.\<close>

fun get_keys_loop ::
  "priskv_kv \<Rightarrow> (bytes \<Rightarrow> bool) \<Rightarrow> nat \<Rightarrow> addr list \<Rightarrow> bytes \<times> nat \<times> nat \<Rightarrow> (bytes \<times> nat \<times> nat) option"
where
  "get_keys_loop kv regexec keyslen [] s = Some s"
| "get_keys_loop kv regexec keyslen (a # as) (buf, reallen, nkey) = do {
     str \<leftarrow> safekey (node kv a);
     if \<not> regexec str then get_keys_loop kv regexec keyslen as (buf, reallen, nkey)
     else
       let n = node kv a; len = 8 + pk_keylen n
       in get_keys_loop kv regexec keyslen as
            (if reallen + len \<le> keyslen then buf @ keys_resp_entry (key_of n) (pk_valuelen n) else buf,
             u32n (reallen + len), u32n (nkey + 1))
   }"

text \<open>Status, bytes written, \<open>reallen\<close> and \<open>nkey\<close>.\<close>

definition priskv_get_keys ::
  "regcomp \<Rightarrow> priskv_kv \<Rightarrow> bytes \<Rightarrow> nat \<Rightarrow> (priskv_resp_status \<times> bytes \<times> nat \<times> nat) option"
where
  "priskv_get_keys regcomp kv regex keyslen =
     (case regcomp (takeWhile (\<lambda>b. b \<noteq> 0) regex) of
        None \<Rightarrow> Some (PRISKV_RESP_STATUS_INVALID_REGEX, [], 0, 0)
      | Some regexec \<Rightarrow> do {
          chains \<leftarrow> all_chains kv;
          (buf, reallen, nkey) \<leftarrow> get_keys_loop kv regexec keyslen (concat chains) ([], 0, 0);
          Some (if keyslen < reallen then PRISKV_RESP_STATUS_VALUE_TOO_BIG else PRISKV_RESP_STATUS_OK,
            buf, reallen, nkey)
        })"

text \<open>The inner loop of \<open>priskv_flush_keys\<close> over the chain of bucket \<open>i\<close>.\<close>

fun flush_chain ::
  "(bytes \<Rightarrow> bool) \<Rightarrow> nat \<Rightarrow> addr list \<Rightarrow> nat \<times> priskv_kv \<Rightarrow> (nat \<times> priskv_kv) option"
where
  "flush_chain regexec i [] s = Some s"
| "flush_chain regexec i (a # as) (nkey, kv) = do {
     str \<leftarrow> safekey (node kv a);
     if \<not> regexec str then flush_chain regexec i as (nkey, kv)
     else do {
       kv1 \<leftarrow> priskv_lru_del_key kv a;
       kv2 \<leftarrow> priskv_keynode_deref (chain_del kv1 i a) a;
       flush_chain regexec i as (u32n (nkey + 1), kv2)
     }
   }"

fun flush_loop :: "(bytes \<Rightarrow> bool) \<Rightarrow> nat list \<Rightarrow> nat \<times> priskv_kv \<Rightarrow> (nat \<times> priskv_kv) option" where
  "flush_loop regexec [] s = Some s"
| "flush_loop regexec (i # is) (nkey, kv) =
     (if length (hash_heads kv) \<le> i then None
      else do {
        s \<leftarrow> flush_chain regexec i (hash_heads kv ! i) (nkey, kv);
        flush_loop regexec is s
      })"

definition priskv_flush_keys ::
  "regcomp \<Rightarrow> priskv_kv \<Rightarrow> bytes \<Rightarrow> (priskv_resp_status \<times> nat \<times> priskv_kv) option"
where
  "priskv_flush_keys regcomp kv regex =
     (case regcomp (takeWhile (\<lambda>b. b \<noteq> 0) regex) of
        None \<Rightarrow> Some (PRISKV_RESP_STATUS_INVALID_REGEX, 0, kv)
      | Some regexec \<Rightarrow> do {
          (nkey, kv') \<leftarrow> flush_loop regexec [0..<bucket_count kv] (0, kv);
          Some (PRISKV_RESP_STATUS_OK, nkey, kv')
        })"

section \<open>The expire routine\<close>

text \<open>First inner loop of \<open>priskv_clear_expired_kv\<close>: move the expired nodes of bucket \<open>i\<close>
  to the list \<open>expired_kv\<close> and count them.\<close>

fun sweep_chain :: "timeval \<Rightarrow> nat \<Rightarrow> addr list \<Rightarrow> addr list \<times> priskv_kv \<Rightarrow> addr list \<times> priskv_kv" where
  "sweep_chain now i [] s = s"
| "sweep_chain now i (a # as) (expired, kv) =
     (if priskv_key_timeout (node kv a) now then
        sweep_chain now i as (expired @ [a],
          (chain_del kv i a)\<lparr>expire_kv_count := u64n (expire_kv_count kv + 1),
            expire_kv_bytes := u64n (expire_kv_bytes kv + pk_valuelen (node kv a))\<rparr>)
      else sweep_chain now i as (expired, kv))"

text \<open>Second inner loop: empty \<open>expired_kv\<close>.\<close>

fun drop_expired :: "addr list \<Rightarrow> priskv_kv \<Rightarrow> priskv_kv option" where
  "drop_expired [] kv = Some kv"
| "drop_expired (a # as) kv = do { kv1 \<leftarrow> lru_del_and_deref kv a; drop_expired as kv1 }"

fun clear_expired_loop :: "timeval \<Rightarrow> nat list \<Rightarrow> priskv_kv \<Rightarrow> priskv_kv option" where
  "clear_expired_loop now [] kv = Some kv"
| "clear_expired_loop now (i # is) kv =
     (if length (hash_heads kv) \<le> i then None
      else do {
        let (expired, kv1) = sweep_chain now i (hash_heads kv ! i) ([], kv);
        kv2 \<leftarrow> drop_expired expired kv1;
        clear_expired_loop now is kv2
      })"

definition priskv_clear_expired_kv :: "priskv_kv \<Rightarrow> timeval \<Rightarrow> priskv_kv option" where
  "priskv_clear_expired_kv kv now = do {
     kv1 \<leftarrow> clear_expired_loop now [0..<bucket_count kv] kv;
     Some (kv1\<lparr>expire_routine_times := u64n (expire_routine_times kv1 + 1)\<rparr>)
   }"

section \<open>Recovery of a memory file\<close>

definition EIO :: int where
  "EIO = 5"

text \<open>One round of the loop of \<open>priskv_recover\<close>: \<open>Inl\<close> is the early return.\<close>

definition recover_slot :: "priskv_kv \<Rightarrow> nat \<Rightarrow> (int + priskv_kv) option" where
  "recover_slot kv i =
     (let keysize = u16n (slab_size (key_slab kv));
          a = key_base kv + u32n (keysize * i);
          n = node kv a
      in if pk_keylen n = 0 then Some (Inr kv)
         else if keysize < priskv_mem_key_size (pk_keylen n) then Some (Inl (- EIO))
         else if length (pk_key n) < pk_keylen n then None
         else if pk_inprocess n then do {
           value_buddy \<leftarrow> (if pk_valuelen n \<noteq> 0
              then priskv_buddy_free (value_buddy kv) (priskv_value_to_pointer kv a)
              else Some (value_buddy kv));
           key_slab \<leftarrow> priskv_slab_free (key_slab kv) a;
           Some (Inr (set_node a (zero_key n) (kv\<lparr>value_buddy := value_buddy, key_slab := key_slab\<rparr>)))
         }
         else if pk_valuelen n = 0 then None
         else do {
           (b, slab) \<leftarrow> priskv_slab_reserve (key_slab kv) (int i);
           if b \<noteq> a then None
           else do {
             kv1 \<leftarrow> priskv_insert_keynode (kv\<lparr>key_slab := slab\<rparr>) a;
             kv2 \<leftarrow> priskv_lru_access kv1 a False;
             Some (Inr kv2)
           }
         })"

fun recover_loop :: "nat list \<Rightarrow> priskv_kv \<Rightarrow> (int \<times> priskv_kv) option" where
  "recover_loop [] kv = Some (0, kv)"
| "recover_loop (i # is) kv = do {
     r \<leftarrow> recover_slot kv i;
     case r of Inl e \<Rightarrow> Some (e, kv) | Inr kv' \<Rightarrow> recover_loop is kv'
   }"

definition priskv_recover :: "priskv_kv \<Rightarrow> (int \<times> priskv_kv) option" where
  "priskv_recover kv = recover_loop [0..<max_keys kv] kv"

section \<open>Statistics\<close>

definition priskv_get_keys_inuse :: "priskv_kv \<Rightarrow> nat" where
  "priskv_get_keys_inuse kv = slab_inuse (key_slab kv)"

definition priskv_get_value_blocks_inuse :: "priskv_kv \<Rightarrow> nat" where
  "priskv_get_value_blocks_inuse kv = bd_inuse (value_buddy kv)"

definition priskv_get_value_blocks :: "priskv_kv \<Rightarrow> nat" where
  "priskv_get_value_blocks kv = bd_nmemb (value_buddy kv)"

definition priskv_get_value_block_size :: "priskv_kv \<Rightarrow> nat" where
  "priskv_get_value_block_size kv = bd_size (value_buddy kv)"

definition priskv_set_expire_routine_interval :: "priskv_kv \<Rightarrow> nat \<Rightarrow> priskv_kv" where
  "priskv_set_expire_routine_interval kv interval = kv\<lparr>expire_routine_interval := interval\<rparr>"

end
