(* ===== verification/KV_Inv.thy ===== *)
theory KV_Inv
  imports KV
begin

text \<open>
  The invariant of the store and that every operation keeps it. \<open>mem_inv\<close> says who owns
  the slab objects and the value blocks: \<open>r a\<close> counts the references to node \<open>a\<close>, \<open>K\<close>
  and \<open>V\<close> are an object and a block allocated but not yet attached. \<open>chain_inv\<close> is about
  the hash chains and the LRU list. \<open>kv_inv\<close> joins them for the \<open>h a\<close> references that
  unfinished GETs hold, one more being the chain's.
\<close>

section \<open>Definitions\<close>

definition alive :: "(addr \<Rightarrow> nat) \<Rightarrow> addr set" where
  "alive r = {a. 0 < r a}"

definition slots :: "priskv_slab \<Rightarrow> addr set" where
  "slots s = (\<lambda>i. slab_base s + i * slab_size s) ` {..<slab_objects s}"

abbreviation vaddr :: "priskv_kv \<Rightarrow> addr \<Rightarrow> addr" where
  "vaddr \<equiv> priskv_value_to_pointer"

definition mem_inv :: "priskv_kv \<Rightarrow> (addr \<Rightarrow> nat) \<Rightarrow> addr set \<Rightarrow> region set \<Rightarrow> bool" where
  "mem_inv kv r K V \<longleftrightarrow>
     slab_ok (key_slab kv) \<and> buddy_ok (value_buddy kv) \<and> bd_base (value_buddy kv) = value_base kv
     \<and> (\<forall>a \<in> slots (key_slab kv). length (pk_key (node kv a)) = slab_size (key_slab kv) - key_struct_size)
     \<and> fst ` slab_live (key_slab kv) = alive r \<union> K \<and> alive r \<inter> K = {}
     \<and> (\<forall>a \<in> alive r. pk_refcnt (node kv a) = r a \<and> r a < 2 ^ 32
          \<and> pk_keylen (node kv a) \<le> length (pk_key (node kv a))
          \<and> (\<exists>m \<ge> pk_valuelen (node kv a). (vaddr kv a, m) \<in> buddy_live (value_buddy kv)))
     \<and> inj_on (vaddr kv) (alive r)
     \<and> V \<subseteq> buddy_live (value_buddy kv)
     \<and> fst ` buddy_live (value_buddy kv) = vaddr kv ` alive r \<union> fst ` V
     \<and> vaddr kv ` alive r \<inter> fst ` V = {}"

definition chained :: "priskv_kv \<Rightarrow> addr set" where
  "chained kv = set (concat (hash_heads kv))"

definition chain_inv :: "priskv_kv \<Rightarrow> bool" where
  "chain_inv kv \<longleftrightarrow>
     0 < bucket_count kv \<and> length (hash_heads kv) = bucket_count kv
     \<and> distinct (concat (hash_heads kv))
     \<and> (\<forall>i < bucket_count kv. \<forall>a \<in> set (hash_heads kv ! i). hash_index kv (key_of (node kv a)) = i)
     \<and> inj_on (\<lambda>a. key_of (node kv a)) (chained kv)
     \<and> distinct (lru_head kv) \<and> set (lru_head kv) = chained kv"

definition refs :: "priskv_kv \<Rightarrow> (addr \<Rightarrow> nat) \<Rightarrow> addr \<Rightarrow> nat" where
  "refs kv h a = (if a \<in> chained kv then 1 else 0) + h a"

definition kv_inv_at :: "priskv_kv \<Rightarrow> (addr \<Rightarrow> nat) \<Rightarrow> addr set \<Rightarrow> region set \<Rightarrow> bool" where
  "kv_inv_at kv h K V \<longleftrightarrow> chain_inv kv \<and> mem_inv kv (refs kv h) K V"

abbreviation kv_inv :: "priskv_kv \<Rightarrow> (addr \<Rightarrow> nat) \<Rightarrow> bool" where
  "kv_inv kv h \<equiv> kv_inv_at kv h {} {}"

text \<open>What no operation changes.\<close>

definition same_shape :: "priskv_kv \<Rightarrow> priskv_kv \<Rightarrow> bool" where
  "same_shape kv kv' \<longleftrightarrow> bucket_count kv' = bucket_count kv \<and> max_keys kv' = max_keys kv
     \<and> max_key_length kv' = max_key_length kv
     \<and> key_base kv' = key_base kv \<and> value_base kv' = value_base kv
     \<and> slab_base (key_slab kv') = slab_base (key_slab kv) \<and> slab_size (key_slab kv') = slab_size (key_slab kv)
     \<and> slab_objects (key_slab kv') = slab_objects (key_slab kv)
     \<and> bd_nmemb (value_buddy kv') = bd_nmemb (value_buddy kv) \<and> bd_size (value_buddy kv') = bd_size (value_buddy kv)"

lemma same_shape_refl [simp]: "same_shape kv kv"
  by (simp add: same_shape_def)

lemma same_shape_trans: "same_shape kv kv1 \<Longrightarrow> same_shape kv1 kv2 \<Longrightarrow> same_shape kv kv2"
  by (simp add: same_shape_def)

text \<open>What no operation changes of a node while a GET refers to it.\<close>

definition held_same :: "(addr \<Rightarrow> nat) \<Rightarrow> priskv_kv \<Rightarrow> priskv_kv \<Rightarrow> bool" where
  "held_same h kv kv' \<longleftrightarrow> (\<forall>b. 0 < h b \<longrightarrow> vaddr kv' b = vaddr kv b
     \<and> pk_valuelen (node kv' b) = pk_valuelen (node kv b) \<and> key_of (node kv' b) = key_of (node kv b))"

lemma held_same_refl [simp]: "held_same h kv kv"
  by (simp add: held_same_def)

lemma held_same_trans: "held_same h kv kv1 \<Longrightarrow> held_same h kv1 kv2 \<Longrightarrow> held_same h kv kv2"
  by (simp add: held_same_def)

lemma held_sameI:
  assumes "same_shape kv kv'"
    "\<And>b. 0 < h b \<Longrightarrow> node kv' b = node kv b \<or> (\<exists>c. node kv' b = (node kv b)\<lparr>pk_refcnt := c\<rparr>)"
  shows "held_same h kv kv'"
  unfolding held_same_def
proof (intro allI impI)
  fix b assume "0 < h b"
  with assms(2) have "node kv' b = node kv b \<or> (\<exists>c. node kv' b = (node kv b)\<lparr>pk_refcnt := c\<rparr>)" by blast
  with assms(1) show "vaddr kv' b = vaddr kv b \<and> pk_valuelen (node kv' b) = pk_valuelen (node kv b)
      \<and> key_of (node kv' b) = key_of (node kv b)"
    by (auto simp: same_shape_def priskv_value_to_pointer_def key_of_def)
qed

lemma held_same_mem: "same_shape kv kv' \<Longrightarrow> key_mem kv' = key_mem kv \<Longrightarrow> held_same h kv kv'"
  by (rule held_sameI) simp_all

lemma slots_shape: "same_shape kv kv' \<Longrightarrow> slots (key_slab kv') = slots (key_slab kv)"
  by (simp add: same_shape_def slots_def)

lemma slab_live_slots: "fst ` slab_live s \<subseteq> slots s"
  by (auto simp: slab_live_def slots_def slab_used_def)

lemma slab_alloc_geom:
  assumes "slab_ok s" "priskv_slab_alloc s = Some (q, s')"
  shows "slab_base s' = slab_base s \<and> slab_size s' = slab_size s \<and> slab_objects s' = slab_objects s"
  using slab_alloc_full [OF assms(1)] slab_alloc_avail [OF assms(1)] assms(2)
  by (cases "slab_used s = {..<slab_objects s}") auto

lemma slab_free_geom:
  "priskv_slab_free s a = Some s' \<Longrightarrow>
     slab_base s' = slab_base s \<and> slab_size s' = slab_size s \<and> slab_objects s' = slab_objects s"
  by (auto simp: priskv_slab_free_def Let_def split: if_splits)

section \<open>Dropping a reference\<close>

lemma alive_upd: "alive (r(a := n)) = (if 0 < n then insert a (alive r) else alive r - {a})"
  by (auto simp: alive_def)

lemma vaddr_simps [simp]:
  "vaddr (kv\<lparr>hash_heads := x\<rparr>) = vaddr kv" "vaddr (kv\<lparr>lru_head := y\<rparr>) = vaddr kv"
  "vaddr (kv\<lparr>key_slab := s\<rparr>) = vaddr kv" "vaddr (kv\<lparr>value_buddy := b\<rparr>) = vaddr kv"
  "vaddr (set_node a n kv) b' = (if b' = a then value_base kv + pk_value_off n else vaddr kv b')"
  by (auto simp: priskv_value_to_pointer_def)

lemma mem_inv_node:
  assumes "mem_inv kv r K V" "0 < r a"
  shows "pk_refcnt (node kv a) = r a" "r a < 2 ^ 32" "pk_keylen (node kv a) \<le> length (pk_key (node kv a))"
    "a \<in> fst ` slab_live (key_slab kv)" "vaddr kv a \<in> fst ` buddy_live (value_buddy kv)"
    "a \<in> slots (key_slab kv)" "\<exists>m \<ge> pk_valuelen (node kv a). (vaddr kv a, m) \<in> buddy_live (value_buddy kv)"
  using assms slab_live_slots [of "key_slab kv"] unfolding mem_inv_def alive_def by auto

text \<open>Changing fields of a node that the invariant does not mention.\<close>

lemma mem_inv_set_node:
  assumes "mem_inv kv r K V" "0 < r a"
    and "length (pk_key n) = length (pk_key (node kv a))" "pk_keylen n \<le> length (pk_key n)"
    and "pk_value_off n = pk_value_off (node kv a)" "pk_valuelen n \<le> pk_valuelen (node kv a)"
    and "pk_refcnt n = c" "0 < c" "c < 2 ^ 32"
  shows "mem_inv (set_node a n kv) (r(a := c)) K V"
proof -
  have al: "alive (r(a := c)) = alive r" using assms(2,8) by (auto simp: alive_def)
  have v: "vaddr (set_node a n kv) = vaddr kv"
    using assms(5) by (auto simp: priskv_value_to_pointer_def)
  have "\<exists>m \<ge> pk_valuelen n. (vaddr kv a, m) \<in> buddy_live (value_buddy kv)"
    using mem_inv_node(7) [OF assms(1,2)] assms(6) order_trans by blast
  then show ?thesis using assms unfolding mem_inv_def al v by (auto simp: alive_def)
qed

lemma deref_last:
  assumes inv: "mem_inv kv r K V" and one: "r a = 1"
  shows "\<exists>kv'. priskv_keynode_deref kv a = Some kv' \<and> mem_inv kv' (r(a := 0)) K V
     \<and> same_shape kv kv' \<and> hash_heads kv' = hash_heads kv \<and> lru_head kv' = lru_head kv
     \<and> (\<forall>b. b \<noteq> a \<longrightarrow> node kv' b = node kv b)"
proof -
  let ?kv1 = "set_node a ((node kv a)\<lparr>pk_refcnt := 0\<rparr>) kv"
  have "0 < r a" using one by simp
  note nd = mem_inv_node [OF inv this]
  from inv have sok: "slab_ok (key_slab kv)" and bok: "buddy_ok (value_buddy kv)" by (simp_all add: mem_inv_def)
  from nd(5) obtain m where m: "(vaddr kv a, m) \<in> buddy_live (value_buddy kv)" by auto
  from buddy_free_live [OF bok m] obtain bd where bd: "priskv_buddy_free (value_buddy kv) (vaddr kv a) = Some bd"
    "buddy_ok bd" "buddy_live bd = buddy_live (value_buddy kv) - {(vaddr kv a, m)}"
    "bd_nmemb bd = bd_nmemb (value_buddy kv)" "bd_size bd = bd_size (value_buddy kv)"
    "bd_base bd = bd_base (value_buddy kv)" by blast
  from nd(4) obtain l where "(a, l) \<in> slab_live (key_slab kv)" by auto
  from slab.free_block [OF sok this] obtain sl where sl: "priskv_slab_free (key_slab kv) a = Some sl" by blast
  have slf: "slab_ok sl" "fst ` slab_live sl = fst ` slab_live (key_slab kv) - {a}"
    using slab.free_addrs [OF sok nd(4) sl] by simp_all
  have bdf: "fst ` buddy_live bd = fst ` buddy_live (value_buddy kv) - {vaddr kv a}"
    using bdy.free_addrs(2) [OF bok nd(5) bd(1)] .
  note geom = slab_free_geom [OF sl]
  define kv' where "kv' = set_node a (zero_key (node ?kv1 a)) (?kv1\<lparr>value_buddy := bd, key_slab := sl\<rparr>)"
  have eq: "priskv_keynode_deref kv a = Some kv'"
    using nd(1) bd(1) sl one
    by (simp add: priskv_keynode_deref_def kv'_def u32_sub_id priskv_value_to_pointer_def)
  have sh: "same_shape kv kv'" using geom bd by (simp add: same_shape_def kv'_def)
  have al: "alive (r(a := 0)) = alive r - {a}" by (auto simp: alive_def)
  have aal: "a \<in> alive r" using one by (simp add: alive_def)
  have v: "vaddr kv' b = vaddr kv b" if "b \<noteq> a" for b using that by (simp add: kv'_def priskv_value_to_pointer_def)
  have inj: "inj_on (vaddr kv) (alive r)" using inv by (simp add: mem_inv_def)
  have vim: "vaddr kv' ` (alive r - {a}) = vaddr kv ` alive r - {vaddr kv a}"
    using inj_on_image_set_diff [OF inj, of "alive r" "{a}"] aal v by (auto simp: image_iff)
  have aV: "vaddr kv a \<notin> fst ` V" using inv aal by (auto simp: mem_inv_def)
  have "(vaddr kv a, m) \<notin> V" using aV by (metis fst_conv image_eqI)
  moreover have "V \<subseteq> buddy_live (value_buddy kv)" using inv by (simp add: mem_inv_def)
  ultimately have V: "V \<subseteq> buddy_live bd" using bd(3) by blast
  have K: "a \<notin> K" using inv aal by (auto simp: mem_inv_def)
  have blk: "\<exists>m \<ge> pk_valuelen (node kv' b). (vaddr kv' b, m) \<in> buddy_live bd" if b: "b \<in> alive r - {a}" for b
  proof -
    have "vaddr kv b \<noteq> vaddr kv a" using inj b aal by (auto dest: inj_onD)
    moreover have "node kv' b = node kv b" using b by (simp add: kv'_def)
    ultimately show ?thesis using inv b v [of b] bd(3) by (auto simp: mem_inv_def)
  qed
  have nodes: "\<forall>b \<in> alive r - {a}. pk_refcnt (node kv' b) = (r(a := 0)) b \<and> (r(a := 0)) b < 2 ^ 32
      \<and> pk_keylen (node kv' b) \<le> length (pk_key (node kv' b))"
    using inv by (simp add: mem_inv_def kv'_def)
  have len: "\<forall>b \<in> slots sl. length (pk_key (node kv' b)) = slab_size sl - key_struct_size"
    using inv geom slots_shape [OF sh] by (simp add: mem_inv_def kv'_def zero_key_def)
  have own: "fst ` slab_live sl = (alive r - {a}) \<union> K" "(alive r - {a}) \<inter> K = {}"
    using inv slf(2) K by (auto simp: mem_inv_def)
  have ownb: "fst ` buddy_live bd = (vaddr kv ` alive r - {vaddr kv a}) \<union> fst ` V"
      "(vaddr kv ` alive r - {vaddr kv a}) \<inter> fst ` V = {}"
    using inv bdf aV by (auto simp: mem_inv_def)
  have inj': "inj_on (vaddr kv') (alive r - {a})"
    using inj v by (simp add: inj_on_def)
  have st: "key_slab kv' = sl" "value_buddy kv' = bd" "value_base kv' = value_base kv"
    by (simp_all add: kv'_def)
  have "bd_base bd = value_base kv" using inv bd(6) by (simp add: mem_inv_def)
  then have "mem_inv kv' (r(a := 0)) K V"
    unfolding mem_inv_def al vim st using slf(1) bd(2) len own nodes blk inj' V ownb by simp
  with eq sh show ?thesis by (auto simp: kv'_def)
qed

lemma deref_more:
  assumes inv: "mem_inv kv r K V" and more: "1 < r a"
  shows "priskv_keynode_deref kv a = Some (set_node a ((node kv a)\<lparr>pk_refcnt := r a - 1\<rparr>) kv)"
    and "mem_inv (set_node a ((node kv a)\<lparr>pk_refcnt := r a - 1\<rparr>) kv) (r(a := r a - 1)) K V"
proof -
  have pos: "0 < r a" using more by simp
  note nd = mem_inv_node [OF inv pos]
  show "priskv_keynode_deref kv a = Some (set_node a ((node kv a)\<lparr>pk_refcnt := r a - 1\<rparr>) kv)"
    using nd(1,2) more by (simp add: priskv_keynode_deref_def Let_def u32_sub_id)
  show "mem_inv (set_node a ((node kv a)\<lparr>pk_refcnt := r a - 1\<rparr>) kv) (r(a := r a - 1)) K V"
    using mem_inv_set_node [OF inv pos, of "(node kv a)\<lparr>pk_refcnt := r a - 1\<rparr>" "r a - 1"] nd(2,3) more by simp
qed

text \<open>Both cases: the node is freed with the last reference, and no other node changes.\<close>

lemma deref_inv:
  assumes "mem_inv kv r K V" "0 < r a"
  shows "\<exists>kv'. priskv_keynode_deref kv a = Some kv' \<and> mem_inv kv' (r(a := r a - 1)) K V
     \<and> same_shape kv kv' \<and> hash_heads kv' = hash_heads kv \<and> lru_head kv' = lru_head kv
     \<and> (\<forall>b. b \<noteq> a \<longrightarrow> node kv' b = node kv b)
     \<and> (1 < r a \<longrightarrow> node kv' a = (node kv a)\<lparr>pk_refcnt := r a - 1\<rparr>
          \<and> key_slab kv' = key_slab kv \<and> value_buddy kv' = value_buddy kv)"
proof (cases "r a = 1")
  case True
  with deref_last [OF assms(1)] show ?thesis by auto
next
  case False
  with assms(2) have more: "1 < r a" by simp
  show ?thesis using deref_more [OF assms(1) more] by (auto simp: same_shape_def)
qed

section \<open>Chains and look up\<close>

lemma kv_invD:
  assumes "kv_inv_at kv h K V"
  shows "chain_inv kv" "mem_inv kv (refs kv h) K V"
  using assms by (simp_all add: kv_inv_at_def)

lemma chained_nth: "a \<in> chained kv \<longleftrightarrow> (\<exists>i < length (hash_heads kv). a \<in> set (hash_heads kv ! i))"
  by (auto simp: chained_def set_conv_nth [of "hash_heads kv"])

definition lookup :: "priskv_kv \<Rightarrow> bytes \<Rightarrow> addr option" where
  "lookup kv key = find (key_matches kv key) (hash_heads kv ! hash_index kv key)"

lemma hash_index_less: "0 < bucket_count kv \<Longrightarrow> hash_index kv key < bucket_count kv"
  by (simp add: hash_index_def)

lemma key_matches_iff:
  assumes "pk_keylen (node kv a) \<le> length (pk_key (node kv a))"
  shows "key_matches kv key a \<longleftrightarrow> key_of (node kv a) = key"
  using assms by (auto simp: key_matches_def key_of_def)

lemma chained_node:
  assumes "kv_inv_at kv h K V" "a \<in> chained kv"
  shows "0 < refs kv h a" "pk_keylen (node kv a) \<le> length (pk_key (node kv a))"
    "a \<in> set (hash_heads kv ! hash_index kv (key_of (node kv a)))"
proof -
  show r: "0 < refs kv h a" using assms(2) by (simp add: refs_def)
  show "pk_keylen (node kv a) \<le> length (pk_key (node kv a))"
    using mem_inv_node(3) [OF kv_invD(2) [OF assms(1)] r] .
  show "a \<in> set (hash_heads kv ! hash_index kv (key_of (node kv a)))"
    using assms unfolding kv_inv_at_def chain_inv_def chained_nth by auto
qed

lemma lookup_Some_iff:
  assumes "kv_inv_at kv h K V"
  shows "lookup kv key = Some a \<longleftrightarrow> a \<in> chained kv \<and> key_of (node kv a) = key"
proof -
  note c = kv_invD(1) [OF assms]
  let ?i = "hash_index kv key"
  have i: "?i < length (hash_heads kv)" using c hash_index_less by (simp add: chain_inv_def)
  have chain: "b \<in> chained kv" if "b \<in> set (hash_heads kv ! ?i)" for b
    using that i by (auto simp: chained_nth)
  show ?thesis
  proof
    assume "lookup kv key = Some a"
    from find_SomeD [OF this [unfolded lookup_def]] have "a \<in> chained kv" "key_matches kv key a"
      using chain by auto
    with chained_node(2) [OF assms] show "a \<in> chained kv \<and> key_of (node kv a) = key"
      by (simp add: key_matches_iff)
  next
    assume a: "a \<in> chained kv \<and> key_of (node kv a) = key"
    then have "a \<in> set (hash_heads kv ! ?i)" "key_matches kv key a"
      using chained_node [OF assms, of a] by (auto simp: key_matches_iff)
    then obtain b where b: "lookup kv key = Some b"
      unfolding lookup_def using find_None_iff_all by (metis option.exhaust)
    from find_SomeD [OF this [unfolded lookup_def]] have "b \<in> chained kv" "key_matches kv key b"
      using chain by auto
    then have "key_of (node kv b) = key" using chained_node(2) [OF assms] by (simp add: key_matches_iff)
    with a \<open>b \<in> chained kv\<close> c have "b = a" by (auto simp: chain_inv_def dest: inj_onD)
    with b show "lookup kv key = Some a" by simp
  qed
qed

lemma lookup_None_iff:
  assumes "kv_inv_at kv h K V"
  shows "lookup kv key = None \<longleftrightarrow> (\<forall>a \<in> chained kv. key_of (node kv a) \<noteq> key)"
proof -
  have "lookup kv key = None \<longleftrightarrow> (\<forall>a. lookup kv key \<noteq> Some a)" by simp
  then show ?thesis unfolding lookup_Some_iff [OF assms] by blast
qed

lemma find_key_eq:
  assumes "kv_inv_at kv h K V"
  shows "priskv_find_key kv now key timeout pop =
     (case lookup kv key of
        None \<Rightarrow> Some (None, False, kv)
      | Some a \<Rightarrow>
          if pop then Some (Some a, False, chain_del kv (hash_index kv key) a)
          else if priskv_key_timeout (node kv a) now
               then Some (Some a, True, chain_del kv (hash_index kv key) a)
          else Some (Some a, False, priskv_keynode_ref
                 (if timeout < PRISKV_KEY_MAX_TIMEOUT
                  then set_node a ((node kv a)\<lparr>pk_expire_time := priskv_time_add_ms now timeout\<rparr>) kv
                  else kv) a))"
  using kv_invD(1) [OF assms] hash_index_less [of kv key]
  by (auto simp: priskv_find_key_def lookup_def chain_inv_def Let_def split: option.splits)

text \<open>Taking a node off its chain.\<close>

lemma chain_del_simps [simp]:
  "key_mem (chain_del kv i a) = key_mem kv" "lru_head (chain_del kv i a) = lru_head kv"
  "key_slab (chain_del kv i a) = key_slab kv" "value_buddy (chain_del kv i a) = value_buddy kv"
  "bucket_count (chain_del kv i a) = bucket_count kv" "value_base (chain_del kv i a) = value_base kv"
  "vaddr (chain_del kv i a) = vaddr kv" "hash_index (chain_del kv i a) = hash_index kv"
  "same_shape kv (chain_del kv i a)"
  by (auto simp: chain_del_def same_shape_def priskv_value_to_pointer_def hash_index_def fun_eq_iff)

lemma concat_remove1:
  assumes "distinct (concat xss)" "i < length xss" "a \<in> set (xss ! i)"
  shows "distinct (concat (xss[i := remove1 a (xss ! i)]))"
    and "set (concat (xss[i := remove1 a (xss ! i)])) = set (concat xss) - {a}"
proof -
  have split: "xss = take i xss @ (xss ! i) # drop (Suc i) xss" using assms(2) by (rule id_take_nth_drop)
  have upd: "xss[i := remove1 a (xss ! i)] = take i xss @ remove1 a (xss ! i) # drop (Suc i) xss"
    using assms(2) by (simp add: upd_conv_take_nth_drop)
  have cc: "concat xss = concat (take i xss) @ xss ! i @ concat (drop (Suc i) xss)"
    by (subst split) simp
  have d: "distinct (concat (take i xss) @ xss ! i @ concat (drop (Suc i) xss))" using assms(1) cc by simp
  show "distinct (concat (xss[i := remove1 a (xss ! i)]))"
    using d unfolding upd by (auto simp: distinct_remove1 dest: notin_set_remove1)
  show "set (concat (xss[i := remove1 a (xss ! i)])) = set (concat xss) - {a}"
    using d assms(3) unfolding upd cc by (auto simp: set_remove1_eq)
qed

lemma chain_inv_cong:
  assumes "chain_inv kv" "hash_heads kv' = hash_heads kv" "lru_head kv' = lru_head kv"
    "bucket_count kv' = bucket_count kv" "\<And>b. b \<in> chained kv \<Longrightarrow> key_of (node kv' b) = key_of (node kv b)"
  shows "chain_inv kv'"
proof -
  have c: "chained kv' = chained kv" using assms(2) by (simp add: chained_def)
  have "hash_index kv' = hash_index kv" using assms(4) by (simp add: hash_index_def fun_eq_iff)
  moreover have "b \<in> chained kv" if "i < bucket_count kv" "b \<in> set (hash_heads kv ! i)" for i b
    using that assms(1) by (auto simp: chained_nth chain_inv_def)
  ultimately show ?thesis using assms c by (auto simp: chain_inv_def inj_on_def)
qed

lemma mem_inv_cong:
  assumes "mem_inv kv r K V" "key_slab kv' = key_slab kv" "value_buddy kv' = value_buddy kv"
    "value_base kv' = value_base kv" "key_mem kv' = key_mem kv"
  shows "mem_inv kv' r K V"
proof -
  have "vaddr kv' = vaddr kv" using assms(4,5) by (simp add: priskv_value_to_pointer_def fun_eq_iff)
  then show ?thesis using assms by (simp add: mem_inv_def)
qed

lemma chain_del_inv:
  assumes inv: "chain_inv kv" and a: "a \<in> set (hash_heads kv ! i)" "i < bucket_count kv"
  defines "kv1 \<equiv> (chain_del kv i a)\<lparr>lru_head := remove1 a (lru_head kv)\<rparr>"
  shows "chain_inv kv1" "chained kv1 = chained kv - {a}"
proof -
  have i: "i < length (hash_heads kv)" "distinct (concat (hash_heads kv))" using inv a(2) by (simp_all add: chain_inv_def)
  have hh: "hash_heads kv1 = (hash_heads kv)[i := remove1 a (hash_heads kv ! i)]"
    by (simp add: kv1_def chain_del_def)
  note cr = concat_remove1 [OF i(2,1) a(1), folded hh]
  show c: "chained kv1 = chained kv - {a}" using cr(2) by (simp add: chained_def)
  have sub: "set (hash_heads kv1 ! j) \<subseteq> set (hash_heads kv ! j)" if "j < bucket_count kv" for j
    using hh i that set_remove1_subset [of a "hash_heads kv ! i"] by (cases "j = i") auto
  have hi: "hash_index kv1 = hash_index kv" by (simp add: kv1_def hash_index_def fun_eq_iff)
  have st: "bucket_count kv1 = bucket_count kv" "key_mem kv1 = key_mem kv" "length (hash_heads kv1) = bucket_count kv"
    using inv hh by (simp_all add: kv1_def chain_inv_def)
  have lru: "set (lru_head kv1) = chained kv1" "distinct (lru_head kv1)"
    using inv c by (auto simp: kv1_def chain_inv_def)
  have "inj_on (\<lambda>a. key_of (node kv a)) (chained kv1)"
    unfolding c using inv by (auto simp: chain_inv_def intro: inj_on_subset)
  moreover have "\<forall>j < bucket_count kv. \<forall>b \<in> set (hash_heads kv1 ! j). hash_index kv (key_of (node kv b)) = j"
    using inv sub unfolding chain_inv_def by blast
  ultimately show "chain_inv kv1"
    using inv cr(1) lru unfolding chain_inv_def st hi by simp
qed

lemma chained_bucket:
  assumes "kv_inv_at kv h K V" "a \<in> chained kv"
  shows "hash_index kv (key_of (node kv a)) < bucket_count kv"
  using kv_invD(1) [OF assms(1)] by (simp add: chain_inv_def hash_index_less)

text \<open>A node leaves its chain and the LRU list and loses the chain's reference.\<close>

lemma detach_inv:
  assumes inv: "kv_inv_at kv h K V" and a: "a \<in> chained kv" and i: "i = hash_index kv (key_of (node kv a))"
  shows "\<exists>kv'. priskv_keynode_deref ((chain_del kv i a)\<lparr>lru_head := remove1 a (lru_head kv)\<rparr>) a = Some kv'
     \<and> kv_inv_at kv' h K V \<and> same_shape kv kv' \<and> chained kv' = chained kv - {a}
     \<and> hash_heads kv' = (hash_heads kv)[i := remove1 a (hash_heads kv ! i)]
     \<and> lru_head kv' = remove1 a (lru_head kv) \<and> (\<forall>b. b \<noteq> a \<longrightarrow> node kv' b = node kv b)
     \<and> held_same h kv kv'"
proof -
  define kv1 where "kv1 = (chain_del kv i a)\<lparr>lru_head := remove1 a (lru_head kv)\<rparr>"
  have c1: "chain_inv kv1" "chained kv1 = chained kv - {a}"
    using chain_del_inv [OF kv_invD(1) [OF inv], of a i] chained_node(3) [OF inv a] chained_bucket [OF inv a] i
    by (simp_all add: kv1_def)
  have "mem_inv kv1 (refs kv h) K V" using mem_inv_cong [OF kv_invD(2) [OF inv]] by (simp add: kv1_def)
  moreover have r: "refs kv h a = Suc (h a)" using a by (simp add: refs_def)
  ultimately obtain kv' where d: "priskv_keynode_deref kv1 a = Some kv'"
    "mem_inv kv' ((refs kv h)(a := h a)) K V" "same_shape kv1 kv'" "hash_heads kv' = hash_heads kv1"
    "lru_head kv' = lru_head kv1" "\<forall>b. b \<noteq> a \<longrightarrow> node kv' b = node kv1 b"
    "0 < h a \<longrightarrow> node kv' a = (node kv1 a)\<lparr>pk_refcnt := h a\<rparr>"
    using deref_inv [of kv1 "refs kv h" K V a] by auto
  have ch: "chained kv' = chained kv - {a}" using d(4) c1(2) by (simp add: chained_def)
  then have "(refs kv h)(a := h a) = refs kv' h" by (auto simp: refs_def fun_eq_iff)
  moreover have "chain_inv kv'"
    using c1 d(3-6) by (intro chain_inv_cong [OF c1(1)]) (auto simp: same_shape_def)
  moreover have sh: "same_shape kv kv'"
    using d(3) same_shape_trans by (fastforce simp: kv1_def chain_del_def same_shape_def)
  moreover have "held_same h kv kv'"
  proof (rule held_sameI [OF sh])
    fix b assume "0 < h b"
    then show "node kv' b = node kv b \<or> (\<exists>c. node kv' b = (node kv b)\<lparr>pk_refcnt := c\<rparr>)"
      using d(6,7) by (cases "b = a") (auto simp: kv1_def)
  qed
  ultimately show ?thesis using d ch unfolding kv1_def [symmetric]
    by (auto simp: kv_inv_at_def kv1_def chain_del_def)
qed

lemma lru_del_and_deref_eq:
  "a \<in> set (lru_head kv) \<Longrightarrow> lru_del_and_deref (chain_del kv i a) a =
     priskv_keynode_deref ((chain_del kv i a)\<lparr>lru_head := remove1 a (lru_head kv)\<rparr>) a"
  by (simp add: lru_del_and_deref_def priskv_lru_del_key_def)

lemma chained_lru: "kv_inv_at kv h K V \<Longrightarrow> set (lru_head kv) = chained kv"
  by (simp add: kv_inv_at_def chain_inv_def)

text \<open>The steps every removal of a key takes, by key.\<close>

lemma remove_key:
  assumes inv: "kv_inv_at kv h K V" and a: "lookup kv key = Some a"
  shows "\<exists>kv'. lru_del_and_deref (chain_del kv (hash_index kv key) a) a = Some kv'
     \<and> kv_inv_at kv' h K V \<and> same_shape kv kv' \<and> chained kv' = chained kv - {a}
     \<and> lru_head kv' = remove1 a (lru_head kv) \<and> (\<forall>b. b \<noteq> a \<longrightarrow> node kv' b = node kv b)
     \<and> held_same h kv kv'"
proof -
  from a lookup_Some_iff [OF inv] have c: "a \<in> chained kv" "key_of (node kv a) = key" by auto
  with detach_inv [OF inv c(1)] chained_lru [OF inv] lru_del_and_deref_eq show ?thesis by auto
qed

lemma option_ext: "(\<And>b. x = Some b \<longleftrightarrow> y = Some b) \<Longrightarrow> x = y"
  by (cases x; cases y) auto

lemma lookup_cong:
  assumes "kv_inv_at kv h K V" "kv_inv_at kv' h' K' V'"
    and "\<And>b. b \<in> chained kv' \<and> key_of (node kv' b) = key \<longleftrightarrow> b \<in> chained kv \<and> key_of (node kv b) = key"
  shows "lookup kv' key = lookup kv key"
  by (rule option_ext) (simp only: lookup_Some_iff [OF assms(1)] lookup_Some_iff [OF assms(2)] assms(3))

lemma lookup_removed:
  assumes inv: "kv_inv_at kv h K V" "kv_inv_at kv' h' K' V'" and a: "a \<in> chained kv"
    and ch: "chained kv' = chained kv - {a}" and nd: "\<forall>b. b \<noteq> a \<longrightarrow> node kv' b = node kv b"
  shows "lookup kv' key = (if key = key_of (node kv a) then None else lookup kv key)"
proof (cases "key = key_of (node kv a)")
  case True
  have "key_of (node kv b) \<noteq> key" if "b \<in> chained kv" "b \<noteq> a" for b
    using kv_invD(1) [OF inv(1)] that a True by (auto simp: chain_inv_def dest: inj_onD)
  then have "lookup kv' key = None" unfolding lookup_None_iff [OF inv(2)] ch using nd by simp
  with True show ?thesis by simp
next
  case False
  have "b \<in> chained kv' \<and> key_of (node kv' b) = key \<longleftrightarrow> b \<in> chained kv \<and> key_of (node kv b) = key" for b
    using False nd unfolding ch by (cases "b = a") auto
  from lookup_cong [OF inv this] False show ?thesis by simp
qed

section \<open>Taking a reference\<close>

text \<open>A new version of a referenced node with the same key and value block.\<close>

lemma kv_inv_set_node:
  assumes inv: "kv_inv_at kv h K V" and r: "0 < refs kv h a"
    and n: "pk_key n = pk_key (node kv a)" "pk_keylen n = pk_keylen (node kv a)"
      "pk_value_off n = pk_value_off (node kv a)" "pk_valuelen n \<le> pk_valuelen (node kv a)"
      "pk_refcnt n = refs kv h' a" "0 < refs kv h' a" "refs kv h' a < 2 ^ 32"
    and h: "\<And>b. b \<noteq> a \<Longrightarrow> h' b = h b"
  shows "kv_inv_at (set_node a n kv) h' K V"
proof -
  let ?kv' = "set_node a n kv"
  have "chained ?kv' = chained kv" by (simp add: chained_def)
  then have "refs ?kv' h' = (refs kv h)(a := refs kv h' a)" using h by (auto simp: refs_def fun_eq_iff)
  moreover have "mem_inv ?kv' ((refs kv h)(a := refs kv h' a)) K V"
    using mem_inv_set_node [OF kv_invD(2) [OF inv] r] n mem_inv_node(3) [OF kv_invD(2) [OF inv] r] by simp
  moreover have "chain_inv ?kv'"
    using n(1,2) by (intro chain_inv_cong [OF kv_invD(1) [OF inv]]) (auto simp: key_of_def)
  ultimately show ?thesis by (simp add: kv_inv_at_def)
qed

lemma ref_inv:
  assumes inv: "kv_inv_at kv h K V" and r: "0 < refs kv h a" "refs kv h a < 2 ^ 32 - 1"
  shows "kv_inv_at (priskv_keynode_ref kv a) (h(a := Suc (h a))) K V"
proof -
  have "refs kv (h(a := Suc (h a))) a = Suc (refs kv h a)" by (simp add: refs_def)
  moreover have "pk_refcnt (node kv a) = refs kv h a" using mem_inv_node(1) [OF kv_invD(2) [OF inv] r(1)] .
  ultimately show ?thesis
    unfolding priskv_keynode_ref_def using r by (intro kv_inv_set_node [OF inv r(1)]) (simp_all add: wrap_simps)
qed

lemma ref_simps [simp]:
  "hash_heads (priskv_keynode_ref kv a) = hash_heads kv" "lru_head (priskv_keynode_ref kv a) = lru_head kv"
  "chained (priskv_keynode_ref kv a) = chained kv" "vaddr (priskv_keynode_ref kv a) = vaddr kv"
  "b \<noteq> a \<Longrightarrow> node (priskv_keynode_ref kv a) b = node kv b"
  "same_shape kv (priskv_keynode_ref kv a)"
  "node (priskv_keynode_ref kv a) a = (node kv a)\<lparr>pk_refcnt := u32n (pk_refcnt (node kv a) + 1)\<rparr>"
  by (auto simp: priskv_keynode_ref_def chained_def priskv_value_to_pointer_def same_shape_def fun_eq_iff)

lemma lru_access_inv:
  assumes "kv_inv_at kv h K V" "a \<in> chained kv"
  shows "priskv_lru_access kv a True = Some (kv\<lparr>lru_head := a # remove1 a (lru_head kv)\<rparr>)"
    and "kv_inv_at (kv\<lparr>lru_head := a # remove1 a (lru_head kv)\<rparr>) h K V"
proof -
  let ?kv' = "kv\<lparr>lru_head := a # remove1 a (lru_head kv)\<rparr>"
  show "priskv_lru_access kv a True = Some ?kv'"
    using chained_lru [OF assms(1)] assms(2) by (simp add: priskv_lru_access_def)
  have c: "chained ?kv' = chained kv" "hash_index ?kv' = hash_index kv" "refs ?kv' h = refs kv h"
    by (simp_all add: chained_def hash_index_def refs_def fun_eq_iff)
  have "distinct (lru_head kv)" "set (lru_head kv) = chained kv"
    using kv_invD(1) [OF assms(1)] by (simp_all add: chain_inv_def)
  then have "chain_inv ?kv'" using kv_invD(1) [OF assms(1)] assms(2) c by (auto simp: chain_inv_def)
  moreover have "mem_inv ?kv' (refs ?kv' h) K V"
    unfolding c using mem_inv_cong [OF kv_invD(2) [OF assms(1)]] by simp
  ultimately show "kv_inv_at ?kv' h K V" by (simp add: kv_inv_at_def)
qed

lemma get_key_end_inv:
  assumes inv: "kv_inv_at kv h K V" and h: "0 < h a"
  shows "\<exists>kv'. priskv_get_key_end kv (Some a) = Some kv' \<and> kv_inv_at kv' (h(a := h a - 1)) K V
     \<and> same_shape kv kv' \<and> chained kv' = chained kv \<and> lru_head kv' = lru_head kv
     \<and> (\<forall>b. b \<noteq> a \<longrightarrow> node kv' b = node kv b)
     \<and> (1 < refs kv h a \<longrightarrow> node kv' a = (node kv a)\<lparr>pk_refcnt := refs kv h a - 1\<rparr>)
     \<and> held_same (h(a := h a - 1)) kv kv'"
proof -
  have r: "0 < refs kv h a" using h by (simp add: refs_def)
  from deref_inv [OF kv_invD(2) [OF inv] r] obtain kv' where d: "priskv_keynode_deref kv a = Some kv'"
    "mem_inv kv' ((refs kv h)(a := refs kv h a - 1)) K V" "same_shape kv kv'" "hash_heads kv' = hash_heads kv"
    "lru_head kv' = lru_head kv" "\<forall>b. b \<noteq> a \<longrightarrow> node kv' b = node kv b"
    "1 < refs kv h a \<longrightarrow> node kv' a = (node kv a)\<lparr>pk_refcnt := refs kv h a - 1\<rparr>" by blast
  have ch: "chained kv' = chained kv" using d(4) by (simp add: chained_def)
  then have "(refs kv h)(a := refs kv h a - 1) = refs kv' (h(a := h a - 1))"
    using h by (auto simp: refs_def fun_eq_iff)
  moreover have "key_of (node kv' b) = key_of (node kv b)" if "b \<in> chained kv" for b
    using d(6,7) that h by (cases "b = a") (auto simp: refs_def key_of_def)
  then have "chain_inv kv'"
    using d(3-5) by (intro chain_inv_cong [OF kv_invD(1) [OF inv]]) (auto simp: same_shape_def)
  moreover have "held_same (h(a := h a - 1)) kv kv'"
    using d(6,7) by (intro held_sameI [OF d(3)]) (auto simp: refs_def split: if_splits)
  ultimately show ?thesis using d ch by (auto simp: priskv_get_key_end_def kv_inv_at_def)
qed

section \<open>Allocation\<close>

text \<open>The block a SET holds before it is attached.\<close>

definition pending :: "addr option \<Rightarrow> nat \<Rightarrow> region set \<Rightarrow> bool" where
  "pending v valuelen V = (case v of None \<Rightarrow> V = {} | Some x \<Rightarrow> (\<exists>m \<ge> valuelen. V = {(x, m)}))"

lemma alloc_key_inv:
  assumes inv: "kv_inv_at kv h (set_option kn) V"
  shows "\<exists>kn' s. set_alloc_key kv kn = Some (kn', kv\<lparr>key_slab := s\<rparr>)
     \<and> kv_inv_at (kv\<lparr>key_slab := s\<rparr>) h (set_option kn') V \<and> same_shape kv (kv\<lparr>key_slab := s\<rparr>)
     \<and> (kn \<noteq> None \<longrightarrow> kn' = kn)"
proof (cases kn)
  case (Some a)
  then show ?thesis using inv by (intro exI [of _ "Some a"] exI [of _ "key_slab kv"]) (simp add: set_alloc_key_def)
next
  case None
  with inv have m: "mem_inv kv (refs kv h) {} V" and c: "chain_inv kv" by (simp_all add: kv_inv_at_def)
  then have ok: "slab_ok (key_slab kv)" by (simp add: mem_inv_def)
  from slab.alloc_returns [OF ok, of 0] obtain q s where q: "priskv_slab_alloc (key_slab kv) = Some (q, s)" by auto
  note geom = slab_alloc_geom [OF ok q]
  let ?kv' = "kv\<lparr>key_slab := s\<rparr>"
  have r: "refs ?kv' h = refs kv h" "chained ?kv' = chained kv" by (simp_all add: refs_def chained_def fun_eq_iff)
  have "slab_ok s \<and> fst ` slab_live s = fst ` slab_live (key_slab kv) \<union> set_option q \<and> set_option q \<inter> fst ` slab_live (key_slab kv) = {}"
  proof (cases q)
    case None
    with slab.alloc_NULL [OF ok, of 0 s] q ok show ?thesis by simp
  next
    case (Some a)
    with slab.alloc_block [OF ok, of 0 a s] slab.alloc_fresh [OF ok, of 0 a s] q show ?thesis by auto
  qed
  then have "mem_inv ?kv' (refs kv h) (set_option q) V"
    using m geom unfolding mem_inv_def by (auto simp: slots_def)
  moreover have "chain_inv ?kv'" by (rule chain_inv_cong [OF c]) simp_all
  ultimately have "kv_inv_at ?kv' h (set_option q) V" by (simp add: kv_inv_at_def r)
  then show ?thesis using None q geom
    by (intro exI [of _ q] exI [of _ s]) (simp add: set_alloc_key_def same_shape_def)
qed

lemma alloc_value_inv:
  assumes inv: "kv_inv_at kv h K V" and p: "pending v n V" and s: "buddy_serves (value_buddy kv) n"
  shows "\<exists>v' b V'. set_alloc_value kv v n = Some (v', kv\<lparr>value_buddy := b\<rparr>)
     \<and> kv_inv_at (kv\<lparr>value_buddy := b\<rparr>) h K V' \<and> pending v' n V' \<and> same_shape kv (kv\<lparr>value_buddy := b\<rparr>)
     \<and> (v \<noteq> None \<longrightarrow> v' = v)"
proof (cases v)
  case (Some x)
  then show ?thesis using inv p
    by (intro exI [of _ "Some x"] exI [of _ "value_buddy kv"] exI [of _ V]) (simp add: set_alloc_value_def)
next
  case None
  with p have V: "V = {}" by (simp add: pending_def)
  with inv have m: "mem_inv kv (refs kv h) K {}" and c: "chain_inv kv" by (simp_all add: kv_inv_at_def)
  then have ok: "buddy_ok (value_buddy kv)" by (simp add: mem_inv_def)
  from buddy_alloc_total [OF ok s] obtain q b where q: "priskv_buddy_alloc (value_buddy kv) n = Some (q, b)" by auto
  note bc = buddy_alloc_cases [OF ok s q]
  let ?kv' = "kv\<lparr>value_buddy := b\<rparr>"
  have r: "refs ?kv' h = refs kv h" "chained ?kv' = chained kv" by (simp_all add: refs_def chained_def fun_eq_iff)
  have ci: "chain_inv ?kv'" by (rule chain_inv_cong [OF c]) simp_all
  show ?thesis
  proof (cases q)
    case None
    with bc have "b = value_buddy kv" by simp
    then show ?thesis using None \<open>v = None\<close> q inv V
      by (intro exI [of _ None] exI [of _ b] exI [of _ "{}"]) (simp add: set_alloc_value_def pending_def)
  next
    case (Some x)
    with bc obtain z where z: "buddy_ok b" "n \<le> z" "(x, z) \<notin> buddy_live (value_buddy kv)"
      "buddy_live b = insert (x, z) (buddy_live (value_buddy kv))" by auto
    have x: "x \<notin> fst ` buddy_live (value_buddy kv)" using bdy.alloc_fresh [OF ok s] q Some by blast
    have blk: "\<forall>a \<in> alive (refs kv h). \<exists>m \<ge> pk_valuelen (node kv a). (vaddr kv a, m) \<in> buddy_live b"
      using mem_inv_node(7) [OF m] unfolding z(4) alive_def by auto
    have "bd_base b = value_base kv" "x \<notin> vaddr kv ` alive (refs kv h)"
      using bc m x by (simp_all add: mem_inv_def)
    then have "mem_inv ?kv' (refs kv h) K {(x, z)}"
      using m z(1,4) blk unfolding mem_inv_def by simp
    then have "kv_inv_at ?kv' h K {(x, z)}" using ci by (simp add: kv_inv_at_def r)
    then show ?thesis using \<open>v = None\<close> Some q z(2) bc
      by (intro exI [of _ q] exI [of _ b] exI [of _ "{(x, z)}"])
         (simp add: set_alloc_value_def same_shape_def pending_def)
  qed
qed

section \<open>The eviction loop\<close>

lemma remove1_last: "distinct xs \<Longrightarrow> xs \<noteq> [] \<Longrightarrow> remove1 (last xs) xs = butlast xs"
  by (induction xs) (auto dest: last_in_set)

definition evict_post ::
  "priskv_kv \<Rightarrow> (addr \<Rightarrow> nat) \<Rightarrow> addr option \<Rightarrow> addr option \<Rightarrow> nat \<Rightarrow> nat
     \<Rightarrow> bool \<times> addr option \<times> addr option \<times> priskv_kv \<Rightarrow> bool"
where
  "evict_post kv h kn v n retries = (\<lambda>(ok, kn', v', kv'). (\<exists>V' evs.
     kv_inv_at kv' h (set_option kn') V' \<and> pending v' n V' \<and> same_shape kv kv'
     \<and> (ok \<longrightarrow> kn' \<noteq> None \<and> v' \<noteq> None) \<and> lru_head kv = lru_head kv' @ evs
     \<and> chained kv' = chained kv - set evs \<and> (\<forall>b. b \<notin> set evs \<longrightarrow> node kv' b = node kv b)
     \<and> length evs + retries \<le> max retries (MAX_EVICT_RETRIES + 1)
     \<and> (\<not> ok \<longrightarrow> lru_head kv' = [] \<or> MAX_EVICT_RETRIES < length evs + retries)
     \<and> (kn \<noteq> None \<and> v \<noteq> None \<longrightarrow> ok \<and> evs = []) \<and> held_same h kv kv'))"

text \<open>One round that evicts the node at the tail of the LRU list.\<close>

lemma evict_step:
  assumes inv: "kv_inv_at kv h (set_option kn) V" and p: "pending v n V"
    and s: "buddy_serves (value_buddy kv) n" and ne: "lru_head kv \<noteq> []"
  defines "t \<equiv> last (lru_head kv)"
  shows "\<exists>kv2 kn' kv3 v' kv4 V'.
     priskv_find_key kv now (key_of (node kv t)) PRISKV_KEY_MAX_TIMEOUT True =
       Some (Some t, False, chain_del kv (hash_index kv (key_of (node kv t))) t)
     \<and> lru_del_and_deref (chain_del kv (hash_index kv (key_of (node kv t))) t) t = Some kv2
     \<and> set_alloc_key kv2 kn = Some (kn', kv3) \<and> set_alloc_value kv3 v n = Some (v', kv4)
     \<and> kv_inv_at kv4 h (set_option kn') V' \<and> pending v' n V' \<and> same_shape kv kv4
     \<and> lru_head kv4 = butlast (lru_head kv) \<and> chained kv4 = chained kv - {t}
     \<and> (\<forall>b. b \<noteq> t \<longrightarrow> node kv4 b = node kv b) \<and> held_same h kv kv4"
proof -
  have t: "t \<in> chained kv" using ne chained_lru [OF inv] by (simp add: t_def) (metis last_in_set)
  have lk: "lookup kv (key_of (node kv t)) = Some t" using t by (simp add: lookup_Some_iff [OF inv])
  have lru: "remove1 t (lru_head kv) = butlast (lru_head kv)"
    using ne kv_invD(1) [OF inv] by (simp add: t_def chain_inv_def remove1_last)
  from remove_key [OF inv lk] lru obtain kv2 where k2:
    "lru_del_and_deref (chain_del kv (hash_index kv (key_of (node kv t))) t) t = Some kv2"
    "kv_inv_at kv2 h (set_option kn) V" "same_shape kv kv2" "chained kv2 = chained kv - {t}"
    "lru_head kv2 = butlast (lru_head kv)" "\<forall>b. b \<noteq> t \<longrightarrow> node kv2 b = node kv b" "held_same h kv kv2" by auto
  from alloc_key_inv [OF k2(2)] obtain kn' sl where k3: "set_alloc_key kv2 kn = Some (kn', kv2\<lparr>key_slab := sl\<rparr>)"
    "kv_inv_at (kv2\<lparr>key_slab := sl\<rparr>) h (set_option kn') V" "same_shape kv2 (kv2\<lparr>key_slab := sl\<rparr>)" by blast
  have "buddy_serves (value_buddy (kv2\<lparr>key_slab := sl\<rparr>)) n"
    using s k2(3) by (simp add: buddy_serves_def same_shape_def)
  from alloc_value_inv [OF k3(2) p this] obtain v' b V' where k4:
    "set_alloc_value (kv2\<lparr>key_slab := sl\<rparr>) v n = Some (v', kv2\<lparr>key_slab := sl, value_buddy := b\<rparr>)"
    "kv_inv_at (kv2\<lparr>key_slab := sl, value_buddy := b\<rparr>) h (set_option kn') V'" "pending v' n V'"
    "same_shape (kv2\<lparr>key_slab := sl\<rparr>) (kv2\<lparr>key_slab := sl, value_buddy := b\<rparr>)" by auto
  have "priskv_find_key kv now (key_of (node kv t)) PRISKV_KEY_MAX_TIMEOUT True =
       Some (Some t, False, chain_del kv (hash_index kv (key_of (node kv t))) t)"
    using lk by (simp add: find_key_eq [OF inv])
  moreover have "same_shape kv (kv2\<lparr>key_slab := sl, value_buddy := b\<rparr>)"
    using k2(3) k3(3) k4(4) same_shape_trans by blast
  moreover have "held_same h kv (kv2\<lparr>key_slab := sl, value_buddy := b\<rparr>)" using k2(7) by (simp add: held_same_def)
  ultimately show ?thesis using k2 k3(1) k4(1-3)
    by (intro exI [of _ kv2] exI [of _ kn'] exI [of _ "kv2\<lparr>key_slab := sl\<rparr>"] exI [of _ v']
        exI [of _ "kv2\<lparr>key_slab := sl, value_buddy := b\<rparr>"] exI [of _ V']) (simp add: chained_def)
qed

lemma evict_post_stop:
  assumes "kv_inv_at kv h (set_option kn) V" "pending v n V"
    and "ok \<longleftrightarrow> kn \<noteq> None \<and> v \<noteq> None" "\<not> ok \<Longrightarrow> lru_head kv = [] \<or> MAX_EVICT_RETRIES < retries"
  shows "evict_post kv h kn v n retries (ok, kn, v, kv)"
  unfolding evict_post_def prod.case
  using assms by (intro exI [of _ V] exI [of _ "[]"]) (auto simp: held_same_def)

lemma evict_post_step:
  assumes "evict_post kv4 h kn' v' n (retries + 1) q" "retries \<le> MAX_EVICT_RETRIES" "same_shape kv kv4"
    and "lru_head kv \<noteq> []" "lru_head kv4 = butlast (lru_head kv)" "chained kv4 = chained kv - {last (lru_head kv)}"
    and "\<forall>b. b \<noteq> last (lru_head kv) \<longrightarrow> node kv4 b = node kv b" "\<not> (kn \<noteq> None \<and> v \<noteq> None)"
    and "held_same h kv kv4"
  shows "evict_post kv h kn v n retries q"
proof -
  obtain ok kn1 v1 kv1 where q: "q = (ok, kn1, v1, kv1)" by (cases q)
  let ?t = "last (lru_head kv)"
  from assms(1) q obtain V' evs where e: "kv_inv_at kv1 h (set_option kn1) V'" "pending v1 n V'" "same_shape kv4 kv1"
    "ok \<longrightarrow> kn1 \<noteq> None \<and> v1 \<noteq> None" "lru_head kv4 = lru_head kv1 @ evs" "chained kv1 = chained kv4 - set evs"
    "\<forall>b. b \<notin> set evs \<longrightarrow> node kv1 b = node kv4 b"
    "length evs + (retries + 1) \<le> max (retries + 1) (MAX_EVICT_RETRIES + 1)"
    "\<not> ok \<longrightarrow> lru_head kv1 = [] \<or> MAX_EVICT_RETRIES < length evs + (retries + 1)" "held_same h kv4 kv1"
    unfolding evict_post_def by auto
  have "lru_head kv = lru_head kv1 @ (evs @ [?t])"
    using assms(4,5) e(5) by (metis append.assoc append_butlast_last_id)
  moreover have "chained kv1 = chained kv - set (evs @ [?t])" using e(6) assms(6) by auto
  moreover have "same_shape kv kv1" using assms(3) e(3) same_shape_trans by blast
  moreover have "\<forall>b. b \<notin> set (evs @ [?t]) \<longrightarrow> node kv1 b = node kv b" using e(7) assms(7) by simp
  moreover have "length (evs @ [?t]) + retries \<le> max retries (MAX_EVICT_RETRIES + 1)"
    using e(8) assms(2) by simp
  ultimately show ?thesis unfolding q evict_post_def prod.case
    using e(1,2,4,9) assms(8) held_same_trans [OF assms(9) e(10)] by (intro exI [of _ V'] exI [of _ "evs @ [?t]"]) auto
qed

lemma evict_loop_inv:
  assumes "kv_inv_at kv h (set_option kn) V" "pending v n V" "buddy_serves (value_buddy kv) n"
  shows "\<exists>q. evict_loop kv now kn v n retries = Some q \<and> evict_post kv h kn v n retries q"
  using assms
proof (induction "MAX_EVICT_RETRIES + 1 - retries" arbitrary: kv kn v V retries)
  case 0
  then have m: "MAX_EVICT_RETRIES < retries" by simp
  show ?case
  proof (cases "kn \<noteq> None \<and> v \<noteq> None")
    case True
    with 0 show ?thesis by (subst evict_loop.simps) (auto intro!: evict_post_stop [of _ _ _ V])
  next
    case False
    with 0 m show ?thesis by (subst evict_loop.simps) (auto intro!: evict_post_stop [of _ _ _ V])
  qed
next
  case (Suc x)
  then have m: "\<not> MAX_EVICT_RETRIES < retries" "x = MAX_EVICT_RETRIES + 1 - (retries + 1)" by simp_all
  show ?case
  proof (cases "(kn \<noteq> None \<and> v \<noteq> None) \<or> lru_head kv = []")
    case True
    with Suc.prems m(1) show ?thesis
      by (subst evict_loop.simps) (auto simp: priskv_lru_evict_def intro!: evict_post_stop [of _ _ _ V])
  next
    case False
    then have ne: "lru_head kv \<noteq> []" and no: "\<not> (v \<noteq> None \<and> kn \<noteq> None)" by auto
    define t where "t = last (lru_head kv)"
    from evict_step [OF Suc.prems ne, of now, folded t_def] obtain kv2 kn' kv3 v' kv4 V' where
      f: "priskv_find_key kv now (key_of (node kv t)) PRISKV_KEY_MAX_TIMEOUT True =
           Some (Some t, False, chain_del kv (hash_index kv (key_of (node kv t))) t)"
      "lru_del_and_deref (chain_del kv (hash_index kv (key_of (node kv t))) t) t = Some kv2"
      "set_alloc_key kv2 kn = Some (kn', kv3)" "set_alloc_value kv3 v n = Some (v', kv4)"
      and i: "kv_inv_at kv4 h (set_option kn') V'" "pending v' n V'" "same_shape kv kv4"
      "lru_head kv4 = butlast (lru_head kv)" "chained kv4 = chained kv - {t}"
      "\<forall>b. b \<noteq> t \<longrightarrow> node kv4 b = node kv b" "held_same h kv kv4" by (elim exE conjE) (rule that)
    have ev: "priskv_lru_evict kv = Some t" using ne by (simp add: priskv_lru_evict_def t_def)
    have "evict_loop kv now kn v n retries = evict_loop kv4 now kn' v' n (retries + 1)"
      using no m(1) ev f by (subst evict_loop.simps) auto
    moreover have "buddy_serves (value_buddy kv4) n"
      using Suc.prems(3) i(3) by (simp add: buddy_serves_def same_shape_def)
    ultimately obtain q where q: "evict_loop kv now kn v n retries = Some q" "evict_post kv4 h kn' v' n (retries + 1) q"
      using Suc.hyps(1) [OF m(2) i(1,2)] by auto
    have "evict_post kv h kn v n retries q"
      using evict_post_step [OF q(2)] i(3-7) m(1) ne no unfolding t_def by auto
    with q(1) show ?thesis by blast
  qed
qed

section \<open>SET\<close>

text \<open>A key fits when it ends inside the slab object.\<close>

definition key_fits :: "priskv_kv \<Rightarrow> bytes \<Rightarrow> bool" where
  "key_fits kv key \<longleftrightarrow> key_struct_size + length key \<le> slab_size (key_slab kv)"

definition new_node :: "priskv_kv \<Rightarrow> timeval \<Rightarrow> addr \<Rightarrow> addr \<Rightarrow> bytes \<Rightarrow> nat \<Rightarrow> nat \<Rightarrow> priskv_key" where
  "new_node kv now a v key n timeout =
     \<lparr>pk_expire_time = (if timeout < PRISKV_KEY_MAX_TIMEOUT then priskv_time_add_ms now timeout
                        else \<lparr>tv_sec = -1, tv_usec = -1\<rparr>),
      pk_refcnt = 1, pk_inprocess = True, pk_keylen = length key, pk_valuelen = n,
      pk_value_off = v - value_base kv, pk_key = key @ drop (length key) (pk_key (node kv a))\<rparr>"

lemma buddy_live_ge: "buddy_ok b \<Longrightarrow> x \<in> fst ` buddy_live b \<Longrightarrow> bd_base b \<le> x"
  by (auto simp: buddy_live_def block_region_def)

lemma key_of_new_node [simp]: "key_of (new_node kv now a v key n timeout) = key"
  by (simp add: key_of_def new_node_def)

text \<open>Attaching a fresh node: both lists grow by it, and its object and block are owned.\<close>

lemma attach_chain:
  assumes c: "chain_inv kv" and a: "a \<notin> chained kv" and none: "\<forall>b \<in> chained kv. key_of (node kv b) \<noteq> key_of n"
  defines "i \<equiv> hash_index kv (key_of n)"
  defines "kv' \<equiv> kv\<lparr>key_mem := (key_mem kv)(a := n), lru_head := a # lru_head kv,
      hash_heads := (hash_heads kv)[i := hash_heads kv ! i @ [a]]\<rparr>"
  shows "chain_inv kv'" "chained kv' = insert a (chained kv)"
proof -
  have i: "i < length (hash_heads kv)" "length (hash_heads kv) = bucket_count kv"
    using c hash_index_less by (simp_all add: chain_inv_def i_def)
  let ?hh = "hash_heads kv"
  have split: "concat ?hh = concat (take i ?hh) @ ?hh ! i @ concat (drop (Suc i) ?hh)"
    by (subst id_take_nth_drop [OF i(1)]) simp
  have upd: "concat (hash_heads kv') = concat (take i ?hh) @ (?hh ! i @ [a]) @ concat (drop (Suc i) ?hh)"
    using i(1) by (simp add: kv'_def upd_conv_take_nth_drop)
  show ch: "chained kv' = insert a (chained kv)" unfolding chained_def upd split by auto
  have d: "distinct (concat ?hh)" "a \<notin> set (concat ?hh)" using c a by (simp_all add: chain_inv_def chained_def)
  have dist: "distinct (concat (hash_heads kv'))"
    using d unfolding upd split by auto
  have hi: "hash_index kv' = hash_index kv" by (simp add: kv'_def hash_index_def fun_eq_iff)
  have bucket: "hash_index kv' (key_of (node kv' b)) = j" if j: "j < bucket_count kv" "b \<in> set (hash_heads kv' ! j)" for j b
  proof (cases "b = a")
    case True
    have "j = i"
    proof (rule ccontr)
      assume "j \<noteq> i"
      with j True i have "a \<in> set (?hh ! j)" "j < length ?hh" by (auto simp: kv'_def)
      with a show False by (auto simp: chained_nth)
    qed
    with True show ?thesis unfolding hi by (simp add: kv'_def i_def)
  next
    case False
    with j i have "b \<in> set (?hh ! j)" by (cases "j = i") (auto simp: kv'_def)
    with c j False show ?thesis unfolding hi by (simp add: kv'_def chain_inv_def)
  qed
  have inj: "inj_on (\<lambda>b. key_of (node kv' b)) (chained kv')"
    unfolding ch using c none a by (auto simp: chain_inv_def inj_on_def kv'_def)
  have rest: "0 < bucket_count kv'" "length (hash_heads kv') = bucket_count kv'" "bucket_count kv' = bucket_count kv"
    "distinct (lru_head kv')" "set (lru_head kv') = chained kv'"
    using c a i(2) unfolding ch by (simp_all add: kv'_def chain_inv_def)
  show "chain_inv kv'" unfolding chain_inv_def using rest dist bucket inj by auto
qed

lemma attach_mem:
  assumes m: "mem_inv kv r {a} {(v, z)}" and n: "n \<le> z" and fit: "key_fits kv key"
  shows "mem_inv (set_node a (new_node kv now a v key n timeout) kv) (r(a := 1)) {} {}"
proof -
  let ?n = "new_node kv now a v key n timeout" and ?kv' = "set_node a (new_node kv now a v key n timeout) kv"
  have own: "fst ` slab_live (key_slab kv) = insert a (alive r)" "a \<notin> alive r"
    "fst ` buddy_live (value_buddy kv) = insert v (vaddr kv ` alive r)" "v \<notin> vaddr kv ` alive r"
    "(v, z) \<in> buddy_live (value_buddy kv)" "inj_on (vaddr kv) (alive r)"
    "buddy_ok (value_buddy kv)" "bd_base (value_buddy kv) = value_base kv" "slab_ok (key_slab kv)"
    using m by (auto simp: mem_inv_def)
  have vge: "value_base kv \<le> v" using buddy_live_ge [OF own(7), of v] own(3,8) by simp
  have va: "vaddr ?kv' a = v" "\<And>b. b \<noteq> a \<Longrightarrow> vaddr ?kv' b = vaddr kv b"
    using vge by (simp_all add: new_node_def)
  have al: "alive (r(a := 1)) = insert a (alive r)" by (auto simp: alive_def)
  have vim: "vaddr ?kv' ` insert a (alive r) = insert v (vaddr kv ` alive r)"
    using va own(2) by (auto simp: image_iff)
  have inj: "inj_on (vaddr ?kv') (insert a (alive r))"
    using va own(2,4,6) by (auto simp: inj_on_def image_iff)
  have "a \<in> slots (key_slab kv)" using own(1) slab_live_slots by blast
  then have area: "length (pk_key (node kv a)) = slab_size (key_slab kv) - key_struct_size"
    using m by (simp add: mem_inv_def)
  have len: "length (pk_key ?n) = slab_size (key_slab kv) - key_struct_size" "pk_keylen ?n \<le> length (pk_key ?n)"
    using area fit by (simp_all add: new_node_def key_fits_def)
  have "\<forall>b \<in> insert a (alive r). pk_refcnt (node ?kv' b) = (r(a := 1)) b \<and> (r(a := 1)) b < 2 ^ 32
      \<and> pk_keylen (node ?kv' b) \<le> length (pk_key (node ?kv' b))
      \<and> (\<exists>m \<ge> pk_valuelen (node ?kv' b). (vaddr ?kv' b, m) \<in> buddy_live (value_buddy kv))"
  proof
    fix b assume b: "b \<in> insert a (alive r)"
    show "pk_refcnt (node ?kv' b) = (r(a := 1)) b \<and> (r(a := 1)) b < 2 ^ 32
      \<and> pk_keylen (node ?kv' b) \<le> length (pk_key (node ?kv' b))
      \<and> (\<exists>m \<ge> pk_valuelen (node ?kv' b). (vaddr ?kv' b, m) \<in> buddy_live (value_buddy kv))"
    proof (cases "b = a")
      case True
      have "pk_refcnt ?n = 1" "pk_valuelen ?n = n" by (simp_all add: new_node_def)
      with True len(2) va(1) own(5) n show ?thesis by auto
    next
      case False
      with b have "0 < r b" by (simp add: alive_def)
      from mem_inv_node [OF m this] False va(2) [OF False] show ?thesis by simp
    qed
  qed
  then show ?thesis unfolding mem_inv_def al vim
    using own inj m len(1) by (simp add: mem_inv_def)
qed

lemma key_updates:
  "(n :: priskv_key)\<lparr>pk_inprocess := p, pk_expire_time := e, pk_keylen := l, pk_value_off := f, pk_valuelen := m,
     pk_key := k, pk_refcnt := c\<rparr> = \<lparr>pk_expire_time = e, pk_refcnt = c, pk_inprocess = p, pk_keylen = l,
     pk_valuelen = m, pk_value_off = f, pk_key = k\<rparr>"
  by (cases n) simp

lemma set_found_inv:
  assumes inv: "kv_inv_at kv h {a} {(v, z)}" and n: "n \<le> z" and fit: "key_fits kv key"
    and none: "lookup kv key = None"
  shows "\<exists>kv'. set_found kv now a v key n timeout = Some ((PRISKV_RESP_STATUS_OK, Some v, Some a), kv')
     \<and> kv_inv kv' h \<and> same_shape kv kv' \<and> chained kv' = insert a (chained kv)
     \<and> lru_head kv' = a # lru_head kv \<and> a \<notin> chained kv \<and> h a = 0
     \<and> key_mem kv' = (key_mem kv)(a := new_node kv now a v key n timeout) \<and> value_base kv \<le> v"
proof -
  let ?n = "new_node kv now a v key n timeout" and ?i = "hash_index kv key"
  define kv' where "kv' = kv\<lparr>key_mem := (key_mem kv)(a := ?n), lru_head := a # lru_head kv,
      hash_heads := (hash_heads kv)[?i := hash_heads kv ! ?i @ [a]]\<rparr>"
  note c = kv_invD(1) [OF inv] and m = kv_invD(2) [OF inv]
  have "a \<notin> alive (refs kv h)" using m by (auto simp: mem_inv_def)
  then have a: "a \<notin> chained kv" "h a = 0" by (auto simp: alive_def refs_def)
  have "a \<in> slots (key_slab kv)" using m slab_live_slots by (fastforce simp: mem_inv_def)
  then have "length key \<le> length (pk_key (node kv a))" using m fit by (simp add: mem_inv_def key_fits_def)
  moreover have "?i < length (hash_heads kv)" "bucket_count kv \<noteq> 0"
    using c hash_index_less by (simp_all add: chain_inv_def)
  ultimately have eq: "set_found kv now a v key n timeout = Some ((PRISKV_RESP_STATUS_OK, Some v, Some a), kv')"
    by (simp add: set_found_def init_keynode_def priskv_keynode_ref_def priskv_lru_access_def
        priskv_insert_keynode_def Let_def kv'_def new_node_def priskv_pointer_to_value_def key_of_def
        u32n_def hash_index_def key_updates)
  have nomatch: "\<forall>b \<in> chained kv. key_of (node kv b) \<noteq> key_of ?n"
    using none by (simp add: lookup_None_iff [OF inv])
  have ch: "chain_inv kv'" "chained kv' = insert a (chained kv)"
    using attach_chain [OF c a(1) nomatch] by (simp_all add: kv'_def)
  have "mem_inv kv' ((refs kv h)(a := 1)) {} {}"
    using mem_inv_cong [OF attach_mem [OF m n fit]] by (simp add: kv'_def)
  moreover have "(refs kv h)(a := 1) = refs kv' h" using a ch(2) by (auto simp: refs_def fun_eq_iff)
  moreover have "value_base kv \<le> v"
  proof -
    have "(v, z) \<in> buddy_live (value_buddy kv)" "buddy_ok (value_buddy kv)"
      "bd_base (value_buddy kv) = value_base kv" using m by (auto simp: mem_inv_def)
    then show ?thesis using buddy_live_ge [of "value_buddy kv" v] by force
  qed
  ultimately show ?thesis using eq ch a by (auto simp: kv_inv_at_def kv'_def same_shape_def)
qed

text \<open>Giving back what a failed SET holds.\<close>

lemma free_pending_value:
  assumes m: "mem_inv kv r K V" and p: "pending v n V"
  shows "\<exists>bd. (case v of None \<Rightarrow> Some (value_buddy kv) | Some x \<Rightarrow> priskv_buddy_free (value_buddy kv) x) = Some bd
     \<and> mem_inv (kv\<lparr>value_buddy := bd\<rparr>) r K {} \<and> same_shape kv (kv\<lparr>value_buddy := bd\<rparr>)"
proof (cases v)
  case None
  with p m show ?thesis by (simp add: pending_def)
next
  case (Some x)
  with p obtain z where V: "V = {(x, z)}" by (auto simp: pending_def)
  from m have ok: "buddy_ok (value_buddy kv)" and xz: "(x, z) \<in> buddy_live (value_buddy kv)"
    by (auto simp: mem_inv_def V)
  from buddy_free_live [OF ok xz] obtain bd where bd: "priskv_buddy_free (value_buddy kv) x = Some bd"
    "buddy_ok bd" "buddy_live bd = buddy_live (value_buddy kv) - {(x, z)}" "bd_nmemb bd = bd_nmemb (value_buddy kv)"
    "bd_size bd = bd_size (value_buddy kv)" "bd_base bd = bd_base (value_buddy kv)" by blast
  have x: "x \<in> fst ` buddy_live (value_buddy kv)" "x \<notin> vaddr kv ` alive r" using xz m by (force, auto simp: mem_inv_def V)
  have "fst ` buddy_live bd = vaddr kv ` alive r"
    using bdy.free_addrs(2) [OF ok x(1) bd(1)] x(2) m by (auto simp: mem_inv_def V)
  moreover have "\<forall>a \<in> alive r. \<exists>l \<ge> pk_valuelen (node kv a). (vaddr kv a, l) \<in> buddy_live bd"
  proof
    fix a assume a: "a \<in> alive r"
    with mem_inv_node(7) [OF m, of a] obtain l where
      "pk_valuelen (node kv a) \<le> l" "(vaddr kv a, l) \<in> buddy_live (value_buddy kv)" by (auto simp: alive_def)
    moreover have "vaddr kv a \<noteq> x" using a x(2) by blast
    ultimately show "\<exists>l \<ge> pk_valuelen (node kv a). (vaddr kv a, l) \<in> buddy_live bd" using bd(3) by blast
  qed
  ultimately have "mem_inv (kv\<lparr>value_buddy := bd\<rparr>) r K {}" using m bd(2,6) by (simp add: mem_inv_def)
  with Some bd show ?thesis by (simp add: same_shape_def)
qed

lemma free_pending_key:
  assumes m: "mem_inv kv r (set_option kn) V"
  shows "\<exists>sl. (case kn of None \<Rightarrow> Some (key_slab kv) | Some a \<Rightarrow> priskv_slab_free (key_slab kv) a) = Some sl
     \<and> mem_inv (kv\<lparr>key_slab := sl\<rparr>) r {} V \<and> same_shape kv (kv\<lparr>key_slab := sl\<rparr>)"
proof (cases kn)
  case None
  with m show ?thesis by simp
next
  case (Some a)
  with m have ok: "slab_ok (key_slab kv)" and a: "a \<in> fst ` slab_live (key_slab kv)" by (auto simp: mem_inv_def)
  from a obtain l where "(a, l) \<in> slab_live (key_slab kv)" by auto
  from slab.free_block [OF ok this] obtain sl where sl: "priskv_slab_free (key_slab kv) a = Some sl" by blast
  note geom = slab_free_geom [OF sl]
  then have "slots sl = slots (key_slab kv)" by (simp add: slots_def)
  moreover have "fst ` slab_live sl = alive r"
    using slab.free_addrs(2) [OF ok a sl] m Some by (auto simp: mem_inv_def)
  ultimately have "mem_inv (kv\<lparr>key_slab := sl\<rparr>) r {} V"
    using m geom slab.free_addrs(1) [OF ok a sl] by (simp add: mem_inv_def)
  with Some sl geom show ?thesis by (simp add: same_shape_def)
qed

lemma set_out_inv:
  assumes inv: "kv_inv_at kv h (set_option kn) V" and p: "pending v n V"
  shows "\<exists>kv'. set_out kv kn v = Some ((PRISKV_RESP_STATUS_NO_MEM, None, None), kv')
     \<and> kv_inv kv' h \<and> same_shape kv kv' \<and> hash_heads kv' = hash_heads kv \<and> lru_head kv' = lru_head kv
     \<and> key_mem kv' = key_mem kv"
proof -
  note c = kv_invD(1) [OF inv] and m = kv_invD(2) [OF inv]
  from free_pending_value [OF m p] obtain bd where
    bd: "(case v of None \<Rightarrow> Some (value_buddy kv) | Some x \<Rightarrow> priskv_buddy_free (value_buddy kv) x) = Some bd"
    "mem_inv (kv\<lparr>value_buddy := bd\<rparr>) (refs kv h) (set_option kn) {}" "same_shape kv (kv\<lparr>value_buddy := bd\<rparr>)" by blast
  from free_pending_key [OF bd(2)] obtain sl where
    sl: "(case kn of None \<Rightarrow> Some (key_slab kv) | Some a \<Rightarrow> priskv_slab_free (key_slab kv) a) = Some sl"
    "mem_inv (kv\<lparr>value_buddy := bd, key_slab := sl\<rparr>) (refs kv h) {} {}"
    "same_shape (kv\<lparr>value_buddy := bd\<rparr>) (kv\<lparr>value_buddy := bd, key_slab := sl\<rparr>)"
    by (auto cong: option.case_cong)
  let ?kv' = "kv\<lparr>value_buddy := bd, key_slab := sl\<rparr>"
  have "refs ?kv' h = refs kv h" by (simp add: refs_def chained_def fun_eq_iff)
  moreover have "chain_inv ?kv'" by (rule chain_inv_cong [OF c]) simp_all
  ultimately have "kv_inv ?kv' h" using sl(2) by (simp add: kv_inv_at_def)
  moreover have "same_shape kv ?kv'" using bd(3) sl(3) same_shape_trans by blast
  moreover have "set_out kv kn v = Some ((PRISKV_RESP_STATUS_NO_MEM, None, None), ?kv')"
    using bd(1) sl(1) by (simp add: set_out_def)
  ultimately show ?thesis by (intro exI [of _ ?kv']) simp
qed

text \<open>The state with the old node of a key removed, as every SET starts.\<close>

lemma remove_old:
  assumes inv: "kv_inv kv h"
  shows "\<exists>old kv1 kv2. priskv_find_key kv now key PRISKV_KEY_MAX_TIMEOUT True = Some (old, False, kv1)
     \<and> old = lookup kv key
     \<and> (case old of None \<Rightarrow> Some kv1 | Some a \<Rightarrow> lru_del_and_deref kv1 a) = Some kv2
     \<and> kv_inv kv2 h \<and> same_shape kv kv2 \<and> chained kv2 = chained kv - set_option old
     \<and> lru_head kv2 = (case old of None \<Rightarrow> lru_head kv | Some a \<Rightarrow> remove1 a (lru_head kv))
     \<and> (\<forall>b. b \<notin> set_option old \<longrightarrow> node kv2 b = node kv b) \<and> lookup kv2 key = None
     \<and> held_same h kv kv2"
proof (cases "lookup kv key")
  case None
  then show ?thesis using inv by (simp add: find_key_eq [OF inv] held_same_def)
next
  case (Some a)
  from remove_key [OF inv Some] obtain kv2 where k:
    "lru_del_and_deref (chain_del kv (hash_index kv key) a) a = Some kv2" "kv_inv kv2 h" "same_shape kv kv2"
    "chained kv2 = chained kv - {a}" "lru_head kv2 = remove1 a (lru_head kv)"
    "\<forall>b. b \<noteq> a \<longrightarrow> node kv2 b = node kv b" "held_same h kv kv2" by blast
  have a: "a \<in> chained kv" "key_of (node kv a) = key" using Some lookup_Some_iff [OF inv] by auto
  have "lookup kv2 key = None" using lookup_removed [OF inv k(2) a(1) k(4,6)] a(2) by simp
  with Some k show ?thesis by (simp add: find_key_eq [OF inv])
qed

text \<open>\<open>set_post\<close>: what a SET leaves. The old node of the key is gone, the evicted nodes
  \<open>evs\<close> are the tail of the LRU list, every other node is untouched; on success the new node
  heads the list, on failure nothing is held and the list is exhausted or the retries are.\<close>

definition set_post ::
  "priskv_kv \<Rightarrow> (addr \<Rightarrow> nat) \<Rightarrow> timeval \<Rightarrow> bytes \<Rightarrow> nat \<Rightarrow> nat \<Rightarrow> addr list \<Rightarrow> set_result \<Rightarrow> priskv_kv \<Rightarrow> bool"
where
  "set_post kv h now key n timeout evs res kv' \<longleftrightarrow>
     (let old = lookup kv key;
          lru = (case old of None \<Rightarrow> lru_head kv | Some a \<Rightarrow> remove1 a (lru_head kv));
          gone = set_option old \<union> set evs
      in kv_inv kv' h \<and> same_shape kv kv' \<and> held_same h kv kv'
         \<and> ((\<exists>a v l. res = (PRISKV_RESP_STATUS_OK, Some v, Some a)
               \<and> lru_head kv' = a # l \<and> lru = l @ evs \<and> chained kv' = insert a (chained kv - gone)
               \<and> a \<notin> chained kv - gone \<and> h a = 0
               \<and> (\<forall>b. b \<noteq> a \<longrightarrow> b \<notin> gone \<longrightarrow> node kv' b = node kv b)
               \<and> key_of (node kv' a) = key \<and> pk_valuelen (node kv' a) = n \<and> pk_inprocess (node kv' a)
               \<and> vaddr kv' a = v
               \<and> pk_expire_time (node kv' a) = (if timeout < PRISKV_KEY_MAX_TIMEOUT
                    then priskv_time_add_ms now timeout else \<lparr>tv_sec = -1, tv_usec = -1\<rparr>))
            \<or> (res = (PRISKV_RESP_STATUS_NO_MEM, None, None)
               \<and> lru = lru_head kv' @ evs \<and> chained kv' = chained kv - gone
               \<and> (\<forall>b. b \<notin> gone \<longrightarrow> node kv' b = node kv b)
               \<and> (lru_head kv' = [] \<or> length evs = MAX_EVICT_RETRIES + 1))))"

text \<open>A SET up to the end of its loop.\<close>

lemma set_key_loop:
  assumes inv: "kv_inv kv h" and s: "buddy_serves (value_buddy kv) n"
  shows "\<exists>ok kn v kv5 V evs.
     priskv_set_key kv now key n timeout = (case (ok, kn, v) of
       (True, Some a, Some v) \<Rightarrow> set_found kv5 now a v key n timeout | _ \<Rightarrow> set_out kv5 kn v)
     \<and> kv_inv_at kv5 h (set_option kn) V \<and> pending v n V \<and> same_shape kv kv5
     \<and> (ok \<longrightarrow> kn \<noteq> None \<and> v \<noteq> None)
     \<and> (case lookup kv key of None \<Rightarrow> lru_head kv | Some a \<Rightarrow> remove1 a (lru_head kv)) = lru_head kv5 @ evs
     \<and> chained kv5 = chained kv - (set_option (lookup kv key) \<union> set evs)
     \<and> (\<forall>b. b \<notin> set_option (lookup kv key) \<union> set evs \<longrightarrow> node kv5 b = node kv b)
     \<and> lookup kv5 key = None
     \<and> (\<not> ok \<longrightarrow> lru_head kv5 = [] \<or> length evs = MAX_EVICT_RETRIES + 1) \<and> held_same h kv kv5"
proof -
  from remove_old [OF inv, of now key] obtain old kv1 kv2 where
    f: "priskv_find_key kv now key PRISKV_KEY_MAX_TIMEOUT True = Some (old, False, kv1)"
    and old: "old = lookup kv key"
    and d: "(case old of None \<Rightarrow> Some kv1 | Some a \<Rightarrow> lru_del_and_deref kv1 a) = Some kv2"
    and k2: "kv_inv kv2 h" "same_shape kv kv2" "chained kv2 = chained kv - set_option old"
      "lru_head kv2 = (case old of None \<Rightarrow> lru_head kv | Some a \<Rightarrow> remove1 a (lru_head kv))"
      "\<forall>b. b \<notin> set_option old \<longrightarrow> node kv2 b = node kv b" "lookup kv2 key = None" "held_same h kv kv2"
    by (elim exE conjE) (rule that)
  from alloc_key_inv [of kv2 h None "{}"] k2(1) obtain kn sl where
    k3: "set_alloc_key kv2 None = Some (kn, kv2\<lparr>key_slab := sl\<rparr>)" "kv_inv_at (kv2\<lparr>key_slab := sl\<rparr>) h (set_option kn) {}"
      "same_shape kv2 (kv2\<lparr>key_slab := sl\<rparr>)" by auto
  let ?k3 = "kv2\<lparr>key_slab := sl\<rparr>"
  have s3: "buddy_serves (value_buddy ?k3) n" using s k2(2) by (simp add: buddy_serves_def same_shape_def)
  from alloc_value_inv [OF k3(2) _ s3, of None] obtain v b V where
    k4: "set_alloc_value ?k3 None n = Some (v, ?k3\<lparr>value_buddy := b\<rparr>)" "kv_inv_at (?k3\<lparr>value_buddy := b\<rparr>) h (set_option kn) V"
      "pending v n V" "same_shape ?k3 (?k3\<lparr>value_buddy := b\<rparr>)" by (auto simp: pending_def)
  let ?k4 = "?k3\<lparr>value_buddy := b\<rparr>"
  have sh4: "same_shape kv ?k4" using k2(2) k3(3) k4(4) same_shape_trans by blast
  have s4: "buddy_serves (value_buddy ?k4) n" using s sh4 by (simp add: buddy_serves_def same_shape_def)
  from evict_loop_inv [OF k4(2,3) s4, of now 0] obtain ok kn' v' kv5 where
    e: "evict_loop ?k4 now kn v n 0 = Some (ok, kn', v', kv5)" "evict_post ?k4 h kn v n 0 (ok, kn', v', kv5)" by auto
  from e(2) obtain V' evs where p: "kv_inv_at kv5 h (set_option kn') V'" "pending v' n V'" "same_shape ?k4 kv5"
    "ok \<longrightarrow> kn' \<noteq> None \<and> v' \<noteq> None" "lru_head kv2 = lru_head kv5 @ evs" "chained kv5 = chained kv2 - set evs"
    "\<forall>b. b \<notin> set evs \<longrightarrow> node kv5 b = node kv2 b" "length evs \<le> MAX_EVICT_RETRIES + 1"
    "\<not> ok \<longrightarrow> lru_head kv5 = [] \<or> MAX_EVICT_RETRIES < length evs" "held_same h ?k4 kv5"
    unfolding evict_post_def by (auto simp: chained_def)
  have run: "priskv_set_key kv now key n timeout = (case (ok, kn', v') of
       (True, Some a, Some v) \<Rightarrow> set_found kv5 now a v key n timeout | _ \<Rightarrow> set_out kv5 kn' v')"
    using f d k3(1) k4(1) e(1) by (simp add: priskv_set_key_def)
  have "lookup kv5 key = None"
    using k2(6) p(6,7) by (auto simp: lookup_None_iff [OF k2(1)] lookup_None_iff [OF p(1)])
  moreover have "chained kv5 = chained kv - (set_option old \<union> set evs)" using p(6) k2(3) by auto
  moreover have "\<forall>b. b \<notin> set_option old \<union> set evs \<longrightarrow> node kv5 b = node kv b" using p(7) k2(5) by simp
  moreover have "same_shape kv kv5" using sh4 p(3) same_shape_trans by blast
  moreover have "\<not> ok \<longrightarrow> lru_head kv5 = [] \<or> length evs = MAX_EVICT_RETRIES + 1" using p(8,9) by auto
  moreover have "(case old of None \<Rightarrow> lru_head kv | Some a \<Rightarrow> remove1 a (lru_head kv)) = lru_head kv5 @ evs"
    using p(5) k2(4) by simp
  moreover have "held_same h kv kv5" using k2(7) p(10) by (simp add: held_same_def)
  ultimately show ?thesis using run p(1,2,4) unfolding old
    by (intro exI [of _ ok] exI [of _ kn'] exI [of _ v'] exI [of _ kv5] exI [of _ V'] exI [of _ evs] conjI)
qed

lemma set_key_inv:
  assumes inv: "kv_inv kv h" and fit: "key_fits kv key" and s: "buddy_serves (value_buddy kv) n"
  shows "\<exists>res kv' evs. priskv_set_key kv now key n timeout = Some (res, kv')
     \<and> set_post kv h now key n timeout evs res kv'"
proof -
  from set_key_loop [OF inv s, of now key timeout] obtain ok kn v kv5 V evs where
    run: "priskv_set_key kv now key n timeout = (case (ok, kn, v) of
       (True, Some a, Some v) \<Rightarrow> set_found kv5 now a v key n timeout | _ \<Rightarrow> set_out kv5 kn v)"
    and p: "kv_inv_at kv5 h (set_option kn) V" "pending v n V" "same_shape kv kv5"
    "ok \<longrightarrow> kn \<noteq> None \<and> v \<noteq> None"
    "(case lookup kv key of None \<Rightarrow> lru_head kv | Some a \<Rightarrow> remove1 a (lru_head kv)) = lru_head kv5 @ evs"
    "chained kv5 = chained kv - (set_option (lookup kv key) \<union> set evs)"
    "\<forall>b. b \<notin> set_option (lookup kv key) \<union> set evs \<longrightarrow> node kv5 b = node kv b"
    "lookup kv5 key = None" "\<not> ok \<longrightarrow> lru_head kv5 = [] \<or> length evs = MAX_EVICT_RETRIES + 1" "held_same h kv kv5"
    by (elim exE conjE) (rule that)
  show ?thesis
  proof (cases ok)
    case True
    with p(2,4) obtain a x z where ax: "kn = Some a" "v = Some x" "V = {(x, z)}" "n \<le> z"
      by (auto simp: pending_def)
    have "key_fits kv5 key" using fit p(3) by (simp add: key_fits_def same_shape_def)
    with set_found_inv [of kv5 h a x z n key now timeout] p(1,8) ax obtain kv' where
      k: "set_found kv5 now a x key n timeout = Some ((PRISKV_RESP_STATUS_OK, Some x, Some a), kv')"
      "kv_inv kv' h" "same_shape kv5 kv'" "chained kv' = insert a (chained kv5)"
      "lru_head kv' = a # lru_head kv5" "a \<notin> chained kv5" "h a = 0"
      "key_mem kv' = (key_mem kv5)(a := new_node kv5 now a x key n timeout)" "value_base kv5 \<le> x" by auto
    have "vaddr kv' a = x" using k(3,8,9) by (simp add: priskv_value_to_pointer_def new_node_def same_shape_def)
    moreover have "pk_valuelen (node kv' a) = n" "pk_inprocess (node kv' a)" "key_of (node kv' a) = key"
      "pk_expire_time (node kv' a) = (if timeout < PRISKV_KEY_MAX_TIMEOUT
                    then priskv_time_add_ms now timeout else \<lparr>tv_sec = -1, tv_usec = -1\<rparr>)"
      using k(8) by (auto simp: new_node_def key_of_def)
    moreover have "same_shape kv kv'" using p(3) k(3) same_shape_trans by blast
    moreover have "held_same h kv5 kv'" using k(7,8) by (intro held_sameI [OF k(3)]) auto
    then have "held_same h kv kv'" using p(10) held_same_trans by blast
    ultimately have "set_post kv h now key n timeout evs (PRISKV_RESP_STATUS_OK, Some x, Some a) kv'"
      unfolding set_post_def Let_def using k(2,4-8) p(5-7) by auto
    moreover have "priskv_set_key kv now key n timeout = Some ((PRISKV_RESP_STATUS_OK, Some x, Some a), kv')"
      using run True ax k(1) by simp
    ultimately show ?thesis by blast
  next
    case False
    from set_out_inv [OF p(1,2)] obtain kv' where
      k: "set_out kv5 kn v = Some ((PRISKV_RESP_STATUS_NO_MEM, None, None), kv')" "kv_inv kv' h" "same_shape kv5 kv'"
      "hash_heads kv' = hash_heads kv5" "lru_head kv' = lru_head kv5" "key_mem kv' = key_mem kv5" by blast
    have "chained kv' = chained kv5" using k(4) by (simp add: chained_def)
    moreover have "same_shape kv kv'" using p(3) k(3) same_shape_trans by blast
    moreover have "held_same h kv kv'" using p(10) held_same_mem [OF k(3,6)] held_same_trans by blast
    ultimately have "set_post kv h now key n timeout evs (PRISKV_RESP_STATUS_NO_MEM, None, None) kv'"
      unfolding set_post_def Let_def using k(2,5,6) p(5-7,9) False by auto
    moreover have "priskv_set_key kv now key n timeout = Some ((PRISKV_RESP_STATUS_NO_MEM, None, None), kv')"
      using run False k(1) by (simp split: option.splits)
    ultimately show ?thesis by blast
  qed
qed
end
