(* ===== verification/KV_Ops.thy ===== *)
theory KV_Ops
  imports KV_Inv
begin

text \<open>
  GET, SET, DELETE and EXPIRE of the store against a map from keys to entries.
\<close>

section \<open>The abstract map\<close>

text \<open>An entry: value address and length, whether its SET is unfinished, expiry time.\<close>

type_synonym entry = "addr \<times> nat \<times> bool \<times> timeval"

definition entry_of :: "priskv_kv \<Rightarrow> addr \<Rightarrow> entry" where
  "entry_of kv a = (vaddr kv a, pk_valuelen (node kv a), pk_inprocess (node kv a), pk_expire_time (node kv a))"

definition contents :: "priskv_kv \<Rightarrow> bytes \<rightharpoonup> entry" where
  "contents kv key = map_option (entry_of kv) (lookup kv key)"

lemma entry_of_same:
  "same_shape kv kv' \<Longrightarrow> node kv' b = node kv b \<Longrightarrow> entry_of kv' b = entry_of kv b"
  by (simp add: entry_of_def priskv_value_to_pointer_def same_shape_def)

lemma contents_removed:
  assumes inv: "kv_inv kv h" "kv_inv kv' h'" and sh: "same_shape kv kv'" and a: "a \<in> chained kv"
    and ch: "chained kv' = chained kv - {a}" and nd: "\<forall>b. b \<noteq> a \<longrightarrow> node kv' b = node kv b"
  shows "contents kv' = (contents kv)(key_of (node kv a) := None)"
proof
  fix key
  have "b \<noteq> a" if "lookup kv key = Some b" "key \<noteq> key_of (node kv a)" for b
    using that lookup_Some_iff [OF inv(1)] by auto
  then show "contents kv' key = ((contents kv)(key_of (node kv a) := None)) key"
    using lookup_removed [OF inv a ch nd, of key] nd
    by (cases "lookup kv key") (auto simp: contents_def entry_of_same [OF sh])
qed

lemma contents_cong:
  assumes inv: "kv_inv kv h" "kv_inv kv' h'" and sh: "same_shape kv kv'" and ch: "chained kv' = chained kv"
    and nd: "\<And>b. b \<in> chained kv \<Longrightarrow> key_of (node kv' b) = key_of (node kv b) \<and> entry_of kv' b = entry_of kv b"
  shows "contents kv' = contents kv"
proof
  fix key
  have "lookup kv' key = lookup kv key" using nd ch by (intro lookup_cong [OF inv]) auto
  moreover have "entry_of kv' b = entry_of kv b" if "lookup kv key = Some b" for b
    using that nd lookup_Some_iff [OF inv(1)] by auto
  ultimately show "contents kv' key = contents kv key" by (cases "lookup kv key") (simp_all add: contents_def)
qed

section \<open>DELETE\<close>

lemma delete_key_spec:
  assumes inv: "kv_inv kv h"
  shows "\<exists>kv'. priskv_delete_key kv now key = Some
      (if contents kv key = None then PRISKV_RESP_STATUS_NO_SUCH_KEY else PRISKV_RESP_STATUS_OK, kv')
     \<and> kv_inv kv' h \<and> same_shape kv kv' \<and> contents kv' = (contents kv)(key := None)
     \<and> lru_head kv' = filter (\<lambda>a. lookup kv key \<noteq> Some a) (lru_head kv) \<and> held_same h kv kv'"
proof (cases "lookup kv key")
  case None
  then show ?thesis using inv
    by (auto simp: priskv_delete_key_def find_key_eq [OF inv] contents_def fun_eq_iff)
next
  case (Some a)
  from remove_key [OF inv Some] obtain kv' where k:
    "lru_del_and_deref (chain_del kv (hash_index kv key) a) a = Some kv'" "kv_inv kv' h" "same_shape kv kv'"
    "chained kv' = chained kv - {a}" "lru_head kv' = remove1 a (lru_head kv)"
    "\<forall>b. b \<noteq> a \<longrightarrow> node kv' b = node kv b" "held_same h kv kv'" by blast
  have a: "a \<in> chained kv" "key_of (node kv a) = key" using Some lookup_Some_iff [OF inv] by auto
  have "distinct (lru_head kv)" using kv_invD(1) [OF inv] by (simp add: chain_inv_def)
  then have "lru_head kv' = filter (\<lambda>b. lookup kv key \<noteq> Some b) (lru_head kv)"
    using k(5) Some by (simp add: remove1_distinct_filter) (metis (no_types, lifting))
  with Some k contents_removed [OF inv k(2,3) a(1) k(4,6)] a(2) show ?thesis
    by (auto simp: priskv_delete_key_def find_key_eq [OF inv] contents_def)
qed

section \<open>GET\<close>

text \<open>The number of references a node can take.\<close>

definition ref_room :: "priskv_kv \<Rightarrow> (addr \<Rightarrow> nat) \<Rightarrow> bool" where
  "ref_room kv h \<longleftrightarrow> (\<forall>a. h a < 2 ^ 32 - 2)"

lemma ref_room_refs: "ref_room kv h \<Longrightarrow> refs kv h a < 2 ^ 32 - 1"
  unfolding ref_room_def refs_def by (auto dest: spec [of _ a])

definition entry_expired :: "entry \<Rightarrow> timeval \<Rightarrow> bool" where
  "entry_expired e now = (case e of (_, _, _, exp) \<Rightarrow>
     \<not> (tv_sec exp < 0 \<or> tv_usec exp < 0) \<and> priskv_time_elapsed_ms exp now > 0)"

lemma entry_expired_iff: "entry_expired (entry_of kv a) now = priskv_key_timeout (node kv a) now"
  by (auto simp: entry_expired_def entry_of_def priskv_key_timeout_def)

lemma ref_contents:
  assumes inv: "kv_inv kv h" and r: "0 < refs kv h a" "ref_room kv h"
  shows "kv_inv (priskv_keynode_ref kv a) (h(a := Suc (h a)))" "contents (priskv_keynode_ref kv a) = contents kv"
proof -
  show i: "kv_inv (priskv_keynode_ref kv a) (h(a := Suc (h a)))"
    using ref_inv [OF inv r(1) ref_room_refs [OF r(2)]] .
  show "contents (priskv_keynode_ref kv a) = contents kv"
  proof (rule contents_cong [OF inv i])
    fix b assume "b \<in> chained kv"
    show "key_of (node (priskv_keynode_ref kv a) b) = key_of (node kv b) \<and>
        entry_of (priskv_keynode_ref kv a) b = entry_of kv b"
      by (cases "b = a") (simp_all add: entry_of_def key_of_def)
  qed simp_all
qed

text \<open>What GET answers and leaves: the status by the entry, the LRU order, and the reference
  it hands out.\<close>

definition get_spec ::
  "priskv_kv \<Rightarrow> (addr \<Rightarrow> nat) \<Rightarrow> timeval \<Rightarrow> bytes \<Rightarrow> get_result \<Rightarrow> priskv_kv \<Rightarrow> (addr \<Rightarrow> nat) \<Rightarrow> bool"
where
  "get_spec kv h now key res kv' h' \<longleftrightarrow>
     (case contents kv key of
        None \<Rightarrow> res = (PRISKV_RESP_STATUS_NO_SUCH_KEY, None, None) \<and> kv' = kv \<and> h' = h
      | Some (v, n, inproc, exp) \<Rightarrow>
          if entry_expired (v, n, inproc, exp) now then
            res = (PRISKV_RESP_STATUS_NO_SUCH_KEY, None, None) \<and> h' = h
            \<and> contents kv' = (contents kv)(key := None)
          else (\<exists>a. lookup kv key = Some a \<and> h' = h(a := Suc (h a)) \<and> contents kv' = contents kv
            \<and> (if inproc then res = (PRISKV_RESP_STATUS_KEY_UPDATING, None, Some a) \<and> lru_head kv' = lru_head kv
               else res = (PRISKV_RESP_STATUS_OK, Some (v, n), Some a)
                 \<and> lru_head kv' = a # remove1 a (lru_head kv))))"

lemma get_key_spec:
  assumes inv: "kv_inv kv h" and room: "ref_room kv h"
  shows "\<exists>res kv' h'. priskv_get_key kv now key = Some (res, kv') \<and> kv_inv kv' h' \<and> same_shape kv kv'
     \<and> get_spec kv h now key res kv' h' \<and> held_same h kv kv'"
proof (cases "lookup kv key")
  case None
  then show ?thesis using inv by (simp add: priskv_get_key_def find_key_eq [OF inv] get_spec_def contents_def)
next
  case (Some a)
  have a: "a \<in> chained kv" "key_of (node kv a) = key" using Some lookup_Some_iff [OF inv] by auto
  have c: "contents kv key = Some (entry_of kv a)" using Some by (simp add: contents_def)
  show ?thesis
  proof (cases "priskv_key_timeout (node kv a) now")
    case True
    from remove_key [OF inv Some] obtain kv' where k:
      "lru_del_and_deref (chain_del kv (hash_index kv key) a) a = Some kv'" "kv_inv kv' h" "same_shape kv kv'"
      "chained kv' = chained kv - {a}" "\<forall>b. b \<noteq> a \<longrightarrow> node kv' b = node kv b" "held_same h kv kv'" by blast
    have "contents kv' = (contents kv)(key := None)" using contents_removed [OF inv k(2,3) a(1) k(4,5)] a(2) by simp
    moreover have "entry_expired (entry_of kv a) now" using True by (simp add: entry_expired_iff)
    ultimately show ?thesis using True Some k c
      by (auto simp: priskv_get_key_def find_key_eq [OF inv] get_spec_def entry_of_def)
  next
    case False
    let ?kv1 = "priskv_keynode_ref kv a" and ?h = "h(a := Suc (h a))"
    have r: "0 < refs kv h a" using a(1) by (simp add: refs_def)
    note i = ref_contents [OF inv r room]
    have ex: "\<not> entry_expired (entry_of kv a) now" using False by (simp add: entry_expired_iff)
    have held: "held_same h kv ?kv1" by (rule held_sameI) (auto simp: priskv_keynode_ref_def same_shape_def)
    show ?thesis
    proof (cases "pk_inprocess (node kv a)")
      case True
      then show ?thesis using False Some i c ex held
        by (intro exI [of _ "(PRISKV_RESP_STATUS_KEY_UPDATING, None, Some a)"] exI [of _ ?kv1] exI [of _ ?h])
           (simp add: priskv_get_key_def find_key_eq [OF inv] PRISKV_KEY_MAX_TIMEOUT_def get_spec_def entry_of_def)
    next
      case np: False
      let ?kv2 = "?kv1\<lparr>lru_head := a # remove1 a (lru_head kv)\<rparr>"
      have l: "priskv_lru_access ?kv1 a True = Some ?kv2" "kv_inv ?kv2 ?h"
        using lru_access_inv [OF i(1), of a] a(1) by simp_all
      have sh: "same_shape kv ?kv2" "chained ?kv2 = chained kv"
        by (simp_all add: same_shape_def priskv_keynode_ref_def chained_def)
      have "contents ?kv2 = contents kv"
      proof (rule contents_cong [OF inv l(2) sh])
        fix b
        show "key_of (node ?kv2 b) = key_of (node kv b) \<and> entry_of ?kv2 b = entry_of kv b"
          by (cases "b = a") (simp_all add: entry_of_def key_of_def priskv_value_to_pointer_def priskv_keynode_ref_def)
      qed
      then show ?thesis using False np Some l c ex sh held [unfolded held_same_def]
        by (intro exI [of _ "(PRISKV_RESP_STATUS_OK, Some (vaddr kv a, pk_valuelen (node kv a)), Some a)"]
            exI [of _ ?kv2] exI [of _ ?h])
           (simp add: priskv_get_key_def find_key_eq [OF inv] PRISKV_KEY_MAX_TIMEOUT_def get_spec_def entry_of_def held_same_def)
    qed
  qed
qed

section \<open>SET\<close>

definition expire_at :: "timeval \<Rightarrow> nat \<Rightarrow> timeval" where
  "expire_at now timeout = (if timeout < PRISKV_KEY_MAX_TIMEOUT
     then priskv_time_add_ms now timeout else \<lparr>tv_sec = -1, tv_usec = -1\<rparr>)"

definition keys_of :: "priskv_kv \<Rightarrow> addr list \<Rightarrow> bytes set" where
  "keys_of kv as = (\<lambda>a. key_of (node kv a)) ` set as"

lemma set_lru:
  assumes inv: "kv_inv kv h"
  shows "set (case lookup kv key of None \<Rightarrow> lru_head kv | Some a \<Rightarrow> remove1 a (lru_head kv)) =
    {b \<in> chained kv. key_of (node kv b) \<noteq> key}"
proof -
  have d: "distinct (lru_head kv)" "set (lru_head kv) = chained kv"
    using kv_invD(1) [OF inv] by (simp_all add: chain_inv_def)
  show ?thesis
  proof (cases "lookup kv key")
    case None
    then have "\<forall>a \<in> chained kv. key_of (node kv a) \<noteq> key" by (simp only: lookup_None_iff [OF inv])
    with None d show ?thesis by auto
  next
    case (Some c)
    have "b = c \<longleftrightarrow> key_of (node kv b) = key" if "b \<in> chained kv" for b
      using lookup_Some_iff [OF inv, of key b] Some that by auto
    with Some d show ?thesis by auto
  qed
qed

lemma set_evicted:
  assumes inv: "kv_inv kv h" and p: "set_post kv h now key n timeout evs res kv'"
  shows "set evs \<subseteq> {b \<in> chained kv. key_of (node kv b) \<noteq> key}"
  using p set_lru [OF inv, of key] unfolding set_post_def Let_def by auto

lemma gone_keys:
  assumes inv: "kv_inv kv h" and evs: "set evs \<subseteq> {b \<in> chained kv. key_of (node kv b) \<noteq> key}"
    and b: "b \<in> chained kv"
  shows "b \<in> set_option (lookup kv key) \<union> set evs \<longleftrightarrow>
    key_of (node kv b) = key \<or> key_of (node kv b) \<in> keys_of kv evs"
proof -
  have "lookup kv key = Some b \<longleftrightarrow> key_of (node kv b) = key" using lookup_Some_iff [OF inv, of key b] b by simp
  moreover have "b \<in> set evs \<longleftrightarrow> key_of (node kv b) \<in> keys_of kv evs"
    using kv_invD(1) [OF inv] b evs by (auto simp: keys_of_def chain_inv_def dest: inj_onD)
  ultimately show ?thesis by (cases "lookup kv key") auto
qed

lemma set_contents_rest:
  assumes inv: "kv_inv kv h" "kv_inv kv' h'" and sh: "same_shape kv kv'"
    and evs: "set evs \<subseteq> {b \<in> chained kv. key_of (node kv b) \<noteq> key}"
    and ch: "chained kv' - A = chained kv - (set_option (lookup kv key) \<union> set evs) - A"
    and A: "\<forall>a \<in> A. a \<notin> chained kv - (set_option (lookup kv key) \<union> set evs)"
      "\<forall>a \<in> A \<inter> chained kv'. key_of (node kv' a) = key"
    and nd: "\<forall>b. b \<notin> A \<longrightarrow> b \<notin> set_option (lookup kv key) \<union> set evs \<longrightarrow> node kv' b = node kv b"
    and k: "k \<noteq> key"
  shows "contents kv' k = (if k \<in> keys_of kv evs then None else contents kv k)"
proof -
  let ?gone = "set_option (lookup kv key) \<union> set evs"
  have lk: "lookup kv' k = Some b \<longleftrightarrow> lookup kv k = Some b \<and> k \<notin> keys_of kv evs" for b
  proof -
    have "b \<in> chained kv' \<and> key_of (node kv' b) = k \<longleftrightarrow> b \<in> chained kv - ?gone \<and> key_of (node kv b) = k"
    proof (cases "b \<in> A")
      case True
      then show ?thesis using A k by auto
    next
      case False
      then have c: "b \<in> chained kv' \<longleftrightarrow> b \<in> chained kv - ?gone" using ch by blast
      have "node kv' b = node kv b" if "b \<in> chained kv - ?gone" using nd False that by blast
      with c show ?thesis by auto
    qed
    also have "\<dots> \<longleftrightarrow> b \<in> chained kv \<and> key_of (node kv b) = k \<and> k \<notin> keys_of kv evs"
      using gone_keys [OF inv(1) evs, of b] k by auto
    finally show ?thesis by (simp only: lookup_Some_iff [OF inv(1)] lookup_Some_iff [OF inv(2)] conj_assoc)
  qed
  show ?thesis
  proof (cases "lookup kv' k")
    case None
    with lk show ?thesis by (cases "lookup kv k") (auto simp: contents_def)
  next
    case (Some b)
    with lk have b: "lookup kv k = Some b" "k \<notin> keys_of kv evs" by auto
    then have "b \<in> chained kv" "key_of (node kv b) = k" using lookup_Some_iff [OF inv(1)] by auto
    with gone_keys [OF inv(1) evs] b(2) k have "b \<notin> ?gone" by auto
    moreover have "b \<notin> A" using A(1) \<open>b \<in> chained kv\<close> calculation by blast
    ultimately have "entry_of kv' b = entry_of kv b" using nd entry_of_same [OF sh] by blast
    with Some b show ?thesis by (simp add: contents_def)
  qed
qed

lemma set_contents:
  assumes inv: "kv_inv kv h" and p: "set_post kv h now key n timeout evs res kv'"
  shows "(\<exists>v a. res = (PRISKV_RESP_STATUS_OK, Some v, Some a)
       \<and> contents kv' = (\<lambda>k. if k \<in> keys_of kv evs then None else contents kv k)(key \<mapsto> (v, n, True, expire_at now timeout)))
     \<or> (res = (PRISKV_RESP_STATUS_NO_MEM, None, None)
       \<and> contents kv' = (\<lambda>k. if k \<in> keys_of kv evs then None else contents kv k)(key := None))"
proof -
  note evs = set_evicted [OF inv p]
  from p have inv': "kv_inv kv' h" and sh: "same_shape kv kv'" by (simp_all add: set_post_def Let_def)
  let ?gone = "set_option (lookup kv key) \<union> set evs"
  from p consider (ok) a v where "res = (PRISKV_RESP_STATUS_OK, Some v, Some a)"
      "chained kv' = insert a (chained kv - ?gone)" "a \<notin> chained kv - ?gone"
      "\<forall>b. b \<noteq> a \<longrightarrow> b \<notin> ?gone \<longrightarrow> node kv' b = node kv b" "key_of (node kv' a) = key"
      "entry_of kv' a = (v, n, True, expire_at now timeout)"
    | (nomem) "res = (PRISKV_RESP_STATUS_NO_MEM, None, None)" "chained kv' = chained kv - ?gone"
      "\<forall>b. b \<notin> ?gone \<longrightarrow> node kv' b = node kv b"
    unfolding set_post_def Let_def expire_at_def entry_of_def by auto
  then show ?thesis
  proof cases
    case ok
    have rest: "contents kv' k = (if k \<in> keys_of kv evs then None else contents kv k)" if "k \<noteq> key" for k
      using ok that by (intro set_contents_rest [OF inv inv' sh evs, of "{a}"]) auto
    have "lookup kv' key = Some a" using ok by (simp add: lookup_Some_iff [OF inv'])
    with ok(6) have "contents kv' key = Some (v, n, True, expire_at now timeout)" by (simp add: contents_def)
    with ok(1) rest show ?thesis by (auto simp: fun_eq_iff)
  next
    case nomem
    have rest: "contents kv' k = (if k \<in> keys_of kv evs then None else contents kv k)" if "k \<noteq> key" for k
      using nomem that by (intro set_contents_rest [OF inv inv' sh evs, of "{}"]) auto
    have "lookup kv' key = None"
      using nomem gone_keys [OF inv evs] by (auto simp: lookup_None_iff [OF inv'])
    with nomem rest show ?thesis by (auto simp: fun_eq_iff contents_def)
  qed
qed

section \<open>The end of a SET, and EXPIRE\<close>

text \<open>Only the flag of one node changes; the node need not be live, since the handle of a SET
  holds no reference.\<close>

lemma set_key_end_inv:
  assumes inv: "kv_inv kv h"
  shows "kv_inv (priskv_set_key_end kv (Some a)) h" "same_shape kv (priskv_set_key_end kv (Some a))"
    "chained (priskv_set_key_end kv (Some a)) = chained kv" "held_same h kv (priskv_set_key_end kv (Some a))"
proof -
  let ?kv' = "priskv_set_key_end kv (Some a)"
  show sh: "same_shape kv ?kv'" and ch: "chained ?kv' = chained kv"
    by (simp_all add: priskv_set_key_end_def same_shape_def chained_def)
  have f: "pk_key (node ?kv' b) = pk_key (node kv b)" "pk_keylen (node ?kv' b) = pk_keylen (node kv b)"
    "pk_refcnt (node ?kv' b) = pk_refcnt (node kv b)" "pk_valuelen (node ?kv' b) = pk_valuelen (node kv b)"
    "vaddr ?kv' b = vaddr kv b" for b
    by (simp_all add: priskv_set_key_end_def priskv_value_to_pointer_def)
  show "held_same h kv ?kv'" by (simp add: held_same_def f key_of_def)
  have st: "key_slab ?kv' = key_slab kv" "value_buddy ?kv' = value_buddy kv" "value_base ?kv' = value_base kv"
    "hash_heads ?kv' = hash_heads kv" "lru_head ?kv' = lru_head kv" "bucket_count ?kv' = bucket_count kv"
    by (simp_all add: priskv_set_key_end_def)
  have "refs ?kv' h = refs kv h" by (simp add: refs_def ch fun_eq_iff)
  moreover have "vaddr ?kv' = vaddr kv" by (rule ext) (rule f(5))
  ultimately have "mem_inv ?kv' (refs ?kv' h) {} {}"
    using kv_invD(2) [OF inv] unfolding mem_inv_def by (simp add: f st)
  moreover have "chain_inv ?kv'"
    by (rule chain_inv_cong [OF kv_invD(1) [OF inv]]) (simp_all add: st key_of_def f)
  ultimately show "kv_inv ?kv' h" by (simp add: kv_inv_at_def)
qed

text \<open>One node changes, its key does not.\<close>

lemma contents_update:
  assumes inv: "kv_inv kv h" "kv_inv kv' h'" and a: "lookup kv key = Some a" and ch: "chained kv' = chained kv"
    and key: "\<And>b. key_of (node kv' b) = key_of (node kv b)"
    and nd: "\<And>b. b \<noteq> a \<Longrightarrow> entry_of kv' b = entry_of kv b"
  shows "contents kv' = (contents kv)(key \<mapsto> entry_of kv' a)"
proof
  fix k
  have lk: "lookup kv' k = lookup kv k" using ch key by (intro lookup_cong [OF inv]) auto
  have "b = a \<longleftrightarrow> k = key" if "lookup kv k = Some b" for b
    using that a lookup_Some_iff [OF inv(1), of k b] lookup_Some_iff [OF inv(1), of key a]
      lookup_Some_iff [OF inv(1), of k a] by auto
  then show "contents kv' k = ((contents kv)(key \<mapsto> entry_of kv' a)) k"
    using lk nd a by (cases "lookup kv k") (auto simp: contents_def)
qed

lemma set_key_end_contents:
  assumes inv: "kv_inv kv h" and a: "lookup kv key = Some a"
  shows "contents (priskv_set_key_end kv (Some a)) =
     (contents kv)(key \<mapsto> (vaddr kv a, pk_valuelen (node kv a), False, pk_expire_time (node kv a)))"
proof -
  let ?kv' = "priskv_set_key_end kv (Some a)"
  note i = set_key_end_inv [OF inv, of a]
  have "contents ?kv' = (contents kv)(key \<mapsto> entry_of ?kv' a)"
    by (rule contents_update [OF inv i(1) a i(3)])
       (simp_all add: priskv_set_key_end_def key_of_def entry_of_def priskv_value_to_pointer_def)
  then show ?thesis by (simp add: priskv_set_key_end_def entry_of_def priskv_value_to_pointer_def)
qed

lemma refcnt_same: "pk_refcnt n = c \<Longrightarrow> n\<lparr>pk_expire_time := e, pk_refcnt := c\<rparr> = n\<lparr>pk_expire_time := e\<rparr>"
  by (cases n) simp

lemma expire_key_spec:
  assumes inv: "kv_inv kv h" and room: "ref_room kv h"
  shows "\<exists>kv'. priskv_expire_key kv now key timeout = Some
       (case contents kv key of None \<Rightarrow> PRISKV_RESP_STATUS_NO_SUCH_KEY
        | Some e \<Rightarrow> if entry_expired e now then PRISKV_RESP_STATUS_NO_SUCH_KEY else PRISKV_RESP_STATUS_OK, kv')
     \<and> kv_inv kv' h \<and> same_shape kv kv'
     \<and> contents kv' = (case contents kv key of None \<Rightarrow> contents kv
        | Some (v, n, p, exp) \<Rightarrow>
            if entry_expired (v, n, p, exp) now then (contents kv)(key := None)
            else if timeout < PRISKV_KEY_MAX_TIMEOUT then (contents kv)(key \<mapsto> (v, n, p, priskv_time_add_ms now timeout))
            else contents kv)
     \<and> held_same h kv kv'"
proof (cases "lookup kv key")
  case None
  then show ?thesis using inv by (simp add: priskv_expire_key_def find_key_eq [OF inv] contents_def)
next
  case (Some a)
  have a: "a \<in> chained kv" "key_of (node kv a) = key" using Some lookup_Some_iff [OF inv] by auto
  have c: "contents kv key = Some (entry_of kv a)" using Some by (simp add: contents_def)
  show ?thesis
  proof (cases "priskv_key_timeout (node kv a) now")
    case True
    from remove_key [OF inv Some] obtain kv' where k:
      "lru_del_and_deref (chain_del kv (hash_index kv key) a) a = Some kv'" "kv_inv kv' h" "same_shape kv kv'"
      "chained kv' = chained kv - {a}" "\<forall>b. b \<noteq> a \<longrightarrow> node kv' b = node kv b" "held_same h kv kv'" by blast
    have "contents kv' = (contents kv)(key := None)" using contents_removed [OF inv k(2,3) a(1) k(4,5)] a(2) by simp
    moreover have "entry_expired (entry_of kv a) now" using True by (simp add: entry_expired_iff)
    ultimately show ?thesis using True Some k c
      by (auto simp: priskv_expire_key_def find_key_eq [OF inv] entry_of_def)
  next
    case False
    define e where "e = (if timeout < PRISKV_KEY_MAX_TIMEOUT then priskv_time_add_ms now timeout else pk_expire_time (node kv a))"
    define kv' where "kv' = set_node a ((node kv a)\<lparr>pk_expire_time := e\<rparr>) kv"
    have r: "0 < refs kv h a" "refs kv h a < 2 ^ 32 - 1"
      using a(1) ref_room_refs [OF room] by (simp add: refs_def, blast)
    note nd = mem_inv_node [OF kv_invD(2) [OF inv] r(1)]
    have inv': "kv_inv kv' h" unfolding kv'_def
      by (rule kv_inv_set_node [OF inv r(1)]) (use r nd in simp_all)
    have "priskv_keynode_deref (priskv_keynode_ref kv' a) a = Some kv'"
      using nd(1) r by (simp add: priskv_keynode_deref_def priskv_keynode_ref_def Let_def kv'_def wrap_simps
          refcnt_same)
    moreover have "(if timeout < PRISKV_KEY_MAX_TIMEOUT
        then set_node a ((node kv a)\<lparr>pk_expire_time := priskv_time_add_ms now timeout\<rparr>) kv else kv) = kv'"
      by (simp add: kv'_def e_def)
    ultimately have run: "priskv_expire_key kv now key timeout = Some (PRISKV_RESP_STATUS_OK, kv')"
      using Some False by (simp add: priskv_expire_key_def find_key_eq [OF inv])
    have sh: "same_shape kv kv'" "chained kv' = chained kv" by (simp_all add: kv'_def same_shape_def chained_def)
    have ex: "\<not> entry_expired (entry_of kv a) now" using False by (simp add: entry_expired_iff)
    have "contents kv' = (contents kv)(key \<mapsto> entry_of kv' a)"
      by (rule contents_update [OF inv inv' Some sh(2)])
         (simp_all add: kv'_def key_of_def entry_of_def priskv_value_to_pointer_def)
    then have ct: "contents kv' = (contents kv)(key \<mapsto> (vaddr kv a, pk_valuelen (node kv a), pk_inprocess (node kv a), e))"
      by (simp add: kv'_def entry_of_def priskv_value_to_pointer_def)
    have id: "(contents kv)(key \<mapsto> entry_of kv a) = contents kv" using c by (auto simp: fun_eq_iff)
    have "held_same h kv kv'" by (simp add: held_same_def kv'_def key_of_def priskv_value_to_pointer_def)
    then show ?thesis using run inv' sh(1) ct c ex id unfolding e_def entry_of_def by auto
  qed
qed

end
