(* ===== verification/KV_Bulk.thy ===== *)
theory KV_Bulk
  imports KV_Ops
begin

text \<open>
  FLUSH, KEYS and the expire routine, which walk all buckets, and the creation of a store.
  FLUSH and the expire routine both empty buckets; each is shown equal to a generic removal
  of the nodes with a property.
\<close>

section \<open>Emptying buckets\<close>

text \<open>Removing the nodes \<open>as\<close> of bucket \<open>i\<close> one after the other.\<close>

fun detach_all :: "nat \<Rightarrow> addr list \<Rightarrow> priskv_kv \<Rightarrow> priskv_kv option" where
  "detach_all i [] kv = Some kv"
| "detach_all i (a # as) kv = do { kv1 \<leftarrow> lru_del_and_deref (chain_del kv i a) a; detach_all i as kv1 }"

lemma detach_one:
  assumes inv: "kv_inv kv h" and i: "i < bucket_count kv" and a: "a \<in> set (hash_heads kv ! i)"
  shows "\<exists>kv'. lru_del_and_deref (chain_del kv i a) a = Some kv' \<and> kv_inv kv' h \<and> same_shape kv kv'
     \<and> hash_heads kv' = (hash_heads kv)[i := remove1 a (hash_heads kv ! i)]
     \<and> lru_head kv' = remove1 a (lru_head kv) \<and> (\<forall>b. b \<noteq> a \<longrightarrow> node kv' b = node kv b) \<and> held_same h kv kv'"
proof -
  have c: "a \<in> chained kv" "hash_index kv (key_of (node kv a)) = i"
    using kv_invD(1) [OF inv] i a by (auto simp: chain_inv_def chained_nth)
  with detach_inv [OF inv c(1)] chained_lru [OF inv] lru_del_and_deref_eq show ?thesis by auto
qed

lemma remove1_filter_distinct:
  "distinct xs \<Longrightarrow> filter Q (remove1 a xs) = filter (\<lambda>b. b \<noteq> a \<and> Q b) xs"
  by (induction xs) (auto intro: filter_cong)

lemma detach_all_inv:
  assumes "kv_inv kv h" "i < bucket_count kv" "distinct as" "set as \<subseteq> set (hash_heads kv ! i)"
  shows "\<exists>kv'. detach_all i as kv = Some kv' \<and> kv_inv kv' h \<and> same_shape kv kv'
     \<and> hash_heads kv' = (hash_heads kv)[i := filter (\<lambda>b. b \<notin> set as) (hash_heads kv ! i)]
     \<and> lru_head kv' = filter (\<lambda>b. b \<notin> set as) (lru_head kv) \<and> (\<forall>b. b \<notin> set as \<longrightarrow> node kv' b = node kv b)
     \<and> held_same h kv kv'"
  using assms
proof (induction as arbitrary: kv)
  case Nil then show ?case by simp
next
  case (Cons a as)
  have i: "i < length (hash_heads kv)" using Cons.prems(1,2) by (simp add: kv_inv_at_def chain_inv_def)
  have d: "distinct (hash_heads kv ! i)" "distinct (lru_head kv)"
    using Cons.prems(1) i by (auto simp: kv_inv_at_def chain_inv_def distinct_concat_iff)
  from detach_one [OF Cons.prems(1,2), of a] Cons.prems(4) obtain kv1 where k:
    "lru_del_and_deref (chain_del kv i a) a = Some kv1" "kv_inv kv1 h" "same_shape kv kv1"
    "hash_heads kv1 = (hash_heads kv)[i := remove1 a (hash_heads kv ! i)]" "lru_head kv1 = remove1 a (lru_head kv)"
    "\<forall>b. b \<noteq> a \<longrightarrow> node kv1 b = node kv b" "held_same h kv kv1" by auto
  have hh: "hash_heads kv1 ! i = remove1 a (hash_heads kv ! i)" using k(4) i by simp
  have "set as \<subseteq> set (hash_heads kv1 ! i)" using Cons.prems(3,4) d(1) unfolding hh by auto
  moreover have "i < bucket_count kv1" using Cons.prems(2) k(3) by (simp add: same_shape_def)
  ultimately obtain kv' where k': "detach_all i as kv1 = Some kv'" "kv_inv kv' h" "same_shape kv1 kv'"
    "hash_heads kv' = (hash_heads kv1)[i := filter (\<lambda>b. b \<notin> set as) (hash_heads kv1 ! i)]"
    "lru_head kv' = filter (\<lambda>b. b \<notin> set as) (lru_head kv1)" "\<forall>b. b \<notin> set as \<longrightarrow> node kv' b = node kv1 b"
    "held_same h kv1 kv'"
    using Cons.IH [OF k(2)] Cons.prems(3) by auto
  have "hash_heads kv' = (hash_heads kv)[i := filter (\<lambda>b. b \<notin> set (a # as)) (hash_heads kv ! i)]"
    using k'(4) k(4) d(1) i by (simp add: remove1_filter_distinct)
  moreover have "lru_head kv' = filter (\<lambda>b. b \<notin> set (a # as)) (lru_head kv)"
    using k'(5) k(5) d(2) by (simp add: remove1_filter_distinct)
  moreover have "held_same h kv kv'" "same_shape kv kv'" using k k' held_same_trans same_shape_trans by blast+
  ultimately show ?case using k k' by (intro exI [of _ kv']) auto
qed

text \<open>All nodes of the buckets \<open>is\<close> whose node satisfies \<open>P\<close>.\<close>

fun clear_where :: "(priskv_key \<Rightarrow> bool) \<Rightarrow> nat list \<Rightarrow> priskv_kv \<Rightarrow> priskv_kv option" where
  "clear_where P [] kv = Some kv"
| "clear_where P (i # is) kv =
     do { kv1 \<leftarrow> detach_all i (filter (\<lambda>a. P (node kv a)) (hash_heads kv ! i)) kv; clear_where P is kv1 }"

definition clear_post :: "(priskv_key \<Rightarrow> bool) \<Rightarrow> nat set \<Rightarrow> priskv_kv \<Rightarrow> (addr \<Rightarrow> nat) \<Rightarrow> priskv_kv \<Rightarrow> bool" where
  "clear_post P I kv h kv' \<longleftrightarrow>
     (let gone = {a. P (node kv a) \<and> (\<exists>i \<in> I. a \<in> set (hash_heads kv ! i))}
      in kv_inv kv' h \<and> same_shape kv kv'
         \<and> (\<forall>i < bucket_count kv. hash_heads kv' ! i = filter (\<lambda>a. a \<notin> gone) (hash_heads kv ! i))
         \<and> lru_head kv' = filter (\<lambda>a. a \<notin> gone) (lru_head kv)
         \<and> (\<forall>b. b \<notin> gone \<longrightarrow> node kv' b = node kv b) \<and> held_same h kv kv')"

lemma bucket_unique:
  assumes "chain_inv kv" "i < bucket_count kv" "j < bucket_count kv" "a \<in> set (hash_heads kv ! i)" "a \<in> set (hash_heads kv ! j)"
  shows "i = j"
proof -
  have u: "\<forall>i < bucket_count kv. \<forall>a \<in> set (hash_heads kv ! i). hash_index kv (key_of (node kv a)) = i"
    using assms(1) by (simp add: chain_inv_def)
  from u assms(2,4) have "hash_index kv (key_of (node kv a)) = i" by blast
  moreover from u assms(3,5) have "hash_index kv (key_of (node kv a)) = j" by blast
  ultimately show ?thesis by simp
qed

lemma clear_where_inv:
  assumes "kv_inv kv h" "set is \<subseteq> {..<bucket_count kv}" "distinct is"
  shows "\<exists>kv'. clear_where P is kv = Some kv' \<and> clear_post P (set is) kv h kv'"
  using assms
proof (induction "is" arbitrary: kv)
  case Nil then show ?case by (simp add: clear_post_def)
next
  case (Cons i "is")
  have i: "i < bucket_count kv" "i < length (hash_heads kv)" using Cons.prems by (auto simp: kv_inv_at_def chain_inv_def)
  let ?as = "filter (\<lambda>a. P (node kv a)) (hash_heads kv ! i)"
  have "distinct ?as" using Cons.prems(1) i(2) by (auto simp: kv_inv_at_def chain_inv_def distinct_concat_iff)
  with detach_all_inv [OF Cons.prems(1) i(1), of ?as] obtain kv1 where k:
    "detach_all i ?as kv = Some kv1" "kv_inv kv1 h" "same_shape kv kv1"
    "hash_heads kv1 = (hash_heads kv)[i := filter (\<lambda>b. b \<notin> set ?as) (hash_heads kv ! i)]"
    "lru_head kv1 = filter (\<lambda>b. b \<notin> set ?as) (lru_head kv)" "\<forall>b. b \<notin> set ?as \<longrightarrow> node kv1 b = node kv b"
    "held_same h kv kv1" by auto
  have bc: "bucket_count kv1 = bucket_count kv" using k(3) by (simp add: same_shape_def)
  from Cons.IH [OF k(2)] Cons.prems(2,3) bc obtain kv' where k':
    "clear_where P is kv1 = Some kv'" "clear_post P (set is) kv1 h kv'" by auto
  define g1 where "g1 = {a. P (node kv1 a) \<and> (\<exists>j \<in> set is. a \<in> set (hash_heads kv1 ! j))}"
  define g where "g = {a. P (node kv a) \<and> (\<exists>j \<in> set (i # is). a \<in> set (hash_heads kv ! j))}"
  have other: "hash_heads kv1 ! j = hash_heads kv ! j" if "j \<noteq> i" for j using k(4) that by simp
  have "a \<in> g1 \<longleftrightarrow> P (node kv a) \<and> (\<exists>j \<in> set is. a \<in> set (hash_heads kv ! j))" for a
  proof -
    have "node kv1 a = node kv a" if "j \<in> set is" "a \<in> set (hash_heads kv ! j)" for j
    proof -
      have "j < bucket_count kv" "j \<noteq> i" using that(1) Cons.prems(2,3) by auto
      with bucket_unique [OF kv_invD(1) [OF Cons.prems(1)] i(1)] that(2) have "a \<notin> set ?as" by auto
      with k(6) show ?thesis by blast
    qed
    then show ?thesis using other Cons.prems(3) unfolding g1_def by (auto, (metis other)+)
  qed
  then have g: "g = set ?as \<union> g1" unfolding g_def by auto
  have "\<forall>j < bucket_count kv. hash_heads kv' ! j = filter (\<lambda>a. a \<notin> g) (hash_heads kv ! j)"
  proof (intro allI impI)
    fix j assume j: "j < bucket_count kv"
    have "hash_heads kv' ! j = filter (\<lambda>a. a \<notin> g1) (hash_heads kv1 ! j)"
      using k'(2) j bc unfolding clear_post_def g1_def Let_def by simp
    also have "\<dots> = filter (\<lambda>a. a \<notin> g) (hash_heads kv ! j)"
    proof (cases "j = i")
      case True
      then show ?thesis using k(4) i(2) g by (auto intro: filter_cong)
    next
      case False
      then have "\<forall>a \<in> set (hash_heads kv ! j). a \<notin> set ?as"
        using bucket_unique [OF kv_invD(1) [OF Cons.prems(1)] i(1) j] by auto
      then show ?thesis unfolding other [OF False] g by (intro filter_cong) auto
    qed
    finally show "hash_heads kv' ! j = filter (\<lambda>a. a \<notin> g) (hash_heads kv ! j)" .
  qed
  moreover have "lru_head kv' = filter (\<lambda>a. a \<notin> g) (lru_head kv)"
  proof -
    have "lru_head kv' = filter (\<lambda>a. a \<notin> g1) (lru_head kv1)" using k'(2) unfolding clear_post_def g1_def Let_def by simp
    then show ?thesis unfolding k(5) g by (simp add: conj_commute)
  qed
  moreover have "\<forall>b. b \<notin> g \<longrightarrow> node kv' b = node kv b"
    using k'(2) k(6) g unfolding clear_post_def g1_def Let_def by auto
  moreover have "kv_inv kv' h" "same_shape kv kv'" "held_same h kv kv'"
    using k'(2) k(3,7) same_shape_trans held_same_trans unfolding clear_post_def Let_def by blast+
  ultimately have "clear_post P (set (i # is)) kv h kv'" unfolding clear_post_def g_def Let_def by blast
  with k(1) k'(1) show ?case by auto
qed

lemma chained_take: "length (hash_heads kv) = bucket_count kv \<Longrightarrow>
   a \<in> chained kv \<longleftrightarrow> (\<exists>i \<in> {..<bucket_count kv}. a \<in> set (hash_heads kv ! i))"
  by (auto simp: chained_nth)

text \<open>All buckets: exactly the nodes with \<open>P\<close> are gone.\<close>

lemma clear_all:
  assumes inv: "kv_inv kv h"
  shows "\<exists>kv'. clear_where P [0..<bucket_count kv] kv = Some kv' \<and> kv_inv kv' h \<and> same_shape kv kv'
     \<and> chained kv' = {a \<in> chained kv. \<not> P (node kv a)}
     \<and> lru_head kv' = filter (\<lambda>a. \<not> P (node kv a)) (lru_head kv)
     \<and> (\<forall>b \<in> chained kv'. node kv' b = node kv b) \<and> held_same h kv kv'"
proof -
  have len: "length (hash_heads kv) = bucket_count kv" using inv by (simp add: kv_inv_at_def chain_inv_def)
  define gone where "gone = {a. P (node kv a) \<and> (\<exists>i \<in> {..<bucket_count kv}. a \<in> set (hash_heads kv ! i))}"
  from clear_where_inv [OF inv, of "[0..<bucket_count kv]" P] obtain kv' where k:
    "clear_where P [0..<bucket_count kv] kv = Some kv'" "clear_post P {..<bucket_count kv} kv h kv'"
    by (auto simp: atLeast0LessThan)
  have c: "kv_inv kv' h" "same_shape kv kv'" "lru_head kv' = filter (\<lambda>a. a \<notin> gone) (lru_head kv)"
    "\<forall>b. b \<notin> gone \<longrightarrow> node kv' b = node kv b" "held_same h kv kv'"
    using k(2) unfolding clear_post_def gone_def Let_def by simp_all
  have g: "a \<in> gone \<longleftrightarrow> a \<in> chained kv \<and> P (node kv a)" for a
    using chained_take [OF len, of a] by (auto simp: gone_def)
  have lru: "set (lru_head kv) = chained kv" "set (lru_head kv') = chained kv'"
    using chained_lru [OF inv] chained_lru [OF c(1)] by simp_all
  then have "chained kv' = {a \<in> chained kv. \<not> P (node kv a)}" using c(3) g by auto
  moreover have "lru_head kv' = filter (\<lambda>a. \<not> P (node kv a)) (lru_head kv)"
    using c(3) g lru(1) by (auto intro: filter_cong)
  ultimately show ?thesis using k(1) c(1,2,4,5) g by (intro exI [of _ kv']) auto
qed

lemma contents_filtered:
  assumes inv: "kv_inv kv h" "kv_inv kv' h'" and sh: "same_shape kv kv'"
    and ch: "chained kv' = {a \<in> chained kv. \<not> P (node kv a)}" and nd: "\<forall>b \<in> chained kv'. node kv' b = node kv b"
  shows "contents kv' key = (case lookup kv key of None \<Rightarrow> None
     | Some a \<Rightarrow> if P (node kv a) then None else contents kv key)"
proof (cases "lookup kv' key")
  case None
  then have n: "\<forall>a \<in> chained kv'. key_of (node kv' a) \<noteq> key" by (simp only: lookup_None_iff [OF inv(2)])
  have "P (node kv a)" if "lookup kv key = Some a" for a
    using that n nd ch lookup_Some_iff [OF inv(1)] by auto
  with None show ?thesis by (cases "lookup kv key") (auto simp: contents_def)
next
  case (Some a)
  then have a: "a \<in> chained kv'" "key_of (node kv' a) = key" using lookup_Some_iff [OF inv(2)] by auto
  then have a': "node kv' a = node kv a" "a \<in> chained kv" "\<not> P (node kv a)" using nd ch by auto
  with a have "lookup kv key = Some a" by (simp add: lookup_Some_iff [OF inv(1)])
  with Some a' show ?thesis by (simp add: contents_def entry_of_same [OF sh])
qed

section \<open>FLUSH\<close>

text \<open>Every node of the store can be copied to \<open>safekey\<close>.\<close>

definition safe_keys :: "priskv_kv \<Rightarrow> bool" where
  "safe_keys kv \<longleftrightarrow> (\<forall>a \<in> chained kv. pk_keylen (node kv a) < 1024)"

definition flush_match :: "(bytes \<Rightarrow> bool) \<Rightarrow> priskv_key \<Rightarrow> bool" where
  "flush_match regexec n \<longleftrightarrow> regexec (takeWhile (\<lambda>b. b \<noteq> 0) (key_of n))"

lemma lru_del_chain_del: "priskv_lru_del_key kv a = Some kv1 \<Longrightarrow>
    priskv_keynode_deref (chain_del kv1 i a) a = lru_del_and_deref (chain_del kv i a) a"
  by (cases kv) (auto simp: lru_del_and_deref_def priskv_lru_del_key_def chain_del_def split: if_splits)

lemma flush_chain_eq:
  assumes "kv_inv kv h" "i < bucket_count kv" "distinct as" "set as \<subseteq> set (hash_heads kv ! i)" "safe_keys kv"
    "nkey + length as < 2 ^ 32"
  shows "flush_chain regexec i as (nkey, kv) =
     map_option (\<lambda>kv'. (nkey + length (filter (\<lambda>a. flush_match regexec (node kv a)) as), kv'))
       (detach_all i (filter (\<lambda>a. flush_match regexec (node kv a)) as) kv)"
  using assms
proof (induction as arbitrary: nkey kv)
  case Nil then show ?case by simp
next
  case (Cons a as)
  have i: "i < length (hash_heads kv)" using Cons.prems(1,2) by (simp add: kv_inv_at_def chain_inv_def)
  have ach: "a \<in> chained kv" using Cons.prems(4) i by (auto simp: chained_nth)
  then have sk: "safekey (node kv a) = Some (takeWhile (\<lambda>b. b \<noteq> 0) (key_of (node kv a)))"
    using Cons.prems(5) by (auto simp: safekey_def safe_keys_def not_le)
  show ?case
  proof (cases "flush_match regexec (node kv a)")
    case False
    then show ?thesis using Cons.IH [OF Cons.prems(1,2)] Cons.prems sk by (simp add: flush_match_def)
  next
    case True
    from detach_one [OF Cons.prems(1,2), of a] Cons.prems(4) obtain kv1 where k:
      "lru_del_and_deref (chain_del kv i a) a = Some kv1" "kv_inv kv1 h" "same_shape kv kv1"
      "hash_heads kv1 = (hash_heads kv)[i := remove1 a (hash_heads kv ! i)]"
      "lru_head kv1 = remove1 a (lru_head kv)" "\<forall>b. b \<noteq> a \<longrightarrow> node kv1 b = node kv b" by auto
    have dh: "distinct (hash_heads kv ! i)"
      using Cons.prems(1) i by (auto simp: kv_inv_at_def chain_inv_def distinct_concat_iff)
    have sub: "set as \<subseteq> set (hash_heads kv1 ! i)" using Cons.prems(3,4) k(4) i dh by auto
    have ch: "chained kv1 \<subseteq> chained kv - {a}"
      using chained_lru [OF k(2)] chained_lru [OF Cons.prems(1)] k(5) Cons.prems(1)
      by (auto simp: kv_inv_at_def chain_inv_def)
    have safe: "safe_keys kv1" unfolding safe_keys_def
    proof
      fix b assume "b \<in> chained kv1"
      with ch k(6) have "b \<in> chained kv" "node kv1 b = node kv b" by auto
      with Cons.prems(5) show "pk_keylen (node kv1 b) < 1024" by (simp add: safe_keys_def)
    qed
    have same: "filter (\<lambda>b. flush_match regexec (node kv1 b)) as = filter (\<lambda>b. flush_match regexec (node kv b)) as"
      using k(6) Cons.prems(3) by (intro filter_cong) auto
    obtain kv0 where kv0: "priskv_lru_del_key kv a = Some kv0"
      using chained_lru [OF Cons.prems(1)] ach by (simp add: priskv_lru_del_key_def)
    have "i < bucket_count kv1" using Cons.prems(2) k(3) by (simp add: same_shape_def)
    from Cons.IH [OF k(2) this _ sub safe, of "Suc nkey"] Cons.prems(3,6) same
    have "flush_chain regexec i as (Suc nkey, kv1) =
       map_option (\<lambda>kv'. (Suc nkey + length (filter (\<lambda>a. flush_match regexec (node kv a)) as), kv'))
         (detach_all i (filter (\<lambda>a. flush_match regexec (node kv a)) as) kv1)" by simp
    then show ?thesis using True sk kv0 lru_del_chain_del [OF kv0, of i] k(1) Cons.prems(6)
      by (simp add: flush_match_def wrap_simps)
  qed
qed

text \<open>The weight of the nodes with \<open>P\<close> in some buckets; their number is the case of weight 1.\<close>

definition weigh :: "(priskv_key \<Rightarrow> nat) \<Rightarrow> (priskv_key \<Rightarrow> bool) \<Rightarrow> priskv_kv \<Rightarrow> nat list \<Rightarrow> nat" where
  "weigh w P kv is =
     sum_list (map (\<lambda>i. sum_list (map (\<lambda>a. w (node kv a)) (filter (\<lambda>a. P (node kv a)) (hash_heads kv ! i)))) is)"

abbreviation matching :: "(priskv_key \<Rightarrow> bool) \<Rightarrow> priskv_kv \<Rightarrow> nat list \<Rightarrow> nat" where
  "matching \<equiv> weigh (\<lambda>_. Suc 0)"

lemma weigh_Cons:
  "weigh w P kv (i # is) = sum_list (map (\<lambda>a. w (node kv a)) (filter (\<lambda>a. P (node kv a)) (hash_heads kv ! i))) + weigh w P kv is"
  by (simp add: weigh_def)

lemma matching_Cons:
  "matching P kv (i # is) = length (filter (\<lambda>a. P (node kv a)) (hash_heads kv ! i)) + matching P kv is"
  by (simp add: weigh_def sum_list_triv)

lemma sum_list_concat_map: "sum_list (concat xss) = sum_list (map sum_list xss)" for xss :: "nat list list"
  by (induction xss) auto

lemma clear_one_other:
  assumes inv: "kv_inv kv h" and i: "i < bucket_count kv"
    and k: "detach_all i (filter (\<lambda>a. P (node kv a)) (hash_heads kv ! i)) kv = Some kv1"
  shows "kv_inv kv1 h" "same_shape kv kv1" "chained kv1 \<subseteq> chained kv" "\<forall>b \<in> chained kv1. node kv1 b = node kv b"
    "\<And>j. j < bucket_count kv \<Longrightarrow> j \<noteq> i \<Longrightarrow> hash_heads kv1 ! j = hash_heads kv ! j"
    "\<And>j b. j < bucket_count kv \<Longrightarrow> j \<noteq> i \<Longrightarrow> b \<in> set (hash_heads kv ! j) \<Longrightarrow> node kv1 b = node kv b"
proof -
  let ?as = "filter (\<lambda>a. P (node kv a)) (hash_heads kv ! i)"
  have len: "i < length (hash_heads kv)" using inv i by (simp add: kv_inv_at_def chain_inv_def)
  have "distinct ?as" using inv len by (auto simp: kv_inv_at_def chain_inv_def distinct_concat_iff)
  with detach_all_inv [OF inv i, of ?as] k have d: "kv_inv kv1 h" "same_shape kv kv1"
    "hash_heads kv1 = (hash_heads kv)[i := filter (\<lambda>b. b \<notin> set ?as) (hash_heads kv ! i)]"
    "lru_head kv1 = filter (\<lambda>b. b \<notin> set ?as) (lru_head kv)" "\<forall>b. b \<notin> set ?as \<longrightarrow> node kv1 b = node kv b"
    by auto
  show "kv_inv kv1 h" "same_shape kv kv1" using d by simp_all
  have ch: "chained kv1 = chained kv - set ?as"
    using chained_lru [OF inv] chained_lru [OF d(1)] d(4) by auto
  then show "chained kv1 \<subseteq> chained kv" "\<forall>b \<in> chained kv1. node kv1 b = node kv b" using d(5) by auto
  show "hash_heads kv1 ! j = hash_heads kv ! j" if "j < bucket_count kv" "j \<noteq> i" for j using that d(3) by simp
  show "node kv1 b = node kv b" if "j < bucket_count kv" "j \<noteq> i" "b \<in> set (hash_heads kv ! j)" for j b
    using bucket_unique [OF kv_invD(1) [OF inv] i that(1) _ that(3)] that(2) d(5) by auto
qed

lemma weigh_other:
  assumes inv: "kv_inv kv h" and i: "i < bucket_count kv" and "is": "set is \<subseteq> {..<bucket_count kv}" "i \<notin> set is"
    and k: "detach_all i (filter (\<lambda>a. P (node kv a)) (hash_heads kv ! i)) kv = Some kv1"
  shows "weigh w P kv1 is = weigh w P kv is"
    "sum_list (map (\<lambda>i. length (hash_heads kv1 ! i)) is) = sum_list (map (\<lambda>i. length (hash_heads kv ! i)) is)"
proof -
  note o = clear_one_other [OF inv i k]
  have hh: "hash_heads kv1 ! j = hash_heads kv ! j" if "j \<in> set is" for j using o(5) that "is" by auto
  then show "sum_list (map (\<lambda>i. length (hash_heads kv1 ! i)) is) = sum_list (map (\<lambda>i. length (hash_heads kv ! i)) is)"
    by (auto intro!: arg_cong [where f = sum_list])
  have "sum_list (map (\<lambda>a. w (node kv1 a)) (filter (\<lambda>a. P (node kv1 a)) (hash_heads kv1 ! j))) =
      sum_list (map (\<lambda>a. w (node kv a)) (filter (\<lambda>a. P (node kv a)) (hash_heads kv ! j)))" if j: "j \<in> set is" for j
  proof -
    have n: "node kv1 b = node kv b" if "b \<in> set (hash_heads kv ! j)" for b using o(6) that j "is" by auto
    then have "filter (\<lambda>a. P (node kv1 a)) (hash_heads kv ! j) = filter (\<lambda>a. P (node kv a)) (hash_heads kv ! j)"
      by (intro filter_cong) simp_all
    then show ?thesis unfolding hh [OF j] using n by (auto intro!: arg_cong [where f = sum_list])
  qed
  then show "weigh w P kv1 is = weigh w P kv is"
    unfolding weigh_def by (auto intro!: arg_cong [where f = sum_list])
qed

lemma flush_loop_eq:
  assumes "kv_inv kv h" "set is \<subseteq> {..<bucket_count kv}" "distinct is" "safe_keys kv"
    "nkey + sum_list (map (\<lambda>i. length (hash_heads kv ! i)) is) < 2 ^ 32"
  shows "flush_loop regexec is (nkey, kv) =
     map_option (\<lambda>kv'. (nkey + matching (flush_match regexec) kv is, kv')) (clear_where (flush_match regexec) is kv)"
  using assms
proof (induction "is" arbitrary: nkey kv)
  case Nil then show ?case by (simp add: weigh_def)
next
  case (Cons i "is")
  let ?P = "flush_match regexec"
  let ?as = "filter (\<lambda>a. ?P (node kv a)) (hash_heads kv ! i)"
  have i: "i < bucket_count kv" "i < length (hash_heads kv)" using Cons.prems by (auto simp: kv_inv_at_def chain_inv_def)
  have dh: "distinct (hash_heads kv ! i)"
    using Cons.prems(1) i by (auto simp: kv_inv_at_def chain_inv_def distinct_concat_iff)
  from detach_all_inv [OF Cons.prems(1) i(1), of ?as] dh obtain kv1 where k: "detach_all i ?as kv = Some kv1" by auto
  note o = clear_one_other [OF Cons.prems(1) i(1) k]
  have "is": "set is \<subseteq> {..<bucket_count kv}" "i \<notin> set is" using Cons.prems(2,3) by auto
  note mo = weigh_other [OF Cons.prems(1) i(1) "is" k]
  have f: "flush_chain regexec i (hash_heads kv ! i) (nkey, kv) = Some (nkey + length ?as, kv1)"
    using flush_chain_eq [OF Cons.prems(1) i(1) dh _ Cons.prems(4), of nkey regexec] k Cons.prems(5) by simp
  have safe: "safe_keys kv1" using Cons.prems(4) o(3,4) unfolding safe_keys_def by auto
  have "length ?as \<le> length (hash_heads kv ! i)" by (rule length_filter_le)
  with Cons.prems(5) have "nkey + length ?as + sum_list (map (\<lambda>i. length (hash_heads kv1 ! i)) is) < 2 ^ 32"
    unfolding mo(2) by (simp del: length_filter_le)
  moreover have "set is \<subseteq> {..<bucket_count kv1}" using "is"(1) o(2) by (simp add: same_shape_def)
  ultimately have "flush_loop regexec is (nkey + length ?as, kv1) =
     map_option (\<lambda>kv'. (nkey + length ?as + matching ?P kv1 is, kv')) (clear_where ?P is kv1)"
    using Cons.IH [OF o(1)] Cons.prems(3) safe by simp
  then show ?case using f k i(2) mo(1) by (simp add: matching_Cons ac_simps)
qed

lemma chained_card:
  assumes inv: "kv_inv kv h"
  shows "card (chained kv) \<le> slab_objects (key_slab kv)" "slab_objects (key_slab kv) \<le> 2 ^ 31" "finite (chained kv)"
proof -
  have ok: "slab_ok (key_slab kv)" using inv by (simp add: kv_inv_at_def mem_inv_def)
  then show "slab_objects (key_slab kv) \<le> 2 ^ 31" by (simp add: slab_ok_def)
  have "chained kv \<subseteq> slots (key_slab kv)"
    using mem_inv_node(6) [OF kv_invD(2) [OF inv]] by (auto simp: refs_def)
  moreover have "finite (slots (key_slab kv))" "card (slots (key_slab kv)) \<le> slab_objects (key_slab kv)"
    unfolding slots_def using card_image_le [of "{..<slab_objects (key_slab kv)}"] by auto
  ultimately show "card (chained kv) \<le> slab_objects (key_slab kv)" "finite (chained kv)"
    by (meson card_mono order_trans, meson finite_subset)
qed

lemma weigh_all:
  assumes inv: "kv_inv kv h"
  shows "weigh w P kv [0..<bucket_count kv] = (\<Sum>a | a \<in> chained kv \<and> P (node kv a). w (node kv a))"
    "sum_list (map (\<lambda>i. length (hash_heads kv ! i)) [0..<bucket_count kv]) = card (chained kv)"
proof -
  have len: "length (hash_heads kv) = bucket_count kv" "distinct (concat (hash_heads kv))"
    using inv by (simp_all add: kv_inv_at_def chain_inv_def)
  have heads: "map (\<lambda>i. hash_heads kv ! i) [0..<bucket_count kv] = hash_heads kv"
    using len(1) by (metis map_nth)
  have sum: "sum_list (map (\<lambda>i. f (hash_heads kv ! i)) [0..<bucket_count kv]) = sum_list (map f (hash_heads kv))"
    for f :: "addr list \<Rightarrow> nat"
    using arg_cong [OF heads, of "\<lambda>l. sum_list (map f l)"] by (simp add: comp_def)
  have "weigh w P kv [0..<bucket_count kv] =
      sum_list (map (\<lambda>a. w (node kv a)) (filter (\<lambda>a. P (node kv a)) (concat (hash_heads kv))))"
    using sum [of "\<lambda>l. sum_list (map (\<lambda>a. w (node kv a)) (filter (\<lambda>a. P (node kv a)) l))"]
    by (simp add: weigh_def filter_concat map_concat sum_list_concat_map comp_def)
  also have "\<dots> = sum (\<lambda>a. w (node kv a)) (set (filter (\<lambda>a. P (node kv a)) (concat (hash_heads kv))))"
    by (rule sum_list_distinct_conv_sum_set [OF distinct_filter [OF len(2)]])
  also have "set (filter (\<lambda>a. P (node kv a)) (concat (hash_heads kv))) = {a. a \<in> chained kv \<and> P (node kv a)}"
    by (auto simp: chained_def)
  finally show "weigh w P kv [0..<bucket_count kv] = (\<Sum>a | a \<in> chained kv \<and> P (node kv a). w (node kv a))" .
  show "sum_list (map (\<lambda>i. length (hash_heads kv ! i)) [0..<bucket_count kv]) = card (chained kv)"
    unfolding sum using distinct_card [OF len(2)] by (simp add: length_concat chained_def)
qed

lemma flush_keys_spec:
  assumes inv: "kv_inv kv h" and safe: "safe_keys kv" and re: "regcomp (takeWhile (\<lambda>b. b \<noteq> 0) regex) = Some regexec"
  shows "\<exists>kv'. priskv_flush_keys regcomp kv regex =
       Some (PRISKV_RESP_STATUS_OK, card {a \<in> chained kv. flush_match regexec (node kv a)}, kv')
     \<and> kv_inv kv' h \<and> same_shape kv kv'
     \<and> contents kv' = (\<lambda>key. if regexec (takeWhile (\<lambda>b. b \<noteq> 0) key) then None else contents kv key)
     \<and> held_same h kv kv'"
proof -
  have "card (chained kv) < 2 ^ 32" using chained_card [OF inv] by simp
  moreover have "set [0..<bucket_count kv] \<subseteq> {..<bucket_count kv}" by auto
  ultimately have "flush_loop regexec [0..<bucket_count kv] (0, kv) =
     map_option (\<lambda>kv'. (matching (flush_match regexec) kv [0..<bucket_count kv], kv'))
       (clear_where (flush_match regexec) [0..<bucket_count kv] kv)"
    using flush_loop_eq [OF inv _ _ safe, of "[0..<bucket_count kv]" 0 regexec] weigh_all(2) [OF inv] by simp
  moreover from clear_all [OF inv, of "flush_match regexec"] obtain kv' where k:
    "clear_where (flush_match regexec) [0..<bucket_count kv] kv = Some kv'" "kv_inv kv' h" "same_shape kv kv'"
    "chained kv' = {a \<in> chained kv. \<not> flush_match regexec (node kv a)}"
    "\<forall>b \<in> chained kv'. node kv' b = node kv b" "held_same h kv kv'" by blast
  ultimately have run: "priskv_flush_keys regcomp kv regex =
       Some (PRISKV_RESP_STATUS_OK, card {a \<in> chained kv. flush_match regexec (node kv a)}, kv')"
    using re by (simp add: priskv_flush_keys_def weigh_all(1) [OF inv] Collect_conj_eq Int_commute)
  have "contents kv' key = (if regexec (takeWhile (\<lambda>b. b \<noteq> 0) key) then None else contents kv key)" for key
  proof (cases "lookup kv key")
    case None
    then show ?thesis using contents_filtered [OF inv k(2-5), of key] by (simp add: contents_def)
  next
    case (Some a)
    then have "key_of (node kv a) = key" using lookup_Some_iff [OF inv] by auto
    with Some show ?thesis using contents_filtered [OF inv k(2-5), of key] by (simp add: flush_match_def)
  qed
  with run k(2,3,6) show ?thesis by (auto simp: fun_eq_iff)
qed

section \<open>The expire routine\<close>

text \<open>The first inner loop takes the expired nodes off the chain at once; the derefs commute
  with the changes it makes to the chains and the counters.\<close>

abbreviation put_stats :: "nat \<Rightarrow> nat \<Rightarrow> priskv_kv \<Rightarrow> priskv_kv" where
  "put_stats c b kv \<equiv> kv\<lparr>expire_kv_count := c, expire_kv_bytes := b\<rparr>"

abbreviation put_heads :: "addr list list \<Rightarrow> priskv_kv \<Rightarrow> priskv_kv" where
  "put_heads H kv \<equiv> kv\<lparr>hash_heads := H\<rparr>"

lemma lru_del_put:
  "lru_del_and_deref (put_heads H kv) a = map_option (put_heads H) (lru_del_and_deref kv a)"
  "lru_del_and_deref (put_stats c b kv) a = map_option (put_stats c b) (lru_del_and_deref kv a)"
  by (cases kv; auto simp: lru_del_and_deref_def priskv_lru_del_key_def priskv_keynode_deref_def Let_def
      priskv_value_to_pointer_def map_option_case split: option.splits Option.bind_splits)+

lemma lru_del_keeps:
  assumes "lru_del_and_deref kv a = Some kv'"
  shows "hash_heads kv' = hash_heads kv" "expire_kv_count kv' = expire_kv_count kv"
    "expire_kv_bytes kv' = expire_kv_bytes kv" "expire_routine_times kv' = expire_routine_times kv"
  using assms
  by (auto simp: lru_del_and_deref_def priskv_lru_del_key_def priskv_keynode_deref_def Let_def
      split: if_splits Option.bind_splits)

lemma drop_expired_put:
  "drop_expired as (put_heads H kv) = map_option (put_heads H) (drop_expired as kv)"
  "drop_expired as (put_stats c b kv) = map_option (put_stats c b) (drop_expired as kv)"
proof (induction as arbitrary: kv)
  case (Cons a as)
  { case 1 show ?case by (cases "lru_del_and_deref kv a") (simp_all add: lru_del_put Cons) }
  { case 2 show ?case by (cases "lru_del_and_deref kv a") (simp_all add: lru_del_put Cons) }
qed simp_all

lemma detach_all_drop:
  assumes "distinct (hash_heads kv ! i)"
  shows "detach_all i as kv =
    map_option (put_heads ((hash_heads kv)[i := filter (\<lambda>b. b \<notin> set as) (hash_heads kv ! i)])) (drop_expired as kv)"
  using assms
proof (induction as arbitrary: kv)
  case Nil then show ?case by simp
next
  case (Cons a as)
  let ?H = "(hash_heads kv)[i := remove1 a (hash_heads kv ! i)]"
  have cd: "chain_del kv i a = put_heads ?H kv" by (simp add: chain_del_def)
  show ?case
  proof (cases "lru_del_and_deref kv a")
    case None
    then show ?thesis by (simp add: cd lru_del_put)
  next
    case (Some k)
    have "distinct (?H ! i)"
      using Cons.prems by (cases "i < length (hash_heads kv)") (auto simp: list_update_beyond)
    with Cons.IH [of "put_heads ?H k"] have IH: "detach_all i as (put_heads ?H k) =
       map_option (put_heads (?H[i := filter (\<lambda>b. b \<notin> set as) (?H ! i)])) (drop_expired as k)"
      by (simp add: drop_expired_put option.map_comp comp_def)
    have "?H[i := filter (\<lambda>b. b \<notin> set as) (?H ! i)] = (hash_heads kv)[i := filter (\<lambda>b. b \<notin> set (a # as)) (hash_heads kv ! i)]"
      using Cons.prems remove1_filter_distinct [OF Cons.prems]
      by (cases "i < length (hash_heads kv)") (simp_all add: list_update_beyond)
    with Some IH show ?thesis by (simp add: cd lru_del_put)
  qed
qed

lemma u64n_add: "u64n (u64n a + b) = u64n (a + b)"
  by (simp add: u64n_def mod_add_left_eq)

text \<open>The first inner loop of one bucket.\<close>

lemma sweep_chain_eq:
  fixes now :: timeval
  assumes "distinct as" "distinct (hash_heads kv ! i)" "set as \<subseteq> set (hash_heads kv ! i)"
    "expire_kv_count kv < 2 ^ 64" "expire_kv_bytes kv < 2 ^ 64" "i < length (hash_heads kv)"
  defines "E \<equiv> filter (\<lambda>a. priskv_key_timeout (node kv a) now) as"
  shows "sweep_chain now i as (ex, kv) = (ex @ E,
     put_stats (u64n (expire_kv_count kv + length E)) (u64n (expire_kv_bytes kv + sum_list (map (\<lambda>a. pk_valuelen (node kv a)) E)))
       (put_heads ((hash_heads kv)[i := filter (\<lambda>b. b \<notin> set E) (hash_heads kv ! i)]) kv))"
  using assms(1-6) unfolding E_def
proof (induction as arbitrary: ex kv)
  case Nil then show ?case by (cases kv) (simp add: wrap_simps)
next
  case (Cons a as)
  show ?case
  proof (cases "priskv_key_timeout (node kv a) now")
    case False
    then show ?thesis using Cons by simp
  next
    case True
    let ?kv1 = "(chain_del kv i a)\<lparr>expire_kv_count := u64n (expire_kv_count kv + 1),
            expire_kv_bytes := u64n (expire_kv_bytes kv + pk_valuelen (node kv a))\<rparr>"
    have hh: "hash_heads ?kv1 ! i = remove1 a (hash_heads kv ! i)" "i < length (hash_heads ?kv1)"
      using Cons.prems(6) by (simp_all add: chain_del_def)
    have ch: "set as \<subseteq> set (hash_heads ?kv1 ! i)" "distinct (hash_heads ?kv1 ! i)"
      unfolding hh using Cons.prems(1-3) by auto
    have st: "expire_kv_count ?kv1 < 2 ^ 64" "expire_kv_bytes ?kv1 < 2 ^ 64" by simp_all
    have "distinct as" using Cons.prems(1) by simp
    note IH = Cons.IH [OF this ch(2,1) st hh(2), of "ex @ [a]"]
    show ?thesis using True IH hh(1) remove1_filter_distinct [OF Cons.prems(2)]
      by (cases kv) (simp add: chain_del_def u64n_add ac_simps)
  qed
qed

lemma put_stats_inv: "kv_inv kv h \<Longrightarrow> kv_inv (put_stats c b kv) h"
proof -
  assume inv: "kv_inv kv h"
  have "refs (put_stats c b kv) h = refs kv h" by (simp add: refs_def chained_def fun_eq_iff)
  then show ?thesis
    using mem_inv_cong [OF kv_invD(2) [OF inv], of "put_stats c b kv"]
      chain_inv_cong [OF kv_invD(1) [OF inv], of "put_stats c b kv"] by (simp add: kv_inv_at_def)
qed

lemma chain_del_put_stats: "chain_del (put_stats c b kv) i a = put_stats c b (chain_del kv i a)"
  by (cases kv) (simp add: chain_del_def)

lemma detach_all_put_stats:
  "detach_all i as (put_stats c b kv) = map_option (put_stats c b) (detach_all i as kv)"
proof (induction as arbitrary: kv)
  case (Cons a as)
  then show ?case
    by (cases "lru_del_and_deref (chain_del kv i a) a") (simp_all add: chain_del_put_stats lru_del_put)
qed simp

lemma clear_where_put_stats:
  "clear_where P is (put_stats c b kv) = map_option (put_stats c b) (clear_where P is kv)"
proof (induction "is" arbitrary: kv)
  case (Cons i "is")
  then show ?case
    by (cases "detach_all i (filter (\<lambda>a. P (node kv a)) (hash_heads kv ! i)) kv") (simp_all add: detach_all_put_stats)
qed simp

lemma weigh_put_stats [simp]: "weigh w P (put_stats c b kv) is = weigh w P kv is"
  by (simp add: weigh_def)

lemma clear_expired_loop_eq:
  fixes now :: timeval
  assumes "kv_inv kv h" "set is \<subseteq> {..<bucket_count kv}" "distinct is"
    "expire_kv_count kv < 2 ^ 64" "expire_kv_bytes kv < 2 ^ 64"
  defines "P \<equiv> \<lambda>n. priskv_key_timeout n now"
  shows "clear_expired_loop now is kv =
     map_option (put_stats (u64n (expire_kv_count kv + matching P kv is)) (u64n (expire_kv_bytes kv + weigh pk_valuelen P kv is)))
       (clear_where P is kv)"
  using assms(1-5)
proof (induction "is" arbitrary: kv)
  case Nil then show ?case by (cases kv) (simp add: weigh_def wrap_simps)
next
  case (Cons i "is")
  let ?as = "filter (\<lambda>a. P (node kv a)) (hash_heads kv ! i)"
  let ?c = "u64n (expire_kv_count kv + length ?as)" and ?b = "u64n (expire_kv_bytes kv + sum_list (map (\<lambda>a. pk_valuelen (node kv a)) ?as))"
  have i: "i < bucket_count kv" "i < length (hash_heads kv)" using Cons.prems by (auto simp: kv_inv_at_def chain_inv_def)
  have dh: "distinct (hash_heads kv ! i)"
    using Cons.prems(1) i by (auto simp: kv_inv_at_def chain_inv_def distinct_concat_iff)
  from detach_all_inv [OF Cons.prems(1) i(1), of ?as] dh obtain k1 where k: "detach_all i ?as kv = Some k1" by auto
  note o = clear_one_other [OF Cons.prems(1) i(1) k]
  have "is": "set is \<subseteq> {..<bucket_count kv}" "i \<notin> set is" "distinct is" using Cons.prems(2,3) by auto
  note wo = weigh_other(1) [OF Cons.prems(1) i(1) "is"(1,2) k]
  have sw: "sweep_chain now i (hash_heads kv ! i) ([], kv) = (?as,
      put_stats ?c ?b (put_heads ((hash_heads kv)[i := filter (\<lambda>b. b \<notin> set ?as) (hash_heads kv ! i)]) kv))"
    using sweep_chain_eq [OF dh dh order_refl Cons.prems(4,5) i(2), of now "[]"] by (simp add: P_def)
  have "drop_expired ?as (put_stats ?c ?b (put_heads ((hash_heads kv)[i := filter (\<lambda>b. b \<notin> set ?as) (hash_heads kv ! i)]) kv)) =
      Some (put_stats ?c ?b k1)"
    using k [unfolded detach_all_drop [OF dh]] unfolding drop_expired_put by (simp only: option.map)
  then have "clear_expired_loop now (i # is) kv = clear_expired_loop now is (put_stats ?c ?b k1)"
    using sw i(2) by simp
  also have "\<dots> = map_option (put_stats (u64n (?c + matching P k1 is)) (u64n (?b + weigh pk_valuelen P k1 is)))
      (clear_where P is (put_stats ?c ?b k1))"
    using Cons.IH [OF put_stats_inv [OF o(1), where c = ?c and b = ?b]] "is" o(2) by (simp add: same_shape_def)
  also have "\<dots> = map_option (put_stats (u64n (expire_kv_count kv + matching P kv (i # is)))
      (u64n (expire_kv_bytes kv + weigh pk_valuelen P kv (i # is)))) (clear_where P is k1)"
    unfolding clear_where_put_stats wo u64n_add
    by (simp add: option.map_comp comp_def weigh_Cons [where w = pk_valuelen] matching_Cons ac_simps)
  finally show ?case using k by simp
qed

lemma clear_where_times:
  "clear_where P is kv = Some kv' \<Longrightarrow> expire_routine_times kv' = expire_routine_times kv"
proof (induction "is" arbitrary: kv)
  case (Cons i "is")
  have "expire_routine_times kv2 = expire_routine_times kv1" if "detach_all i as kv1 = Some kv2" for as kv1 kv2
    using that by (induction as arbitrary: kv1) (auto simp: chain_del_def dest!: lru_del_keeps(4) split: Option.bind_splits)
  with Cons show ?case by (auto split: Option.bind_splits)
qed simp

lemma put_times_inv: "kv_inv kv h \<Longrightarrow> kv_inv (kv\<lparr>expire_routine_times := t\<rparr>) h"
  by (cases kv) (simp add: kv_inv_at_def mem_inv_def chain_inv_def chained_def refs_def [abs_def] hash_index_def
      priskv_value_to_pointer_def [abs_def])

lemma contents_put [simp]:
  "contents (put_stats c b kv) = contents kv" "contents (kv\<lparr>expire_routine_times := t\<rparr>) = contents kv"
  by (simp_all add: contents_def [abs_def] lookup_def hash_index_def key_matches_def [abs_def] entry_of_def [abs_def]
      priskv_value_to_pointer_def)

lemma clear_expired_spec:
  fixes now :: timeval
  assumes inv: "kv_inv kv h" and lim: "expire_kv_count kv < 2 ^ 64" "expire_kv_bytes kv < 2 ^ 64"
  defines "gone \<equiv> {a \<in> chained kv. priskv_key_timeout (node kv a) now}"
  shows "\<exists>kv'. priskv_clear_expired_kv kv now = Some kv' \<and> kv_inv kv' h \<and> same_shape kv kv'
     \<and> contents kv' = (\<lambda>key. case contents kv key of None \<Rightarrow> None
          | Some e \<Rightarrow> if entry_expired e now then None else Some e)
     \<and> expire_kv_count kv' = u64n (expire_kv_count kv + card gone)
     \<and> expire_kv_bytes kv' = u64n (expire_kv_bytes kv + (\<Sum>a \<in> gone. pk_valuelen (node kv a)))
     \<and> expire_routine_times kv' = u64n (expire_routine_times kv + 1) \<and> held_same h kv kv'"
proof -
  let ?P = "\<lambda>n. priskv_key_timeout n now"
  let ?c = "u64n (expire_kv_count kv + card gone)"
  let ?b = "u64n (expire_kv_bytes kv + (\<Sum>a \<in> gone. pk_valuelen (node kv a)))"
  from clear_all [OF inv, of ?P] obtain kv1 where k:
    "clear_where ?P [0..<bucket_count kv] kv = Some kv1" "kv_inv kv1 h" "same_shape kv kv1"
    "chained kv1 = {a \<in> chained kv. \<not> ?P (node kv a)}" "\<forall>b \<in> chained kv1. node kv1 b = node kv b"
    "held_same h kv kv1" by blast
  have "set [0..<bucket_count kv] \<subseteq> {..<bucket_count kv}" by auto
  from clear_expired_loop_eq [OF inv this distinct_upt lim, of now] k(1)
  have run: "clear_expired_loop now [0..<bucket_count kv] kv = Some (put_stats ?c ?b kv1)"
    by (simp add: weigh_all(1) [OF inv] gone_def)
  let ?kv' = "(put_stats ?c ?b kv1)\<lparr>expire_routine_times := u64n (expire_routine_times kv1 + 1)\<rparr>"
  have "priskv_clear_expired_kv kv now = Some ?kv'" using run by (simp add: priskv_clear_expired_kv_def)
  moreover have "kv_inv ?kv' h" by (intro put_times_inv put_stats_inv k(2))
  moreover have "same_shape kv ?kv'" using k(3) by (simp add: same_shape_def)
  moreover have "contents kv1 key = (case contents kv key of None \<Rightarrow> None
      | Some e \<Rightarrow> if entry_expired e now then None else Some e)" for key
    using contents_filtered [OF inv k(2-5), of key]
    by (cases "lookup kv key") (auto simp: contents_def entry_expired_iff)
  moreover have "held_same h kv ?kv'" using k(6) by (simp add: held_same_def priskv_value_to_pointer_def)
  ultimately show ?thesis using clear_where_times [OF k(1)] by (intro exI [of _ ?kv']) (auto simp: fun_eq_iff)
qed

section \<open>KEYS\<close>

text \<open>The nodes an expression matches, with what the answer says of each.\<close>

definition listing :: "priskv_kv \<Rightarrow> (bytes \<Rightarrow> bool) \<Rightarrow> addr list \<Rightarrow> (bytes \<times> nat) list" where
  "listing kv regexec as =
     map (\<lambda>a. (key_of (node kv a), pk_valuelen (node kv a))) (filter (\<lambda>a. flush_match regexec (node kv a)) as)"

definition listing_len :: "(bytes \<times> nat) list \<Rightarrow> nat" where
  "listing_len ks = sum_list (map (\<lambda>(key, _). 8 + length key) ks)"

lemma get_keys_loop_eq:
  assumes "\<forall>a \<in> set as. pk_keylen (node kv a) < 1024 \<and> pk_keylen (node kv a) \<le> length (pk_key (node kv a))"
    "reallen + listing_len (listing kv regexec as) < 2 ^ 32" "nkey + length as < 2 ^ 32"
  shows "\<exists>buf'. get_keys_loop kv regexec keyslen as (buf, reallen, nkey) =
      Some (buf', reallen + listing_len (listing kv regexec as), nkey + length (listing kv regexec as))
    \<and> (reallen + listing_len (listing kv regexec as) \<le> keyslen \<longrightarrow>
        buf' = buf @ concat (map (\<lambda>(key, valuelen). keys_resp_entry key valuelen) (listing kv regexec as)))"
  using assms
proof (induction as arbitrary: buf reallen nkey)
  case Nil then show ?case by (simp add: listing_def listing_len_def)
next
  case (Cons a as)
  have sk: "safekey (node kv a) = Some (takeWhile (\<lambda>b. b \<noteq> 0) (key_of (node kv a)))" and
    kl: "length (key_of (node kv a)) = pk_keylen (node kv a)"
    using Cons.prems(1) by (auto simp: safekey_def key_of_def)
  show ?case
  proof (cases "flush_match regexec (node kv a)")
    case False
    then have "listing kv regexec (a # as) = listing kv regexec as" by (simp add: listing_def)
    with Cons.prems Cons.IH [of reallen nkey buf] False sk show ?thesis by (simp add: flush_match_def)
  next
    case True
    then have l: "listing kv regexec (a # as) = (key_of (node kv a), pk_valuelen (node kv a)) # listing kv regexec as"
      by (simp add: listing_def)
    let ?len = "8 + pk_keylen (node kv a)"
    let ?buf = "if reallen + ?len \<le> keyslen then buf @ keys_resp_entry (key_of (node kv a)) (pk_valuelen (node kv a)) else buf"
    have len: "listing_len (listing kv regexec (a # as)) = ?len + listing_len (listing kv regexec as)"
      by (simp add: l listing_len_def kl)
    have step: "get_keys_loop kv regexec keyslen (a # as) (buf, reallen, nkey) =
        get_keys_loop kv regexec keyslen as (?buf, reallen + ?len, nkey + 1)"
      using True sk Cons.prems(2,3) unfolding len by (simp add: flush_match_def Let_def wrap_simps)
    from Cons.prems Cons.IH [of "reallen + ?len" "nkey + 1" ?buf] obtain buf' where b:
      "get_keys_loop kv regexec keyslen as (?buf, reallen + ?len, nkey + 1) =
        Some (buf', reallen + ?len + listing_len (listing kv regexec as), nkey + 1 + length (listing kv regexec as))"
      "reallen + ?len + listing_len (listing kv regexec as) \<le> keyslen \<longrightarrow>
        buf' = ?buf @ concat (map (\<lambda>(key, valuelen). keys_resp_entry key valuelen) (listing kv regexec as))"
      unfolding len by (auto simp: ac_simps)
    show ?thesis unfolding step b(1) len using b(2) by (intro exI [of _ buf']) (simp add: l)
  qed
qed

text \<open>The fields of the nodes are in the widths of their C types, and every key can be copied
  to \<open>safekey\<close>.\<close>

definition listable :: "priskv_kv \<Rightarrow> bool" where
  "listable kv \<longleftrightarrow> (\<forall>a \<in> chained kv. pk_keylen (node kv a) < 1024 \<and> pk_valuelen (node kv a) < 2 ^ 32)"

lemma listing_contents:
  assumes inv: "kv_inv kv h"
  shows "set (listing kv regexec (concat (hash_heads kv))) =
      {(key, n). regexec (takeWhile (\<lambda>b. b \<noteq> 0) key) \<and> (\<exists>v p e. contents kv key = Some (v, n, p, e))}"
    and "distinct (map fst (listing kv regexec (concat (hash_heads kv))))"
proof -
  have "(key, n) \<in> set (listing kv regexec (concat (hash_heads kv))) \<longleftrightarrow>
      (\<exists>a. lookup kv key = Some a \<and> n = pk_valuelen (node kv a)) \<and> regexec (takeWhile (\<lambda>b. b \<noteq> 0) key)" for key n
    unfolding lookup_Some_iff [OF inv] by (auto simp: listing_def flush_match_def chained_def)
  then show "set (listing kv regexec (concat (hash_heads kv))) =
      {(key, n). regexec (takeWhile (\<lambda>b. b \<noteq> 0) key) \<and> (\<exists>v p e. contents kv key = Some (v, n, p, e))}"
    by (auto simp: contents_def entry_of_def)
  have "inj_on (\<lambda>a. key_of (node kv a)) (set (concat (hash_heads kv)))" "distinct (concat (hash_heads kv))"
    using inv by (simp_all add: kv_inv_at_def chain_inv_def chained_def)
  then show "distinct (map fst (listing kv regexec (concat (hash_heads kv))))"
    by (auto simp: listing_def distinct_map comp_def intro: inj_on_subset)
qed

lemma get_keys_spec:
  assumes inv: "kv_inv kv h" and w: "listable kv" and re: "regcomp (takeWhile (\<lambda>b. b \<noteq> 0) regex) = Some regexec"
    and small: "listing_len (listing kv regexec (concat (hash_heads kv))) < 2 ^ 32"
  defines "ks \<equiv> listing kv regexec (concat (hash_heads kv))"
  shows "\<exists>buf. priskv_get_keys regcomp kv regex keyslen = Some
       (if keyslen < listing_len ks then PRISKV_RESP_STATUS_VALUE_TOO_BIG else PRISKV_RESP_STATUS_OK,
        buf, listing_len ks, length ks)
     \<and> (listing_len ks \<le> keyslen \<longrightarrow> length buf = listing_len ks \<and> keys_req_parse buf = Some ks)"
proof -
  have len: "length (hash_heads kv) = bucket_count kv" "distinct (concat (hash_heads kv))"
    using inv by (simp_all add: kv_inv_at_def chain_inv_def)
  have nd: "\<forall>a \<in> set (concat (hash_heads kv)). pk_keylen (node kv a) < 1024
      \<and> pk_keylen (node kv a) \<le> length (pk_key (node kv a))"
    using w mem_inv_node(3) [OF kv_invD(2) [OF inv]]
    unfolding listable_def chained_def [symmetric] by (auto simp: refs_def)
  have "length (concat (hash_heads kv)) < 2 ^ 32"
    using chained_card [OF inv] distinct_card [OF len(2)] by (simp add: chained_def)
  with get_keys_loop_eq [OF nd, of 0 regexec 0 keyslen "[]"] small obtain buf where b:
    "get_keys_loop kv regexec keyslen (concat (hash_heads kv)) ([], 0, 0) = Some (buf, listing_len ks, length ks)"
    "listing_len ks \<le> keyslen \<longrightarrow> buf = concat (map (\<lambda>(key, valuelen). keys_resp_entry key valuelen) ks)"
    by (auto simp: ks_def)
  have "priskv_get_keys regcomp kv regex keyslen = Some
       (if keyslen < listing_len ks then PRISKV_RESP_STATUS_VALUE_TOO_BIG else PRISKV_RESP_STATUS_OK,
        buf, listing_len ks, length ks)"
    using b(1) len(1) by (simp add: priskv_get_keys_def re all_chains_def)
  moreover have "\<forall>(key, valuelen) \<in> set ks. length key < 2 ^ 16 \<and> valuelen < 2 ^ 32"
  proof -
    have "pk_keylen (node kv a) < 2 ^ 16 \<and> pk_valuelen (node kv a) < 2 ^ 32" if "a \<in> set (concat (hash_heads kv))" for a
      using w that unfolding listable_def chained_def by (auto dest!: bspec [of _ _ a])
    then have "length (key_of (node kv a)) < 2 ^ 16 \<and> pk_valuelen (node kv a) < 2 ^ 32"
      if "a \<in> set (concat (hash_heads kv))" for a
      using that unfolding key_of_def by (metis le_less_trans length_take min.cobounded2)
    then show ?thesis unfolding ks_def listing_def by force
  qed
  then have "keys_req_parse (concat (map (\<lambda>(key, valuelen). keys_resp_entry key valuelen) ks)) = Some ks"
    by (rule keys_req_parse_entries)
  moreover have "length (concat (map (\<lambda>(key, valuelen). keys_resp_entry key valuelen) ks)) = listing_len ks"
    by (auto simp: length_concat listing_len_def comp_def keys_resp_entry_def case_prod_unfold intro!: arg_cong [of _ _ sum_list])
  ultimately show ?thesis using b(2) by (intro exI [of _ buf]) auto
qed

section \<open>Creation\<close>

lemma bucket_search_spec:
  assumes "0 \<le> left" "right < int (length primes)" "left \<le> right + 1"
    "\<forall>j. j < nat left \<longrightarrow> primes ! j \<le> n" "\<forall>j < length primes. right < int j \<longrightarrow> n < primes ! j"
    "result = primes ! (nat left - 1)" "primes ! 0 \<le> n"
  shows "\<exists>k < length primes. bucket_search n left right result = primes ! k \<and> primes ! k \<le> n
     \<and> (\<forall>j < length primes. primes ! j \<le> n \<longrightarrow> j \<le> k)"
  using assms
proof (induction n left right result rule: bucket_search.induct)
  case (1 n left right result)
  let ?mid = "left + (right - left) div 2"
  have sorted: "i \<le> j \<Longrightarrow> j < length primes \<Longrightarrow> primes ! i \<le> primes ! j" for i j
    by (rule sorted_nth_mono) (simp_all add: primes_def)
  show ?case
  proof (cases "left \<le> right")
    case False
    then have "left = right + 1" using "1.prems" by simp
    then have "j \<le> nat left - 1" if "j < length primes" "primes ! j \<le> n" for j
      using "1.prems"(5) that by (force simp: not_less [symmetric])
    moreover have "primes ! (nat left - 1) \<le> n" using "1.prems"(4,7) by (cases "nat left") auto
    moreover have "nat left - 1 < length primes" using "1.prems"(2) \<open>left = right + 1\<close> by (auto simp: primes_def)
    ultimately show ?thesis using False "1.prems"(6)
      by (intro exI [of _ "nat left - 1"]) (simp add: bucket_search.simps [of n left right])
  next
    case True
    then have m: "left \<le> ?mid" "?mid \<le> right" by auto
    have b: "nat ?mid < length primes" using m "1.prems"(1,2) by linarith
    show ?thesis
    proof (cases "primes ! nat ?mid \<le> n")
      case le: True
      have "primes ! j \<le> n" if "j < nat (?mid + 1)" for j
      proof -
        have "j \<le> nat ?mid" using that m "1.prems"(1) by linarith
        then show ?thesis using sorted [OF _ b] le le_trans by blast
      qed
      with "1.IH"(1) [OF True refl le] "1.prems" m show ?thesis using True le
        by (simp add: bucket_search.simps [of n left right] nat_add_distrib)
    next
      case gt: False
      have "n < primes ! j" if "j < length primes" "?mid - 1 < int j" for j
      proof -
        have "nat ?mid \<le> j" using that(2) by linarith
        then show ?thesis using sorted [OF _ that(1)] gt by (meson le_less_trans not_less less_le_trans)
      qed
      with "1.IH"(2) [OF True refl gt] "1.prems" m show ?thesis using True gt
        by (simp add: bucket_search.simps [of n left right])
    qed
  qed
qed

text \<open>The number of buckets: the number of keys when it is small, else the largest prime of the
  table that is not above it.\<close>

lemma hash_bucket_count_spec:
  "n < 32749 \<Longrightarrow> calculate_hash_bucket_count n = n"
  "32749 \<le> n \<Longrightarrow> calculate_hash_bucket_count n \<in> set primes \<and> calculate_hash_bucket_count n \<le> n
     \<and> (\<forall>p \<in> set primes. p \<le> n \<longrightarrow> p \<le> calculate_hash_bucket_count n)"
proof -
  have p0: "primes ! 0 = 32749" by (simp add: primes_def)
  show "n < 32749 \<Longrightarrow> calculate_hash_bucket_count n = n" by (simp add: calculate_hash_bucket_count_def p0)
  assume n: "32749 \<le> n"
  from bucket_search_spec [of 0 "int (length primes) - 1" n "primes ! 0"] n p0
  obtain k where k: "k < length primes" "calculate_hash_bucket_count n = primes ! k" "primes ! k \<le> n"
    "\<forall>j < length primes. primes ! j \<le> n \<longrightarrow> j \<le> k"
    by (auto simp: calculate_hash_bucket_count_def)
  have "p \<le> primes ! k" if "p \<in> set primes" "p \<le> n" for p
  proof -
    from that(1) obtain j where "j < length primes" "p = primes ! j" by (auto simp: in_set_conv_nth)
    with k(1,4) that(2) show ?thesis using sorted_nth_mono [of primes j k] by (simp add: primes_def)
  qed
  with k show "calculate_hash_bucket_count n \<in> set primes \<and> calculate_hash_bucket_count n \<le> n
     \<and> (\<forall>p \<in> set primes. p \<le> n \<longrightarrow> p \<le> calculate_hash_bucket_count n)" by simp
qed

lemma hash_bucket_count_pos: "0 < n \<Longrightarrow> 0 < calculate_hash_bucket_count n"
  using hash_bucket_count_spec [of n] by (cases "n < 32749") (auto simp: primes_def)

lemma new_kv_spec:
  assumes keys: "0 < keys" "keys \<le> 2 ^ 31" and kl: "key_struct_size + keylength < 2 ^ 16"
    and blk: "0 < block_size" "nblocks = 2 ^ H" "H \<le> 30" "length meta = 2 * nblocks"
    and mem: "\<forall>i < keys. length (pk_key (mem (kb + i * (key_struct_size + keylength)))) = keylength"
  shows "\<exists>kv. priskv_new_kv mem meta (Some kb) (Some vb) keys keylength block_size nblocks = Some kv
     \<and> kv_inv kv (\<lambda>_. 0) \<and> contents kv = Map.empty \<and> max_keys kv = keys
     \<and> bucket_count kv = calculate_hash_bucket_count keys
     \<and> slab_base (key_slab kv) = kb \<and> slab_size (key_slab kv) = key_struct_size + keylength \<and> slab_objects (key_slab kv) = keys
     \<and> bd_nmemb (value_buddy kv) = nblocks \<and> bd_size (value_buddy kv) = block_size"
proof -
  have ks: "priskv_mem_key_size keylength = key_struct_size + keylength" using kl by (simp add: priskv_mem_key_size_def wrap_simps)
  from slab_create_ok [of "key_struct_size + keylength" keys "''Keys''" kb] keys obtain s where s:
    "priskv_slab_create ''Keys'' (Some kb) (key_struct_size + keylength) keys = Some (Some s)" "slab_ok s" "slab_used s = {}"
    "slab_base s = kb" "slab_size s = key_struct_size + keylength" "slab_objects s = keys" by auto
  from buddy_create_ok [OF blk(3,1), of meta vb] blk(2,4) obtain b where b:
    "priskv_buddy_create meta (Some vb) nblocks block_size = Some (Some b)" "buddy_rep b H Free_node"
    "bd_nmemb b = nblocks" "bd_size b = block_size" "bd_base b = vb" by auto
  have u: "u32n nblocks = nblocks"
    using blk(2,3) power_increasing [of H 30 "2::nat"] by (simp add: wrap_simps)
  have lv: "slab_live s = {}" "buddy_live b = {}" using s(3) buddy_live_rep [OF b(2)] by (simp_all add: slab_live_def)
  from s(1) b(1) ks u obtain kv where kv: "priskv_new_kv mem meta (Some kb) (Some vb) keys keylength block_size nblocks = Some kv"
    "hash_heads kv = replicate (bucket_count kv) []" "lru_head kv = []" "bucket_count kv = calculate_hash_bucket_count keys"
    "key_slab kv = s" "value_buddy kv = b" "value_base kv = vb" "key_mem kv = mem" "max_keys kv = keys"
    by (simp add: priskv_new_kv_def Let_def)
  have ch: "chained kv = {}" by (simp add: chained_def kv)
  then have al: "alive (refs kv (\<lambda>_. 0)) = {}" by (simp add: alive_def refs_def)
  have "\<forall>a \<in> slots s. length (pk_key (node kv a)) = slab_size s - key_struct_size"
    using mem by (auto simp: slots_def kv s)
  then have "mem_inv kv (refs kv (\<lambda>_. 0)) {} {}"
    using s(2) b(2,5) lv by (auto simp: mem_inv_def al kv buddy_ok_def)
  moreover have "chain_inv kv" using hash_bucket_count_pos [OF keys(1)] ch by (simp add: chain_inv_def kv)
  ultimately have inv: "kv_inv kv (\<lambda>_. 0)" by (simp add: kv_inv_at_def)
  then have "contents kv = Map.empty"
    using lookup_None_iff [OF inv] ch by (simp add: contents_def fun_eq_iff)
  with kv s b inv show ?thesis by (intro exI [of _ kv]) simp
qed

end
