(* ===== verification/KV_Run.thy ===== *)
theory KV_Run
  imports KV_Bulk "HOL-Library.Code_Target_Nat"
begin

text \<open>
  Runs of the store: any interleaving of the calls of the server threads and of the expire
  routine, each call one step under its locks. The invariant holds in every reachable state
  and no allowed call fails an assertion; what a GET refers to is kept until the GET ends.
\<close>

section \<open>Calls and runs\<close>

datatype kv_call =
    Call_get bytes | Call_get_end addr
  | Call_set bytes nat nat | Call_set_end addr
  | Call_delete bytes | Call_expire bytes nat
  | Call_flush bytes | Call_clear_expired

text \<open>A state and the number of references that unfinished GETs hold on each node.\<close>

type_synonym kv_state = "priskv_kv \<times> (addr \<Rightarrow> nat)"

fun exec_call :: "regcomp \<Rightarrow> timeval \<Rightarrow> kv_call \<Rightarrow> kv_state \<Rightarrow> kv_state option" where
  "exec_call regcomp now (Call_get key) (kv, h) = do {
     ((_, _, keynode), kv') \<leftarrow> priskv_get_key kv now key;
     Some (kv', case keynode of None \<Rightarrow> h | Some a \<Rightarrow> h(a := Suc (h a)))
   }"
| "exec_call regcomp now (Call_get_end a) (kv, h) =
     map_option (\<lambda>kv'. (kv', h(a := h a - 1))) (priskv_get_key_end kv (Some a))"
| "exec_call regcomp now (Call_set key valuelen timeout) (kv, h) =
     map_option (\<lambda>(_, kv'). (kv', h)) (priskv_set_key kv now key valuelen timeout)"
| "exec_call regcomp now (Call_set_end a) (kv, h) = Some (priskv_set_key_end kv (Some a), h)"
| "exec_call regcomp now (Call_delete key) (kv, h) =
     map_option (\<lambda>(_, kv'). (kv', h)) (priskv_delete_key kv now key)"
| "exec_call regcomp now (Call_expire key timeout) (kv, h) =
     map_option (\<lambda>(_, kv'). (kv', h)) (priskv_expire_key kv now key timeout)"
| "exec_call regcomp now (Call_flush regex) (kv, h) =
     map_option (\<lambda>(_, _, kv'). (kv', h)) (priskv_flush_keys regcomp kv regex)"
| "exec_call regcomp now Call_clear_expired (kv, h) =
     map_option (\<lambda>kv'. (kv', h)) (priskv_clear_expired_kv kv now)"

text \<open>What a caller must respect: a GET is ended once, a key fits its slot and a length the
  allocator, fewer than \<open>2 ^ 32 - 2\<close> GETs of one key are unfinished, and FLUSH can copy
  every key to its buffer.\<close>

fun allowed :: "kv_call \<Rightarrow> kv_state \<Rightarrow> bool" where
  "allowed (Call_get key) (kv, h) = ref_room kv h"
| "allowed (Call_get_end a) (kv, h) = (0 < h a)"
| "allowed (Call_set key valuelen timeout) (kv, h) = (key_fits kv key \<and> buddy_serves (value_buddy kv) valuelen)"
| "allowed (Call_expire key timeout) (kv, h) = ref_room kv h"
| "allowed (Call_flush regex) (kv, h) = safe_keys kv"
| "allowed _ _ = True"

text \<open>The 64-bit statistics, which only the expire routine writes.\<close>

definition stats_ok :: "priskv_kv \<Rightarrow> bool" where
  "stats_ok kv \<longleftrightarrow> expire_kv_count kv < 2 ^ 64 \<and> expire_kv_bytes kv < 2 ^ 64"

text \<open>Arguments under which \<open>priskv_new_kv\<close> builds a store: at least one and at most
  \<open>2 ^ 31\<close> keys, slots that a \<open>uint16_t\<close> can measure, a power of two of blocks, and the memory the
  layout reserves for them.\<close>

definition config_ok :: "(addr \<Rightarrow> priskv_key) \<Rightarrow> nat list \<Rightarrow> addr \<Rightarrow> nat \<Rightarrow> nat \<Rightarrow> nat \<Rightarrow> nat \<Rightarrow> bool" where
  "config_ok mem meta kb keys keylength block_size nblocks \<longleftrightarrow>
     0 < keys \<and> keys \<le> 2 ^ 31 \<and> key_struct_size + keylength < 2 ^ 16
     \<and> 0 < block_size \<and> (\<exists>H \<le> 30. nblocks = 2 ^ H) \<and> length meta = 2 * nblocks
     \<and> (\<forall>i < keys. length (pk_key (mem (kb + i * (key_struct_size + keylength)))) = keylength)"

inductive reachable :: "regcomp \<Rightarrow> kv_state \<Rightarrow> bool" for regcomp where
  start: "config_ok mem meta kb keys keylength block_size nblocks \<Longrightarrow>
     priskv_new_kv mem meta (Some kb) (Some vb) keys keylength block_size nblocks = Some kv \<Longrightarrow>
     reachable regcomp (kv, \<lambda>_. 0)"
| step: "reachable regcomp s \<Longrightarrow> allowed c s \<Longrightarrow> exec_call regcomp now c s = Some s' \<Longrightarrow> reachable regcomp s'"

section \<open>The statistics are left alone\<close>

definition stats :: "priskv_kv \<Rightarrow> nat \<times> nat" where
  "stats kv = (expire_kv_count kv, expire_kv_bytes kv)"

lemma stats_ok_cong: "stats kv' = stats kv \<Longrightarrow> stats_ok kv' = stats_ok kv"
  by (simp add: stats_def stats_ok_def)

lemma deref_stats: "priskv_keynode_deref kv a = Some kv' \<Longrightarrow> stats kv' = stats kv"
  by (auto simp: priskv_keynode_deref_def Let_def stats_def split: if_splits Option.bind_splits)

lemma lru_deref_stats: "lru_del_and_deref kv a = Some kv' \<Longrightarrow> stats kv' = stats kv"
  by (auto simp: lru_del_and_deref_def priskv_lru_del_key_def stats_def
      dest!: deref_stats split: if_splits Option.bind_splits)

lemma chain_del_stats [simp]: "stats (chain_del kv i a) = stats kv"
  by (simp add: stats_def chain_del_def)

lemma find_key_stats: "priskv_find_key kv now key timeout pop = Some (r, e, kv') \<Longrightarrow> stats kv' = stats kv"
  by (auto simp: priskv_find_key_def priskv_keynode_ref_def Let_def stats_def chain_del_def split: if_splits option.splits)

lemma alloc_stats:
  "set_alloc_key kv kn = Some (kn', kv') \<Longrightarrow> stats kv' = stats kv"
  "set_alloc_value kv v n = Some (v', kv') \<Longrightarrow> stats kv' = stats kv"
  by (auto simp: set_alloc_key_def set_alloc_value_def stats_def split: option.splits Option.bind_splits)

lemma evict_loop_stats: "evict_loop kv now kn v n retries = Some (ok, kn', v', kv') \<Longrightarrow> stats kv' = stats kv"
proof (induction "MAX_EVICT_RETRIES + 1 - retries" arbitrary: kv kn v retries)
  case 0
  then show ?case by (subst (asm) evict_loop.simps) (auto split: if_splits)
next
  case (Suc x)
  have IH: "evict_loop kv1 now kn1 v1 n (Suc retries) = Some (ok, kn', v', kv') \<Longrightarrow> stats kv' = stats kv1" for kv1 kn1 v1
    using Suc.hyps(1) [of "Suc retries" kv1 kn1 v1] Suc.hyps(2) by simp
  from Suc.prems show ?case
    by (subst (asm) evict_loop.simps)
       (auto dest!: IH find_key_stats lru_deref_stats alloc_stats split: if_splits option.splits Option.bind_splits)
qed

lemma set_key_stats: "priskv_set_key kv now key n timeout = Some (r, kv') \<Longrightarrow> stats kv' = stats kv"
proof -
  have f: "set_found kv1 now a v key n timeout = Some (r, kv') \<Longrightarrow> stats kv' = stats kv1" for kv1 a v r
    by (auto simp: set_found_def init_keynode_def priskv_lru_access_def priskv_insert_keynode_def
        priskv_keynode_ref_def Let_def stats_def split: if_splits Option.bind_splits)
  have u: "set_out kv1 kn v = Some (r, kv') \<Longrightarrow> stats kv' = stats kv1" for kv1 kn v r
    by (auto simp: set_out_def stats_def split: Option.bind_splits)
  assume "priskv_set_key kv now key n timeout = Some (r, kv')"
  then obtain old e kv1 kv2 kn kv3 v kv4 ok kn' v' kv5 where s:
    "priskv_find_key kv now key PRISKV_KEY_MAX_TIMEOUT True = Some (old, e, kv1)"
    "(case old of None \<Rightarrow> Some kv1 | Some a \<Rightarrow> lru_del_and_deref kv1 a) = Some kv2"
    "set_alloc_key kv2 None = Some (kn, kv3)" "set_alloc_value kv3 None n = Some (v, kv4)"
    "evict_loop kv4 now kn v n 0 = Some (ok, kn', v', kv5)"
    "(case (ok, kn', v') of (True, Some a, Some v) \<Rightarrow> set_found kv5 now a v key n timeout
      | _ \<Rightarrow> set_out kv5 kn' v') = Some (r, kv')"
    by (auto simp: priskv_set_key_def split: Option.bind_splits)
  have "stats kv5 = stats kv"
    using s find_key_stats [of kv now key PRISKV_KEY_MAX_TIMEOUT True old e kv1]
      alloc_stats(1) [OF s(3)] alloc_stats(2) [OF s(4)] evict_loop_stats [OF s(5)]
    by (auto dest: lru_deref_stats split: option.splits)
  moreover have "stats kv' = stats kv5" using s(6) f u by (auto split: bool.splits option.splits)
  ultimately show ?thesis by simp
qed

lemma lru_access_stats: "priskv_lru_access kv a b = Some kv' \<Longrightarrow> stats kv' = stats kv"
  by (auto simp: priskv_lru_access_def stats_def split: if_splits)

lemma get_key_stats:
  assumes "priskv_get_key kv now key = Some (r, kv')"
  shows "stats kv' = stats kv"
proof -
  from assms obtain found expired kv1 where f: "priskv_find_key kv now key PRISKV_KEY_MAX_TIMEOUT False = Some (found, expired, kv1)"
    by (auto simp: priskv_get_key_def split: Option.bind_splits)
  have "stats kv' = stats kv1"
    using assms [unfolded priskv_get_key_def f]
    by (auto dest: lru_deref_stats lru_access_stats split: if_splits option.splits Option.bind_splits)
  with find_key_stats [OF f] show ?thesis by simp
qed

lemma delete_key_stats: "priskv_delete_key kv now key = Some (r, kv') \<Longrightarrow> stats kv' = stats kv"
  by (auto simp: priskv_delete_key_def dest!: find_key_stats lru_deref_stats split: option.splits Option.bind_splits)

lemma expire_key_stats: "priskv_expire_key kv now key timeout = Some (r, kv') \<Longrightarrow> stats kv' = stats kv"
  by (auto simp: priskv_expire_key_def dest!: find_key_stats lru_deref_stats deref_stats
      split: if_splits option.splits Option.bind_splits)

lemma flush_chain_stats: "flush_chain regexec i as (n, kv) = Some (n', kv') \<Longrightarrow> stats kv' = stats kv"
proof (induction as arbitrary: n kv)
  case (Cons a as)
  have "priskv_lru_del_key kv a = Some kv1 \<Longrightarrow> stats kv1 = stats kv" for kv1
    by (auto simp: priskv_lru_del_key_def stats_def split: if_splits)
  then show ?case using Cons.prems
    by (auto dest!: Cons.IH deref_stats split: if_splits Option.bind_splits)
qed simp

lemma flush_keys_stats: "priskv_flush_keys regcomp kv regex = Some (st, n, kv') \<Longrightarrow> stats kv' = stats kv"
proof -
  have "flush_loop regexec is (m, kv1) = Some (m', kv2) \<Longrightarrow> stats kv2 = stats kv1" for regexec "is" m kv1 m' kv2
    by (induction "is" arbitrary: m kv1) (auto dest!: flush_chain_stats split: if_splits Option.bind_splits)
  then show "priskv_flush_keys regcomp kv regex = Some (st, n, kv') \<Longrightarrow> stats kv' = stats kv"
    by (auto simp: priskv_flush_keys_def split: option.splits Option.bind_splits)
qed

section \<open>Every call keeps the invariant and returns\<close>

definition step_ok :: "kv_state \<Rightarrow> kv_state option \<Rightarrow> bool" where
  "step_ok s r \<longleftrightarrow> (case (s, r) of ((kv, h), Some (kv', h')) \<Rightarrow>
       kv_inv kv' h' \<and> stats_ok kv' \<and> same_shape kv kv' \<and> held_same (\<lambda>a. min (h a) (h' a)) kv kv'
     | _ \<Rightarrow> False)"

lemma held_same_mono: "held_same h kv kv' \<Longrightarrow> (\<And>a. 0 < h1 a \<Longrightarrow> 0 < h a) \<Longrightarrow> held_same h1 kv kv'"
  by (simp add: held_same_def)

lemma step_okI:
  assumes "kv_inv kv' h'" "stats kv' = stats kv" "stats_ok kv" "same_shape kv kv'" "held_same h1 kv kv'"
    "\<And>a. 0 < h a \<Longrightarrow> 0 < h' a \<Longrightarrow> 0 < h1 a"
  shows "step_ok (kv, h) (Some (kv', h'))"
proof -
  have "held_same (\<lambda>a. min (h a) (h' a)) kv kv'" by (rule held_same_mono [OF assms(5)]) (simp add: assms(6))
  moreover have "stats_ok kv'" using stats_ok_cong [OF assms(2)] assms(3) by simp
  ultimately show ?thesis using assms(1,4) by (simp add: step_ok_def)
qed

lemma get_step:
  assumes inv: "kv_inv kv h" and st: "stats_ok kv" and r: "ref_room kv h"
  shows "step_ok (kv, h) (exec_call regcomp now (Call_get key) (kv, h))"
proof -
  from get_key_spec [OF inv r, of now key] obtain res kv' h' where g: "priskv_get_key kv now key = Some (res, kv')"
    "kv_inv kv' h'" "same_shape kv kv'" "get_spec kv h now key res kv' h'" "held_same h kv kv'" by blast
  from g(4) have "h' = (case snd (snd res) of None \<Rightarrow> h | Some a \<Rightarrow> h(a := Suc (h a)))"
    by (auto simp: get_spec_def split: option.splits if_splits)
  then have run: "exec_call regcomp now (Call_get key) (kv, h) = Some (kv', h')"
    using g(1) by (cases res) simp
  show ?thesis unfolding run by (rule step_okI [OF g(2) get_key_stats [OF g(1)] st g(3,5)])
qed

lemma get_end_step:
  assumes inv: "kv_inv kv h" and st: "stats_ok kv" and a: "0 < h a"
  shows "step_ok (kv, h) (exec_call regcomp now (Call_get_end a) (kv, h))"
proof -
  from get_key_end_inv [OF inv a] obtain kv' where g: "priskv_get_key_end kv (Some a) = Some kv'"
    "kv_inv kv' (h(a := h a - 1))" "same_shape kv kv'" "held_same (h(a := h a - 1)) kv kv'" by blast
  have "stats kv' = stats kv" using g(1) deref_stats by (simp add: priskv_get_key_end_def)
  from step_okI [OF g(2) this st g(3,4)] g(1) show ?thesis by simp
qed

lemma set_step:
  assumes inv: "kv_inv kv h" and st: "stats_ok kv" and a: "key_fits kv key" "buddy_serves (value_buddy kv) n"
  shows "step_ok (kv, h) (exec_call regcomp now (Call_set key n timeout) (kv, h))"
proof -
  from set_key_inv [OF inv a, of now timeout] obtain res kv' evs where g:
    "priskv_set_key kv now key n timeout = Some (res, kv')" "set_post kv h now key n timeout evs res kv'" by blast
  from g(2) have "kv_inv kv' h" "same_shape kv kv'" "held_same h kv kv'" by (simp_all add: set_post_def Let_def)
  with step_okI [OF _ set_key_stats [OF g(1)] st] g(1) show ?thesis by simp
qed

text \<open>The calls that leave the references alone.\<close>

lemma call_step:
  assumes inv: "kv_inv kv h" and st: "stats_ok kv" and al: "allowed c (kv, h)"
  shows "step_ok (kv, h) (exec_call regcomp now c (kv, h))"
proof (cases c)
  case (Call_set_end a)
  have "stats (priskv_set_key_end kv (Some a)) = stats kv" by (simp add: priskv_set_key_end_def stats_def)
  from step_okI [OF _ this st] set_key_end_inv [OF inv, of a] Call_set_end show ?thesis by simp
next
  case (Call_delete key)
  from delete_key_spec [OF inv, of now key] obtain r kv' where g: "priskv_delete_key kv now key = Some (r, kv')"
    "kv_inv kv' h" "same_shape kv kv'" "held_same h kv kv'" by blast
  from step_okI [OF g(2) delete_key_stats [OF g(1)] st g(3,4)] g(1) Call_delete show ?thesis by simp
next
  case (Call_expire key timeout)
  with al have "ref_room kv h" by simp
  from expire_key_spec [OF inv this, of now key timeout] obtain r kv' where
    g: "priskv_expire_key kv now key timeout = Some (r, kv')" "kv_inv kv' h" "same_shape kv kv'" "held_same h kv kv'" by blast
  from step_okI [OF g(2) expire_key_stats [OF g(1)] st g(3,4)] g(1) Call_expire show ?thesis by simp
next
  case (Call_flush regex)
  with al have safe: "safe_keys kv" by simp
  show ?thesis
  proof (cases "regcomp (takeWhile (\<lambda>b. b \<noteq> 0) regex)")
    case None
    with Call_flush inv st show ?thesis by (simp add: priskv_flush_keys_def step_ok_def)
  next
    case (Some regexec)
    from flush_keys_spec [OF inv safe, of regcomp regex, OF Some] obtain r n kv' where
      g: "priskv_flush_keys regcomp kv regex = Some (r, n, kv')" "kv_inv kv' h" "same_shape kv kv'" "held_same h kv kv'" by blast
    from step_okI [OF g(2) flush_keys_stats [OF g(1)] st g(3,4)] g(1) Call_flush show ?thesis by simp
  qed
next
  case Call_clear_expired
  from st have lim: "expire_kv_count kv < 2 ^ 64" "expire_kv_bytes kv < 2 ^ 64" by (simp_all add: stats_ok_def)
  from clear_expired_spec [OF inv lim, of now] obtain kv' m n where g: "priskv_clear_expired_kv kv now = Some kv'" "kv_inv kv' h"
    "same_shape kv kv'" "held_same h kv kv'" "expire_kv_count kv' = u64n m" "expire_kv_bytes kv' = u64n n"
    by (elim exE conjE) (rule that)
  have "stats_ok kv'" by (simp add: stats_ok_def g(5,6) u64n_def)
  with g Call_clear_expired show ?thesis by (simp add: step_ok_def)
qed (use al inv st get_step get_end_step set_step in simp_all)

lemma new_kv_stats: "priskv_new_kv mem meta kb vb keys keylength block_size nblocks = Some kv \<Longrightarrow> stats_ok kv"
  by (auto simp: priskv_new_kv_def stats_ok_def Let_def split: option.splits Option.bind_splits)

lemma new_kv_config:
  assumes "config_ok mem meta kb keys keylength block_size nblocks"
  shows "\<exists>kv. priskv_new_kv mem meta (Some kb) (Some vb) keys keylength block_size nblocks = Some kv
     \<and> kv_inv kv (\<lambda>_. 0) \<and> contents kv = Map.empty \<and> max_keys kv = keys
     \<and> bucket_count kv = calculate_hash_bucket_count keys
     \<and> slab_base (key_slab kv) = kb \<and> slab_size (key_slab kv) = key_struct_size + keylength \<and> slab_objects (key_slab kv) = keys
     \<and> bd_nmemb (value_buddy kv) = nblocks \<and> bd_size (value_buddy kv) = block_size"
proof -
  from assms obtain H where "nblocks = 2 ^ H" "H \<le> 30" unfolding config_ok_def by blast
  with assms show ?thesis unfolding config_ok_def by (intro new_kv_spec) simp_all
qed

lemma reachable_inv: "reachable regcomp s \<Longrightarrow> kv_inv (fst s) (snd s) \<and> stats_ok (fst s)"
proof (induction rule: reachable.induct)
  case (step s c now s')
  obtain kv h kv' h' where s: "s = (kv, h)" "s' = (kv', h')" by (cases s, cases s')
  with step.IH have i: "kv_inv kv h" "stats_ok kv" by simp_all
  from call_step [OF i step.hyps(2) [unfolded s], of regcomp now]
  have "step_ok (kv, h) (Some (kv', h'))" unfolding step.hyps(3) [unfolded s] .
  then show ?case by (simp add: s step_ok_def)
next
  case (start mem meta kb keys keylength block_size nblocks vb kv)
  with new_kv_config [OF start(1), of vb] new_kv_stats [OF start(2)] show ?case by auto
qed

text \<open>Referenced nodes have separate value blocks.\<close>

lemma blocks_disjoint:
  assumes inv: "kv_inv kv h" and ab: "0 < refs kv h a" "0 < refs kv h b" "a \<noteq> b"
  shows "{vaddr kv a..<vaddr kv a + pk_valuelen (node kv a)} \<inter> {vaddr kv b..<vaddr kv b + pk_valuelen (node kv b)} = {}"
proof -
  note m = kv_invD(2) [OF inv]
  from mem_inv_node(7) [OF m ab(1)] obtain x where x: "pk_valuelen (node kv a) \<le> x" "(vaddr kv a, x) \<in> buddy_live (value_buddy kv)" by auto
  from mem_inv_node(7) [OF m ab(2)] obtain y where y: "pk_valuelen (node kv b) \<le> y" "(vaddr kv b, y) \<in> buddy_live (value_buddy kv)" by auto
  have "vaddr kv a \<noteq> vaddr kv b" using m ab unfolding mem_inv_def alive_def by (auto dest: inj_onD)
  moreover have "separated (buddy_live (value_buddy kv))" using m bdy.live_separated by (simp add: mem_inv_def)
  ultimately have "bytes_of (vaddr kv a, x) \<inter> bytes_of (vaddr kv b, y) = {}"
    using x(2) y(2) unfolding separated_def by auto
  then show ?thesis using x(1) y(1) unfolding bytes_of_def by (auto simp: disjoint_iff)
qed

text \<open>A run during which some GET of node \<open>a\<close> is unfinished.\<close>

inductive busy_run :: "regcomp \<Rightarrow> addr \<Rightarrow> kv_state \<Rightarrow> kv_state \<Rightarrow> bool" for regcomp a where
  stay: "0 < snd s a \<Longrightarrow> busy_run regcomp a s s"
| more: "busy_run regcomp a s s1 \<Longrightarrow> allowed c s1 \<Longrightarrow> exec_call regcomp now c s1 = Some s2 \<Longrightarrow> 0 < snd s2 a
     \<Longrightarrow> busy_run regcomp a s s2"

lemma busy_run_keeps:
  assumes "busy_run regcomp a s s'" "kv_inv (fst s) (snd s)" "stats_ok (fst s)"
  shows "kv_inv (fst s') (snd s') \<and> stats_ok (fst s') \<and> 0 < snd s' a
     \<and> vaddr (fst s') a = vaddr (fst s) a \<and> pk_valuelen (node (fst s') a) = pk_valuelen (node (fst s) a)
     \<and> key_of (node (fst s') a) = key_of (node (fst s) a)"
  using assms
proof (induction rule: busy_run.induct)
  case (more s s1 c now s2)
  obtain kv h kv' h' where s: "s1 = (kv, h)" "s2 = (kv', h')" by (cases s1, cases s2)
  note IH = more.IH [OF more.prems]
  from IH more.hyps(4) have i: "kv_inv kv h" "stats_ok kv" "0 < h a" "0 < h' a" by (simp_all add: s)
  from call_step [OF i(1,2) more.hyps(2) [unfolded s], of regcomp now]
  have "step_ok (kv, h) (Some (kv', h'))" unfolding more.hyps(3) [unfolded s] .
  then have k: "kv_inv kv' h'" "stats_ok kv'" "held_same (\<lambda>a. min (h a) (h' a)) kv kv'" by (simp_all add: step_ok_def)
  from k(3) i(3,4) have "vaddr kv' a = vaddr kv a \<and> pk_valuelen (node kv' a) = pk_valuelen (node kv a)
     \<and> key_of (node kv' a) = key_of (node kv a)" by (simp add: held_same_def)
  with IH k(1,2) i(4) show ?case by (simp add: s)
qed simp

lemma alive_idle: "alive (refs kv (\<lambda>_. 0)) = chained kv"
  unfolding alive_def refs_def by simp

lemma idle_owned:
  assumes "kv_inv kv (\<lambda>_. 0)"
  shows "fst ` slab_live (key_slab kv) = chained kv" "fst ` buddy_live (value_buddy kv) = vaddr kv ` chained kv"
  using kv_invD(2) [OF assms] unfolding mem_inv_def alive_idle by simp_all

lemma dom_contents:
  assumes "kv_inv kv h"
  shows "dom (contents kv) = (\<lambda>a. key_of (node kv a)) ` chained kv"
proof -
  have "key \<in> dom (contents kv) \<longleftrightarrow> (\<exists>a. lookup kv key = Some a)" for key by (simp add: contents_def dom_def)
  then show ?thesis unfolding lookup_Some_iff [OF assms] by (intro set_eqI) (auto simp: image_iff)
qed

lemma slab_inuse_card:
  assumes "slab_ok s"
  shows "slab_inuse s = card (fst ` slab_live s)"
proof -
  have "fst ` slab_live s = (\<lambda>i. slab_base s + i * slab_size s) ` slab_used s"
    unfolding slab_live_def image_image by simp
  moreover have "inj_on (\<lambda>i. slab_base s + i * slab_size s) (slab_used s)"
    using assms by (intro inj_onI) (simp add: slab_ok_def)
  ultimately have "card (fst ` slab_live s) = card (slab_used s)" by (simp add: card_image)
  with assms show ?thesis by (simp add: slab_ok_def)
qed

lemma keys_inuse_idle:
  assumes "kv_inv kv (\<lambda>_. 0)"
  shows "priskv_get_keys_inuse kv = card (dom (contents kv))"
proof -
  have "slab_ok (key_slab kv)" "inj_on (\<lambda>a. key_of (node kv a)) (chained kv)"
    using assms by (simp_all add: kv_inv_at_def mem_inv_def chain_inv_def)
  then show ?thesis
    by (simp add: priskv_get_keys_inuse_def slab_inuse_card idle_owned [OF assms] dom_contents [OF assms] card_image)
qed
end
