(* ===== verification/KV_Props.thy ===== *)
theory KV_Props
  imports KV_Run
begin

text \<open>
  What the store promises, for every state a run of calls reaches, and runs that show where a
  promise one would expect does not hold.
\<close>

section \<open>A small store\<close>

text \<open>Two keys of at most 8 bytes, four blocks of 16 bytes, and three calls on it.\<close>

definition demo_kv :: priskv_kv where
  "demo_kv = the (priskv_new_kv (\<lambda>_. zero_key \<lparr>pk_expire_time = \<lparr>tv_sec = 0, tv_usec = 0\<rparr>, pk_refcnt = 0,
       pk_inprocess = False, pk_keylen = 0, pk_valuelen = 0, pk_value_off = 0, pk_key = replicate 8 0\<rparr>)
     (replicate 8 0) (Some 1000) (Some 5000) 2 8 16 4)"

definition noon :: timeval where
  "noon = \<lparr>tv_sec = 43200, tv_usec = 0\<rparr>"

abbreviation no_regex :: regcomp where
  "no_regex \<equiv> \<lambda>_. None"

lemma demo_new:
  "kv_inv demo_kv (\<lambda>_. 0)" "reachable regcomp (demo_kv, \<lambda>_. 0)"
  "contents demo_kv = Map.empty" "slab_size (key_slab demo_kv) = 96" "bd_size (value_buddy demo_kv) = 16" "bd_nmemb (value_buddy demo_kv) = 4"
proof -
  have c: "config_ok (\<lambda>_. zero_key \<lparr>pk_expire_time = \<lparr>tv_sec = 0, tv_usec = 0\<rparr>, pk_refcnt = 0,
       pk_inprocess = False, pk_keylen = 0, pk_valuelen = 0, pk_value_off = 0, pk_key = replicate 8 0\<rparr>)
     (replicate 8 0) 1000 2 8 16 4"
    unfolding config_ok_def by (auto simp: zero_key_def intro!: exI [of _ 2])
  from new_kv_config [OF c, of 5000] obtain kv where
    k: "priskv_new_kv (\<lambda>_. zero_key \<lparr>pk_expire_time = \<lparr>tv_sec = 0, tv_usec = 0\<rparr>, pk_refcnt = 0,
       pk_inprocess = False, pk_keylen = 0, pk_valuelen = 0, pk_value_off = 0, pk_key = replicate 8 0\<rparr>)
     (replicate 8 0) (Some 1000) (Some 5000) 2 8 16 4 = Some kv" "kv_inv kv (\<lambda>_. 0)" "contents kv = Map.empty" "slab_size (key_slab kv) = 88 + 8"
     "bd_size (value_buddy kv) = 16" "bd_nmemb (value_buddy kv) = 4" by blast
  then have "demo_kv = kv" by (simp add: demo_kv_def)
  with k reachable.start [OF c k(1)] show "kv_inv demo_kv (\<lambda>_. 0)" "reachable regcomp (demo_kv, \<lambda>_. 0)"
  "contents demo_kv = Map.empty" "slab_size (key_slab demo_kv) = 96" "bd_size (value_buddy demo_kv) = 16" "bd_nmemb (value_buddy demo_kv) = 4"
    by simp_all
qed

lemmas demo_reach = demo_new(2) [of no_regex]

lemma demo_empty: "chained demo_kv = {}" "contents demo_kv = Map.empty"
  using demo_new(3) dom_contents [OF demo_new(1)] by simp_all

lemma demo_allowed: "same_shape demo_kv kv \<Longrightarrow> length key \<le> 8 \<Longrightarrow> 0 < n \<Longrightarrow> n < 2 ^ 31 \<Longrightarrow>
    key_fits kv key \<and> buddy_serves (value_buddy kv) n"
  by (auto simp: key_fits_def same_shape_def buddy_serves_def demo_new)

lemma demo_set: "\<exists>kv. priskv_set_key demo_kv noon [1] 10 PRISKV_KEY_MAX_TIMEOUT =
    Some ((PRISKV_RESP_STATUS_OK, Some 5000, Some 1000), kv)"
proof -
  have "map_option fst (priskv_set_key demo_kv noon [1] 10 PRISKV_KEY_MAX_TIMEOUT) =
     Some (PRISKV_RESP_STATUS_OK, Some 5000, Some 1000)" by code_simp
  then show ?thesis by auto
qed

section \<open>SET, then GET\<close>

lemma set_then_lookup:
  assumes inv: "kv_inv kv h" and s: "key_fits kv key" "buddy_serves (value_buddy kv) n"
    and run: "priskv_set_key kv now key n timeout = Some ((PRISKV_RESP_STATUS_OK, Some v, Some a), kv')"
  shows "kv_inv kv' h" "lookup kv' key = Some a" "contents kv' key = Some (v, n, True, expire_at now timeout)"
    "kv_inv (priskv_set_key_end kv' (Some a)) h" "lookup (priskv_set_key_end kv' (Some a)) key = Some a"
    "contents (priskv_set_key_end kv' (Some a)) key = Some (v, n, False, expire_at now timeout)"
proof -
  from set_key_inv [OF inv s, of now timeout] run obtain evs where
    p: "set_post kv h now key n timeout evs (PRISKV_RESP_STATUS_OK, Some v, Some a) kv'" by auto
  then show i: "kv_inv kv' h" by (simp add: set_post_def Let_def)
  from p have a: "a \<in> chained kv'" "key_of (node kv' a) = key" by (auto simp: set_post_def Let_def)
  then show l: "lookup kv' key = Some a" by (simp add: lookup_Some_iff [OF i])
  from set_contents [OF inv p] show c: "contents kv' key = Some (v, n, True, expire_at now timeout)" by auto
  note e = set_key_end_inv [OF i, of a]
  show "kv_inv (priskv_set_key_end kv' (Some a)) h" by (rule e(1))
  show "lookup (priskv_set_key_end kv' (Some a)) key = Some a"
    using a by (simp add: lookup_Some_iff [OF e(1)] e(3)) (simp add: priskv_set_key_end_def key_of_def)
  have "entry_of kv' a = (v, n, True, expire_at now timeout)" using c l by (simp add: contents_def)
  then show "contents (priskv_set_key_end kv' (Some a)) key = Some (v, n, False, expire_at now timeout)"
    using set_key_end_contents [OF i l] by (simp add: entry_of_def)
qed

lemma never_expires: "\<not> entry_expired (v, n, p, expire_at now PRISKV_KEY_MAX_TIMEOUT) now'"
  by (simp add: entry_expired_def expire_at_def)

lemma ref_room_idle: "ref_room kv (\<lambda>_. 0)"
  by (simp add: ref_room_def)

text \<open>The store with one key, and with a GET of it unfinished.\<close>

lemma demo_get:
  "\<exists>kv kv' h. reachable no_regex (kv, \<lambda>_. 0) \<and> same_shape demo_kv kv
     \<and> contents kv [1] = Some (5000, 10, False, expire_at noon PRISKV_KEY_MAX_TIMEOUT)
     \<and> exec_call no_regex noon (Call_get [1]) (kv, \<lambda>_. 0) = Some (kv', h) \<and> reachable no_regex (kv', h) \<and> 0 < h 1000"
proof -
  have fit: "key_fits demo_kv [1]" "buddy_serves (value_buddy demo_kv) 10" using demo_allowed [of demo_kv "[1]" 10] by simp_all
  from demo_set obtain kv1 where
    s: "priskv_set_key demo_kv noon [1] 10 PRISKV_KEY_MAX_TIMEOUT = Some ((PRISKV_RESP_STATUS_OK, Some 5000, Some 1000), kv1)" by blast
  let ?kv2 = "priskv_set_key_end kv1 (Some 1000)"
  note f = set_then_lookup [OF demo_new(1) fit s]
  have r1: "reachable no_regex (kv1, \<lambda>_. 0)"
    by (rule reachable.step [OF demo_reach, of "Call_set [1] 10 PRISKV_KEY_MAX_TIMEOUT" noon]) (use fit s in simp_all)
  have r2: "reachable no_regex (?kv2, \<lambda>_. 0)"
    by (rule reachable.step [OF r1, of "Call_set_end 1000" noon]) simp_all
  have "same_shape demo_kv kv1"
    using call_step [OF demo_new(1), of "Call_set [1] 10 PRISKV_KEY_MAX_TIMEOUT" no_regex noon] reachable_inv [OF demo_reach] fit s
    by (simp add: step_ok_def)
  then have sh: "same_shape demo_kv ?kv2" using set_key_end_inv(2) [OF f(1)] same_shape_trans by blast
  from get_key_spec [OF f(4) ref_room_idle, of noon "[1]"] obtain res kv' h' where
    g: "priskv_get_key ?kv2 noon [1] = Some (res, kv')" "get_spec ?kv2 (\<lambda>_. 0) noon [1] res kv' h'" by blast
  have h: "h' = (\<lambda>_. 0)(1000 := 1)" "snd (snd res) = Some 1000"
    using g(2) f(5,6) never_expires by (auto simp: get_spec_def)
  then have e: "exec_call no_regex noon (Call_get [1]) (?kv2, \<lambda>_. 0) = Some (kv', h')" using g(1) by (cases res) auto
  moreover have "reachable no_regex (kv', h')"
    by (rule reachable.step [OF r2 _ e]) (simp add: ref_room_idle)
  ultimately show ?thesis using r2 sh f(6) h(1) by (intro exI [of _ ?kv2] exI [of _ kv'] exI [of _ h']) simp
qed

section \<open>The properties of runs\<close>

text \<open>
  C8: In every state that calls of the server can reach from a new store, in any order and
  with any keys, lengths, times and regular expressions the callers are allowed to pass, the
  invariant holds: every chained key hashes to its bucket and is unique, the LRU list is a
  permutation of the chained nodes, reference counts are exact, and slab objects and value
  blocks are owned exactly once. No allowed call fails: no assertion, no double free, no access
  outside an object.
\<close>

theorem kv_run_safe:
  assumes "reachable regcomp (kv, h)"
  shows "kv_inv kv h \<and> (allowed c (kv, h) \<longrightarrow> (\<exists>kv' h'. exec_call regcomp now c (kv, h) = Some (kv', h')
     \<and> kv_inv kv' h' \<and> reachable regcomp (kv', h')))"
proof -
  from reachable_inv [OF assms] have i: "kv_inv kv h" "stats_ok kv" by simp_all
  have "\<exists>kv' h'. exec_call regcomp now c (kv, h) = Some (kv', h') \<and> kv_inv kv' h' \<and> reachable regcomp (kv', h')"
    if al: "allowed c (kv, h)"
  proof -
    from call_step [OF i al, of regcomp now] obtain kv' h' where
      e: "exec_call regcomp now c (kv, h) = Some (kv', h')" "kv_inv kv' h'"
      by (auto simp: step_ok_def split: option.splits)
    with reachable.step [OF assms al e(1)] show ?thesis by blast
  qed
  with i(1) show ?thesis by blast
qed

theorem kv_run_safe_witness:
  "reachable no_regex (demo_kv, \<lambda>_. 0) \<and> kv_inv demo_kv (\<lambda>_. 0)
     \<and> (\<exists>kv' h'. exec_call no_regex noon (Call_set [1] 10 500) (demo_kv, \<lambda>_. 0) = Some (kv', h') \<and> kv_inv kv' h')"
  using kv_run_safe [OF demo_reach, of "Call_set [1] 10 500" noon] demo_reach demo_allowed [of demo_kv "[1]" 10] by auto

text \<open>
  C9: As long as some GET of a node is unfinished, no sequence of other calls (DELETE, a second
  SET of the key, eviction, FLUSH, the expire routine) moves its value block, changes its key or
  its length, or gives a byte of the block to another node: the value an RDMA transfer is
  reading stays where it is.
\<close>

theorem kv_get_stable:
  assumes "reachable regcomp (kv, h)" "busy_run regcomp a (kv, h) (kv', h')"
  shows "vaddr kv' a = vaddr kv a \<and> pk_valuelen (node kv' a) = pk_valuelen (node kv a)
     \<and> key_of (node kv' a) = key_of (node kv a)
     \<and> (\<forall>b. b \<noteq> a \<and> 0 < refs kv' h' b \<longrightarrow>
          {vaddr kv a..<vaddr kv a + pk_valuelen (node kv a)} \<inter> {vaddr kv' b..<vaddr kv' b + pk_valuelen (node kv' b)} = {})"
proof -
  from reachable_inv [OF assms(1)] busy_run_keeps [OF assms(2)] have k: "kv_inv kv' h'" "0 < h' a"
    "vaddr kv' a = vaddr kv a" "pk_valuelen (node kv' a) = pk_valuelen (node kv a)"
    "key_of (node kv' a) = key_of (node kv a)" by simp_all
  have "0 < refs kv' h' a" using k(2) by (simp add: refs_def)
  with blocks_disjoint [OF k(1), of a] k(3-5) show ?thesis by metis
qed

theorem kv_get_stable_witness:
  "\<exists>kv h kv' h'. reachable no_regex (kv, h) \<and> busy_run no_regex 1000 (kv, h) (kv', h')
     \<and> exec_call no_regex noon (Call_delete [1]) (kv, h) = Some (kv', h')
     \<and> vaddr kv' 1000 = vaddr kv 1000 \<and> pk_valuelen (node kv' 1000) = pk_valuelen (node kv 1000)"
proof -
  from demo_get obtain kv h where r: "reachable no_regex (kv, h)" "0 < h 1000" by blast
  from call_step [of kv h "Call_delete [1]" no_regex noon] reachable_inv [OF r(1)] obtain kv' where
    e: "exec_call no_regex noon (Call_delete [1]) (kv, h) = Some (kv', h)"
    by (auto simp: step_ok_def split: option.splits prod.splits)
  have "busy_run no_regex 1000 (kv, h) (kv', h)"
    by (rule busy_run.more [OF busy_run.stay _ e]) (use r(2) in simp_all)
  with kv_get_stable [OF r(1) this] r(1) e show ?thesis by blast
qed

text \<open>
  C10: SET. The store forgets the old value of the key, evicts nothing but a tail of the LRU
  list (the least recently used keys first), and either installs the new entry, unreadable
  until the SET ends, at the head of the list, or answers \<open>NO_MEM\<close> with the key absent, every
  allocation given back, and nothing left to evict or 129 keys evicted. All other keys keep
  their entries.
\<close>

theorem kv_set_spec:
  assumes "reachable regcomp (kv, h)" "key_fits kv key" "buddy_serves (value_buddy kv) n"
  shows "\<exists>res kv' rest evs. priskv_set_key kv now key n timeout = Some (res, kv') \<and> kv_inv kv' h
     \<and> filter (\<lambda>a. lookup kv key \<noteq> Some a) (lru_head kv) = rest @ evs
     \<and> (let kept = (\<lambda>k. if k \<in> keys_of kv evs then None else contents kv k)
        in (\<exists>v a. res = (PRISKV_RESP_STATUS_OK, Some v, Some a) \<and> lru_head kv' = a # rest
              \<and> contents kv' = kept(key \<mapsto> (v, n, True, expire_at now timeout)))
           \<or> (res = (PRISKV_RESP_STATUS_NO_MEM, None, None) \<and> lru_head kv' = rest
              \<and> contents kv' = kept(key := None) \<and> (rest = [] \<or> length evs = MAX_EVICT_RETRIES + 1)))"
proof -
  from reachable_inv [OF assms(1)] have inv: "kv_inv kv h" by simp
  from set_key_inv [OF inv assms(2,3), of now timeout] obtain res kv' evs where
    r: "priskv_set_key kv now key n timeout = Some (res, kv')" "set_post kv h now key n timeout evs res kv'" by blast
  have "distinct (lru_head kv)" using inv by (simp add: kv_inv_at_def chain_inv_def)
  then have f: "filter (\<lambda>a. lookup kv key \<noteq> Some a) (lru_head kv) =
      (case lookup kv key of None \<Rightarrow> lru_head kv | Some a \<Rightarrow> remove1 a (lru_head kv))"
    by (cases "lookup kv key") (auto simp: distinct_remove1_removeAll removeAll_filter_not_eq intro!: filter_cong)
  from r(2) have i: "kv_inv kv' h" by (simp add: set_post_def Let_def)
  from r(2) consider (ok) a v l where "res = (PRISKV_RESP_STATUS_OK, Some v, Some a)" "lru_head kv' = a # l"
      "filter (\<lambda>a. lookup kv key \<noteq> Some a) (lru_head kv) = l @ evs"
    | (nomem) "res = (PRISKV_RESP_STATUS_NO_MEM, None, None)"
      "filter (\<lambda>a. lookup kv key \<noteq> Some a) (lru_head kv) = lru_head kv' @ evs"
      "lru_head kv' = [] \<or> length evs = MAX_EVICT_RETRIES + 1"
    unfolding set_post_def Let_def f by blast
  then show ?thesis
  proof cases
    case ok
    with set_contents [OF inv r(2)] r(1) i show ?thesis by (auto simp: Let_def)
  next
    case nomem
    with set_contents [OF inv r(2)] r(1) i show ?thesis by (auto simp: Let_def)
  qed
qed

theorem kv_set_spec_witness:
  "\<exists>res kv' rest evs. priskv_set_key demo_kv noon [1] 10 500 = Some (res, kv') \<and> kv_inv kv' (\<lambda>_. 0)
     \<and> filter (\<lambda>a. lookup demo_kv [1] \<noteq> Some a) (lru_head demo_kv) = rest @ evs"
proof -
  have "key_fits demo_kv [1]" "buddy_serves (value_buddy demo_kv) 10" using demo_allowed [of demo_kv "[1]" 10] by simp_all
  from kv_set_spec [OF demo_reach this, of noon 500] show ?thesis by blast
qed

text \<open>
  C12: A value is readable exactly when its SET has ended. After a SET that answered \<open>OK\<close>, a GET
  of the key before \<open>priskv_set_key_end\<close> answers \<open>KEY_UPDATING\<close>, and after it \<open>OK\<close> with the
  address and the length that the SET handed out, as long as the entry has not expired.
\<close>

theorem kv_set_get_roundtrip:
  assumes "reachable regcomp (kv, h)" "key_fits kv key" "buddy_serves (value_buddy kv) n" "ref_room kv h"
    and "priskv_set_key kv now key n timeout = Some ((PRISKV_RESP_STATUS_OK, Some v, Some a), kv')"
    and "\<not> entry_expired (v, n, False, expire_at now timeout) now'"
  shows "(\<exists>kv1. priskv_get_key kv' now' key = Some ((PRISKV_RESP_STATUS_KEY_UPDATING, None, Some a), kv1))
     \<and> (\<exists>kv1. priskv_get_key (priskv_set_key_end kv' (Some a)) now' key =
          Some ((PRISKV_RESP_STATUS_OK, Some (v, n), Some a), kv1))"
proof -
  from reachable_inv [OF assms(1)] have inv: "kv_inv kv h" by simp
  note f = set_then_lookup [OF inv assms(2,3,5)]
  have ex: "\<not> entry_expired (v, n, p, expire_at now timeout) now'" for p
    using assms(6) by (simp add: entry_expired_def)
  have room: "ref_room kv1 h" for kv1 using assms(4) by (simp add: ref_room_def)
  from get_key_spec [OF f(1) room, of now' key] f(2,3) ex
  have "\<exists>kv1. priskv_get_key kv' now' key = Some ((PRISKV_RESP_STATUS_KEY_UPDATING, None, Some a), kv1)"
    by (auto simp: get_spec_def)
  moreover from get_key_spec [OF f(4) room, of now' key] f(5,6) ex
  have "\<exists>kv1. priskv_get_key (priskv_set_key_end kv' (Some a)) now' key =
          Some ((PRISKV_RESP_STATUS_OK, Some (v, n), Some a), kv1)"
    by (auto simp: get_spec_def)
  ultimately show ?thesis by blast
qed

theorem kv_set_get_roundtrip_witness:
  "\<exists>kv' kv1. priskv_set_key demo_kv noon [1] 10 PRISKV_KEY_MAX_TIMEOUT =
       Some ((PRISKV_RESP_STATUS_OK, Some 5000, Some 1000), kv')
     \<and> priskv_get_key (priskv_set_key_end kv' (Some 1000)) noon [1] =
       Some ((PRISKV_RESP_STATUS_OK, Some (5000, 10), Some 1000), kv1)"
proof -
  from demo_set obtain kv' where s: "priskv_set_key demo_kv noon [1] 10 PRISKV_KEY_MAX_TIMEOUT =
       Some ((PRISKV_RESP_STATUS_OK, Some 5000, Some 1000), kv')" by blast
  from kv_set_get_roundtrip [OF demo_reach _ _ ref_room_idle s never_expires [of _ _ _ noon noon]]
    demo_allowed [of demo_kv "[1]" 10] s show ?thesis by auto
qed

text \<open>
  C16: GET. An absent key and an expired one answer \<open>NO_SUCH_KEY\<close>, and the expired one is
  removed; a key whose SET is unfinished answers \<open>KEY_UPDATING\<close>; every other key answers \<open>OK\<close>
  with the address and length of its entry and moves to the head of the LRU list. In the last
  two cases the caller holds one more reference on the node, and no entry changes.
\<close>

theorem kv_get_spec:
  assumes "reachable regcomp (kv, h)" "ref_room kv h"
  shows "\<exists>res kv' h'. priskv_get_key kv now key = Some (res, kv') \<and> kv_inv kv' h'
     \<and> (case contents kv key of
          None \<Rightarrow> res = (PRISKV_RESP_STATUS_NO_SUCH_KEY, None, None) \<and> kv' = kv \<and> h' = h
        | Some (v, n, inproc, exp) \<Rightarrow>
            if entry_expired (v, n, inproc, exp) now then
              res = (PRISKV_RESP_STATUS_NO_SUCH_KEY, None, None) \<and> h' = h \<and> contents kv' = (contents kv)(key := None)
            else (\<exists>a. lookup kv key = Some a \<and> h' = h(a := Suc (h a)) \<and> contents kv' = contents kv
              \<and> (if inproc then res = (PRISKV_RESP_STATUS_KEY_UPDATING, None, Some a) \<and> lru_head kv' = lru_head kv
                 else res = (PRISKV_RESP_STATUS_OK, Some (v, n), Some a) \<and> lru_head kv' = a # remove1 a (lru_head kv))))"
proof -
  from reachable_inv [OF assms(1)] have "kv_inv kv h" by simp
  from get_key_spec [OF this assms(2), of now key] show ?thesis unfolding get_spec_def by blast
qed

theorem kv_get_spec_witness:
  "\<exists>kv kv' res. reachable no_regex (kv, \<lambda>_. 0) \<and> contents kv [1] = Some (5000, 10, False, expire_at noon PRISKV_KEY_MAX_TIMEOUT)
     \<and> priskv_get_key kv noon [1] = Some (res, kv') \<and> fst res = PRISKV_RESP_STATUS_OK"
proof -
  from demo_get obtain kv where k: "reachable no_regex (kv, \<lambda>_. 0)"
    "contents kv [1] = Some (5000, 10, False, expire_at noon PRISKV_KEY_MAX_TIMEOUT)" by blast
  from kv_get_spec [OF k(1) ref_room_idle, of noon "[1]"] k(2) never_expires [of 5000 10 False noon noon]
  obtain res kv' where "priskv_get_key kv noon [1] = Some (res, kv')" "fst res = PRISKV_RESP_STATUS_OK" by auto
  with k show ?thesis by blast
qed

text \<open>
  C17: DELETE removes exactly its key and says whether the key was there, whatever the state of
  its entry; the other keys keep their entries and their LRU order.
\<close>

theorem kv_delete_spec:
  assumes "reachable regcomp (kv, h)"
  shows "\<exists>kv'. priskv_delete_key kv now key = Some
      (if contents kv key = None then PRISKV_RESP_STATUS_NO_SUCH_KEY else PRISKV_RESP_STATUS_OK, kv')
     \<and> kv_inv kv' h \<and> contents kv' = (contents kv)(key := None)
     \<and> lru_head kv' = filter (\<lambda>a. lookup kv key \<noteq> Some a) (lru_head kv)"
proof -
  from reachable_inv [OF assms(1)] have "kv_inv kv h" by simp
  from delete_key_spec [OF this, of now key] show ?thesis by blast
qed

theorem kv_delete_spec_witness:
  "\<exists>kv kv'. contents kv [1] \<noteq> None \<and> priskv_delete_key kv noon [1] = Some (PRISKV_RESP_STATUS_OK, kv') \<and> contents kv' [1] = None"
proof -
  from demo_get obtain kv where k: "reachable no_regex (kv, \<lambda>_. 0)" "contents kv [1] \<noteq> None" by (metis option.distinct(1))
  with kv_delete_spec [OF k(1), of noon "[1]"] obtain kv' where
    "priskv_delete_key kv noon [1] = Some (PRISKV_RESP_STATUS_OK, kv')" "contents kv' [1] = None" by auto
  with k(2) show ?thesis by blast
qed

text \<open>
  C18: EXPIRE. A key that is absent or already expired answers \<open>NO_SUCH_KEY\<close>, the expired one
  being removed; otherwise the answer is \<open>OK\<close> and the entry gets the new expiry time, or keeps
  its own when the timeout is the maximum. The references are as before.
\<close>

theorem kv_expire_spec:
  assumes "reachable regcomp (kv, h)" "ref_room kv h"
  shows "\<exists>kv'. priskv_expire_key kv now key timeout = Some
       (case contents kv key of None \<Rightarrow> PRISKV_RESP_STATUS_NO_SUCH_KEY
        | Some e \<Rightarrow> if entry_expired e now then PRISKV_RESP_STATUS_NO_SUCH_KEY else PRISKV_RESP_STATUS_OK, kv')
     \<and> kv_inv kv' h
     \<and> contents kv' = (case contents kv key of None \<Rightarrow> contents kv
        | Some (v, n, p, exp) \<Rightarrow>
            if entry_expired (v, n, p, exp) now then (contents kv)(key := None)
            else if timeout < PRISKV_KEY_MAX_TIMEOUT then (contents kv)(key \<mapsto> (v, n, p, priskv_time_add_ms now timeout))
            else contents kv)"
proof -
  from reachable_inv [OF assms(1)] have "kv_inv kv h" by simp
  from expire_key_spec [OF this assms(2), of now key timeout] show ?thesis by blast
qed

theorem kv_expire_spec_witness:
  "\<exists>kv kv'. contents kv [1] = Some (5000, 10, False, expire_at noon PRISKV_KEY_MAX_TIMEOUT)
     \<and> priskv_expire_key kv noon [1] 7 = Some (PRISKV_RESP_STATUS_OK, kv')
     \<and> contents kv' [1] = Some (5000, 10, False, priskv_time_add_ms noon 7)"
proof -
  from demo_get obtain kv where k: "reachable no_regex (kv, \<lambda>_. 0)"
    "contents kv [1] = Some (5000, 10, False, expire_at noon PRISKV_KEY_MAX_TIMEOUT)" by blast
  from kv_expire_spec [OF k(1) ref_room_idle, of noon "[1]" 7] k(2) never_expires [of 5000 10 False noon noon]
  obtain kv' where "priskv_expire_key kv noon [1] 7 = Some (PRISKV_RESP_STATUS_OK, kv')"
     "contents kv' [1] = Some (5000, 10, False, priskv_time_add_ms noon 7)" by (auto simp: PRISKV_KEY_MAX_TIMEOUT_def)
  with k(2) show ?thesis by blast
qed

text \<open>
  C19: The expire routine removes exactly the entries that have expired, unfinished SETs
  included, keeps every other entry, and adds their number and the bytes of their values to the
  64-bit statistics.
\<close>

theorem kv_clear_expired_spec:
  assumes "reachable regcomp (kv, h)"
  shows "\<exists>kv'. priskv_clear_expired_kv kv now = Some kv' \<and> kv_inv kv' h
     \<and> contents kv' = (\<lambda>key. case contents kv key of None \<Rightarrow> None
          | Some e \<Rightarrow> if entry_expired e now then None else Some e)
     \<and> expire_kv_count kv' = u64n (expire_kv_count kv + card {a \<in> chained kv. priskv_key_timeout (node kv a) now})
     \<and> expire_kv_bytes kv' = u64n (expire_kv_bytes kv +
          (\<Sum>a \<in> {a \<in> chained kv. priskv_key_timeout (node kv a) now}. pk_valuelen (node kv a)))
     \<and> expire_routine_times kv' = u64n (expire_routine_times kv + 1)"
proof -
  from reachable_inv [OF assms(1)] have i: "kv_inv kv h" "expire_kv_count kv < 2 ^ 64" "expire_kv_bytes kv < 2 ^ 64"
    by (simp_all add: stats_ok_def)
  from clear_expired_spec [OF i, of now] show ?thesis by blast
qed

theorem kv_clear_expired_spec_witness:
  "\<exists>kv kv'. reachable no_regex (kv, \<lambda>_. 0) \<and> priskv_clear_expired_kv kv noon = Some kv'
     \<and> contents kv' [1] = Some (5000, 10, False, expire_at noon PRISKV_KEY_MAX_TIMEOUT)"
proof -
  from demo_get obtain kv where k: "reachable no_regex (kv, \<lambda>_. 0)"
    "contents kv [1] = Some (5000, 10, False, expire_at noon PRISKV_KEY_MAX_TIMEOUT)" by blast
  from kv_clear_expired_spec [OF k(1), of noon] k(2) never_expires [of 5000 10 False noon noon]
  obtain kv' where "priskv_clear_expired_kv kv noon = Some kv'"
    "contents kv' [1] = Some (5000, 10, False, expire_at noon PRISKV_KEY_MAX_TIMEOUT)" by auto
  with k(1) show ?thesis by blast
qed





text \<open>
  C22: Nothing leaks. In every reachable state without unfinished GETs, the live slab objects are
  exactly the nodes of the chains, the live value blocks exactly the blocks of their values, and
  the number of keys the server reports is the number of keys of the store.
\<close>

theorem kv_no_leak:
  assumes "reachable regcomp (kv, \<lambda>_. 0)"
  shows "fst ` slab_live (key_slab kv) = chained kv \<and> fst ` buddy_live (value_buddy kv) = vaddr kv ` chained kv
     \<and> priskv_get_keys_inuse kv = card (dom (contents kv))"
proof -
  from reachable_inv [OF assms] have "kv_inv kv (\<lambda>_. 0)" by simp
  with idle_owned keys_inuse_idle show ?thesis by blast
qed

theorem kv_no_leak_witness: "priskv_get_keys_inuse demo_kv = 0"
  using kv_no_leak [OF demo_reach] by (simp add: demo_empty)

text \<open>
  A new store. With a valid configuration \<open>priskv_new_kv\<close> succeeds, the store is empty and
  satisfies the invariant, and the number of buckets is the number of keys when that is below
  32749, and else the largest prime of the table that is not above it; it is never zero.
\<close>

theorem kv_new_ok:
  assumes "config_ok mem meta kb keys keylength block_size nblocks"
  shows "\<exists>kv. priskv_new_kv mem meta (Some kb) (Some vb) keys keylength block_size nblocks = Some kv
     \<and> kv_inv kv (\<lambda>_. 0) \<and> contents kv = Map.empty \<and> 0 < bucket_count kv
     \<and> (if keys < 32749 then bucket_count kv = keys
        else bucket_count kv \<in> set primes \<and> bucket_count kv \<le> keys \<and> (\<forall>p \<in> set primes. p \<le> keys \<longrightarrow> p \<le> bucket_count kv))"
proof -
  have "0 < keys" using assms by (simp add: config_ok_def)
  with new_kv_config [OF assms, of vb] hash_bucket_count_spec [of keys] hash_bucket_count_pos [of keys]
  show ?thesis by (cases "keys < 32749") auto
qed

theorem kv_new_ok_witness:
  "\<exists>kv. priskv_new_kv (\<lambda>_. zero_key \<lparr>pk_expire_time = \<lparr>tv_sec = 0, tv_usec = 0\<rparr>, pk_refcnt = 0,
       pk_inprocess = False, pk_keylen = 0, pk_valuelen = 0, pk_value_off = 0, pk_key = replicate 8 0\<rparr>)
     (replicate 8 0) (Some 1000) (Some 5000) 2 8 16 4 = Some kv \<and> bucket_count kv = 2"
proof -
  have c: "config_ok (\<lambda>_. zero_key \<lparr>pk_expire_time = \<lparr>tv_sec = 0, tv_usec = 0\<rparr>, pk_refcnt = 0,
       pk_inprocess = False, pk_keylen = 0, pk_valuelen = 0, pk_value_off = 0, pk_key = replicate 8 0\<rparr>)
     (replicate 8 0) 1000 2 8 16 4"
    unfolding config_ok_def by (auto simp: zero_key_def intro!: exI [of _ 2])
  from kv_new_ok [OF c, of 5000] show ?thesis by auto
qed

section \<open>Where the store does less than it should\<close>

text \<open>The handle of a SET holds no reference on its node.\<close>

definition stale_handle :: "(addr option \<times> addr option \<times> (priskv_resp_status \<times> (addr \<times> nat) option \<times> addr option)) option" where
  "stale_handle = do {
     ((_, _, handle1), kv1) \<leftarrow> priskv_set_key demo_kv noon [1] 10 PRISKV_KEY_MAX_TIMEOUT;
     (_, kv2) \<leftarrow> priskv_delete_key kv1 noon [1];
     ((_, _, handle2), kv3) \<leftarrow> priskv_set_key kv2 noon [2] 12 PRISKV_KEY_MAX_TIMEOUT;
     (res, _) \<leftarrow> priskv_get_key (priskv_set_key_end kv3 handle1) noon [2];
     Some (handle1, handle2, res)
   }"


text \<open>Restart on the memory of a store with one key: the slots survive, the buddy is new.\<close>

definition recovered :: "(int \<times> (addr \<times> nat) option \<times> addr option) option" where
  "recovered = do {
     ((_, _, handle), kv1) \<leftarrow> priskv_set_key demo_kv noon [1] 10 PRISKV_KEY_MAX_TIMEOUT;
     kv2 \<leftarrow> priskv_new_kv (key_mem (priskv_set_key_end kv1 handle)) (bd_meta (value_buddy kv1)) (Some 1000) (Some 5000) 2 8 16 4;
     (r, kv3) \<leftarrow> priskv_recover kv2;
     ((_, found, _), kv4) \<leftarrow> priskv_get_key kv3 noon [1];
     ((_, v, _), _) \<leftarrow> priskv_set_key kv4 noon [2] 12 PRISKV_KEY_MAX_TIMEOUT;
     Some (r, found, v)
   }"

end
