(* ===== verification/Ilist.thy ===== *)
theory Ilist
  imports Prelude "HOL-Library.Code_Target_Nat"
begin

text \<open>
  \<open>include/list.h\<close>: the intrusive circular doubly linked lists. A heap maps the address of a
  \<open>list_node\<close> to its two pointers; a head is a node too. \<open>is_list g h xs\<close> says that the nodes
  \<open>xs\<close>, in this order, are the list with head \<open>h\<close>; every operation is shown to be the operation
  on HOL lists that the other theories use for it, and to leave other lists alone.
\<close>

section \<open>The operations\<close>

record links =
  ln_next :: "addr \<Rightarrow> addr"
  ln_prev :: "addr \<Rightarrow> addr"

abbreviation set_next :: "addr \<Rightarrow> addr \<Rightarrow> links \<Rightarrow> links" where
  "set_next a b g \<equiv> g\<lparr>ln_next := (ln_next g)(a := b)\<rparr>"

abbreviation set_prev :: "addr \<Rightarrow> addr \<Rightarrow> links \<Rightarrow> links" where
  "set_prev a b g \<equiv> g\<lparr>ln_prev := (ln_prev g)(a := b)\<rparr>"

definition list_head_init :: "addr \<Rightarrow> links \<Rightarrow> links" where
  "list_head_init h g = set_next h h (set_prev h h g)"

definition list_node_init :: "addr \<Rightarrow> links \<Rightarrow> links" where
  "list_node_init n g = set_next n n (set_prev n n g)"

definition list_add_after :: "addr \<Rightarrow> addr \<Rightarrow> links \<Rightarrow> links" where
  "list_add_after p n g =
     (let g = set_next n (ln_next g p) g;
          g = set_prev n p g;
          g = set_prev (ln_next g p) n g
      in set_next p n g)"

definition list_add :: "addr \<Rightarrow> addr \<Rightarrow> links \<Rightarrow> links" where
  "list_add h n g = list_add_after h n g"

definition list_add_before :: "addr \<Rightarrow> addr \<Rightarrow> links \<Rightarrow> links" where
  "list_add_before p n g =
     (let g = set_next n p g;
          g = set_prev n (ln_prev g p) g;
          g = set_next (ln_prev g p) n g
      in set_prev p n g)"

definition list_add_tail :: "addr \<Rightarrow> addr \<Rightarrow> links \<Rightarrow> links" where
  "list_add_tail h n g = list_add_before h n g"

definition list_empty :: "addr \<Rightarrow> links \<Rightarrow> bool" where
  "list_empty h g \<longleftrightarrow> ln_next g h = h"

definition list_del :: "addr \<Rightarrow> links \<Rightarrow> links" where
  "list_del n g =
     (let g = set_prev (ln_next g n) (ln_prev g n) g
      in set_next (ln_prev g n) (ln_next g n) g)"

definition list_del_init :: "addr \<Rightarrow> links \<Rightarrow> links" where
  "list_del_init n g = list_node_init n (list_del n g)"

definition list_del_from :: "addr \<Rightarrow> addr \<Rightarrow> links \<Rightarrow> links option" where
  "list_del_from h n g = (if list_empty h g then None else Some (list_del n g))"

text \<open>Replaces \<open>old\<close> by \<open>n\<close>.\<close>

definition list_swap :: "addr \<Rightarrow> addr \<Rightarrow> links \<Rightarrow> links" where
  "list_swap old n g =
     (let g = set_prev n (ln_prev g old) (set_next n (ln_next g old) g);
          g = set_prev (ln_next g n) n g
      in set_next (ln_prev g n) n g)"

text \<open>The entries are given as nodes; \<open>container_of\<close> subtracts the offset \<open>off\<close> of the member.\<close>

definition list_top :: "addr \<Rightarrow> nat \<Rightarrow> links \<Rightarrow> addr option" where
  "list_top h off g = (if list_empty h g then None else Some (ln_next g h - off))"

definition list_pop :: "addr \<Rightarrow> nat \<Rightarrow> links \<Rightarrow> addr option \<times> links" where
  "list_pop h off g =
     (if list_empty h g then (None, g)
      else let n = ln_next g h in (Some (n - off), list_del n g))"

definition list_tail :: "addr \<Rightarrow> nat \<Rightarrow> links \<Rightarrow> addr option" where
  "list_tail h off g = (if list_empty h g then None else Some (ln_prev g h - off))"

definition list_entry_or_null :: "addr \<Rightarrow> addr \<Rightarrow> nat \<Rightarrow> addr option" where
  "list_entry_or_null h n off = (if n = h then None else Some (n - off))"

definition list_append_list :: "addr \<Rightarrow> addr \<Rightarrow> links \<Rightarrow> links" where
  "list_append_list to_h from_h g =
     (let from_tail = ln_prev g from_h; to_tail = ln_prev g to_h;
          g = set_prev to_h from_tail g;
          g = set_next from_tail to_h g;
          g = set_next to_tail from_h g;
          g = set_prev from_h to_tail g
      in list_head_init from_h (list_del from_h g))"

definition list_prepend_list :: "addr \<Rightarrow> addr \<Rightarrow> links \<Rightarrow> links" where
  "list_prepend_list to_h from_h g =
     (let from_tail = ln_prev g from_h; to_head = ln_next g to_h;
          g = set_next to_h from_h g;
          g = set_prev from_h to_h g;
          g = set_prev to_head from_tail g;
          g = set_next from_tail to_head g
      in list_head_init from_h (list_del from_h g))"

text \<open>The nodes a \<open>list_for_each\<close> loop visits from node \<open>i\<close> on, and the safe loop, which reads the
  successor before the body runs; \<open>None\<close> is a loop that never comes back to the head.\<close>

partial_function (option) for_each_from :: "addr \<Rightarrow> links \<Rightarrow> addr \<Rightarrow> addr list option" where
  "for_each_from h g i =
     (if i = h then Some [] else do { ns \<leftarrow> for_each_from h g (ln_next g i); Some (i # ns) })"

definition list_for_each :: "addr \<Rightarrow> links \<Rightarrow> addr list option" where
  "list_for_each h g = for_each_from h g (ln_next g h)"

partial_function (option) for_each_safe_from ::
  "addr \<Rightarrow> (addr \<Rightarrow> links \<times> 's \<Rightarrow> links \<times> 's) \<Rightarrow> addr \<Rightarrow> addr \<Rightarrow> links \<times> 's \<Rightarrow> (links \<times> 's) option"
where
  "for_each_safe_from h body i nxt s =
     (if i = h then Some s
      else let s' = body i s in for_each_safe_from h body nxt (ln_next (fst s') nxt) s')"

definition list_for_each_safe ::
  "addr \<Rightarrow> (addr \<Rightarrow> links \<times> 's \<Rightarrow> links \<times> 's) \<Rightarrow> links \<times> 's \<Rightarrow> (links \<times> 's) option"
where
  "list_for_each_safe h body s =
     (let i = ln_next (fst s) h in for_each_safe_from h body i (ln_next (fst s) i) s)"

section \<open>Segments\<close>

text \<open>The nodes \<open>xs\<close> lie between \<open>p\<close> and \<open>q\<close>, linked both ways.\<close>

fun seg :: "links \<Rightarrow> addr \<Rightarrow> addr list \<Rightarrow> addr \<Rightarrow> bool" where
  "seg g p [] q \<longleftrightarrow> ln_next g p = q \<and> ln_prev g q = p"
| "seg g p (x # xs) q \<longleftrightarrow> ln_next g p = x \<and> ln_prev g x = p \<and> seg g x xs q"

definition is_list :: "links \<Rightarrow> addr \<Rightarrow> addr list \<Rightarrow> bool" where
  "is_list g h xs \<longleftrightarrow> distinct (h # xs) \<and> seg g h xs h"

lemma seg_append: "seg g p (xs @ y # ys) q \<longleftrightarrow> seg g p xs y \<and> seg g y ys q"
  by (induction xs arbitrary: p) auto

lemma seg_ends: "seg g p xs q \<Longrightarrow> ln_next g p = hd (xs @ [q]) \<and> ln_prev g q = last (p # xs)"
  by (induction xs arbitrary: p) auto

text \<open>A segment depends on the forward pointers of all nodes but the last and the backward
  pointers of all but the first.\<close>

lemma seg_cong:
  "seg g p xs q \<Longrightarrow> (\<And>a. a \<in> set (p # xs) \<Longrightarrow> ln_next g' a = ln_next g a) \<Longrightarrow>
     (\<And>a. a \<in> set (xs @ [q]) \<Longrightarrow> ln_prev g' a = ln_prev g a) \<Longrightarrow> seg g' p xs q"
  by (induction xs arbitrary: p) auto

lemma is_list_frame:
  assumes "is_list g h xs" "\<And>a. a \<in> set (h # xs) \<Longrightarrow> ln_next g' a = ln_next g a \<and> ln_prev g' a = ln_prev g a"
  shows "is_list g' h xs"
proof -
  have "seg g' h xs h" by (rule seg_cong [of g]) (use assms in \<open>auto simp: is_list_def\<close>)
  with assms(1) show ?thesis by (simp add: is_list_def)
qed

lemma is_list_empty: "is_list g h xs \<Longrightarrow> list_empty h g \<longleftrightarrow> xs = []"
  by (cases xs) (auto simp: is_list_def list_empty_def)

lemma is_list_unique: "is_list g h xs \<Longrightarrow> is_list g h ys \<Longrightarrow> xs = ys"
proof -
  have "seg g p xs h \<Longrightarrow> seg g p ys h \<Longrightarrow> h \<notin> set xs \<Longrightarrow> h \<notin> set ys \<Longrightarrow> xs = ys" for p
  proof (induction xs arbitrary: p ys)
    case Nil then show ?case by (cases ys) auto
  next
    case (Cons x xs) then show ?case by (cases ys) auto
  qed
  then show "is_list g h xs \<Longrightarrow> is_list g h ys \<Longrightarrow> xs = ys" by (auto simp: is_list_def)
qed

section \<open>Insertion and deletion\<close>

text \<open>Insertion between two neighbours, and joining the neighbours of a node.\<close>

definition link_in :: "addr \<Rightarrow> addr \<Rightarrow> addr \<Rightarrow> links \<Rightarrow> links" where
  "link_in p q n g = \<lparr>ln_next = (ln_next g)(n := q, p := n), ln_prev = (ln_prev g)(n := p, q := n)\<rparr>"

definition link_out :: "addr \<Rightarrow> addr \<Rightarrow> links \<Rightarrow> links" where
  "link_out p q g = \<lparr>ln_next = (ln_next g)(p := q), ln_prev = (ln_prev g)(q := p)\<rparr>"

lemma add_after_link: "n \<noteq> p \<Longrightarrow> list_add_after p n g = link_in p (ln_next g p) n g"
  by (cases g) (auto simp: list_add_after_def link_in_def Let_def)

lemma add_before_link: "n \<noteq> p \<Longrightarrow> list_add_before p n g = link_in (ln_prev g p) p n g"
  by (cases g) (auto simp: list_add_before_def link_in_def Let_def)

lemma del_link: "list_del n g = link_out (ln_prev g n) (ln_next g n) g" if "ln_next g n \<noteq> n"
  using that by (cases g) (auto simp: list_del_def link_out_def Let_def)

lemma seg_link_in:
  assumes "seg g s (as @ bs) e" "distinct (s # as @ bs)" "e \<notin> set (as @ bs)" "n \<notin> set (s # e # as @ bs)"
  shows "seg (link_in (last (s # as)) (hd (bs @ [e])) n g) s (as @ n # bs) e"
  using assms
proof (induction as arbitrary: s)
  case Nil
  show ?case
  proof (cases bs)
    case Nil
    with Nil.prems show ?thesis by (auto simp: link_in_def)
  next
    case (Cons b bs')
    with Nil.prems have "seg g b bs' e" by simp
    then have "seg (link_in s b n g) b bs' e"
      by (rule seg_cong) (use Nil.prems Cons in \<open>auto simp: link_in_def\<close>)
    with Nil.prems Cons show ?thesis by (auto simp: link_in_def)
  qed
next
  case (Cons a as)
  let ?g = "link_in (last (a # as)) (hd (bs @ [e])) n g"
  have "seg ?g a (as @ n # bs) e" using Cons.IH [of a] Cons.prems by auto
  moreover have "s \<noteq> last (a # as)" using Cons.prems(2) last_in_set [of "a # as"] by auto
  moreover have "a \<noteq> hd (bs @ [e])" using Cons.prems(2,3) by (cases bs) auto
  ultimately show ?case using Cons.prems by (auto simp: link_in_def)
qed

lemma seg_link_out:
  assumes "seg g s (as @ n # bs) e" "distinct (s # as @ n # bs)" "e \<notin> set (as @ n # bs)"
  shows "seg (link_out (last (s # as)) (hd (bs @ [e])) g) s (as @ bs) e"
  using assms
proof (induction as arbitrary: s)
  case Nil
  show ?case
  proof (cases bs)
    case Nil
    with Nil.prems show ?thesis by (auto simp: link_out_def)
  next
    case (Cons b bs')
    with Nil.prems have "seg g b bs' e" by simp
    then have "seg (link_out s b g) b bs' e"
      by (rule seg_cong) (use Nil.prems Cons in \<open>auto simp: link_out_def\<close>)
    with Nil.prems Cons show ?thesis by (auto simp: link_out_def)
  qed
next
  case (Cons a as)
  let ?g = "link_out (last (a # as)) (hd (bs @ [e])) g"
  have "seg ?g a (as @ bs) e" using Cons.IH [of a] Cons.prems by auto
  moreover have "s \<noteq> last (a # as)" using Cons.prems(2) last_in_set [of "a # as"] by auto
  moreover have "a \<noteq> hd (bs @ [e])" using Cons.prems(2,3) by (cases bs) auto
  ultimately show ?case using Cons.prems by (auto simp: link_out_def)
qed

text \<open>The neighbours of a place in a list.\<close>

lemma seg_neighbours:
  "seg g p (as @ bs) q \<Longrightarrow> ln_next g (last (p # as)) = hd (bs @ [q]) \<and> ln_prev g (hd (bs @ [q])) = last (p # as)"
proof (induction as arbitrary: p)
  case Nil then show ?case by (cases bs) auto
qed auto

lemma is_list_neighbours:
  assumes "is_list g h (as @ bs)"
  shows "ln_next g (last (h # as)) = hd (bs @ [h])" "ln_prev g (hd (bs @ [h])) = last (h # as)"
  using seg_neighbours [of g h as bs h] assms by (simp_all add: is_list_def)

lemma is_list_add_after:
  assumes "is_list g h (as @ bs)" "n \<notin> set (h # as @ bs)" "p = last (h # as)"
  shows "is_list (list_add_after p n g) h (as @ n # bs)"
proof -
  have "n \<noteq> p" using assms(2,3) last_in_set [of "h # as"] by auto
  with seg_link_in [of g h as bs h n] assms is_list_neighbours(1) [OF assms(1)] show ?thesis
    by (auto simp: is_list_def add_after_link)
qed

lemma is_list_add_before:
  assumes "is_list g h (as @ bs)" "n \<notin> set (h # as @ bs)" "q = hd (bs @ [h])"
  shows "is_list (list_add_before q n g) h (as @ n # bs)"
proof -
  have "n \<noteq> q" using assms(2,3) by (cases bs) auto
  with seg_link_in [of g h as bs h n] assms is_list_neighbours(2) [OF assms(1)] show ?thesis
    by (auto simp: is_list_def add_before_link)
qed

lemma is_list_del_split:
  assumes "is_list g h (as @ n # bs)"
  shows "list_del n g = link_out (last (h # as)) (hd (bs @ [h])) g" "is_list (list_del n g) h (as @ bs)"
proof -
  have nb: "ln_prev g n = last (h # as)" "ln_next g n = hd (bs @ [h])"
    using is_list_neighbours [OF assms] is_list_neighbours [of g h "as @ [n]" bs] assms by simp_all
  moreover have "hd (bs @ [h]) \<noteq> n" using assms by (cases bs) (auto simp: is_list_def)
  ultimately show e: "list_del n g = link_out (last (h # as)) (hd (bs @ [h])) g" by (simp add: del_link)
  show "is_list (list_del n g) h (as @ bs)"
    using seg_link_out [of g h as n bs h] assms unfolding e by (auto simp: is_list_def)
qed

text \<open>The operations on HOL lists.\<close>

lemma is_list_init: "is_list (list_head_init h g) h []"
  by (simp add: is_list_def list_head_init_def)

lemma is_list_add:
  "is_list g h xs \<Longrightarrow> n \<notin> set (h # xs) \<Longrightarrow> is_list (list_add h n g) h (n # xs)"
  using is_list_add_after [of g h "[]" xs n h] by (simp add: list_add_def)

lemma is_list_add_tail:
  "is_list g h xs \<Longrightarrow> n \<notin> set (h # xs) \<Longrightarrow> is_list (list_add_tail h n g) h (xs @ [n])"
  using is_list_add_before [of g h xs "[]" n h] by (simp add: list_add_tail_def)

lemma is_list_del:
  assumes "is_list g h xs" "n \<in> set xs"
  shows "is_list (list_del n g) h (remove1 n xs)"
proof -
  from split_list_first [OF assms(2)] obtain as bs where xs: "xs = as @ n # bs" "n \<notin> set as" by blast
  with is_list_del_split(2) [of g h as n bs] assms(1) show ?thesis by (simp add: remove1_append)
qed

lemma list_pop_eq:
  assumes "is_list g h xs"
  shows "list_pop h off g = (case xs of [] \<Rightarrow> (None, g) | n # ns \<Rightarrow> (Some (n - off), list_del n g))"
  using assms is_list_empty [OF assms] by (cases xs) (auto simp: list_pop_def is_list_def Let_def)

lemma is_list_pop:
  assumes "is_list g h (n # xs)"
  shows "list_pop h off g = (Some (n - off), list_del n g)" "is_list (list_del n g) h xs"
  using list_pop_eq [OF assms, of off] is_list_del_split(2) [of g h "[]" n xs] assms by simp_all

lemma list_ends:
  assumes "is_list g h xs"
  shows "list_top h off g = (if xs = [] then None else Some (hd xs - off))"
    "list_tail h off g = (if xs = [] then None else Some (last xs - off))"
proof -
  have e: "ln_next g h = hd (xs @ [h]) \<and> ln_prev g h = last (h # xs)"
    using assms by (intro seg_ends) (simp add: is_list_def)
  then show "list_top h off g = (if xs = [] then None else Some (hd xs - off))"
    "list_tail h off g = (if xs = [] then None else Some (last xs - off))"
    using is_list_empty [OF assms] by (auto simp: list_top_def list_tail_def)
qed

lemma is_list_swap:
  assumes "is_list g h (as @ old # bs)" "n \<notin> set (h # as @ old # bs)"
  shows "is_list (list_swap old n g) h (as @ n # bs)"
proof -
  let ?p = "last (h # as)" and ?q = "hd (bs @ [h])"
  have nb: "ln_prev g old = ?p" "ln_next g old = ?q"
    using is_list_neighbours [OF assms(1)] is_list_neighbours [of g h "as @ [old]" bs] assms(1) by simp_all
  have "?p \<in> set (h # as)" "?q \<in> set (bs @ [h])" by (rule last_in_set, simp, rule hd_in_set, simp)
  then have ne: "n \<noteq> ?p" "n \<noteq> ?q" using assms(2) by auto
  have d: "is_list (list_del old g) h (as @ bs)" using is_list_del_split(2) [OF assms(1)] .
  have "list_swap old n g = link_in ?p ?q n (list_del old g)"
    unfolding is_list_del_split(1) [OF assms(1)] using nb ne
    by (cases g) (simp add: list_swap_def link_in_def link_out_def Let_def fun_upd_twist)
  also have "\<dots> = list_add_after ?p n (list_del old g)"
    unfolding add_after_link [OF ne(1)] is_list_neighbours(1) [OF d] ..
  finally show ?thesis using is_list_add_after [OF d, of n ?p] assms(2) by simp
qed

section \<open>Joining lists\<close>

lemma seg_retarget:
  assumes "seg g s xs e" "ln_next g' (last (s # xs)) = e'" "ln_prev g' e' = last (s # xs)"
    "\<And>a. a \<in> set (butlast (s # xs)) \<Longrightarrow> ln_next g' a = ln_next g a" "\<And>a. a \<in> set xs \<Longrightarrow> ln_prev g' a = ln_prev g a"
  shows "seg g' s xs e'"
  using assms by (induction xs arbitrary: s) auto

lemma last_notin_butlast: "distinct xs \<Longrightarrow> xs \<noteq> [] \<Longrightarrow> last xs \<notin> set (butlast xs)"
  by (cases xs rule: rev_cases) auto

text \<open>The last node of a list, and where it can be.\<close>

lemma tail_facts:
  assumes "is_list g h xs" "t = last (h # xs)"
  shows "ln_prev g h = t" "t \<in> set (h # xs)" "t \<notin> set (butlast (h # xs))" "set (butlast (h # xs)) \<subseteq> set (h # xs)"
proof -
  have d: "seg g h xs h" "distinct (h # xs)" using assms(1) by (simp_all add: is_list_def)
  show "ln_prev g h = t" using seg_ends [OF d(1)] assms(2) by simp
  show "t \<in> set (h # xs)" unfolding assms(2) by (rule last_in_set) simp
  show "t \<notin> set (butlast (h # xs))" unfolding assms(2) by (rule last_notin_butlast [OF d(2)]) simp
  show "set (butlast (h # xs)) \<subseteq> set (h # xs)" by (meson in_set_butlastD subsetI)
qed

lemma is_list_append_list:
  assumes "is_list g t xs" "is_list g f ys" "set (t # xs) \<inter> set (f # ys) = {}"
  shows "is_list (list_append_list t f g) t (xs @ ys)" "is_list (list_append_list t f g) f []"
proof -
  define xt yt where "xt = last (t # xs)" and "yt = last (f # ys)"
  define g1 where "g1 = \<lparr>ln_next = (ln_next g)(yt := t, xt := f), ln_prev = (ln_prev g)(t := yt, f := xt)\<rparr>"
  note tx = tail_facts [OF assms(1) xt_def] and ty = tail_facts [OF assms(2) yt_def]
  have s: "seg g t xs t" "seg g f ys f" and d: "distinct (t # xs)" "distinct (f # ys)"
    using assms(1,2) by (simp_all add: is_list_def)
  have ne: "xt \<noteq> yt" "t \<noteq> f" "t \<notin> set ys" "f \<notin> set xs" "t \<notin> set xs" "f \<notin> set ys"
    "\<And>a. a \<in> set (butlast (t # xs)) \<Longrightarrow> a \<noteq> xt \<and> a \<noteq> yt" "\<And>a. a \<in> set (butlast (f # ys)) \<Longrightarrow> a \<noteq> xt \<and> a \<noteq> yt"
    using tx(2-4) ty(2-4) assms(3) d by auto
  have "seg g1 t xs f"
  proof (rule seg_retarget [OF s(1)])
    show "ln_next g1 (last (t # xs)) = f" "ln_prev g1 f = last (t # xs)"
      unfolding xt_def [symmetric] by (simp_all add: g1_def)
    show "ln_next g1 a = ln_next g a" if "a \<in> set (butlast (t # xs))" for a using ne(7) [OF that] by (simp add: g1_def)
    show "ln_prev g1 a = ln_prev g a" if "a \<in> set xs" for a using that ne(4,5) by (auto simp: g1_def)
  qed
  moreover have "seg g1 f ys t"
  proof (rule seg_retarget [OF s(2)])
    show "ln_next g1 (last (f # ys)) = t" "ln_prev g1 t = last (f # ys)"
      unfolding yt_def [symmetric] using ne(1,2) by (simp_all add: g1_def)
    show "ln_next g1 a = ln_next g a" if "a \<in> set (butlast (f # ys))" for a using ne(8) [OF that] by (simp add: g1_def)
    show "ln_prev g1 a = ln_prev g a" if "a \<in> set ys" for a using that ne(3,6) by (auto simp: g1_def)
  qed
  ultimately have "is_list g1 t (xs @ f # ys)"
    using d assms(3) by (auto simp: is_list_def seg_append)
  from is_list_del_split(2) [OF this] have l: "is_list (list_del f g1) t (xs @ ys)" .
  have "g\<lparr>ln_prev := (ln_prev g)(t := yt), ln_next := (ln_next g)(yt := t, xt := f),
      ln_prev := (ln_prev g)(t := yt, f := xt)\<rparr> = g1" by (cases g) (simp add: g1_def)
  then have e: "list_append_list t f g = list_head_init f (list_del f g1)"
    by (simp add: list_append_list_def tx(1) ty(1) Let_def)
  show "is_list (list_append_list t f g) f []" unfolding e by (rule is_list_init)
  have "f \<notin> set (t # xs @ ys)" using ne by auto
  then show "is_list (list_append_list t f g) t (xs @ ys)"
    unfolding e by (intro is_list_frame [OF l]) (auto simp: list_head_init_def)
qed

lemma is_list_prepend_list:
  assumes "is_list g t xs" "is_list g f ys" "set (t # xs) \<inter> set (f # ys) = {}"
  shows "is_list (list_prepend_list t f g) t (ys @ xs)" "is_list (list_prepend_list t f g) f []"
proof -
  define xh yt where "xh = hd (xs @ [t])" and "yt = last (f # ys)"
  define g1 where "g1 = \<lparr>ln_next = (ln_next g)(t := f, yt := xh), ln_prev = (ln_prev g)(f := t, xh := yt)\<rparr>"
  note ty = tail_facts [OF assms(2) yt_def]
  have s: "seg g t xs t" "seg g f ys f" and d: "distinct (t # xs)" "distinct (f # ys)"
    using assms(1,2) by (simp_all add: is_list_def)
  have x: "ln_next g t = xh" "xh \<in> set (t # xs)" using seg_ends [OF s(1)] xh_def by (simp, cases xs) auto
  have ne: "xh \<noteq> yt" "t \<noteq> f" "t \<notin> set ys" "f \<notin> set xs" "t \<notin> set xs" "f \<notin> set ys" "xh \<noteq> f" "yt \<noteq> t" "xh \<notin> set ys" "yt \<notin> set xs"
    "\<And>a. a \<in> set (butlast (f # ys)) \<Longrightarrow> a \<noteq> t \<and> a \<noteq> yt"
    using x(2) ty(2-4) assms(3) d by auto
  have fy: "seg g1 f ys xh"
  proof (rule seg_retarget [OF s(2)])
    show "ln_next g1 (last (f # ys)) = xh" "ln_prev g1 xh = last (f # ys)"
      unfolding yt_def [symmetric] by (simp_all add: g1_def)
    show "ln_next g1 a = ln_next g a" if "a \<in> set (butlast (f # ys))" for a using ne(11) [OF that] by (simp add: g1_def)
    show "ln_prev g1 a = ln_prev g a" if "a \<in> set ys" for a using that ne(6,9) by (auto simp: g1_def)
  qed
  have h: "ln_next g1 t = f" "ln_prev g1 f = t" using ne(7,8) by (simp_all add: g1_def)
  have "seg g1 t (f # ys @ xs) t"
  proof (cases xs)
    case Nil
    then show ?thesis using fy h by (simp add: xh_def)
  next
    case (Cons a as)
    have "seg g a as t" using s(1) Cons by simp
    then have "seg g1 a as t"
      by (rule seg_cong) (use ne d(1) Cons in \<open>auto simp: g1_def xh_def\<close>)
    with fy h Cons show ?thesis by (simp add: seg_append xh_def)
  qed
  then have "is_list g1 t (f # ys @ xs)" using d assms(3) by (auto simp: is_list_def)
  from is_list_del_split(2) [of g1 t "[]" f "ys @ xs"] this have l: "is_list (list_del f g1) t (ys @ xs)" by simp
  have "g\<lparr>ln_next := (ln_next g)(t := f), ln_prev := (ln_prev g)(f := t, xh := yt),
      ln_next := (ln_next g)(t := f, yt := xh)\<rparr> = g1" by (cases g) (simp add: g1_def)
  then have e: "list_prepend_list t f g = list_head_init f (list_del f g1)"
    by (simp add: list_prepend_list_def x(1) ty(1) Let_def)
  show "is_list (list_prepend_list t f g) f []" unfolding e by (rule is_list_init)
  have "f \<notin> set (t # ys @ xs)" using ne by auto
  then show "is_list (list_prepend_list t f g) t (ys @ xs)"
    unfolding e by (intro is_list_frame [OF l]) (auto simp: list_head_init_def)
qed

section \<open>Iteration\<close>

lemma list_for_each_eq:
  assumes "is_list g h xs"
  shows "list_for_each h g = Some xs"
proof -
  have "for_each_from h g (ln_next g p) = Some xs" if "seg g p xs h" "h \<notin> set xs" for p
    using that
  proof (induction xs arbitrary: p)
    case Nil then show ?case by (simp add: for_each_from.simps)
  next
    case (Cons x xs) then show ?case by (subst for_each_from.simps) auto
  qed
  with assms show ?thesis by (auto simp: list_for_each_def is_list_def)
qed

text \<open>The loop that unlinks the nodes with \<open>P\<close>, as FLUSH and the expire routine do.\<close>

definition del_body :: "(addr \<Rightarrow> bool) \<Rightarrow> addr \<Rightarrow> links \<times> addr list \<Rightarrow> links \<times> addr list" where
  "del_body P n s = (if P n then (list_del n (fst s), snd s @ [n]) else s)"

lemma for_each_safe_del_from:
  assumes "is_list g h (kept @ xs)"
  shows "\<exists>g'. for_each_safe_from h (del_body P) (hd (xs @ [h])) (ln_next g (hd (xs @ [h]))) (g, acc) =
       Some (g', acc @ filter P xs) \<and> is_list g' h (kept @ filter (\<lambda>n. \<not> P n) xs)"
  using assms
proof (induction xs arbitrary: g kept acc)
  case Nil then show ?case by (simp add: for_each_safe_from.simps)
next
  case (Cons x xs)
  have xh: "x \<noteq> h" using Cons.prems by (auto simp: is_list_def)
  have nx: "ln_next g x = hd (xs @ [h])"
    using is_list_neighbours(1) [of g h "kept @ [x]" xs] Cons.prems by simp
  show ?case
  proof (cases "P x")
    case True
    let ?g = "list_del x g"
    have l: "is_list ?g h (kept @ xs)" using is_list_del_split(2) [OF Cons.prems] .
    have b: "del_body P x (g, acc) = (?g, acc @ [x])" using True by (simp add: del_body_def)
    from Cons.IH [OF l, of "acc @ [x]"] True xh nx show ?thesis
      by (subst for_each_safe_from.simps) (simp add: b Let_def)
  next
    case False
    have b: "del_body P x (g, acc) = (g, acc)" using False by (simp add: del_body_def)
    from Cons.IH [of g "kept @ [x]" acc] Cons.prems False xh nx show ?thesis
      by (subst for_each_safe_from.simps) (simp add: b Let_def)
  qed
qed

lemma for_each_safe_del:
  assumes "is_list g h xs"
  shows "\<exists>g'. list_for_each_safe h (del_body P) (g, []) = Some (g', filter P xs)
     \<and> is_list g' h (filter (\<lambda>n. \<not> P n) xs)"
proof -
  have "ln_next g h = hd (xs @ [h])" using is_list_neighbours(1) [of g h "[]" xs] assms by simp
  with for_each_safe_del_from [of g h "[]" xs P "[]"] assms show ?thesis
    by (simp add: list_for_each_safe_def Let_def)
qed

section \<open>Sequences of operations\<close>

datatype list_op =
    Op_add addr | Op_add_tail addr | Op_add_after addr addr | Op_add_before addr addr
  | Op_del addr | Op_swap addr addr

text \<open>The operation on HOL lists, for a head \<open>h\<close>; \<open>None\<close> when a node is added that is in the list
  already or one is named that is not.\<close>

fun insert_after :: "addr \<Rightarrow> addr \<Rightarrow> addr list \<Rightarrow> addr list" where
  "insert_after p n [] = []"
| "insert_after p n (x # xs) = (if x = p then x # n # xs else x # insert_after p n xs)"

fun insert_before :: "addr \<Rightarrow> addr \<Rightarrow> addr list \<Rightarrow> addr list" where
  "insert_before p n [] = []"
| "insert_before p n (x # xs) = (if x = p then n # x # xs else x # insert_before p n xs)"

fun abs_op :: "addr \<Rightarrow> list_op \<Rightarrow> addr list \<Rightarrow> addr list option" where
  "abs_op h (Op_add n) xs = (if n \<in> set (h # xs) then None else Some (n # xs))"
| "abs_op h (Op_add_tail n) xs = (if n \<in> set (h # xs) then None else Some (xs @ [n]))"
| "abs_op h (Op_add_after p n) xs =
     (if n \<in> set (h # xs) \<or> p \<notin> set xs then None else Some (insert_after p n xs))"
| "abs_op h (Op_add_before p n) xs =
     (if n \<in> set (h # xs) \<or> p \<notin> set xs then None else Some (insert_before p n xs))"
| "abs_op h (Op_del n) xs = (if n \<in> set xs then Some (remove1 n xs) else None)"
| "abs_op h (Op_swap old n) xs =
     (if n \<in> set (h # xs) \<or> old \<notin> set xs then None else Some (map (\<lambda>x. if x = old then n else x) xs))"

fun conc_op :: "addr \<Rightarrow> list_op \<Rightarrow> links \<Rightarrow> links" where
  "conc_op h (Op_add n) g = list_add h n g"
| "conc_op h (Op_add_tail n) g = list_add_tail h n g"
| "conc_op h (Op_add_after p n) g = list_add_after p n g"
| "conc_op h (Op_add_before p n) g = list_add_before p n g"
| "conc_op h (Op_del n) g = list_del n g"
| "conc_op h (Op_swap old n) g = list_swap old n g"

lemma insert_after_split: "p \<notin> set as \<Longrightarrow> insert_after p n (as @ p # bs) = as @ p # n # bs"
  by (induction as) auto

lemma insert_before_split: "p \<notin> set as \<Longrightarrow> insert_before p n (as @ p # bs) = as @ n # p # bs"
  by (induction as) auto

lemma conc_op_refines:
  assumes l: "is_list g h xs" and a: "abs_op h op xs = Some ys"
  shows "is_list (conc_op h op g) h ys"
proof (cases op)
  case (Op_add n) with assms is_list_add [OF l, of n] show ?thesis by (auto split: if_splits)
next
  case (Op_add_tail n) with assms is_list_add_tail [OF l, of n] show ?thesis by (auto split: if_splits)
next
  case (Op_del n) with assms is_list_del [OF l, of n] show ?thesis by (auto split: if_splits)
next
  case (Op_add_after p n)
  with a have n: "n \<notin> set (h # xs)" "p \<in> set xs" "ys = insert_after p n xs" by (auto split: if_splits)
  from split_list_first [OF n(2)] obtain as bs where xs: "xs = as @ p # bs" "p \<notin> set as" by blast
  with is_list_add_after [of g h "as @ [p]" bs n p] l n Op_add_after show ?thesis by (simp add: insert_after_split)
next
  case (Op_add_before p n)
  with a have n: "n \<notin> set (h # xs)" "p \<in> set xs" "ys = insert_before p n xs" by (auto split: if_splits)
  from split_list_first [OF n(2)] obtain as bs where xs: "xs = as @ p # bs" "p \<notin> set as" by blast
  with is_list_add_before [of g h as "p # bs" n p] l n Op_add_before show ?thesis by (simp add: insert_before_split)
next
  case (Op_swap old n)
  with a have n: "n \<notin> set (h # xs)" "old \<in> set xs" "ys = map (\<lambda>x. if x = old then n else x) xs" by (auto split: if_splits)
  from split_list_first [OF n(2)] obtain as bs where xs: "xs = as @ old # bs" "old \<notin> set as" by blast
  then have "old \<notin> set bs" using l by (auto simp: is_list_def)
  then have "ys = as @ n # bs" using xs n(3) by (auto intro: map_idI)
  with is_list_swap [of g h as old bs n] l n(1) xs Op_swap show ?thesis by simp
qed

text \<open>Pointers of nodes outside the list are not written.\<close>

lemma prev_in_list: "is_list g h xs \<Longrightarrow> p \<in> set (h # xs) \<Longrightarrow> ln_prev g p \<in> set (h # xs) \<and> ln_next g p \<in> set (h # xs)"
proof -
  assume l: "is_list g h xs" and p: "p \<in> set (h # xs)"
  show ?thesis
  proof (cases "p = h")
    case True
    have "seg g h xs h" using l by (simp add: is_list_def)
    from seg_ends [OF this] True show ?thesis by (cases xs) auto
  next
    case False
    with p obtain as bs where xs: "xs = as @ p # bs" using split_list by fastforce
    from is_list_neighbours(2) [of g h as "p # bs"] is_list_neighbours(1) [of g h "as @ [p]" bs] l xs
    have "ln_prev g p = last (h # as)" "ln_next g p = hd (bs @ [h])" by simp_all
    moreover have "last (h # as) \<in> set (h # as)" "hd (bs @ [h]) \<in> set (bs @ [h])" by (rule last_in_set, simp, rule hd_in_set, simp)
    ultimately show ?thesis using xs by auto
  qed
qed

lemma conc_op_frame:
  assumes l: "is_list g h xs" and a: "abs_op h op xs = Some ys" and b: "b \<notin> set (h # xs) \<union> set ys"
  shows "ln_next (conc_op h op g) b = ln_next g b \<and> ln_prev (conc_op h op g) b = ln_prev g b"
proof -
  have nb: "ln_prev g p \<noteq> b" "ln_next g p \<noteq> b" if "p \<in> set (h # xs)" for p using prev_in_list [OF l that] b by auto
  have ins: "n \<in> set (insert_after p n zs)" "n \<in> set (insert_before p n zs)" if "p \<in> set zs" for p n zs
    using that by (induction zs) auto
  show ?thesis
  proof (cases op)
    case (Op_swap old n)
    with a b nb [of old] show ?thesis
      by (auto simp: list_swap_def Let_def split: if_splits)
  qed (use a b nb ins in \<open>auto simp: list_add_def list_add_tail_def list_add_after_def list_add_before_def
        list_del_def Let_def split: if_splits\<close>)
qed

fun abs_run :: "addr \<Rightarrow> list_op list \<Rightarrow> addr list \<Rightarrow> addr list option" where
  "abs_run h [] xs = Some xs"
| "abs_run h (op # ops) xs = Option.bind (abs_op h op xs) (abs_run h ops)"

lemma abs_op_nodes: "abs_op h op xs = Some ys \<Longrightarrow> set ys \<subseteq> set xs \<union> (case op of Op_add n \<Rightarrow> {n} | Op_add_tail n \<Rightarrow> {n}
    | Op_add_after p n \<Rightarrow> {n} | Op_add_before p n \<Rightarrow> {n} | Op_del n \<Rightarrow> {} | Op_swap old n \<Rightarrow> {n})"
proof -
  have i: "set (insert_after p n zs) \<subseteq> insert n (set zs)" "set (insert_before p n zs) \<subseteq> insert n (set zs)" for p n zs
    by (induction zs) auto
  show "abs_op h op xs = Some ys \<Longrightarrow> ?thesis"
    by (cases op) (auto split: if_splits dest: set_remove1_subset [THEN subsetD] i [THEN subsetD])
qed

fun added :: "list_op \<Rightarrow> addr set" where
  "added (Op_add n) = {n}" | "added (Op_add_tail n) = {n}" | "added (Op_add_after p n) = {n}"
| "added (Op_add_before p n) = {n}" | "added (Op_del n) = {}" | "added (Op_swap old n) = {n}"

lemma run_refines:
  assumes "is_list g h xs" "abs_run h ops xs = Some ys"
  shows "is_list (fold (conc_op h) ops g) h ys
     \<and> (\<forall>k zs. is_list g k zs \<and> set (k # zs) \<inter> (set (h # xs) \<union> \<Union> (added ` set ops)) = {} \<longrightarrow>
          is_list (fold (conc_op h) ops g) k zs)"
  using assms
proof (induction ops arbitrary: g xs)
  case (Cons op ops)
  then obtain us where u: "abs_op h op xs = Some us" "abs_run h ops us = Some ys" by (auto split: Option.bind_splits)
  note IH = Cons.IH [OF conc_op_refines [OF Cons.prems(1) u(1)] u(2)]
  have sub: "set us \<subseteq> set xs \<union> added op" using abs_op_nodes [OF u(1)] by (cases op) auto
  have "is_list (fold (conc_op h) (op # ops) g) k zs"
    if k: "is_list g k zs" "set (k # zs) \<inter> (set (h # xs) \<union> \<Union> (added ` set (op # ops))) = {}" for k zs
  proof -
    have o: "b \<notin> set (h # xs) \<union> set us" if "b \<in> set (k # zs)" for b using that k(2) sub by auto
    have "is_list (conc_op h op g) k zs"
      by (rule is_list_frame [OF k(1) conc_op_frame [OF Cons.prems(1) u(1) o]])
    moreover have "set (k # zs) \<inter> (set (h # us) \<union> \<Union> (added ` set ops)) = {}" using k(2) sub by auto
    ultimately show ?thesis using IH by auto
  qed
  with IH show ?case by auto
qed simp

section \<open>FIFO queues\<close>

text \<open>
  The contract of the queues of the server (requests waiting for a bucket, work items, delayed
  requests): \<open>enq\<close> appends an element that \<open>fits\<close>, \<open>deq\<close> takes the first one off.
\<close>

locale fifo =
  fixes repr :: "'s \<Rightarrow> 'a list \<Rightarrow> bool"
    and fits :: "'a \<Rightarrow> 'a list \<Rightarrow> bool"
    and enq :: "'a \<Rightarrow> 's \<Rightarrow> 's"
    and deq :: "'s \<Rightarrow> 'a option \<times> 's"
  assumes enq_repr: "repr s xs \<Longrightarrow> fits x xs \<Longrightarrow> repr (enq x s) (xs @ [x])"
    and deq_empty: "repr s [] \<Longrightarrow> deq s = (None, s)"
    and deq_first: "repr s (x # xs) \<Longrightarrow> \<exists>s'. deq s = (Some x, s') \<and> repr s' xs"
begin

text \<open>A run: \<open>Some x\<close> enqueues, \<open>None\<close> dequeues; the answers to the latter are collected.\<close>

fun qrun :: "'a option list \<Rightarrow> 's \<Rightarrow> 'a list \<times> 's" where
  "qrun [] s = ([], s)"
| "qrun (Some x # ops) s = qrun ops (enq x s)"
| "qrun (None # ops) s =
     (case deq s of (None, s') \<Rightarrow> qrun ops s' | (Some y, s') \<Rightarrow> (case qrun ops s' of (ys, t) \<Rightarrow> (y # ys, t)))"

fun qfits :: "'a option list \<Rightarrow> 'a list \<Rightarrow> bool" where
  "qfits [] xs = True"
| "qfits (Some x # ops) xs = (fits x xs \<and> qfits ops (xs @ [x]))"
| "qfits (None # ops) xs = qfits ops (tl xs)"

lemma qrun_fifo:
  assumes "repr s xs" "qfits ops xs"
  shows "\<exists>out rest s'. qrun ops s = (out, s') \<and> repr s' rest \<and> out @ rest = xs @ [x. Some x \<leftarrow> ops]"
  using assms
proof (induction ops arbitrary: s xs)
  case (Cons c ops)
  show ?case
  proof (cases c)
    case (Some x)
    with Cons.prems enq_repr [of s xs x] Cons.IH [of "enq x s" "xs @ [x]"] show ?thesis by auto
  next
    case None
    show ?thesis
    proof (cases xs)
      case Nil
      with Cons.IH [of s "[]"] Cons.prems None deq_empty [of s] show ?thesis by auto
    next
      case (Cons y ys)
      with \<open>repr s xs\<close> deq_first obtain s' where s': "deq s = (Some y, s')" "repr s' ys" by blast
      with Cons.IH [of s' ys] \<open>qfits (c # ops) xs\<close> None Cons show ?thesis by fastforce
    qed
  qed
qed auto

end

interpretation lq: fifo "\<lambda>g xs. is_list g h xs" "\<lambda>n xs. n \<notin> set (h # xs)" "list_add_tail h" "list_pop h 0" for h
proof
  show "is_list (list_add_tail h x s) h (xs @ [x])" if "is_list s h xs" "x \<notin> set (h # xs)" for s xs x
    using is_list_add_tail that by blast
  show "list_pop h 0 s = (None, s)" if "is_list s h []" for s
    using list_pop_eq [OF that] by simp
  show "\<exists>s'. list_pop h 0 s = (Some x, s') \<and> is_list s' h xs" if "is_list s h (x # xs)" for s x xs
    using is_list_pop(1) [OF that, of 0] is_list_pop(2) [OF that] by simp
qed

section \<open>Properties\<close>

text \<open>
  C29: The linked lists are lists. Any sequence of additions at either end, before or after a
  node, deletions and replacements of nodes, on a list with nodes \<open>xs\<close>, leaves a well-formed
  circular list whose nodes, in the order the loop \<open>list_for_each\<close> visits them, are what the same
  operations on a HOL list give; the loop ends; and no other list in the memory is changed.
\<close>

theorem ilist_refines:
  assumes "is_list g h xs" "abs_run h ops xs = Some ys"
  shows "is_list (fold (conc_op h) ops g) h ys \<and> list_for_each h (fold (conc_op h) ops g) = Some ys
     \<and> (\<forall>k zs. is_list g k zs \<and> set (k # zs) \<inter> (set (h # xs) \<union> \<Union> (added ` set ops)) = {} \<longrightarrow>
          is_list (fold (conc_op h) ops g) k zs)"
  using run_refines [OF assms] list_for_each_eq by blast

theorem ilist_refines_witness:
  "let g = list_head_init 8 \<lparr>ln_next = (\<lambda>_. 0), ln_prev = (\<lambda>_. 0)\<rparr>
   in is_list g 8 [] \<and> list_for_each 8 (fold (conc_op 8) [Op_add 100, Op_add_tail 200, Op_add_after 100 300, Op_del 100] g) =
     Some [300, 200]"
  using ilist_refines [OF is_list_init [of 8 "\<lparr>ln_next = (\<lambda>_. 0), ln_prev = (\<lambda>_. 0)\<rparr>"],
      of "[Op_add 100, Op_add_tail 200, Op_add_after 100 300, Op_del 100]" "[300, 200]"] is_list_init
  by (simp add: Let_def)

text \<open>
  C30: The loop that unlinks nodes while it runs, as FLUSH and the expire routine do, visits every
  node once, unlinks exactly those that satisfy its condition, in order, leaves the others in a
  well-formed list, and ends.
\<close>

theorem ilist_safe_loop:
  assumes "is_list g h xs"
  shows "\<exists>g'. list_for_each_safe h (del_body P) (g, []) = Some (g', filter P xs)
     \<and> is_list g' h (filter (\<lambda>n. \<not> P n) xs)"
  by (rule for_each_safe_del [OF assms])

theorem ilist_safe_loop_witness:
  "\<exists>g g'. is_list g 8 [200] \<and> list_for_each_safe 8 (del_body (\<lambda>n. n = 200)) (g, []) = Some (g', [200]) \<and> is_list g' 8 []"
proof -
  have "is_list (list_add_tail 8 200 (list_head_init 8 \<lparr>ln_next = (\<lambda>_. 0), ln_prev = (\<lambda>_. 0)\<rparr>)) 8 [200]"
    using is_list_add_tail [OF is_list_init, of 200 8] by simp
  with ilist_safe_loop [OF this, of "\<lambda>n. n = 200"] show ?thesis by auto
qed

text \<open>
  Joining lists: \<open>list_append_list\<close> and \<open>list_prepend_list\<close> move all nodes of one list behind or
  before those of another in constant time, keep their order, and leave the first list empty.
\<close>

theorem ilist_join:
  assumes "is_list g t xs" "is_list g f ys" "set (t # xs) \<inter> set (f # ys) = {}"
  shows "is_list (list_append_list t f g) t (xs @ ys) \<and> is_list (list_append_list t f g) f []
     \<and> is_list (list_prepend_list t f g) t (ys @ xs) \<and> is_list (list_prepend_list t f g) f []"
  using is_list_append_list [OF assms] is_list_prepend_list [OF assms] by blast

theorem ilist_join_witness:
  "\<exists>g. is_list g 8 [] \<and> is_list g 16 [] \<and> is_list (list_append_list 8 16 g) 8 []"
proof -
  let ?g = "list_head_init 16 (list_head_init 8 \<lparr>ln_next = (\<lambda>_. 0), ln_prev = (\<lambda>_. 0)\<rparr>)"
  have "is_list ?g 8 []" "is_list ?g 16 []" by (simp_all add: is_list_def list_head_init_def)
  with ilist_join [OF this] show ?thesis by auto
qed

text \<open>
  A list used with \<open>list_add_tail\<close> and \<open>list_pop\<close> is a queue: over any run, what was taken out
  followed by what is still in it is what was in it followed by what was put in, in that order.
\<close>

theorem list_queue_fifo:
  assumes "is_list g h xs" "lq.qfits h ops xs"
  shows "\<exists>out rest g'. lq.qrun h ops g = (out, g') \<and> is_list g' h rest \<and> out @ rest = xs @ [x. Some x \<leftarrow> ops]"
  by (rule lq.qrun_fifo [OF assms])

theorem list_queue_fifo_witness:
  "\<exists>g out rest g'. lq.qrun 8 [Some 100, Some 200, None] g = (out, g') \<and> is_list g' 8 rest \<and> out @ rest = [100, 200]"
proof -
  have "lq.qfits 8 [Some 100, Some 200, None] []" unfolding lq.qfits.simps by simp
  from list_queue_fifo [OF is_list_init this, of "\<lparr>ln_next = (\<lambda>_. 0), ln_prev = (\<lambda>_. 0)\<rparr>"] obtain out rest g' where
    "lq.qrun 8 [Some 100, Some 200, None] (list_head_init 8 \<lparr>ln_next = (\<lambda>_. 0), ln_prev = (\<lambda>_. 0)\<rparr>) = (out, g')"
    "is_list g' 8 rest" "out @ rest = [100, 200]" by (elim exE conjE) (rule that, simp_all)
  then show ?thesis by blast
qed

end
