(* ===== verification/Rdma.thy ===== *)
theory Rdma
  imports KV_Run
begin

text \<open>
  \<open>server/rdma.c\<close>, the part every handler is built from: the state of a connection, the
  response slots, posting receives, and the split of a value transfer into RDMA work requests.

  What the adapter, the C library and the operating system decide is the record \<open>env\<close>, an
  argument of every operation. \<open>conn_sq\<close> lists everything a connection posted to its
  send queue; the adapter completes the entries in this order and \<open>conn_done\<close> counts the
  completed ones. The time stamps of a request are only reported and are left out.
\<close>

section \<open>State\<close>

record priskv_rdma_conn_cap =
  cap_max_sgl :: nat
  cap_max_key_length :: nat
  cap_max_inflight_command :: nat

record priskv_rdma_stats =
  st_ops :: nat
  st_bytes :: nat

record priskv_response =
  resp_request_id :: nat
  resp_length :: nat
  resp_status :: nat

text \<open>A registered memory region: the value blocks, or the buffer of a KEYS answer.\<close>

datatype mr = Value_mr | Keys_mr addr

text \<open>The callback of a transfer with its argument.\<close>

datatype rw_cb =
    Cb_none | Cb_get_key_end addr | Cb_set_key_end addr
  | Cb_tiering_get nat | Cb_tiering_set nat

record priskv_rdma_rw_work =
  wk_conn :: nat
  wk_request_id :: nat
  wk_req :: addr
  wk_mr :: mr
  wk_valuelen :: nat
  wk_nsgl :: nat
  wk_completed :: nat
  wk_defer_resp :: bool
  wk_cb :: rw_cb

text \<open>\<open>struct ibv_send_wr\<close> of a transfer; \<open>wr_read\<close> is \<open>IBV_WR_RDMA_READ\<close>.\<close>

record rdma_wr =
  wr_work :: nat
  wr_read :: bool
  wr_mr :: mr
  wr_local :: addr
  wr_length :: nat
  wr_remote :: nat
  wr_rkey :: nat

text \<open>A response is sent from its slot.\<close>

datatype send_wr = Wr_send nat priskv_response | Wr_rdma rdma_wr

text \<open>A client connection. \<open>rmem[REQ]\<close> is an address and a size, \<open>rmem[RESP]\<close> its
  array of slots, \<open>rmem[KEYS]\<close> is there while a KEYS command is in flight.\<close>

record priskv_rdma_conn =
  conn_cap :: priskv_rdma_conn_cap
  conn_closing :: bool
  conn_stats :: "priskv_rdma_stats list"
  conn_resps :: nat
  req_rmem :: "addr \<times> nat"
  resp_rmem :: "priskv_response list"
  keys_rmem :: "(addr \<times> bytes) option"
  conn_sq :: "send_wr list"
  conn_done :: nat
  conn_rq :: "addr list"

text \<open>\<open>priskv_tiering_req\<close> (kv.h).\<close>

datatype priskv_backend_status =
    PRISKV_BACKEND_STATUS_OK | PRISKV_BACKEND_STATUS_ERROR | PRISKV_BACKEND_STATUS_NOT_FOUND
  | PRISKV_BACKEND_STATUS_VALUE_TOO_BIG | PRISKV_BACKEND_STATUS_TIMEOUT | PRISKV_BACKEND_STATUS_NO_SPACE

record priskv_tiering_req =
  tq_conn :: nat
  tq_backend :: bool
  tq_req :: addr
  tq_rq :: priskv_request
  tq_request_id :: nat
  tq_key :: bytes
  tq_value :: addr
  tq_valuelen :: nat
  tq_remote_valuelen :: nat
  tq_keynode :: "addr option"
  tq_timeout :: nat
  tq_cmd :: priskv_req_command
  tq_execute :: bool
  tq_hash_head_index :: nat
  tq_backend_status :: priskv_backend_status
  tq_recv_reposted :: bool
  tq_rdma_work :: "nat option"

text \<open>An operation handed to the backend device, with the tiering request it calls back.\<close>

datatype backend_op =
    Backend_get nat bytes addr nat | Backend_set nat bytes addr nat nat
  | Backend_test nat bytes | Backend_del nat bytes

text \<open>The server: the store, the connections, the allocated works and tiering requests, the
  operations the backend has not answered and the requests given back to their thread.\<close>

record server =
  sv_kv :: priskv_kv
  sv_conns :: "nat \<Rightarrow> priskv_rdma_conn"
  sv_works :: "nat \<rightharpoonup> priskv_rdma_rw_work"
  sv_next_work :: nat
  sv_treqs :: "nat \<rightharpoonup> priskv_tiering_req"
  sv_next_treq :: nat
  sv_backend_ops :: "backend_op list"
  sv_resumed :: "nat list"

text \<open>
  The environment of one event: the time of day, the regular expressions, the results of
  \<open>ibv_post_send\<close> and \<open>ibv_post_recv\<close> on what is posted so far, \<open>errno\<close> after a
  failed call, whether \<open>calloc\<close>, \<open>malloc\<close> and \<open>ibv_reg_mr\<close> succeed, the address
  \<open>priskv_mem_malloc\<close> maps, and whether tiering is enabled and the thread has a backend device.
\<close>

record env =
  e_now :: timeval
  e_regcomp :: regcomp
  e_post_send :: "send_wr list \<Rightarrow> send_wr \<Rightarrow> int"
  e_post_recv :: "addr list \<Rightarrow> addr \<Rightarrow> int"
  e_errno :: int
  e_calloc :: bool
  e_malloc :: bool
  e_mem_malloc :: "nat \<Rightarrow> addr option"
  e_reg_mr :: bool
  e_tiering :: bool
  e_backend :: bool

definition upd_conn :: "nat \<Rightarrow> (priskv_rdma_conn \<Rightarrow> priskv_rdma_conn) \<Rightarrow> server \<Rightarrow> server" where
  "upd_conn c f sv = sv\<lparr>sv_conns := (sv_conns sv)(c := f (sv_conns sv c))\<rparr>"

definition upd_work :: "nat \<Rightarrow> (priskv_rdma_rw_work \<Rightarrow> priskv_rdma_rw_work) \<Rightarrow> server \<Rightarrow> server" where
  "upd_work w f sv = sv\<lparr>sv_works := (sv_works sv)(w := map_option f (sv_works sv w))\<rparr>"

definition EPROTO :: int where
  "EPROTO = 71"

definition ENOMEM :: int where
  "ENOMEM = 12"

section \<open>Buffers and response slots\<close>

text \<open>\<open>priskv_rdma_mem_new\<close> and \<open>priskv_rdma_mem_free\<close> of the KEYS buffer.\<close>

definition priskv_rdma_mem_new :: "env \<Rightarrow> nat \<Rightarrow> int \<times> (addr \<times> bytes) option" where
  "priskv_rdma_mem_new env bytes =
     (case e_mem_malloc env bytes of
        None \<Rightarrow> (- ENOMEM, None)
      | Some buf \<Rightarrow> if e_reg_mr env then (0, Some (buf, replicate bytes 0)) else (- e_errno env, None))"

definition priskv_rdma_mem_free :: "nat \<Rightarrow> server \<Rightarrow> server" where
  "priskv_rdma_mem_free c = upd_conn c (\<lambda>conn. conn\<lparr>keys_rmem := None\<rparr>)"

definition priskv_request_size_aligend :: "priskv_rdma_conn \<Rightarrow> nat" where
  "priskv_request_size_aligend conn =
     (let s = priskv_request_size (cap_max_sgl (conn_cap conn)) (cap_max_key_length (conn_cap conn))
      in unat (ALIGN_UP (of_nat s :: u32) 64))"

definition PRISKV_RDMA_RESPONSE_FREE_STATUS :: nat where
  "PRISKV_RDMA_RESPONSE_FREE_STATUS = 0xffff"

definition priskv_rdma_response_free :: "priskv_response \<Rightarrow> int \<times> priskv_response" where
  "priskv_rdma_response_free resp =
     (if resp_status resp = PRISKV_RDMA_RESPONSE_FREE_STATUS then (- EPROTO, resp)
      else (0, resp\<lparr>resp_status := PRISKV_RDMA_RESPONSE_FREE_STATUS\<rparr>))"

definition priskv_rdma_wr_size :: "priskv_rdma_conn \<Rightarrow> nat" where
  "priskv_rdma_wr_size conn =
     u32n (cap_max_inflight_command (conn_cap conn) * (2 + cap_max_sgl (conn_cap conn)))"

text \<open>The loop of \<open>priskv_rdma_unused_response\<close>. Its 16-bit index wraps after 65535, and
  then the loop never ends.\<close>

function scan_responses :: "priskv_response list \<Rightarrow> nat \<Rightarrow> nat \<Rightarrow> nat option option" where
  "scan_responses resps wr_size i =
     (if wr_size \<le> i then Some None
      else if length resps \<le> i then None
      else if resp_status (resps ! i) = PRISKV_RDMA_RESPONSE_FREE_STATUS then Some (Some i)
      else if i = 65535 then None
      else scan_responses resps wr_size (i + 1))"
  by pat_completeness auto
termination by (relation "measure (\<lambda>(_, wr_size, i). wr_size - i)") auto

declare scan_responses.simps [simp del]

definition priskv_rdma_unused_response ::
  "priskv_rdma_conn \<Rightarrow> (nat option \<times> priskv_rdma_conn) option"
where
  "priskv_rdma_unused_response conn = do {
     found \<leftarrow> scan_responses (resp_rmem conn) (priskv_rdma_wr_size conn) 0;
     Some (case found of
         None \<Rightarrow> (None, conn)
       | Some i \<Rightarrow> (Some i, conn\<lparr>resp_rmem := (resp_rmem conn)[i := (resp_rmem conn ! i)
             \<lparr>resp_status := status_code PRISKV_RESP_STATUS_OK\<rparr>]\<rparr>))
   }"

definition priskv_rdma_send_response ::
  "env \<Rightarrow> nat \<Rightarrow> nat \<Rightarrow> priskv_resp_status \<Rightarrow> nat \<Rightarrow> server \<Rightarrow> (int \<times> server) option"
where
  "priskv_rdma_send_response env c request_id status len sv = do {
     (slot, conn) \<leftarrow> priskv_rdma_unused_response (sv_conns sv c);
     case slot of
       None \<Rightarrow> Some (- EPROTO, sv)
     | Some i \<Rightarrow>
         let resp = \<lparr>resp_request_id = request_id, resp_length = len, resp_status = status_code status\<rparr>;
             conn1 = conn\<lparr>resp_rmem := (resp_rmem conn)[i := resp]\<rparr>;
             ret = e_post_send env (conn_sq conn1) (Wr_send i resp)
         in Some (ret, upd_conn c (\<lambda>_. if ret \<noteq> 0 then conn1
              else conn1\<lparr>conn_sq := conn_sq conn1 @ [Wr_send i resp],
                         conn_resps := u64n (conn_resps conn1 + 1)\<rparr>) sv)
   }"

text \<open>\<open>priskv_rdma_recv_req\<close>: the assertion keeps the buffer inside \<open>rmem[REQ]\<close>.\<close>

definition priskv_rdma_recv_req :: "env \<Rightarrow> nat \<Rightarrow> addr \<Rightarrow> server \<Rightarrow> (int \<times> server) option" where
  "priskv_rdma_recv_req env c req sv =
     (let conn = sv_conns sv c; (buf, buf_size) = req_rmem conn
      in if \<not> (buf \<le> req \<and> req < buf + buf_size) then None
         else if e_post_recv env (conn_rq conn) req \<noteq> 0 then Some (- e_errno env, sv)
         else Some (int (u16n (priskv_request_size_aligend conn)),
                upd_conn c (\<lambda>conn. conn\<lparr>conn_rq := conn_rq conn @ [req]\<rparr>) sv))"

section \<open>Transfers\<close>

definition priskv_rdma_max_rw_size :: nat where
  "priskv_rdma_max_rw_size = 1024 * 1024 * 1024"

text \<open>
  The work requests of \<open>priskv_rdma_rw_req\<close>, which do not depend on what is posted:
  the \<open>do ... while\<close> loop over one entry of the SGL, which keeps
  \<open>sgl_offset \<le> sgl_length\<close>, and the loop over the entries.
\<close>

function sgl_wrs :: "nat \<Rightarrow> bool \<Rightarrow> mr \<Rightarrow> addr \<Rightarrow> nat \<Rightarrow> nat \<Rightarrow> priskv_keyed_sgl \<Rightarrow> nat \<Rightarrow> rdma_wr list" where
  "sgl_wrs w is_set mr val offset valuelen sgl sgl_offset =
     (let len = priskv_min_u32 (priskv_min_u32 (sgl_length sgl - sgl_offset) valuelen) priskv_rdma_max_rw_size
      in \<lparr>wr_work = w, wr_read = is_set, wr_mr = mr, wr_local = u64n (val + offset + sgl_offset), wr_length = len,
          wr_remote = u64n (sgl_addr sgl + sgl_offset), wr_rkey = sgl_key sgl\<rparr>
         # (if sgl_offset + len < priskv_min_u32 (sgl_length sgl) valuelen
            then sgl_wrs w is_set mr val offset valuelen sgl (sgl_offset + len) else []))"
  by pat_completeness auto
termination
  by (relation "measure (\<lambda>(_, _, _, _, _, valuelen, sgl, sgl_offset). min (sgl_length sgl) valuelen - sgl_offset)")
     (auto simp: priskv_min_u32_def priskv_rdma_max_rw_size_def split: if_splits)

declare sgl_wrs.simps [simp del]

fun rw_wrs :: "nat \<Rightarrow> bool \<Rightarrow> mr \<Rightarrow> addr \<Rightarrow> nat \<Rightarrow> nat \<Rightarrow> priskv_keyed_sgl list \<Rightarrow> rdma_wr list" where
  "rw_wrs w is_set mr val offset valuelen [] = []"
| "rw_wrs w is_set mr val offset valuelen (sgl # sgls) =
     sgl_wrs w is_set mr val offset valuelen sgl 0
     @ rw_wrs w is_set mr val (u32n (offset + sgl_length sgl)) (u32_sub valuelen (sgl_length sgl)) sgls"

text \<open>Posting stops at the first request that is refused; each posted one counts in
  \<open>work->nsgl\<close>.\<close>

fun post_wrs :: "env \<Rightarrow> nat \<Rightarrow> nat \<Rightarrow> rdma_wr list \<Rightarrow> server \<Rightarrow> bool \<times> server" where
  "post_wrs env c w [] sv = (True, sv)"
| "post_wrs env c w (r # rs) sv =
     (if e_post_send env (conn_sq (sv_conns sv c)) (Wr_rdma r) \<noteq> 0 then (False, sv)
      else post_wrs env c w rs
        (upd_work w (\<lambda>work. work\<lparr>wk_nsgl := u16n (wk_nsgl work + 1)\<rparr>)
        (upd_conn c (\<lambda>conn. conn\<lparr>conn_sq := conn_sq conn @ [Wr_rdma r]\<rparr>) sv)))"

definition priskv_rdma_rw_req ::
  "env \<Rightarrow> nat \<Rightarrow> addr \<Rightarrow> priskv_request \<Rightarrow> mr \<Rightarrow> addr \<Rightarrow> nat \<Rightarrow> bool \<Rightarrow> rw_cb \<Rightarrow> bool \<Rightarrow> server
     \<Rightarrow> int \<times> nat option \<times> server"
where
  "priskv_rdma_rw_req env c req rq mr val valuelen is_set cb defer_resp sv =
     (if \<not> e_calloc env then (- ENOMEM, None, sv)
      else
        let w = sv_next_work sv;
            work = \<lparr>wk_conn = c, wk_request_id = rq_request_id rq, wk_req = req, wk_mr = mr,
                    wk_valuelen = valuelen, wk_nsgl = 0, wk_completed = 0, wk_defer_resp = defer_resp,
                    wk_cb = cb\<rparr>;
            (ok, sv1) = post_wrs env c w (rw_wrs w is_set mr val 0 valuelen (rq_sgls rq))
              (sv\<lparr>sv_works := (sv_works sv)(w \<mapsto> work), sv_next_work := w + 1\<rparr>)
        in if ok then (0, Some w, sv1)
           else (- e_errno env, None, sv1\<lparr>sv_works := (sv_works sv1)(w := None)\<rparr>))"

text \<open>\<open>priskv_rdma_complete_rw_work\<close>: the response, the KEYS buffer and the work. A work
  that is not allocated any more is a use after free.\<close>

definition priskv_rdma_complete_rw_work ::
  "env \<Rightarrow> nat \<Rightarrow> priskv_resp_status \<Rightarrow> nat \<Rightarrow> server \<Rightarrow> (int \<times> server) option"
where
  "priskv_rdma_complete_rw_work env w status len sv = do {
     work \<leftarrow> sv_works sv w;
     (ret, sv1) \<leftarrow> priskv_rdma_send_response env (wk_conn work) (wk_request_id work) status len sv;
     sv2 \<leftarrow> (case wk_mr work of
          Value_mr \<Rightarrow> Some sv1
        | Keys_mr a \<Rightarrow>
            if map_option fst (keys_rmem (sv_conns sv1 (wk_conn work))) = Some a
            then Some (priskv_rdma_mem_free (wk_conn work) sv1) else None);
     Some (ret, sv2\<lparr>sv_works := (sv_works sv2)(w := None)\<rparr>)
   }"

section \<open>What a transfer touches\<close>

text \<open>The requests walk from one local address to another without a gap.\<close>

fun contiguous :: "addr \<Rightarrow> rdma_wr list \<Rightarrow> addr \<Rightarrow> bool" where
  "contiguous a [] b = (a = b)"
| "contiguous a (r # rs) b = (wr_local r = a \<and> contiguous (a + wr_length r) rs b)"

lemma contiguous_append: "contiguous a rs b \<Longrightarrow> contiguous b rs' d \<Longrightarrow> contiguous a (rs @ rs') d"
  by (induction rs arbitrary: a) auto

lemma contiguous_bounds: "contiguous a rs b \<Longrightarrow> a \<le> b \<and> (\<forall>r \<in> set rs. a \<le> wr_local r \<and> wr_local r + wr_length r \<le> b)"
proof (induction rs arbitrary: a)
  case (Cons r rs)
  from Cons.prems have r: "wr_local r = a" "contiguous (a + wr_length r) rs b" by simp_all
  from Cons.IH [OF r(2)] show ?case unfolding set_simps ball_simps(7) r(1) by (force dest: bspec)
qed simp

lemma contiguous_sum: "contiguous a rs b \<Longrightarrow> a + sum_list (map wr_length rs) = b"
  by (induction rs arbitrary: a) (fastforce simp: add.assoc)+

lemmas rw_len_simps = priskv_min_u32_def priskv_rdma_max_rw_size_def

text \<open>An entry that does not exceed what is left of the value is covered exactly.\<close>

lemma sgl_wrs_exact:
  assumes "sgl_length sgl \<le> valuelen" "off \<le> sgl_length sgl" "val + offset + sgl_length sgl < 2 ^ 64"
    "off = sgl_length sgl \<longrightarrow> off = 0"
  shows "contiguous (val + offset + off) (sgl_wrs w is_set mr val offset valuelen sgl off) (val + offset + sgl_length sgl)"
  using assms
proof (induction w is_set mr val offset valuelen sgl off rule: sgl_wrs.induct)
  case (1 w is_set mr val offset valuelen sgl off)
  define len where "len = priskv_min_u32 (priskv_min_u32 (sgl_length sgl - off) valuelen) priskv_rdma_max_rw_size"
  have len: "len = min (sgl_length sgl - off) priskv_rdma_max_rw_size"
    using 1(2) unfolding len_def by (auto simp: rw_len_simps min_def)
  have m: "priskv_min_u32 (sgl_length sgl) valuelen = sgl_length sgl" using 1(2) by (auto simp: rw_len_simps)
  have eq: "sgl_wrs w is_set mr val offset valuelen sgl off =
      \<lparr>wr_work = w, wr_read = is_set, wr_mr = mr, wr_local = u64n (val + offset + off), wr_length = len,
       wr_remote = u64n (sgl_addr sgl + off), wr_rkey = sgl_key sgl\<rparr>
      # (if off + len < sgl_length sgl then sgl_wrs w is_set mr val offset valuelen sgl (off + len) else [])"
    by (subst sgl_wrs.simps) (simp only: Let_def len_def m)
  have u: "u64n (val + offset + off) = val + offset + off" using 1(3,4) by (simp add: wrap_simps)
  show ?case
  proof (cases "off + len < sgl_length sgl")
    case True
    with 1(1) [OF len_def] 1(2-5) m have "contiguous (val + offset + (off + len))
        (sgl_wrs w is_set mr val offset valuelen sgl (off + len)) (val + offset + sgl_length sgl)" by simp
    with True show ?thesis unfolding eq by (simp add: u) (simp add: add.assoc)
  next
    case False
    with len 1(3) have "off + len = sgl_length sgl" by (simp add: min_def split: if_splits)
    with False show ?thesis unfolding eq by (simp add: u)
  qed
qed

text \<open>An entry with more room than what is left, at most one work request's worth.\<close>

lemma sgl_wrs_short:
  assumes "valuelen \<le> sgl_length sgl" "valuelen \<le> priskv_rdma_max_rw_size" "val + offset < 2 ^ 64"
  shows "contiguous (val + offset) (sgl_wrs w is_set mr val offset valuelen sgl 0) (val + offset + valuelen)"
  using assms by (subst sgl_wrs.simps) (simp add: Let_def rw_len_simps wrap_simps)

text \<open>
  An SGL that fits a value: the entries before the last one do not exceed the value, the
  last one reaches its end, and has its length unless one request carries the rest.
\<close>

fun sgls_fit :: "nat \<Rightarrow> priskv_keyed_sgl list \<Rightarrow> bool" where
  "sgls_fit valuelen [] = (valuelen = 0)"
| "sgls_fit valuelen [sgl] = (valuelen = sgl_length sgl
     \<or> valuelen < sgl_length sgl \<and> valuelen \<le> priskv_rdma_max_rw_size)"
| "sgls_fit valuelen (sgl # sgls) = (sgl_length sgl \<le> valuelen \<and> sgls_fit (valuelen - sgl_length sgl) sgls)"

lemma rw_wrs_contiguous:
  assumes "sgls_fit valuelen sgls" "offset + valuelen < 2 ^ 32" "val + offset + valuelen < 2 ^ 64"
  shows "contiguous (val + offset) (rw_wrs w is_set mr val offset valuelen sgls) (val + offset + valuelen)"
  using assms
proof (induction valuelen sgls arbitrary: offset rule: sgls_fit.induct)
  case (2 valuelen sgl)
  then show ?case using sgl_wrs_exact [of sgl valuelen 0 val offset w is_set mr]
    sgl_wrs_short [of valuelen sgl val offset w is_set mr] by auto
next
  case (3 valuelen sgl sgl' sgls)
  let ?L = "sgl_length sgl"
  have fit: "?L \<le> valuelen" "sgls_fit (valuelen - ?L) (sgl' # sgls)" using 3(2) by simp_all
  have o: "u32n (offset + ?L) = offset + ?L" "u32_sub valuelen ?L = valuelen - ?L"
    using fit 3(3) by (simp_all add: wrap_simps)
  have "contiguous (val + (offset + ?L)) (rw_wrs w is_set mr val (offset + ?L) (valuelen - ?L) (sgl' # sgls))
      (val + (offset + ?L) + (valuelen - ?L))" using fit 3(3,4) by (intro 3(1)) simp_all
  moreover have "contiguous (val + offset) (sgl_wrs w is_set mr val offset valuelen sgl 0) (val + offset + ?L)"
    using sgl_wrs_exact [of sgl valuelen 0 val offset w is_set mr] fit 3(4) by simp
  ultimately show ?case using fit contiguous_append
    by (subst rw_wrs.simps(2)) (simp only: o, simp add: add.assoc contiguous_append)
qed simp

text \<open>An SGL whose lengths add up to the value fits it.\<close>

lemma sgls_fit_sum: "sgls_fit (sum_list (map sgl_length sgls)) sgls"
proof (induction sgls)
  case (Cons sgl sgls) then show ?case by (cases sgls) auto
qed simp

lemma sgl_size_no_wrap:
  assumes "sum_list (map sgl_length sgls) < 2 ^ 32"
  shows "priskv_sgl_size_from_be sgls = sum_list (map sgl_length sgls)"
proof -
  have "foldl (\<lambda>n sgl. u32n (n + sgl_length sgl)) k sgls = k + sum_list (map sgl_length sgls)"
    if "k + sum_list (map sgl_length sgls) < 2 ^ 32" for k
    using that by (induction sgls arbitrary: k) (simp_all add: wrap_simps add.assoc)
  from this [of 0] assms show ?thesis by (simp add: priskv_sgl_size_from_be_def)
qed

text \<open>Whatever the lengths are, a work request stays inside one entry of the client.\<close>

definition inside_sgl :: "priskv_keyed_sgl \<Rightarrow> rdma_wr \<Rightarrow> bool" where
  "inside_sgl sgl r \<longleftrightarrow> wr_rkey r = sgl_key sgl
     \<and> (\<exists>off. wr_remote r = u64n (sgl_addr sgl + off) \<and> off + wr_length r \<le> sgl_length sgl)"

lemma sgl_wrs_inside:
  assumes "off \<le> sgl_length sgl" "r \<in> set (sgl_wrs w is_set mr val offset valuelen sgl off)"
  shows "inside_sgl sgl r \<and> wr_length r \<le> priskv_rdma_max_rw_size \<and> wr_work r = w \<and> wr_mr r = mr \<and> wr_read r = is_set"
  using assms
proof (induction w is_set mr val offset valuelen sgl off rule: sgl_wrs.induct)
  case (1 w is_set mr val offset valuelen sgl off)
  define len where "len = priskv_min_u32 (priskv_min_u32 (sgl_length sgl - off) valuelen) priskv_rdma_max_rw_size"
  have len: "len \<le> sgl_length sgl - off" "len \<le> priskv_rdma_max_rw_size" unfolding len_def by (auto simp: rw_len_simps)
  let ?r = "\<lparr>wr_work = w, wr_read = is_set, wr_mr = mr, wr_local = u64n (val + offset + off), wr_length = len,
       wr_remote = u64n (sgl_addr sgl + off), wr_rkey = sgl_key sgl\<rparr>"
  have eq: "sgl_wrs w is_set mr val offset valuelen sgl off = ?r
      # (if off + len < priskv_min_u32 (sgl_length sgl) valuelen then sgl_wrs w is_set mr val offset valuelen sgl (off + len) else [])"
    by (subst sgl_wrs.simps) (simp only: Let_def len_def)
  from 1(3) consider "r = ?r" | "off + len < priskv_min_u32 (sgl_length sgl) valuelen"
      "r \<in> set (sgl_wrs w is_set mr val offset valuelen sgl (off + len))" unfolding eq by (auto split: if_splits)
  then show ?case
  proof cases
    case 1
    have "inside_sgl sgl ?r" using len(1) 1(1) \<open>off \<le> sgl_length sgl\<close> unfolding inside_sgl_def by (auto intro!: exI [of _ off])
    with 1 len(2) show ?thesis by simp
  next
    case 2
    with "1.IH" [OF len_def] len(1) \<open>off \<le> sgl_length sgl\<close> show ?thesis by simp
  qed
qed

lemma rw_wrs_inside:
  assumes "r \<in> set (rw_wrs w is_set mr val offset valuelen sgls)"
  shows "(\<exists>sgl \<in> set sgls. inside_sgl sgl r) \<and> wr_length r \<le> priskv_rdma_max_rw_size
     \<and> wr_work r = w \<and> wr_mr r = mr \<and> wr_read r = is_set"
  using assms
proof (induction sgls arbitrary: offset valuelen)
  case (Cons sgl sgls)
  then show ?case using sgl_wrs_inside [of 0 sgl r w is_set mr val offset valuelen] by auto
qed simp

text \<open>At most four requests for an entry of 32-bit length, at least one.\<close>

lemma sgl_wrs_count:
  assumes "off \<le> sgl_length sgl"
  shows "length (sgl_wrs w is_set mr val offset valuelen sgl off) \<le> 1 + (sgl_length sgl - off) div priskv_rdma_max_rw_size"
  using assms
proof (induction w is_set mr val offset valuelen sgl off rule: sgl_wrs.induct)
  case (1 w is_set mr val offset valuelen sgl off)
  define len where "len = priskv_min_u32 (priskv_min_u32 (sgl_length sgl - off) valuelen) priskv_rdma_max_rw_size"
  have eq: "length (sgl_wrs w is_set mr val offset valuelen sgl off) = 1 +
      (if off + len < priskv_min_u32 (sgl_length sgl) valuelen then length (sgl_wrs w is_set mr val offset valuelen sgl (off + len)) else 0)"
    by (subst sgl_wrs.simps) (simp add: Let_def len_def)
  show ?case
  proof (cases "off + len < priskv_min_u32 (sgl_length sgl) valuelen")
    case True
    then have full: "len = priskv_rdma_max_rw_size" and le: "off + len \<le> sgl_length sgl"
      unfolding len_def by (auto simp: rw_len_simps split: if_splits)
    from True 1(1) [OF len_def] le have "length (sgl_wrs w is_set mr val offset valuelen sgl (off + len))
        \<le> 1 + (sgl_length sgl - (off + len)) div priskv_rdma_max_rw_size" by simp
    moreover have "(sgl_length sgl - off) div priskv_rdma_max_rw_size =
        1 + (sgl_length sgl - (off + len)) div priskv_rdma_max_rw_size"
      using le full by (subst le_div_geq) (simp_all add: priskv_rdma_max_rw_size_def)
    ultimately show ?thesis using True unfolding eq by simp
  qed (simp add: eq)
qed

lemma sgl_wrs_nonempty [simp]: "sgl_wrs w is_set mr val offset valuelen sgl off \<noteq> []"
  by (subst sgl_wrs.simps) (simp add: Let_def)

lemma rw_wrs_count:
  assumes "\<forall>sgl \<in> set sgls. sgl_length sgl < 2 ^ 32"
  shows "length sgls \<le> length (rw_wrs w is_set mr val offset valuelen sgls)
     \<and> length (rw_wrs w is_set mr val offset valuelen sgls) \<le> 4 * length sgls"
  using assms
proof (induction sgls arbitrary: offset valuelen)
  case (Cons sgl sgls)
  let ?xs = "sgl_wrs w is_set mr val offset valuelen sgl 0"
  have "sgl_length sgl div priskv_rdma_max_rw_size \<le> 3" 
    using Cons.prems less_mult_imp_div_less [of "sgl_length sgl" 4 priskv_rdma_max_rw_size]
    by (simp add: priskv_rdma_max_rw_size_def)
  with sgl_wrs_count [of 0 sgl w is_set mr val offset valuelen] have "length ?xs \<le> 4" by simp
  moreover obtain n where "length ?xs = Suc n" by (cases ?xs) auto
  ultimately show ?case using Cons.IH [of "u32n (offset + sgl_length sgl)" "u32_sub valuelen (sgl_length sgl)"] Cons.prems
    by simp
qed simp

end
