(* ===== verification/Tiering.thy ===== *)
theory Tiering
  imports Rdma
begin

text \<open>
  Tiering: requests that go to a backend device. \<open>server/kv.c\<close> lets one request at a time
  into each hash bucket and queues the others; \<open>server/rdma.c\<close> runs GET, SET, TEST and DELETE
  between the store, the backend and the client. A call to the backend is recorded in
  \<open>sv_backend_ops\<close>, and its callback is a later step; a request given back to its thread is in
  \<open>sv_resumed\<close> until the thread runs it.
\<close>

section \<open>One request per bucket\<close>

definition upd_treq :: "nat \<Rightarrow> (priskv_tiering_req \<Rightarrow> priskv_tiering_req) \<Rightarrow> server \<Rightarrow> server" where
  "upd_treq t f sv = sv\<lparr>sv_treqs := (sv_treqs sv)(t := map_option f (sv_treqs sv t))\<rparr>"

definition upd_wait_head ::
  "nat \<Rightarrow> (priskv_tiering_wait_head \<Rightarrow> priskv_tiering_wait_head) \<Rightarrow> server \<Rightarrow> server"
where
  "upd_wait_head i f sv =
     (let kv = sv_kv sv; heads = tiering_wait_heads kv
      in sv\<lparr>sv_kv := kv\<lparr>tiering_wait_heads := heads[i := f (heads ! i)]\<rparr>\<rparr>)"

definition priskv_resume_tiering_req :: "nat \<Rightarrow> server \<Rightarrow> server" where
  "priskv_resume_tiering_req t sv = sv\<lparr>sv_resumed := sv_resumed sv @ [t]\<rparr>"

definition priskv_key_serialize_enter :: "nat \<Rightarrow> server \<Rightarrow> (bool \<times> server) option" where
  "priskv_key_serialize_enter t sv = do {
     treq \<leftarrow> sv_treqs sv t;
     let i = tq_hash_head_index treq;
     if length (tiering_wait_heads (sv_kv sv)) \<le> i then None
     else if has_inflight_req (tiering_wait_heads (sv_kv sv) ! i)
     then Some (False, upd_wait_head i (\<lambda>h. h\<lparr>pending_reqs := pending_reqs h @ [t]\<rparr>) sv)
     else Some (True, upd_wait_head i (\<lambda>h. h\<lparr>has_inflight_req := True\<rparr>) sv)
   }"

definition priskv_key_serialize_exit :: "nat \<Rightarrow> server \<Rightarrow> server option" where
  "priskv_key_serialize_exit t sv = do {
     treq \<leftarrow> sv_treqs sv t;
     let i = tq_hash_head_index treq;
     if length (tiering_wait_heads (sv_kv sv)) \<le> i then None
     else case pending_reqs (tiering_wait_heads (sv_kv sv) ! i) of
         [] \<Rightarrow> Some (upd_wait_head i (\<lambda>h. h\<lparr>has_inflight_req := False\<rparr>) sv)
       | t' # ts \<Rightarrow> do {
           _ \<leftarrow> sv_treqs sv t';
           Some (priskv_resume_tiering_req t' (upd_treq t' (\<lambda>treq. treq\<lparr>tq_execute := True\<rparr>)
             (upd_wait_head i (\<lambda>h. h\<lparr>pending_reqs := ts\<rparr>) sv)))
         }
   }"

section \<open>Requests\<close>

text \<open>Counting a command; an index outside \<open>stats\<close> is an access out of bounds.\<close>

definition count_op :: "nat \<Rightarrow> nat \<Rightarrow> nat \<Rightarrow> server \<Rightarrow> server option" where
  "count_op c command bytes sv =
     (let stats = conn_stats (sv_conns sv c)
      in if length stats \<le> command then None
         else Some (upd_conn c (\<lambda>conn. conn\<lparr>conn_stats := stats[command :=
           \<lparr>st_ops = u64n (st_ops (stats ! command) + 1),
            st_bytes = u64n (st_bytes (stats ! command) + bytes)\<rparr>]\<rparr>) sv))"

definition upd_kv :: "priskv_kv \<Rightarrow> server \<Rightarrow> server" where
  "upd_kv kv sv = sv\<lparr>sv_kv := kv\<rparr>"

definition priskv_tiering_req_repost_recv :: "env \<Rightarrow> nat \<Rightarrow> server \<Rightarrow> server option" where
  "priskv_tiering_req_repost_recv env t sv = do {
     treq \<leftarrow> sv_treqs sv t;
     if tq_recv_reposted treq then Some sv
     else do {
       (_, sv1) \<leftarrow> priskv_rdma_recv_req env (tq_conn treq) (tq_req treq) sv;
       Some (upd_treq t (\<lambda>treq. treq\<lparr>tq_recv_reposted := True\<rparr>) sv1)
     }
   }"

definition priskv_tiering_req_free :: "nat \<Rightarrow> server \<Rightarrow> server" where
  "priskv_tiering_req_free t sv = sv\<lparr>sv_treqs := (sv_treqs sv)(t := None)\<rparr>"

text \<open>The new request or the status of the failure. When \<open>calloc\<close> fails the error path reads
  \<open>treq->key\<close> through the null pointer.\<close>

definition priskv_tiering_req_new ::
  "env \<Rightarrow> nat \<Rightarrow> addr \<Rightarrow> priskv_request \<Rightarrow> nat \<Rightarrow> priskv_req_command \<Rightarrow> nat \<Rightarrow> server
     \<Rightarrow> (nat option \<times> priskv_resp_status \<times> server) option"
where
  "priskv_tiering_req_new env c req rq timeout cmd remote_valuelen sv =
     (if \<not> e_calloc env then None
      else if \<not> e_backend env then Some (None, PRISKV_RESP_STATUS_SERVER_ERROR, sv)
      else if \<not> e_malloc env then Some (None, PRISKV_RESP_STATUS_NO_MEM, sv)
      else if bucket_count (sv_kv sv) = 0 then None
      else
        let t = sv_next_treq sv;
            treq = \<lparr>tq_conn = c, tq_backend = True, tq_req = req, tq_rq = rq,
                    tq_request_id = rq_request_id rq, tq_key = rq_key rq, tq_value = 0, tq_valuelen = 0,
                    tq_remote_valuelen = remote_valuelen, tq_keynode = None, tq_timeout = timeout,
                    tq_cmd = cmd, tq_execute = False,
                    tq_hash_head_index = hash_index (sv_kv sv) (rq_key rq),
                    tq_backend_status = PRISKV_BACKEND_STATUS_ERROR, tq_recv_reposted = False,
                    tq_rdma_work = None\<rparr>
        in Some (Some t, PRISKV_RESP_STATUS_OK,
             sv\<lparr>sv_treqs := (sv_treqs sv)(t \<mapsto> treq), sv_next_treq := t + 1\<rparr>))"

text \<open>\<open>if (treq->execute) { exit; execute = false; }\<close>\<close>

definition leave_bucket :: "nat \<Rightarrow> server \<Rightarrow> server option" where
  "leave_bucket t sv = do {
     treq \<leftarrow> sv_treqs sv t;
     if tq_execute treq then do {
       sv1 \<leftarrow> priskv_key_serialize_exit t sv;
       Some (upd_treq t (\<lambda>treq. treq\<lparr>tq_execute := False\<rparr>) sv1)
     }
     else Some sv
   }"

definition priskv_tiering_finish ::
  "env \<Rightarrow> nat \<Rightarrow> priskv_resp_status \<Rightarrow> nat \<Rightarrow> server \<Rightarrow> server option"
where
  "priskv_tiering_finish env t status len sv = do {
     treq \<leftarrow> sv_treqs sv t;
     sv1 \<leftarrow> leave_bucket t sv;
     sv2 \<leftarrow> count_op (tq_conn treq) (command_code (tq_cmd treq))
       (if tq_cmd treq \<in> {PRISKV_COMMAND_TEST, PRISKV_COMMAND_GET} \<and> status = PRISKV_RESP_STATUS_OK
        then len else 0) sv1;
     sv3 \<leftarrow> priskv_tiering_req_repost_recv env t sv2;
     (_, sv4) \<leftarrow> (case tq_rdma_work treq of
          Some w \<Rightarrow> priskv_rdma_complete_rw_work env w status len sv3
        | None \<Rightarrow> priskv_rdma_send_response env (tq_conn treq) (tq_request_id treq) status len sv3);
     Some (priskv_tiering_req_free t sv4)
   }"

section \<open>GET\<close>

definition priskv_tiering_get_rdma_complete_cb :: "env \<Rightarrow> nat \<Rightarrow> server \<Rightarrow> server option" where
  "priskv_tiering_get_rdma_complete_cb env t sv = do {
     treq \<leftarrow> sv_treqs sv t;
     kv \<leftarrow> priskv_get_key_end (sv_kv sv) (tq_keynode treq);
     let sv1 = upd_kv kv sv;
     sv2 \<leftarrow> (if tq_cmd treq = PRISKV_COMMAND_GET
            then count_op (tq_conn treq) (command_code (tq_cmd treq)) (tq_valuelen treq) sv1 else Some sv1);
     sv3 \<leftarrow> priskv_tiering_req_repost_recv env t sv2;
     Some (priskv_tiering_req_free t sv3)
   }"

definition priskv_tiering_get_backend_cb ::
  "env \<Rightarrow> priskv_backend_status \<Rightarrow> nat \<Rightarrow> nat \<Rightarrow> server \<Rightarrow> server option"
where
  "priskv_tiering_get_backend_cb env backend_status valuelen t sv = do {
     treq \<leftarrow> sv_treqs sv t;
     let sv0 = upd_treq t (\<lambda>treq. treq\<lparr>tq_backend_status := backend_status\<rparr>) sv;
     if backend_status = PRISKV_BACKEND_STATUS_OK then do {
       keynode \<leftarrow> tq_keynode treq;
       let kv1 = priskv_update_valuelen (sv_kv sv) keynode valuelen;
       ((_, _, found), kv2) \<leftarrow> priskv_get_key kv1 (e_now env) (tq_key treq);
       if found \<noteq> Some keynode then None
       else do {
         sv1 \<leftarrow> leave_bucket t (upd_kv kv2 (upd_treq t (\<lambda>treq. treq\<lparr>tq_valuelen := valuelen\<rparr>) sv0));
         let (ret, _, sv2) = priskv_rdma_rw_req env (tq_conn treq) (tq_req treq) (tq_rq treq) Value_mr
               (tq_value treq) valuelen False (Cb_tiering_get t) False sv1;
         if ret \<noteq> 0 then priskv_tiering_finish env t PRISKV_RESP_STATUS_SERVER_ERROR 0 sv2 else Some sv2
       }
     }
     else do {
       (_, kv1) \<leftarrow> priskv_delete_key (sv_kv sv) (e_now env) (tq_key treq);
       priskv_tiering_finish env t
         (case backend_status of
            PRISKV_BACKEND_STATUS_VALUE_TOO_BIG \<Rightarrow> PRISKV_RESP_STATUS_VALUE_TOO_BIG
          | PRISKV_BACKEND_STATUS_NOT_FOUND \<Rightarrow> PRISKV_RESP_STATUS_NO_SUCH_KEY
          | _ \<Rightarrow> PRISKV_RESP_STATUS_SERVER_ERROR) 0 (upd_kv kv1 sv0)
     }
   }"

text \<open>The head of the four operations: \<open>None\<close> inside when the request has to wait.\<close>

definition enter_bucket :: "nat \<Rightarrow> server \<Rightarrow> (bool \<times> server) option" where
  "enter_bucket t sv = do {
     treq \<leftarrow> sv_treqs sv t;
     if tq_execute treq then Some (True, sv)
     else do {
       (entered, sv1) \<leftarrow> priskv_key_serialize_enter t sv;
       Some (entered, if entered then upd_treq t (\<lambda>treq. treq\<lparr>tq_execute := True\<rparr>) sv1 else sv1)
     }
   }"

text \<open>The hit of \<open>priskv_tiering_get\<close>: the value is in the store.\<close>

definition tiering_get_hit :: "env \<Rightarrow> nat \<Rightarrow> addr \<Rightarrow> nat \<Rightarrow> addr \<Rightarrow> server \<Rightarrow> server option" where
  "tiering_get_hit env t val valuelen keynode sv = do {
     let sv1 = upd_treq t (\<lambda>treq. treq\<lparr>tq_value := val, tq_valuelen := valuelen, tq_keynode := Some keynode\<rparr>) sv;
     treq \<leftarrow> sv_treqs sv1 t;
     if tq_remote_valuelen treq < valuelen
     then priskv_tiering_finish env t PRISKV_RESP_STATUS_VALUE_TOO_BIG valuelen sv1
     else
       let (ret, _, sv2) = priskv_rdma_rw_req env (tq_conn treq) (tq_req treq) (tq_rq treq) Value_mr val
             valuelen False (Cb_tiering_get t) False sv1
       in if ret \<noteq> 0 then do {
            kv \<leftarrow> priskv_get_key_end (sv_kv sv2) (Some keynode);
            priskv_tiering_finish env t PRISKV_RESP_STATUS_SERVER_ERROR 0 (upd_kv kv sv2)
          }
          else leave_bucket t sv2
   }"

text \<open>The miss: a fresh node, readable at once, receives the value from the backend.\<close>

definition tiering_get_miss :: "env \<Rightarrow> nat \<Rightarrow> server \<Rightarrow> server option" where
  "tiering_get_miss env t sv = do {
     treq \<leftarrow> sv_treqs sv t;
     ((status, val, keynode), kv1) \<leftarrow>
       priskv_set_key (sv_kv sv) (e_now env) (tq_key treq) (tq_remote_valuelen treq) (tq_timeout treq);
     let sv1 = upd_kv (priskv_set_key_end kv1 keynode) sv;
     case (val, keynode) of
       (Some v, Some a) \<Rightarrow> do {
         let sv2 = upd_treq t (\<lambda>treq. treq\<lparr>tq_value := v, tq_keynode := Some a\<rparr>) sv1;
         if \<not> tq_backend treq then do {
           (_, kv2) \<leftarrow> priskv_delete_key (sv_kv sv2) (e_now env) (tq_key treq);
           priskv_tiering_finish env t PRISKV_RESP_STATUS_SERVER_ERROR 0 (upd_kv kv2 sv2)
         }
         else Some (sv2\<lparr>sv_backend_ops := sv_backend_ops sv2
                @ [Backend_get t (tq_key treq) v (tq_remote_valuelen treq)]\<rparr>)
       }
     | _ \<Rightarrow> priskv_tiering_finish env t status 0 sv1
   }"

definition priskv_tiering_get :: "env \<Rightarrow> nat \<Rightarrow> server \<Rightarrow> server option" where
  "priskv_tiering_get env t sv = do {
     (entered, sv1) \<leftarrow> enter_bucket t sv;
     if \<not> entered then Some sv1
     else do {
       treq \<leftarrow> sv_treqs sv1 t;
       ((status, val, keynode), kv) \<leftarrow> priskv_get_key (sv_kv sv1) (e_now env) (tq_key treq);
       case (status, val, keynode) of
         (PRISKV_RESP_STATUS_OK, Some (v, n), Some a) \<Rightarrow> tiering_get_hit env t v n a (upd_kv kv sv1)
       | _ \<Rightarrow> tiering_get_miss env t (upd_kv kv sv1)
     }
   }"

section \<open>TEST\<close>

definition priskv_tiering_test_backend_cb ::
  "env \<Rightarrow> priskv_backend_status \<Rightarrow> nat \<Rightarrow> nat \<Rightarrow> server \<Rightarrow> server option"
where
  "priskv_tiering_test_backend_cb env status valuelen t sv =
     (let sv1 = upd_treq t (\<lambda>treq. treq\<lparr>tq_backend_status := status\<rparr>) sv;
          (resp_status, len) = (case status of
              PRISKV_BACKEND_STATUS_OK \<Rightarrow> (PRISKV_RESP_STATUS_OK, valuelen)
            | PRISKV_BACKEND_STATUS_NOT_FOUND \<Rightarrow> (PRISKV_RESP_STATUS_NO_SUCH_KEY, 0)
            | _ \<Rightarrow> (PRISKV_RESP_STATUS_SERVER_ERROR, 0))
      in priskv_tiering_finish env t resp_status len sv1)"

definition priskv_tiering_test :: "env \<Rightarrow> nat \<Rightarrow> server \<Rightarrow> server option" where
  "priskv_tiering_test env t sv = do {
     (entered, sv1) \<leftarrow> enter_bucket t sv;
     if \<not> entered then Some sv1
     else do {
       treq \<leftarrow> sv_treqs sv1 t;
       ((status, val, keynode), kv) \<leftarrow> priskv_get_key (sv_kv sv1) (e_now env) (tq_key treq);
       let sv2 = upd_kv kv sv1;
       if status = PRISKV_RESP_STATUS_OK then do {
         sv3 \<leftarrow> priskv_tiering_finish env t PRISKV_RESP_STATUS_OK (case val of None \<Rightarrow> 0 | Some (_, n) \<Rightarrow> n) sv2;
         kv' \<leftarrow> priskv_get_key_end (sv_kv sv3) keynode;
         Some (upd_kv kv' sv3)
       }
       else Some (sv2\<lparr>sv_backend_ops := sv_backend_ops sv2 @ [Backend_test t (tq_key treq)]\<rparr>)
     }
   }"

section \<open>SET\<close>

definition priskv_tiering_set_backend_cb ::
  "env \<Rightarrow> priskv_backend_status \<Rightarrow> nat \<Rightarrow> nat \<Rightarrow> server \<Rightarrow> server option"
where
  "priskv_tiering_set_backend_cb env status valuelen t sv = do {
     treq \<leftarrow> sv_treqs sv t;
     (_, kv) \<leftarrow> priskv_delete_key (sv_kv sv) (e_now env) (tq_key treq);
     let (resp_status, len) = (case status of
              PRISKV_BACKEND_STATUS_OK \<Rightarrow> (PRISKV_RESP_STATUS_OK, tq_valuelen treq)
            | PRISKV_BACKEND_STATUS_NO_SPACE \<Rightarrow> (PRISKV_RESP_STATUS_NO_MEM, 0)
            | _ \<Rightarrow> (PRISKV_RESP_STATUS_SERVER_ERROR, 0));
     priskv_tiering_finish env t resp_status len (upd_kv kv sv)
   }"

definition priskv_tiering_set_rdma_complete_cb :: "env \<Rightarrow> nat \<Rightarrow> server \<Rightarrow> server option" where
  "priskv_tiering_set_rdma_complete_cb env t sv = do {
     treq \<leftarrow> sv_treqs sv t;
     let sv1 = upd_kv (priskv_set_key_end (sv_kv sv) (tq_keynode treq)) sv;
     if \<not> tq_backend treq then do {
       (_, kv) \<leftarrow> priskv_delete_key (sv_kv sv1) (e_now env) (tq_key treq);
       priskv_tiering_finish env t PRISKV_RESP_STATUS_SERVER_ERROR 0 (upd_kv kv sv1)
     }
     else Some (sv1\<lparr>sv_backend_ops := sv_backend_ops sv1
            @ [Backend_set t (tq_key treq) (tq_value treq) (tq_remote_valuelen treq) (tq_timeout treq)]\<rparr>)
   }"

definition priskv_tiering_set :: "env \<Rightarrow> nat \<Rightarrow> server \<Rightarrow> server option" where
  "priskv_tiering_set env t sv = do {
     (entered, sv1) \<leftarrow> enter_bucket t sv;
     if \<not> entered then Some sv1
     else do {
       treq \<leftarrow> sv_treqs sv1 t;
       ((status, val, keynode), kv) \<leftarrow>
         priskv_set_key (sv_kv sv1) (e_now env) (tq_key treq) (tq_remote_valuelen treq) (tq_timeout treq);
       let sv2 = upd_treq t (\<lambda>treq. treq\<lparr>tq_keynode := keynode,
             tq_value := (case val of None \<Rightarrow> tq_value treq | Some v \<Rightarrow> v)\<rparr>) (upd_kv kv sv1);
       case (val, keynode) of
         (Some v, Some a) \<Rightarrow> do {
           let (ret, work, sv3) = priskv_rdma_rw_req env (tq_conn treq) (tq_req treq) (tq_rq treq) Value_mr v
                 (tq_remote_valuelen treq) True (Cb_tiering_set t) True sv2;
           let sv4 = upd_treq t (\<lambda>treq. treq\<lparr>tq_rdma_work := work\<rparr>) sv3;
           if ret \<noteq> 0 then do {
             (_, kv') \<leftarrow> priskv_delete_key (priskv_set_key_end (sv_kv sv4) (Some a)) (e_now env) (tq_key treq);
             priskv_tiering_finish env t PRISKV_RESP_STATUS_NO_MEM 0 (upd_kv kv' sv4)
           }
           else Some sv4
         }
       | _ \<Rightarrow> priskv_tiering_finish env t status 0 (upd_kv (priskv_set_key_end (sv_kv sv2) keynode) sv2)
     }
   }"

section \<open>DELETE\<close>

definition priskv_tiering_del_backend_cb ::
  "env \<Rightarrow> priskv_backend_status \<Rightarrow> nat \<Rightarrow> nat \<Rightarrow> server \<Rightarrow> server option"
where
  "priskv_tiering_del_backend_cb env status valuelen t sv = do {
     treq \<leftarrow> sv_treqs sv t;
     (_, kv) \<leftarrow> priskv_delete_key (sv_kv sv) (e_now env) (tq_key treq);
     priskv_tiering_finish env t
       (case status of
          PRISKV_BACKEND_STATUS_OK \<Rightarrow> PRISKV_RESP_STATUS_OK
        | PRISKV_BACKEND_STATUS_NOT_FOUND \<Rightarrow> PRISKV_RESP_STATUS_NO_SUCH_KEY
        | _ \<Rightarrow> PRISKV_RESP_STATUS_SERVER_ERROR) 0
       (upd_treq t (\<lambda>treq. treq\<lparr>tq_backend_status := status\<rparr>) (upd_kv kv sv))
   }"

definition priskv_tiering_del :: "env \<Rightarrow> nat \<Rightarrow> server \<Rightarrow> server option" where
  "priskv_tiering_del env t sv = do {
     (entered, sv1) \<leftarrow> enter_bucket t sv;
     if \<not> entered then Some sv1
     else do {
       treq \<leftarrow> sv_treqs sv1 t;
       Some (sv1\<lparr>sv_backend_ops := sv_backend_ops sv1 @ [Backend_del t (tq_key treq)]\<rparr>)
     }
   }"

section \<open>Resuming and backend answers\<close>

text \<open>\<open>priskv_backend_req_resubmit\<close>, run by the thread of the request.\<close>

definition priskv_backend_req_resubmit :: "env \<Rightarrow> nat \<Rightarrow> server \<Rightarrow> (int \<times> server) option" where
  "priskv_backend_req_resubmit env t sv = do {
     treq \<leftarrow> sv_treqs sv t;
     case tq_cmd treq of
       PRISKV_COMMAND_GET \<Rightarrow> map_option (Pair 0) (priskv_tiering_get env t sv)
     | PRISKV_COMMAND_SET \<Rightarrow> map_option (Pair 0) (priskv_tiering_set env t sv)
     | PRISKV_COMMAND_TEST \<Rightarrow> map_option (Pair 0) (priskv_tiering_test env t sv)
     | PRISKV_COMMAND_DELETE \<Rightarrow> map_option (Pair 0) (priskv_tiering_del env t sv)
     | _ \<Rightarrow> Some (-1, sv)
   }"

text \<open>The callback an operation was submitted with.\<close>

fun backend_callback ::
  "env \<Rightarrow> backend_op \<Rightarrow> priskv_backend_status \<Rightarrow> nat \<Rightarrow> server \<Rightarrow> server option"
where
  "backend_callback env (Backend_get t _ _ _) status valuelen sv =
     priskv_tiering_get_backend_cb env status valuelen t sv"
| "backend_callback env (Backend_set t _ _ _ _) status valuelen sv =
     priskv_tiering_set_backend_cb env status valuelen t sv"
| "backend_callback env (Backend_test t _) status valuelen sv =
     priskv_tiering_test_backend_cb env status valuelen t sv"
| "backend_callback env (Backend_del t _) status valuelen sv =
     priskv_tiering_del_backend_cb env status valuelen t sv"

end
