(* ===== verification/Rdma_Server.thy ===== *)
theory Rdma_Server
  imports Tiering
begin

text \<open>
  \<open>server/rdma.c\<close>, the handlers: a completed transfer, a received request, a sent response,
  the completion queue, and the connection requests. \<open>None\<close> is a failed assertion, an
  access out of bounds or a use after free.
\<close>

section \<open>Completions\<close>

text \<open>\<open>work->cb(work->cbarg)\<close>\<close>

fun run_cb :: "env \<Rightarrow> rw_cb \<Rightarrow> server \<Rightarrow> server option" where
  "run_cb env Cb_none sv = Some sv"
| "run_cb env (Cb_get_key_end a) sv = do { kv \<leftarrow> priskv_get_key_end (sv_kv sv) (Some a); Some (upd_kv kv sv) }"
| "run_cb env (Cb_set_key_end a) sv = Some (upd_kv (priskv_set_key_end (sv_kv sv) (Some a)) sv)"
| "run_cb env (Cb_tiering_get t) sv = priskv_tiering_get_rdma_complete_cb env t sv"
| "run_cb env (Cb_tiering_set t) sv = priskv_tiering_set_rdma_complete_cb env t sv"

definition priskv_rdma_handle_rw :: "env \<Rightarrow> nat \<Rightarrow> server \<Rightarrow> (int \<times> server) option" where
  "priskv_rdma_handle_rw env w sv = do {
     work0 \<leftarrow> sv_works sv w;
     let work = work0\<lparr>wk_completed := u16n (wk_completed work0 + 1)\<rparr>;
     let sv1 = sv\<lparr>sv_works := (sv_works sv)(w \<mapsto> work)\<rparr>;
     if wk_nsgl work < wk_completed work then None
     else if wk_completed work < wk_nsgl work then Some (0, sv1)
     else do {
       sv2 \<leftarrow> run_cb env (wk_cb work) sv1;
       if wk_defer_resp work then Some (0, sv2)
       else priskv_rdma_complete_rw_work env w PRISKV_RESP_STATUS_OK (wk_valuelen work) sv2
     }
   }"

definition priskv_rdma_handle_send :: "nat \<Rightarrow> nat \<Rightarrow> server \<Rightarrow> (int \<times> server) option" where
  "priskv_rdma_handle_send c slot sv =
     (let resps = resp_rmem (sv_conns sv c)
      in if length resps \<le> slot then None
         else let (ret, resp) = priskv_rdma_response_free (resps ! slot)
              in Some (ret, upd_conn c (\<lambda>conn. conn\<lparr>resp_rmem := resps[slot := resp]\<rparr>) sv))"

section \<open>A received request\<close>

text \<open>The commands. The result is \<open>ret\<close>, \<open>tiering_inflight\<close>, \<open>bytes\<close> and the state.\<close>

type_synonym outcome = "(int \<times> bool \<times> nat \<times> server) option"

definition answered :: "env \<Rightarrow> nat \<Rightarrow> priskv_request \<Rightarrow> priskv_resp_status \<Rightarrow> nat \<Rightarrow> server \<Rightarrow> outcome" where
  "answered env c rq status len sv = do {
     (ret, sv1) \<leftarrow> priskv_rdma_send_response env c (rq_request_id rq) status len sv;
     Some (ret, False, 0, sv1)
   }"

text \<open>The tiering branch of GET, SET, TEST and DELETE.\<close>

definition start_tiering ::
  "env \<Rightarrow> nat \<Rightarrow> addr \<Rightarrow> priskv_request \<Rightarrow> nat \<Rightarrow> priskv_req_command \<Rightarrow> nat
     \<Rightarrow> (env \<Rightarrow> nat \<Rightarrow> server \<Rightarrow> server option) \<Rightarrow> server \<Rightarrow> outcome"
where
  "start_tiering env c req rq timeout cmd remote_valuelen operation sv = do {
     (treq, alloc_status, sv1) \<leftarrow> priskv_tiering_req_new env c req rq timeout cmd remote_valuelen sv;
     case treq of
       None \<Rightarrow> answered env c rq alloc_status 0 sv1
     | Some t \<Rightarrow> do { sv2 \<leftarrow> operation env t sv1; Some (0, True, 0, sv2) }
   }"

definition recv_get :: "env \<Rightarrow> nat \<Rightarrow> addr \<Rightarrow> priskv_request \<Rightarrow> server \<Rightarrow> outcome" where
  "recv_get env c req rq sv =
     (let remote_valuelen = priskv_sgl_size_from_be (rq_sgls rq)
      in if e_tiering env
         then start_tiering env c req rq PRISKV_KEY_MAX_TIMEOUT PRISKV_COMMAND_GET remote_valuelen priskv_tiering_get sv
         else do {
           ((status, val, keynode), kv) \<leftarrow> priskv_get_key (sv_kv sv) (e_now env) (rq_key rq);
           let sv1 = upd_kv kv sv;
           case (status, val, keynode) of
             (PRISKV_RESP_STATUS_OK, Some (v, valuelen), Some a) \<Rightarrow>
               if remote_valuelen < valuelen then do {
                 (ret, sv2) \<leftarrow> priskv_rdma_send_response env c (rq_request_id rq) PRISKV_RESP_STATUS_VALUE_TOO_BIG valuelen sv1;
                 kv' \<leftarrow> priskv_get_key_end (sv_kv sv2) keynode;
                 Some (ret, False, 0, upd_kv kv' sv2)
               }
               else
                 let (ret, _, sv2) = priskv_rdma_rw_req env c req rq Value_mr v valuelen False (Cb_get_key_end a) False sv1
                 in Some (ret, False, valuelen, sv2)
           | _ \<Rightarrow> do {
               (ret, sv2) \<leftarrow> priskv_rdma_send_response env c (rq_request_id rq) status 0 sv1;
               kv' \<leftarrow> priskv_get_key_end (sv_kv sv2) keynode;
               Some (ret, False, 0, upd_kv kv' sv2)
             }
         })"

definition recv_set :: "env \<Rightarrow> nat \<Rightarrow> addr \<Rightarrow> priskv_request \<Rightarrow> server \<Rightarrow> outcome" where
  "recv_set env c req rq sv =
     (let remote_valuelen = priskv_sgl_size_from_be (rq_sgls rq)
      in if remote_valuelen = 0 then answered env c rq PRISKV_RESP_STATUS_VALUE_EMPTY 0 sv
         else if e_tiering env
         then start_tiering env c req rq (rq_timeout rq) PRISKV_COMMAND_SET remote_valuelen priskv_tiering_set sv
         else do {
           ((status, val, keynode), kv) \<leftarrow>
             priskv_set_key (sv_kv sv) (e_now env) (rq_key rq) remote_valuelen (rq_timeout rq);
           let sv1 = upd_kv kv sv;
           case (val, keynode) of
             (Some v, Some a) \<Rightarrow>
               let (ret, _, sv2) = priskv_rdma_rw_req env c req rq Value_mr v remote_valuelen True (Cb_set_key_end a) False sv1
               in Some (ret, False, remote_valuelen, sv2)
           | _ \<Rightarrow> do {
               (ret, sv2) \<leftarrow> priskv_rdma_send_response env c (rq_request_id rq) status 0 sv1;
               Some (ret, False, 0, upd_kv (priskv_set_key_end (sv_kv sv2) keynode) sv2)
             }
         })"

definition recv_test :: "env \<Rightarrow> nat \<Rightarrow> addr \<Rightarrow> priskv_request \<Rightarrow> server \<Rightarrow> outcome" where
  "recv_test env c req rq sv =
     (if e_tiering env
      then start_tiering env c req rq (rq_timeout rq) PRISKV_COMMAND_TEST 0 priskv_tiering_test sv
      else do {
        ((status, val, keynode), kv) \<leftarrow> priskv_get_key (sv_kv sv) (e_now env) (rq_key rq);
        (ret, sv1) \<leftarrow> priskv_rdma_send_response env c (rq_request_id rq) status
          (case val of None \<Rightarrow> 0 | Some (_, valuelen) \<Rightarrow> valuelen) (upd_kv kv sv);
        kv' \<leftarrow> priskv_get_key_end (sv_kv sv1) keynode;
        Some (ret, False, 0, upd_kv kv' sv1)
      })"

definition recv_delete :: "env \<Rightarrow> nat \<Rightarrow> addr \<Rightarrow> priskv_request \<Rightarrow> server \<Rightarrow> outcome" where
  "recv_delete env c req rq sv =
     (if e_tiering env
      then start_tiering env c req rq (rq_timeout rq) PRISKV_COMMAND_DELETE 0 priskv_tiering_del sv
      else do {
        (status, kv) \<leftarrow> priskv_delete_key (sv_kv sv) (e_now env) (rq_key rq);
        answered env c rq status 0 (upd_kv kv sv)
      })"

definition recv_expire :: "env \<Rightarrow> nat \<Rightarrow> priskv_request \<Rightarrow> server \<Rightarrow> outcome" where
  "recv_expire env c rq sv = do {
     (status, kv) \<leftarrow> priskv_expire_key (sv_kv sv) (e_now env) (rq_key rq) (rq_timeout rq);
     answered env c rq status 0 (upd_kv kv sv)
   }"

definition recv_keys :: "env \<Rightarrow> nat \<Rightarrow> addr \<Rightarrow> priskv_request \<Rightarrow> server \<Rightarrow> outcome" where
  "recv_keys env c req rq sv =
     (if keys_rmem (sv_conns sv c) \<noteq> None
      then do {
        (_, sv1) \<leftarrow> priskv_rdma_send_response env c (rq_request_id rq) PRISKV_RESP_STATUS_NO_MEM 0 sv;
        Some (0, False, 0, sv1)
      }
      else
        let remote_valuelen = priskv_sgl_size_from_be (rq_sgls rq); (ret, rmem) = priskv_rdma_mem_new env remote_valuelen
        in if ret \<noteq> 0 then answered env c rq PRISKV_RESP_STATUS_NO_MEM 0 sv
           else do {
             (a, mem) \<leftarrow> rmem;
             (status, buf, valuelen, nkeys) \<leftarrow> priskv_get_keys (e_regcomp env) (sv_kv sv) (rq_key rq) remote_valuelen;
             let sv1 = upd_conn c (\<lambda>conn. conn\<lparr>keys_rmem := Some (a, buf @ drop (length buf) mem)\<rparr>) sv;
             if status \<noteq> PRISKV_RESP_STATUS_OK \<or> valuelen = 0
             then answered env c rq status valuelen (priskv_rdma_mem_free c sv1)
             else
               let (ret, _, sv2) = priskv_rdma_rw_req env c req rq (Keys_mr a) a valuelen False Cb_none False sv1
               in if ret \<noteq> 0 then answered env c rq status valuelen (priskv_rdma_mem_free c sv2)
                  else Some (ret, False, 0, sv2)
           })"

definition recv_nrkeys :: "env \<Rightarrow> nat \<Rightarrow> priskv_request \<Rightarrow> server \<Rightarrow> outcome" where
  "recv_nrkeys env c rq sv = do {
     (status, _, _, nkeys) \<leftarrow> priskv_get_keys (e_regcomp env) (sv_kv sv) (rq_key rq) 0;
     if status = PRISKV_RESP_STATUS_VALUE_TOO_BIG then answered env c rq PRISKV_RESP_STATUS_OK nkeys sv
     else answered env c rq status 0 sv
   }"

definition recv_flush :: "env \<Rightarrow> nat \<Rightarrow> priskv_request \<Rightarrow> server \<Rightarrow> outcome" where
  "recv_flush env c rq sv = do {
     (status, nkeys, kv) \<leftarrow> priskv_flush_keys (e_regcomp env) (sv_kv sv) (rq_key rq);
     answered env c rq status nkeys (upd_kv kv sv)
   }"

definition recv_command :: "env \<Rightarrow> nat \<Rightarrow> addr \<Rightarrow> priskv_request \<Rightarrow> server \<Rightarrow> outcome" where
  "recv_command env c req rq sv =
     (case command_of (rq_command rq) of
        Some PRISKV_COMMAND_GET \<Rightarrow> recv_get env c req rq sv
      | Some PRISKV_COMMAND_SET \<Rightarrow> recv_set env c req rq sv
      | Some PRISKV_COMMAND_TEST \<Rightarrow> recv_test env c req rq sv
      | Some PRISKV_COMMAND_DELETE \<Rightarrow> recv_delete env c req rq sv
      | Some PRISKV_COMMAND_EXPIRE \<Rightarrow> recv_expire env c rq sv
      | Some PRISKV_COMMAND_KEYS \<Rightarrow> recv_keys env c req rq sv
      | Some PRISKV_COMMAND_NRKEYS \<Rightarrow> recv_nrkeys env c rq sv
      | Some PRISKV_COMMAND_FLUSH \<Rightarrow> recv_flush env c rq sv
      | None \<Rightarrow> do {
          (_, sv1) \<leftarrow> priskv_rdma_send_response env c (rq_request_id rq) PRISKV_RESP_STATUS_NO_SUCH_COMMAND 0 sv;
          Some (- EPROTO, False, 0, sv1)
        })"

text \<open>The checks of the header, then the command, then the statistics and the repost. The
  statistics are indexed by the command the client sent.\<close>

definition refused :: "env \<Rightarrow> nat \<Rightarrow> nat \<Rightarrow> priskv_resp_status \<Rightarrow> server \<Rightarrow> (int \<times> server) option" where
  "refused env c request_id status sv = do {
     (_, sv1) \<leftarrow> priskv_rdma_send_response env c request_id status 0 sv;
     Some (- EPROTO, sv1)
   }"

definition recv_done :: "env \<Rightarrow> nat \<Rightarrow> addr \<Rightarrow> nat \<Rightarrow> int \<times> bool \<times> nat \<times> server \<Rightarrow> (int \<times> server) option" where
  "recv_done env c req command r =
     (case r of (ret, tiering_inflight, bytes, sv) \<Rightarrow>
        if tiering_inflight then Some (ret, sv)
        else if ret \<noteq> 0 then do { sv1 \<leftarrow> count_op c command 0 sv; Some (ret, sv1) }
        else do {
          sv1 \<leftarrow> count_op c command bytes sv;
          (_, sv2) \<leftarrow> priskv_rdma_recv_req env c req sv1;
          Some (ret, sv2)
        })"

definition priskv_rdma_handle_recv ::
  "env \<Rightarrow> nat \<Rightarrow> addr \<Rightarrow> bytes \<Rightarrow> nat \<Rightarrow> server \<Rightarrow> (int \<times> server) option"
where
  "priskv_rdma_handle_recv env c req buf len sv =
     (let rq = get_request len buf; keyoff = priskv_request_key_off (rq_nsgl rq); keylen = u16n (len - keyoff);
          cap = conn_cap (sv_conns sv c)
      in if len < keyoff then refused env c (rq_request_id rq) PRISKV_RESP_STATUS_INVALID_COMMAND sv
         else if keylen = 0 then refused env c (rq_request_id rq) PRISKV_RESP_STATUS_KEY_EMPTY sv
         else if cap_max_key_length cap < keylen then refused env c (rq_request_id rq) PRISKV_RESP_STATUS_KEY_TOO_BIG sv
         else if cap_max_sgl cap < rq_nsgl rq then refused env c (rq_request_id rq) PRISKV_RESP_STATUS_INVALID_SGL sv
         else do {
           r \<leftarrow> recv_command env c req rq sv;
           recv_done env c req (rq_command rq) r
         })"

section \<open>The completion queue\<close>

text \<open>What \<open>ibv_poll_cq\<close> delivers.\<close>

datatype wc =
    Wc_recv addr bytes nat | Wc_rdma nat | Wc_send nat
  | Wc_error | Wc_other

definition priskv_rdma_close_client_async :: "nat \<Rightarrow> server \<Rightarrow> server" where
  "priskv_rdma_close_client_async c sv =
     (if conn_closing (sv_conns sv c) then sv else upd_conn c (\<lambda>conn. conn\<lparr>conn_closing := True\<rparr>) sv)"

text \<open>One turn of the loop: whether it goes on, and the state.\<close>

fun handle_wc :: "env \<Rightarrow> nat \<Rightarrow> wc \<Rightarrow> server \<Rightarrow> (bool \<times> server) option" where
  "handle_wc env c (Wc_recv req buf len) sv =
     map_option (\<lambda>(ret, sv'). (ret = 0, sv')) (priskv_rdma_handle_recv env c req buf len sv)"
| "handle_wc env c (Wc_rdma w) sv = map_option (\<lambda>(ret, sv'). (ret = 0, sv')) (priskv_rdma_handle_rw env w sv)"
| "handle_wc env c (Wc_send slot) sv = map_option (\<lambda>(_, sv'). (True, sv')) (priskv_rdma_handle_send c slot sv)"
| "handle_wc env c Wc_error sv = Some (False, sv)"
| "handle_wc env c Wc_other sv = Some (False, sv)"

text \<open>\<open>priskv_rdma_handle_cq\<close>: the completions in the order they are polled, until the queue
  is empty or an error closes the connection. A failure of \<open>ibv_get_cq_event\<close>,
  \<open>ibv_req_notify_cq\<close> or \<open>ibv_poll_cq\<close> is the entry \<open>Wc_error\<close>.\<close>

fun priskv_rdma_handle_cq :: "nat \<Rightarrow> (env \<times> wc) list \<Rightarrow> server \<Rightarrow> server option" where
  "priskv_rdma_handle_cq c [] sv = Some sv"
| "priskv_rdma_handle_cq c ((env, wc) # wcs) sv = do {
     (go_on, sv1) \<leftarrow> handle_wc env c wc sv;
     if go_on then priskv_rdma_handle_cq c wcs sv1 else Some (priskv_rdma_close_client_async c sv1)
   }"

section \<open>Connection requests\<close>

text \<open>\<open>priskv_rdma_cm_req\<close>, \<open>priskv_rdma_cm_rep\<close> and \<open>priskv_rdma_cm_rej\<close>, as the private
  data of the connection manager carries them; \<open>sizeof\<close> of the request is 32.\<close>

record priskv_rdma_cm_req =
  cm_version :: nat
  cm_max_sgl :: nat
  cm_max_key_length :: nat
  cm_max_inflight_command :: nat

definition get_cm_req :: "bytes \<Rightarrow> priskv_rdma_cm_req" where
  "get_cm_req buf = \<lparr>cm_version = be_dec (rd 0 2 buf), cm_max_sgl = be_dec (rd 2 2 buf),
     cm_max_key_length = be_dec (rd 4 2 buf), cm_max_inflight_command = be_dec (rd 6 2 buf)\<rparr>"

definition PRISKV_RDMA_CM_VERSION :: nat where
  "PRISKV_RDMA_CM_VERSION = 1"

datatype priskv_rdma_cm_status =
    PRISKV_RDMA_CM_REJ_STATUS_INVALID_CM_REP | PRISKV_RDMA_CM_REJ_STATUS_INVALID_VERSION
  | PRISKV_RDMA_CM_REJ_STATUS_INVALID_SGL | PRISKV_RDMA_CM_REJ_STATUS_INVALID_KEY_LENGTH
  | PRISKV_RDMA_CM_REJ_STATUS_INVALID_INFLIGHT_COMMAND | PRISKV_RDMA_CM_REJ_STATUS_ACL_REFUSE
  | PRISKV_RDMA_CM_REJ_STATUS_SERVER_ERROR

fun cm_status_code :: "priskv_rdma_cm_status \<Rightarrow> nat" where
  "cm_status_code PRISKV_RDMA_CM_REJ_STATUS_INVALID_CM_REP = 1"
| "cm_status_code PRISKV_RDMA_CM_REJ_STATUS_INVALID_VERSION = 2"
| "cm_status_code PRISKV_RDMA_CM_REJ_STATUS_INVALID_SGL = 3"
| "cm_status_code PRISKV_RDMA_CM_REJ_STATUS_INVALID_KEY_LENGTH = 4"
| "cm_status_code PRISKV_RDMA_CM_REJ_STATUS_INVALID_INFLIGHT_COMMAND = 5"
| "cm_status_code PRISKV_RDMA_CM_REJ_STATUS_ACL_REFUSE = 6"
| "cm_status_code PRISKV_RDMA_CM_REJ_STATUS_SERVER_ERROR = 0x10"

text \<open>The bytes of \<open>priskv_rdma_reject\<close> and of \<open>priskv_rdma_resp\<close>.\<close>

definition priskv_rdma_reject :: "priskv_rdma_cm_status \<Rightarrow> nat \<Rightarrow> bytes" where
  "priskv_rdma_reject status val =
     be_enc 2 PRISKV_RDMA_CM_VERSION @ be_enc 2 (cm_status_code status) @ be_enc 4 0 @ be_enc 8 val"

definition priskv_rdma_resp :: "priskv_rdma_conn_cap \<Rightarrow> priskv_kv \<Rightarrow> bytes" where
  "priskv_rdma_resp cap kv =
     (let capacity = u64n (priskv_get_value_blocks kv * priskv_get_value_block_size kv)
      in be_enc 2 PRISKV_RDMA_CM_VERSION @ be_enc 2 (cap_max_sgl cap) @ be_enc 2 (cap_max_key_length cap)
         @ be_enc 2 (cap_max_inflight_command cap) @ be_enc 8 capacity @ be_enc 16 0)"

text \<open>\<open>priskv_rdma_verify_conn_cap\<close>: the status and value of the refusal, and the client's
  limits, where 0 asks for the listener's.\<close>

definition priskv_rdma_verify_conn_cap ::
  "priskv_rdma_conn_cap \<Rightarrow> priskv_rdma_conn_cap \<Rightarrow> (priskv_rdma_cm_status \<times> nat) option \<times> priskv_rdma_conn_cap"
where
  "priskv_rdma_verify_conn_cap client listener =
     (if cap_max_sgl client \<noteq> 0 \<and> cap_max_sgl listener < cap_max_sgl client
      then (Some (PRISKV_RDMA_CM_REJ_STATUS_INVALID_SGL, cap_max_sgl listener), client)
      else
        let client1 = (if cap_max_sgl client = 0 then client\<lparr>cap_max_sgl := cap_max_sgl listener\<rparr> else client)
        in if cap_max_key_length client \<noteq> 0 \<and> cap_max_key_length listener < cap_max_key_length client
           then (Some (PRISKV_RDMA_CM_REJ_STATUS_INVALID_KEY_LENGTH, cap_max_key_length listener), client1)
           else
             let client2 = (if cap_max_key_length client = 0
                   then client1\<lparr>cap_max_key_length := cap_max_key_length listener\<rparr> else client1)
             in if cap_max_inflight_command client \<noteq> 0
                   \<and> cap_max_inflight_command listener < cap_max_inflight_command client
                then (Some (PRISKV_RDMA_CM_REJ_STATUS_INVALID_INFLIGHT_COMMAND, cap_max_inflight_command listener), client2)
                else (None, if cap_max_inflight_command client = 0
                   then client2\<lparr>cap_max_inflight_command := cap_max_inflight_command listener\<rparr> else client2))"

text \<open>\<open>sizeof (priskv_response)\<close>.\<close>

abbreviation response_struct_size :: nat where
  "response_struct_size \<equiv> 32"

text \<open>\<open>priskv_rdma_new_ctrl_buffer\<close>: the request buffers and the free response slots. The
  16-bit index of its loop never reaches a larger \<open>wr_size\<close>.\<close>

definition priskv_rdma_new_ctrl_buffer :: "env \<Rightarrow> priskv_rdma_conn \<Rightarrow> (int \<times> priskv_rdma_conn) option" where
  "priskv_rdma_new_ctrl_buffer env conn =
     (let wr_size = priskv_rdma_wr_size conn;
          req_size = u32n (u16n (priskv_request_size_aligend conn) * wr_size);
          resp_size = u32n (response_struct_size * wr_size)
      in case (snd (priskv_rdma_mem_new env req_size), snd (priskv_rdma_mem_new env resp_size)) of
           (Some (req, _), Some _) \<Rightarrow>
             if 65535 < wr_size then None
             else Some (0, conn\<lparr>req_rmem := (req, req_size),
                    resp_rmem := map (snd \<circ> priskv_rdma_response_free)
                      (replicate wr_size \<lparr>resp_request_id = 0, resp_length = 0, resp_status = 0\<rparr>)\<rparr>)
         | _ \<Rightarrow> Some (- ENOMEM, conn\<lparr>req_rmem := (0, 0), resp_rmem := [], keys_rmem := None\<rparr>))"

text \<open>Posting all the request buffers one after the other.\<close>

fun post_recvs :: "env \<Rightarrow> nat \<Rightarrow> nat \<Rightarrow> addr \<Rightarrow> server \<Rightarrow> (bool \<times> server) option" where
  "post_recvs env c 0 req sv = Some (True, sv)"
| "post_recvs env c (Suc n) req sv = do {
     (recvsize, sv1) \<leftarrow> priskv_rdma_recv_req env c req sv;
     if recvsize < 0 then Some (False, sv1) else post_recvs env c n (req + nat recvsize) sv1
   }"

text \<open>What the connection manager and the access list decide: the size of
  \<open>struct rdma_conn_param\<close>, the result of \<open>priskv_acl_verify\<close>, whether the channel, the
  queues and the queue pair are created, and the result of \<open>rdma_accept\<close>.\<close>

record cm_env =
  cm_conn_param_size :: nat
  cm_acl_verify :: int
  cm_resources :: bool
  cm_accept :: int

datatype cm_result = Cm_rejected bytes | Cm_accepted bytes | Cm_accept_failed

definition empty_conn :: priskv_rdma_conn where
  "empty_conn = \<lparr>conn_cap = \<lparr>cap_max_sgl = 0, cap_max_key_length = 0, cap_max_inflight_command = 0\<rparr>,
     conn_closing = False, conn_stats = replicate PRISKV_COMMAND_MAX \<lparr>st_ops = 0, st_bytes = 0\<rparr>,
     conn_resps = 0, req_rmem = (0, 0), resp_rmem = [], keys_rmem = None, conn_sq = [], conn_done = 0,
     conn_rq = []\<rparr>"

text \<open>\<open>priskv_rdma_handle_connect_request\<close> for the new connection \<open>c\<close>; \<open>data\<close> is the
  private data of the request and \<open>data_len\<close> its length.\<close>

definition priskv_rdma_handle_connect_request ::
  "env \<Rightarrow> cm_env \<Rightarrow> priskv_rdma_conn_cap \<Rightarrow> nat \<Rightarrow> bytes \<Rightarrow> nat \<Rightarrow> server \<Rightarrow> (cm_result \<times> server) option"
where
  "priskv_rdma_handle_connect_request env cm listener c data data_len sv =
     (let sv0 = upd_conn c (\<lambda>_. empty_conn) sv;
          rej = (\<lambda>status val sv. Some (Cm_rejected (priskv_rdma_reject status val), priskv_rdma_close_client_async c sv));
          exp_len = (cm_conn_param_size cm + 32) mod 256;
          req = get_cm_req data;
          (refusal, cap) = priskv_rdma_verify_conn_cap \<lparr>cap_max_sgl = cm_max_sgl req,
            cap_max_key_length = cm_max_key_length req, cap_max_inflight_command = cm_max_inflight_command req\<rparr> listener
      in if cm_acl_verify cm \<noteq> 0 then rej PRISKV_RDMA_CM_REJ_STATUS_ACL_REFUSE 0 sv0
         else if data_len \<noteq> exp_len then rej PRISKV_RDMA_CM_REJ_STATUS_INVALID_CM_REP exp_len sv0
         else if cm_version req \<noteq> PRISKV_RDMA_CM_VERSION
         then rej PRISKV_RDMA_CM_REJ_STATUS_INVALID_VERSION PRISKV_RDMA_CM_VERSION sv0
         else
           let sv1 = upd_conn c (\<lambda>conn. conn\<lparr>conn_cap := cap\<rparr>) sv0
           in case refusal of
                Some (status, val) \<Rightarrow> rej status val sv1
              | None \<Rightarrow>
                  if \<not> cm_resources cm then rej PRISKV_RDMA_CM_REJ_STATUS_SERVER_ERROR 0 sv1
                  else do {
                    (ret, conn) \<leftarrow> priskv_rdma_new_ctrl_buffer env (sv_conns sv1 c);
                    let sv2 = upd_conn c (\<lambda>_. conn) sv1;
                    if ret \<noteq> 0 then rej PRISKV_RDMA_CM_REJ_STATUS_SERVER_ERROR 0 sv2
                    else do {
                      (posted, sv3) \<leftarrow> post_recvs env c (priskv_rdma_wr_size conn) (fst (req_rmem conn)) sv2;
                      if \<not> posted then rej PRISKV_RDMA_CM_REJ_STATUS_SERVER_ERROR 0 sv3
                      else if cm_accept cm \<noteq> 0 then Some (Cm_accept_failed, priskv_rdma_close_client_async c sv3)
                      else Some (Cm_accepted (priskv_rdma_resp cap (sv_kv sv)), sv3)
                    }
                  })"

end
