(* ===== verification/KV_Good.thy ===== *)
theory KV_Good
  imports KV_Run
begin

text \<open>
  The contract of the store towards its callers, one lemma per call: a good store stays good,
  and what a caller holds stays in place. Good is the invariant together with positive value
  lengths and the ranges of the statistics.
\<close>

definition sized :: "priskv_kv \<Rightarrow> bool" where
  "sized kv \<longleftrightarrow> (\<forall>key v n p e. contents kv key = Some (v, n, p, e) \<longrightarrow> 0 < n)"

lemma sizedD: "sized kv \<Longrightarrow> contents kv key = Some (v, n, p, e) \<Longrightarrow> 0 < n"
  unfolding sized_def by blast

lemma sizedI: "(\<And>key v n p e. contents kv key = Some (v, n, p, e) \<Longrightarrow> 0 < n) \<Longrightarrow> sized kv"
  unfolding sized_def by blast

lemma sized_cong: "contents kv' = contents kv \<Longrightarrow> sized kv \<Longrightarrow> sized kv'"
  by (simp add: sized_def)

lemma sized_sub: "sized kv \<Longrightarrow> (\<And>key e. contents kv' key = Some e \<Longrightarrow> contents kv key = Some e) \<Longrightarrow> sized kv'"
  unfolding sized_def by blast

definition kv_good :: "priskv_kv \<Rightarrow> (addr \<Rightarrow> nat) \<Rightarrow> bool" where
  "kv_good kv h \<longleftrightarrow> kv_inv kv h \<and> stats_ok kv \<and> sized kv"

text \<open>A step from \<open>kv\<close>, with references \<open>h\<close>, to \<open>kv'\<close>, with \<open>h'\<close>.\<close>

definition kv_next :: "priskv_kv \<Rightarrow> (addr \<Rightarrow> nat) \<Rightarrow> priskv_kv \<Rightarrow> (addr \<Rightarrow> nat) \<Rightarrow> bool" where
  "kv_next kv h kv' h' \<longleftrightarrow> kv_good kv' h' \<and> same_shape kv kv' \<and> held_same (\<lambda>a. min (h a) (h' a)) kv kv'"

lemma kv_nextI:
  assumes "kv_good kv h" "kv_inv kv' h'" "stats kv' = stats kv" "sized kv'" "same_shape kv kv'" "held_same g kv kv'"
    "\<And>a. 0 < h a \<Longrightarrow> 0 < h' a \<Longrightarrow> 0 < g a"
  shows "kv_next kv h kv' h'"
  using assms stats_ok_cong [of kv' kv] held_same_mono [OF assms(6), of "\<lambda>a. min (h a) (h' a)"]
  by (simp add: kv_next_def kv_good_def)

lemma get_key_value:
  assumes "priskv_get_key kv now key = Some ((st, Some (v, n), Some a), kv')"
  shows "v = vaddr kv' a" "n = pk_valuelen (node kv' a)"
proof -
  from assms obtain found expired kv1 where f: "priskv_find_key kv now key PRISKV_KEY_MAX_TIMEOUT False = Some (found, expired, kv1)"
    by (auto simp: priskv_get_key_def split: Option.bind_splits)
  from assms [unfolded priskv_get_key_def f] have "priskv_lru_access kv1 a True = Some kv'"
    "v = priskv_value_to_pointer kv1 a" "n = pk_valuelen (node kv1 a)"
    by (auto split: option.splits if_splits)
  then show "v = vaddr kv' a" "n = pk_valuelen (node kv' a)"
    by (auto simp: priskv_lru_access_def priskv_value_to_pointer_def split: if_splits)
qed

lemma good_get:
  assumes "kv_good kv h" "ref_room kv h"
  obtains (missing) st kv' where "priskv_get_key kv now key = Some ((st, None, None), kv')" "st \<noteq> PRISKV_RESP_STATUS_OK"
      "kv_next kv h kv' h"
  | (updating) a kv' where "priskv_get_key kv now key = Some ((PRISKV_RESP_STATUS_KEY_UPDATING, None, Some a), kv')"
      "kv_next kv h kv' (h(a := Suc (h a)))"
  | (found) v n a kv' where "priskv_get_key kv now key = Some ((PRISKV_RESP_STATUS_OK, Some (v, n), Some a), kv')"
      "kv_next kv h kv' (h(a := Suc (h a)))" "0 < n" "v = vaddr kv' a" "n = pk_valuelen (node kv' a)"
proof -
  from assms(1) have inv: "kv_inv kv h" and sz: "sized kv" by (simp_all add: kv_good_def)
  from get_key_spec [OF inv assms(2), of now key] obtain res kv' h' where
    g: "priskv_get_key kv now key = Some (res, kv')" "kv_inv kv' h'" "same_shape kv kv'"
      "get_spec kv h now key res kv' h'" "held_same h kv kv'" by blast
  have sz': "sized kv'"
    by (rule sized_sub [OF sz]) (use g(4) in \<open>auto simp: get_spec_def split: option.splits if_splits\<close>)
  have nx: "kv_next kv h kv' h'" by (rule kv_nextI [OF assms(1) g(2) get_key_stats [OF g(1)] sz' g(3,5)])
  from g(4) consider "res = (PRISKV_RESP_STATUS_NO_SUCH_KEY, None, None)" "h' = h"
    | a where "res = (PRISKV_RESP_STATUS_KEY_UPDATING, None, Some a)" "h' = h(a := Suc (h a))"
    | a v n e where "res = (PRISKV_RESP_STATUS_OK, Some (v, n), Some a)" "h' = h(a := Suc (h a))"
        "lookup kv key = Some a" "contents kv' = contents kv" "contents kv key = Some (v, n, False, e)"
    by (auto simp: get_spec_def split: option.splits if_splits)
  then show thesis
  proof cases
    case 1
    show thesis by (rule missing [of PRISKV_RESP_STATUS_NO_SUCH_KEY kv']) (use g(1) nx 1 in auto)
  next
    case (2 a)
    show thesis by (rule updating) (use g(1) nx 2 in auto)
  next
    case (3 a v n e)
    have "0 < n" by (rule sizedD [OF sz 3(5)])
    have r: "priskv_get_key kv now key = Some ((PRISKV_RESP_STATUS_OK, Some (v, n), Some a), kv')" using g(1) 3(1) by simp
    show thesis by (rule found [OF r nx [unfolded 3(2)] \<open>0 < n\<close> get_key_value [OF r]])
  qed
qed

lemma get_key_end_contents:
  assumes inv: "kv_inv kv h" and h: "0 < h a" and kv': "priskv_get_key_end kv (Some a) = Some kv'"
  shows "contents kv' = contents kv"
proof -
  from get_key_end_inv [OF inv h] kv' have k: "kv_inv kv' (h(a := h a - 1))" "same_shape kv kv'" "chained kv' = chained kv"
    "\<forall>b. b \<noteq> a \<longrightarrow> node kv' b = node kv b"
    "1 < refs kv h a \<longrightarrow> node kv' a = (node kv a)\<lparr>pk_refcnt := refs kv h a - 1\<rparr>" by auto
  show ?thesis
  proof (rule contents_cong [OF inv k(1,2,3)])
    fix b assume "b \<in> chained kv"
    then have "b = a \<Longrightarrow> 1 < refs kv h a" using h by (simp add: refs_def)
    with k(2,4,5) show "key_of (node kv' b) = key_of (node kv b) \<and> entry_of kv' b = entry_of kv b"
      by (cases "b = a") (simp_all add: key_of_def entry_of_def priskv_value_to_pointer_def same_shape_def)
  qed
qed

lemma good_get_end:
  assumes "kv_good kv h" "0 < h a"
  shows "\<exists>kv'. priskv_get_key_end kv (Some a) = Some kv' \<and> kv_next kv h kv' (h(a := h a - 1))"
proof -
  from assms have inv: "kv_inv kv h" and sz: "sized kv" by (simp_all add: kv_good_def)
  from get_key_end_inv [OF inv assms(2)] obtain kv' where g: "priskv_get_key_end kv (Some a) = Some kv'"
    "kv_inv kv' (h(a := h a - 1))" "same_shape kv kv'" "held_same (h(a := h a - 1)) kv kv'" by blast
  have st: "stats kv' = stats kv" using g(1) deref_stats by (simp add: priskv_get_key_end_def)
  have "sized kv'" using sized_cong [OF get_key_end_contents [OF inv assms(2) g(1)] sz] .
  from kv_nextI [OF assms(1) g(2) st this g(3,4)] g(1) show ?thesis by blast
qed

lemma good_set:
  assumes "kv_good kv h" "key_fits kv key" "buddy_serves (value_buddy kv) n"
  obtains (stored) v a kv' where "priskv_set_key kv now key n timeout = Some ((PRISKV_RESP_STATUS_OK, Some v, Some a), kv')"
      "kv_next kv h kv' h"
  | (full) kv' where "priskv_set_key kv now key n timeout = Some ((PRISKV_RESP_STATUS_NO_MEM, None, None), kv')"
      "kv_next kv h kv' h"
proof -
  from assms(1) have inv: "kv_inv kv h" and sz: "sized kv" by (simp_all add: kv_good_def)
  from set_key_inv [OF inv assms(2,3), of now timeout] obtain res kv' evs where g:
    "priskv_set_key kv now key n timeout = Some (res, kv')" "set_post kv h now key n timeout evs res kv'" by blast
  from g(2) have k: "kv_inv kv' h" "same_shape kv kv'" "held_same h kv kv'" by (simp_all add: set_post_def Let_def)
  have "0 < n" using assms(3) by (simp add: buddy_serves_def)
  with set_contents [OF inv g(2)] have "sized kv'"
    by (intro sizedI) (auto dest: sizedD [OF sz] split: if_splits)
  from kv_nextI [OF assms(1) k(1) set_key_stats [OF g(1)] this k(2,3)] have nx: "kv_next kv h kv' h" .
  from set_contents [OF inv g(2)] show thesis
  proof (elim disjE exE conjE)
    fix v a assume "res = (PRISKV_RESP_STATUS_OK, Some v, Some a)"
    with g(1) nx show thesis by (intro stored) simp_all
  next
    assume "res = (PRISKV_RESP_STATUS_NO_MEM, None, None)"
    with g(1) nx show thesis by (intro full) simp_all
  qed
qed

lemma good_set_end:
  assumes "kv_good kv h"
  shows "kv_next kv h (priskv_set_key_end kv (Some a)) h"
proof -
  from assms have inv: "kv_inv kv h" and sz: "sized kv" by (simp_all add: kv_good_def)
  note k = set_key_end_inv [OF inv, of a]
  let ?kv' = "priskv_set_key_end kv (Some a)"
  have same: "vaddr ?kv' b = vaddr kv b \<and> pk_valuelen (node ?kv' b) = pk_valuelen (node kv b)
      \<and> key_of (node ?kv' b) = key_of (node kv b)" for b
    by (simp add: priskv_set_key_end_def priskv_value_to_pointer_def key_of_def)
  have "lookup ?kv' key = lookup kv key" for key using same k(3) by (intro lookup_cong [OF inv k(1)]) auto
  then have "sized ?kv'" using sz same unfolding sized_def contents_def entry_of_def by auto
  moreover have "stats ?kv' = stats kv" by (simp add: priskv_set_key_end_def stats_def)
  ultimately show ?thesis using kv_nextI [OF assms k(1) _ _ k(2,4)] by simp
qed

lemma good_delete:
  assumes "kv_good kv h"
  shows "\<exists>st kv'. priskv_delete_key kv now key = Some (st, kv') \<and> kv_next kv h kv' h"
proof -
  from assms have inv: "kv_inv kv h" and sz: "sized kv" by (simp_all add: kv_good_def)
  from delete_key_spec [OF inv, of now key] obtain st kv' where g: "priskv_delete_key kv now key = Some (st, kv')"
    "kv_inv kv' h" "same_shape kv kv'" "contents kv' = (contents kv)(key := None)" "held_same h kv kv'" by blast
  have "sized kv'" by (rule sized_sub [OF sz]) (auto simp: g(4) split: if_splits)
  from kv_nextI [OF assms g(2) delete_key_stats [OF g(1)] this g(3,5)] g(1) show ?thesis by blast
qed

lemma good_expire:
  assumes "kv_good kv h" "ref_room kv h"
  shows "\<exists>st kv'. priskv_expire_key kv now key timeout = Some (st, kv') \<and> kv_next kv h kv' h"
proof -
  from assms have inv: "kv_inv kv h" and sz: "sized kv" by (simp_all add: kv_good_def)
  from expire_key_spec [OF inv assms(2), of now key timeout] obtain st kv' where
    g: "priskv_expire_key kv now key timeout = Some (st, kv')" "kv_inv kv' h" "same_shape kv kv'"
      "contents kv' = (case contents kv key of None \<Rightarrow> contents kv
        | Some (v, n, p, exp) \<Rightarrow>
            if entry_expired (v, n, p, exp) now then (contents kv)(key := None)
            else if timeout < PRISKV_KEY_MAX_TIMEOUT then (contents kv)(key \<mapsto> (v, n, p, priskv_time_add_ms now timeout))
            else contents kv)" "held_same h kv kv'" by (elim exE conjE) (rule that)
  have "sized kv'"
    by (rule sizedI) (auto simp: g(4) dest: sizedD [OF sz] split: option.splits prod.splits if_splits)
  from kv_nextI [OF assms(1) g(2) expire_key_stats [OF g(1)] this g(3,5)] g(1) show ?thesis by blast
qed

lemma good_clear_expired:
  assumes "kv_good kv h"
  shows "\<exists>kv'. priskv_clear_expired_kv kv now = Some kv' \<and> kv_next kv h kv' h"
proof -
  from assms have inv: "kv_inv kv h" and st: "stats_ok kv" and sz: "sized kv" by (simp_all add: kv_good_def)
  from st have lim: "expire_kv_count kv < 2 ^ 64" "expire_kv_bytes kv < 2 ^ 64" by (simp_all add: stats_ok_def)
  from clear_expired_spec [OF inv lim, of now] obtain kv' m n where g: "priskv_clear_expired_kv kv now = Some kv'" "kv_inv kv' h"
    "same_shape kv kv'" "held_same h kv kv'" "expire_kv_count kv' = u64n m" "expire_kv_bytes kv' = u64n n"
    "contents kv' = (\<lambda>key. case contents kv key of None \<Rightarrow> None | Some e \<Rightarrow> if entry_expired e now then None else Some e)"
    by (elim exE conjE) (rule that)
  have "sized kv'" by (rule sized_sub [OF sz]) (auto simp: g(7) split: option.splits if_splits)
  moreover have "stats_ok kv'" by (simp add: stats_ok_def g(5,6) u64n_def)
  ultimately show ?thesis using g(1-4) by (simp add: kv_next_def kv_good_def)
qed

text \<open>Keys that KEYS and FLUSH can copy: shorter than \<open>safekey\<close>.\<close>

definition small_keys :: "priskv_kv \<Rightarrow> bool" where
  "small_keys kv \<longleftrightarrow> slab_size (key_slab kv) < key_struct_size + 1024"

lemma small_keys_safe:
  assumes "kv_inv kv h" "small_keys kv"
  shows "safe_keys kv"
  unfolding safe_keys_def
proof
  fix a assume a: "a \<in> chained kv"
  note m = kv_invD(2) [OF assms(1)]
  have r: "0 < refs kv h a" using a by (simp add: refs_def)
  have "length (pk_key (node kv a)) = slab_size (key_slab kv) - key_struct_size"
    using m mem_inv_node(6) [OF m r] by (simp add: mem_inv_def)
  with mem_inv_node(3) [OF m r] assms(2) show "pk_keylen (node kv a) < 1024" by (simp add: small_keys_def)
qed

lemma good_flush:
  assumes "kv_good kv h" "small_keys kv"
  shows "\<exists>st n kv'. priskv_flush_keys regcomp kv regex = Some (st, n, kv') \<and> kv_next kv h kv' h"
proof (cases "regcomp (takeWhile (\<lambda>b. b \<noteq> 0) regex)")
  case None
  with assms show ?thesis by (simp add: priskv_flush_keys_def kv_next_def)
next
  case (Some regexec)
  from assms have inv: "kv_inv kv h" and sz: "sized kv" by (simp_all add: kv_good_def)
  from flush_keys_spec [OF inv small_keys_safe [OF inv assms(2)], of regcomp regex, OF Some] obtain st n kv' where
    g: "priskv_flush_keys regcomp kv regex = Some (st, n, kv')" "kv_inv kv' h" "same_shape kv kv'"
      "contents kv' = (\<lambda>key. if regexec (takeWhile (\<lambda>b. b \<noteq> 0) key) then None else contents kv key)"
      "held_same h kv kv'" by blast
  have "sized kv'" by (rule sized_sub [OF sz]) (auto simp: g(4) split: if_splits)
  from kv_nextI [OF assms(1) g(2) flush_keys_stats [OF g(1)] this g(3,5)] g(1) show ?thesis by blast
qed

lemma get_keys_loop_total:
  assumes "\<forall>a \<in> set as. pk_keylen (node kv a) < 1024"
  shows "\<exists>r. get_keys_loop kv regexec keyslen as s = Some r"
  using assms by (induction as arbitrary: s) (auto simp: safekey_def Let_def)

lemma good_keys:
  assumes "kv_good kv h" "small_keys kv"
  obtains st buf reallen nkey where "priskv_get_keys regcomp kv regex keyslen = Some (st, buf, reallen, nkey)"
    "st = PRISKV_RESP_STATUS_OK \<longrightarrow> reallen \<le> keyslen"
proof (cases "regcomp (takeWhile (\<lambda>b. b \<noteq> 0) regex)")
  case None
  with that [of PRISKV_RESP_STATUS_INVALID_REGEX "[]" 0 0] show thesis by (simp add: priskv_get_keys_def)
next
  case (Some regexec)
  from assms have inv: "kv_inv kv h" by (simp add: kv_good_def)
  have h: "length (hash_heads kv) = bucket_count kv" using kv_invD(1) [OF inv] by (simp add: chain_inv_def)
  have "\<forall>a \<in> set (concat (hash_heads kv)). pk_keylen (node kv a) < 1024"
    using small_keys_safe [OF inv assms(2)] by (simp add: safe_keys_def chained_def)
  from get_keys_loop_total [OF this, of regexec keyslen "([], 0, 0)"] obtain buf reallen nkey where
    "get_keys_loop kv regexec keyslen (concat (hash_heads kv)) ([], 0, 0) = Some (buf, reallen, nkey)" by auto
  with Some h show thesis by (intro that) (auto simp: priskv_get_keys_def all_chains_def split: if_splits)
qed

end
