(* ===== verification/Rdma_Run.thy ===== *)
theory Rdma_Run
  imports Rdma_Server KV_Good "HOL-Library.Multiset"
begin

text \<open>
  Runs of the server without tiering: requests arrive, transfers and responses complete and
  the expire routine runs, in any order, on any number of connections.
\<close>

section \<open>The primitives when the adapter accepts everything\<close>

definition accepts :: "env \<Rightarrow> bool" where
  "accepts env \<longleftrightarrow> (\<forall>q r. e_post_send env q r = 0) \<and> (\<forall>q a. e_post_recv env q a = 0) \<and> e_calloc env
     \<and> e_errno env \<noteq> 0"

definition slot_free :: "priskv_rdma_conn \<Rightarrow> nat \<Rightarrow> bool" where
  "slot_free conn i \<longleftrightarrow> i < length (resp_rmem conn)
     \<and> resp_status (resp_rmem conn ! i) = PRISKV_RDMA_RESPONSE_FREE_STATUS"

lemma scan_responses_finds:
  assumes "n \<le> length resps" "n \<le> 65536" "i \<le> j" "j < n"
    "resp_status (resps ! j) = PRISKV_RDMA_RESPONSE_FREE_STATUS"
  shows "\<exists>k < n. scan_responses resps n i = Some (Some k)
     \<and> resp_status (resps ! k) = PRISKV_RDMA_RESPONSE_FREE_STATUS"
  using assms(3)
proof (induction "j - i" arbitrary: i)
  case 0
  then have "i = j" by simp
  with assms show ?case by (subst scan_responses.simps) auto
next
  case (Suc x)
  show ?case
  proof (cases "resp_status (resps ! i) = PRISKV_RDMA_RESPONSE_FREE_STATUS")
    case True
    with Suc assms show ?thesis by (subst scan_responses.simps) auto
  next
    case False
    with Suc assms have "scan_responses resps n i = scan_responses resps n (i + 1)"
      by (subst scan_responses.simps) auto
    with Suc.hyps(1) [of "i + 1"] Suc.hyps(2) show ?thesis by simp
  qed
qed

definition post_response :: "nat \<Rightarrow> nat \<Rightarrow> priskv_response \<Rightarrow> priskv_rdma_conn \<Rightarrow> priskv_rdma_conn" where
  "post_response n i resp conn = conn\<lparr>resp_rmem := (resp_rmem conn)[i := resp],
     conn_sq := conn_sq conn @ [Wr_send i resp], conn_resps := n\<rparr>"

abbreviation response :: "nat \<Rightarrow> priskv_resp_status \<Rightarrow> nat \<Rightarrow> priskv_response" where
  "response request_id status len \<equiv>
     \<lparr>resp_request_id = request_id, resp_length = len, resp_status = status_code status\<rparr>"

definition slots_ok :: "priskv_rdma_conn \<Rightarrow> bool" where
  "slots_ok conn \<longleftrightarrow> length (resp_rmem conn) = priskv_rdma_wr_size conn \<and> priskv_rdma_wr_size conn \<le> 65536"

lemma send_response_ok:
  assumes "accepts env" "slots_ok (sv_conns sv c)" "slot_free (sv_conns sv c) j"
  shows "\<exists>i n. slot_free (sv_conns sv c) i \<and> priskv_rdma_send_response env c request_id status len sv =
     Some (0, upd_conn c (post_response n i (response request_id status len)) sv)"
proof -
  let ?conn = "sv_conns sv c"
  from assms obtain i where i: "i < priskv_rdma_wr_size ?conn"
    "scan_responses (resp_rmem ?conn) (priskv_rdma_wr_size ?conn) 0 = Some (Some i)"
    "resp_status (resp_rmem ?conn ! i) = PRISKV_RDMA_RESPONSE_FREE_STATUS"
    using scan_responses_finds [of "priskv_rdma_wr_size ?conn" "resp_rmem ?conn" 0 j]
    by (auto simp: slots_ok_def slot_free_def)
  then have "slot_free ?conn i" using assms(2) by (simp add: slot_free_def slots_ok_def)
  with i assms(1) show ?thesis
    by (intro exI [of _ i] exI [of _ "u64n (conn_resps ?conn + 1)"])
       (simp add: priskv_rdma_send_response_def priskv_rdma_unused_response_def Let_def accepts_def
         post_response_def upd_conn_def)
qed

lemma recv_req_ok:
  assumes "accepts env" "req_rmem (sv_conns sv c) = (buf, n)" "buf \<le> req" "req < buf + n"
  shows "\<exists>ret. priskv_rdma_recv_req env c req sv =
     Some (ret, upd_conn c (\<lambda>conn. conn\<lparr>conn_rq := conn_rq conn @ [req]\<rparr>) sv)"
  using assms by (simp add: priskv_rdma_recv_req_def Let_def accepts_def)

lemma upd_conn_upd_conn [simp]: "upd_conn c f (upd_conn c g sv) = upd_conn c (\<lambda>conn. f (g conn)) sv"
  by (simp add: upd_conn_def)

lemma upd_conn_sel [simp]:
  "sv_kv (upd_conn c f sv) = sv_kv sv" "sv_works (upd_conn c f sv) = sv_works sv"
  "sv_next_work (upd_conn c f sv) = sv_next_work sv"
  "sv_conns (upd_conn c f sv) = (sv_conns sv)(c := f (sv_conns sv c))"
  by (simp_all add: upd_conn_def)

lemma upd_kv_sel [simp]:
  "sv_kv (upd_kv kv sv) = kv" "sv_works (upd_kv kv sv) = sv_works sv"
  "sv_next_work (upd_kv kv sv) = sv_next_work sv" "sv_conns (upd_kv kv sv) = sv_conns sv"
  by (simp_all add: upd_kv_def)

definition start_work :: "nat \<Rightarrow> priskv_rdma_rw_work \<Rightarrow> rdma_wr list \<Rightarrow> server \<Rightarrow> server" where
  "start_work c work rs sv = (upd_conn c (\<lambda>conn. conn\<lparr>conn_sq := conn_sq conn @ map Wr_rdma rs\<rparr>) sv)
     \<lparr>sv_works := (sv_works sv)(sv_next_work sv \<mapsto> work), sv_next_work := sv_next_work sv + 1\<rparr>"

lemma post_wrs_ok:
  assumes "accepts env" "sv_works sv w = Some work" "wk_nsgl work + length rs < 65536"
  shows "post_wrs env c w rs sv = (True,
     (upd_conn c (\<lambda>conn. conn\<lparr>conn_sq := conn_sq conn @ map Wr_rdma rs\<rparr>) sv)
       \<lparr>sv_works := (sv_works sv)(w \<mapsto> work\<lparr>wk_nsgl := wk_nsgl work + length rs\<rparr>)\<rparr>)"
  using assms(2,3)
proof (induction rs arbitrary: sv work)
  case Nil
  then have "(sv_works sv)(w \<mapsto> work) = sv_works sv" by auto
  then show ?case by (simp add: upd_conn_def fun_upd_idem)
next
  case (Cons r rs)
  let ?sv = "upd_work w (\<lambda>work. work\<lparr>wk_nsgl := u16n (wk_nsgl work + 1)\<rparr>)
        (upd_conn c (\<lambda>conn. conn\<lparr>conn_sq := conn_sq conn @ [Wr_rdma r]\<rparr>) sv)"
  have n: "u16n (Suc (wk_nsgl work)) = Suc (wk_nsgl work)" using Cons.prems(2) by (simp add: wrap_simps)
  have w: "sv_works ?sv w = Some (work\<lparr>wk_nsgl := wk_nsgl work + 1\<rparr>)"
    using Cons.prems(1) by (simp add: upd_work_def n)
  have "post_wrs env c w (r # rs) sv = post_wrs env c w rs ?sv" using assms(1) by (simp add: accepts_def)
  also have "\<dots> = (True, (upd_conn c (\<lambda>conn. conn\<lparr>conn_sq := conn_sq conn @ map Wr_rdma (r # rs)\<rparr>) sv)
       \<lparr>sv_works := (sv_works sv)(w \<mapsto> work\<lparr>wk_nsgl := wk_nsgl work + length (r # rs)\<rparr>)\<rparr>)"
    using Cons.prems Cons.IH [OF w] n by (simp add: upd_work_def upd_conn_def fun_upd_def cong: if_cong)
  finally show ?case .
qed

text \<open>The work of a transfer as \<open>priskv_rdma_rw_req\<close> leaves it.\<close>

abbreviation new_work ::
  "nat \<Rightarrow> addr \<Rightarrow> priskv_request \<Rightarrow> mr \<Rightarrow> nat \<Rightarrow> nat \<Rightarrow> bool \<Rightarrow> rw_cb \<Rightarrow> priskv_rdma_rw_work"
where
  "new_work c req rq mr valuelen n defer_resp cb \<equiv>
     \<lparr>wk_conn = c, wk_request_id = rq_request_id rq, wk_req = req, wk_mr = mr, wk_valuelen = valuelen,
      wk_nsgl = n, wk_completed = 0, wk_defer_resp = defer_resp, wk_cb = cb\<rparr>"

lemma rw_req_ok:
  assumes "accepts env" "rs = rw_wrs (sv_next_work sv) is_set mr val 0 valuelen (rq_sgls rq)" "length rs < 65536"
  shows "priskv_rdma_rw_req env c req rq mr val valuelen is_set cb defer_resp sv =
     (0, Some (sv_next_work sv), start_work c (new_work c req rq mr valuelen (length rs) defer_resp cb) rs sv)"
proof -
  let ?w = "sv_next_work sv"
  let ?sv = "sv\<lparr>sv_works := (sv_works sv)(?w \<mapsto> new_work c req rq mr valuelen 0 defer_resp cb), sv_next_work := ?w + 1\<rparr>"
  have "post_wrs env c ?w rs ?sv = (True, start_work c (new_work c req rq mr valuelen (length rs) defer_resp cb) rs sv)"
    using post_wrs_ok [OF assms(1), of ?sv ?w "new_work c req rq mr valuelen 0 defer_resp cb" rs c] assms(3)
    by (simp add: start_work_def upd_conn_def)
  then show ?thesis using assms(1) by (simp add: priskv_rdma_rw_req_def Let_def accepts_def assms(2))
qed

section \<open>The invariant\<close>

definition outstanding :: "priskv_rdma_conn \<Rightarrow> send_wr list" where
  "outstanding conn = drop (conn_done conn) (conn_sq conn)"

fun slot_of :: "send_wr \<Rightarrow> nat list" where
  "slot_of (Wr_send i _) = [i]"
| "slot_of (Wr_rdma _) = []"

fun work_of :: "send_wr \<Rightarrow> nat list" where
  "work_of (Wr_send _ _) = []"
| "work_of (Wr_rdma r) = [wr_work r]"

fun answer_of :: "send_wr \<Rightarrow> nat list" where
  "answer_of (Wr_send _ resp) = [resp_request_id resp]"
| "answer_of (Wr_rdma _) = []"

fun transfer_of :: "nat \<Rightarrow> send_wr \<Rightarrow> rdma_wr list" where
  "transfer_of w (Wr_send _ _) = []"
| "transfer_of w (Wr_rdma r) = (if wr_work r = w then [r] else [])"

text \<open>The slots and the works that the adapter has not completed, the answers given so far and
  the work requests of a work.\<close>

definition out_slots :: "priskv_rdma_conn \<Rightarrow> nat list" where
  "out_slots conn = concat (map slot_of (outstanding conn))"

definition out_works :: "priskv_rdma_conn \<Rightarrow> nat list" where
  "out_works conn = concat (map work_of (outstanding conn))"

definition answers :: "priskv_rdma_conn \<Rightarrow> nat list" where
  "answers conn = concat (map answer_of (conn_sq conn))"

definition transfers :: "nat \<Rightarrow> priskv_rdma_conn \<Rightarrow> rdma_wr list" where
  "transfers w conn = concat (map (transfer_of w) (conn_sq conn))"

definition conn_ok :: "priskv_rdma_conn \<Rightarrow> bool" where
  "conn_ok conn \<longleftrightarrow> slots_ok conn \<and> length (conn_stats conn) = PRISKV_COMMAND_MAX
     \<and> conn_done conn \<le> length (conn_sq conn) \<and> distinct (out_slots conn)
     \<and> set (out_slots conn) = {i. i < length (resp_rmem conn) \<and> \<not> slot_free conn i}
     \<and> (\<forall>a \<in> set (conn_rq conn). fst (req_rmem conn) \<le> a \<and> a < fst (req_rmem conn) + snd (req_rmem conn))
     \<and> 4 * cap_max_sgl (conn_cap conn) < 65536"

definition work_ok :: "(nat \<Rightarrow> priskv_rdma_conn) \<Rightarrow> nat \<Rightarrow> priskv_rdma_rw_work \<Rightarrow> bool" where
  "work_ok conns w work \<longleftrightarrow> wk_nsgl work < 65536 \<and> wk_completed work < wk_nsgl work
     \<and> count_list (out_works (conns (wk_conn work))) w = wk_nsgl work - wk_completed work
     \<and> \<not> wk_defer_resp work \<and> (\<forall>t. wk_cb work \<noteq> Cb_tiering_get t \<and> wk_cb work \<noteq> Cb_tiering_set t)
     \<and> (\<forall>a. wk_mr work = Keys_mr a \<longrightarrow> map_option fst (keys_rmem (conns (wk_conn work))) = Some a)"

definition works_ok :: "server \<Rightarrow> bool" where
  "works_ok sv \<longleftrightarrow>
     (\<forall>w work. sv_works sv w = Some work \<longrightarrow> w < sv_next_work sv \<and> work_ok (sv_conns sv) w work)
     \<and> (\<forall>c. \<forall>w \<in> set (out_works (sv_conns sv c)). \<exists>work. sv_works sv w = Some work \<and> wk_conn work = c)
     \<and> (\<forall>c r. Wr_rdma r \<in> set (conn_sq (sv_conns sv c)) \<longrightarrow> wr_work r < sv_next_work sv)
     \<and> (\<forall>w w' work work'. sv_works sv w = Some work \<longrightarrow> sv_works sv w' = Some work'
          \<longrightarrow> wk_mr work \<noteq> Value_mr \<longrightarrow> wk_mr work' \<noteq> Value_mr \<longrightarrow> wk_conn work = wk_conn work' \<longrightarrow> w = w')"

text \<open>The references the unfinished GETs hold.\<close>

definition getters :: "(nat \<rightharpoonup> priskv_rdma_rw_work) \<Rightarrow> addr \<Rightarrow> nat set" where
  "getters works a = {w. \<exists>work. works w = Some work \<and> wk_cb work = Cb_get_key_end a}"

definition held :: "(nat \<rightharpoonup> priskv_rdma_rw_work) \<Rightarrow> addr \<Rightarrow> nat" where
  "held works a = card (getters works a)"

definition kv_ok :: "server \<Rightarrow> (addr \<Rightarrow> nat) \<Rightarrow> bool" where
  "kv_ok sv h \<longleftrightarrow> kv_good (sv_kv sv) h \<and> small_keys (sv_kv sv) \<and> 2 \<le> bd_size (value_buddy (sv_kv sv))
     \<and> (\<forall>c. key_struct_size + cap_max_key_length (conn_cap (sv_conns sv c)) \<le> slab_size (key_slab (sv_kv sv)))"

text \<open>The transfer of an unfinished GET is the one of the value its node has now.\<close>

definition get_ok :: "server \<Rightarrow> bool" where
  "get_ok sv \<longleftrightarrow> (\<forall>w work a. sv_works sv w = Some work \<longrightarrow> wk_cb work = Cb_get_key_end a \<longrightarrow>
     wk_valuelen work = pk_valuelen (node (sv_kv sv) a)
     \<and> (\<exists>sgls. transfers w (sv_conns sv (wk_conn work)) =
           rw_wrs w False Value_mr (vaddr (sv_kv sv) a) 0 (pk_valuelen (node (sv_kv sv) a)) sgls))"

definition srv_at :: "server \<Rightarrow> (addr \<Rightarrow> nat) \<Rightarrow> bool" where
  "srv_at sv h \<longleftrightarrow> (\<forall>c. conn_ok (sv_conns sv c)) \<and> works_ok sv \<and> kv_ok sv h \<and> get_ok sv"

abbreviation srv_inv :: "server \<Rightarrow> bool" where
  "srv_inv sv \<equiv> srv_at sv (held (sv_works sv))"

text \<open>The requests of a connection that are in transfer.\<close>

definition in_transfer :: "nat \<Rightarrow> (nat \<rightharpoonup> priskv_rdma_rw_work) \<Rightarrow> nat multiset" where
  "in_transfer c works =
     image_mset (\<lambda>w. wk_request_id (the (works w))) (mset_set {w. \<exists>work. works w = Some work \<and> wk_conn work = c})"

section \<open>Steps that keep it\<close>

lemma status_not_free [simp]: "status_code st \<noteq> PRISKV_RDMA_RESPONSE_FREE_STATUS"
  by (cases st) (simp_all add: PRISKV_RDMA_RESPONSE_FREE_STATUS_def)

text \<open>A change of a connection that leaves its send queue, its slots and its KEYS buffer alone.\<close>

definition conn_same :: "priskv_rdma_conn \<Rightarrow> priskv_rdma_conn \<Rightarrow> bool" where
  "conn_same conn conn' \<longleftrightarrow> conn_sq conn' = conn_sq conn \<and> conn_done conn' = conn_done conn
     \<and> resp_rmem conn' = resp_rmem conn \<and> keys_rmem conn' = keys_rmem conn
     \<and> conn_cap conn' = conn_cap conn \<and> req_rmem conn' = req_rmem conn"

lemma conn_same_views:
  assumes "conn_same conn conn'"
  shows "outstanding conn' = outstanding conn" "out_slots conn' = out_slots conn" "out_works conn' = out_works conn"
    "answers conn' = answers conn" "transfers w conn' = transfers w conn"
    "slots_ok conn' = slots_ok conn" "slot_free conn' = slot_free conn"
  using assms by (auto simp: conn_same_def outstanding_def out_slots_def out_works_def answers_def transfers_def
      slots_ok_def slot_free_def priskv_rdma_wr_size_def)

lemma srv_conn_same:
  assumes sv: "srv_at sv h" and same: "conn_same (sv_conns sv c) (f (sv_conns sv c))" and ok: "conn_ok (f (sv_conns sv c))"
  shows "srv_at (upd_conn c f sv) h"
proof -
  let ?sv = "upd_conn c f sv"
  have e: "conn_same (sv_conns sv d) (sv_conns ?sv d)" for d using same by (simp add: conn_same_def)
  note v = conn_same_views [OF e] e [unfolded conn_same_def]
  have "conn_ok (sv_conns ?sv d)" for d using sv ok by (simp add: srv_at_def)
  moreover have "works_ok ?sv" using sv v unfolding srv_at_def works_ok_def work_ok_def by (simp add: v del: upd_conn_sel(4))
  moreover have "kv_ok ?sv h" using sv v unfolding srv_at_def kv_ok_def by (simp del: upd_conn_sel(4))
  moreover have "get_ok ?sv" using sv v unfolding srv_at_def get_ok_def by (simp del: upd_conn_sel(4))
  ultimately show ?thesis by (simp add: srv_at_def)
qed

lemma sq_views:
  assumes "conn_done conn \<le> length (conn_sq conn)"
  shows "outstanding (conn\<lparr>conn_sq := conn_sq conn @ xs\<rparr>) = outstanding conn @ xs"
    "out_slots (conn\<lparr>conn_sq := conn_sq conn @ xs\<rparr>) = out_slots conn @ concat (map slot_of xs)"
    "out_works (conn\<lparr>conn_sq := conn_sq conn @ xs\<rparr>) = out_works conn @ concat (map work_of xs)"
    "answers (conn\<lparr>conn_sq := conn_sq conn @ xs\<rparr>) = answers conn @ concat (map answer_of xs)"
    "transfers w (conn\<lparr>conn_sq := conn_sq conn @ xs\<rparr>) = transfers w conn @ concat (map (transfer_of w) xs)"
  using assms by (simp_all add: outstanding_def out_slots_def out_works_def answers_def transfers_def)

lemma response_views:
  assumes "conn_done conn \<le> length (conn_sq conn)"
  shows "out_slots (post_response n i resp conn) = out_slots conn @ [i]"
    "out_works (post_response n i resp conn) = out_works conn"
    "answers (post_response n i resp conn) = answers conn @ [resp_request_id resp]"
    "transfers w (post_response n i resp conn) = transfers w conn"
  using sq_views [OF assms, where xs = "[Wr_send i resp]"]
  by (simp_all add: post_response_def out_slots_def out_works_def answers_def transfers_def outstanding_def)

lemma conn_ok_response:
  assumes ok: "conn_ok conn" and free: "slot_free conn i"
  shows "conn_ok (post_response n i (response request_id status len) conn)" (is "conn_ok ?conn")
proof -
  note v = response_views [where conn = conn and n = n and i = i and resp = "response request_id status len"]
  from ok have d: "conn_done conn \<le> length (conn_sq conn)" by (simp add: conn_ok_def)
  have i: "i < length (resp_rmem conn)" "i \<notin> set (out_slots conn)" using ok free by (auto simp: conn_ok_def slot_free_def)
  have f: "slot_free ?conn j \<longleftrightarrow> slot_free conn j \<and> j \<noteq> i" for j
    using i(1) by (cases "j = i") (simp_all add: slot_free_def post_response_def)
  have s: "set (out_slots ?conn) = {j. j < length (resp_rmem ?conn) \<and> \<not> slot_free ?conn j}"
    using ok i v(1) [OF d] unfolding f conn_ok_def by (auto simp: post_response_def)
  have "slots_ok ?conn" using ok by (simp add: conn_ok_def slots_ok_def post_response_def priskv_rdma_wr_size_def)
  with ok i s v(1) [OF d] d show ?thesis unfolding conn_ok_def by (simp add: post_response_def)
qed

lemma srv_response:
  assumes sv: "srv_at sv h" and free: "slot_free (sv_conns sv c) i"
  shows "srv_at (upd_conn c (post_response n i (response request_id status len)) sv) h"
proof -
  let ?f = "post_response n i (response request_id status len)" and ?sv = "upd_conn c (post_response n i (response request_id status len)) sv"
  have ok: "conn_ok (sv_conns sv d)" for d using sv by (simp add: srv_at_def)
  have d: "conn_done (sv_conns sv c) \<le> length (conn_sq (sv_conns sv c))" using ok [of c] by (simp add: conn_ok_def)
  have e: "out_works (sv_conns ?sv b) = out_works (sv_conns sv b)" "transfers w (sv_conns ?sv b) = transfers w (sv_conns sv b)"
    "keys_rmem (sv_conns ?sv b) = keys_rmem (sv_conns sv b)" "conn_cap (sv_conns ?sv b) = conn_cap (sv_conns sv b)"
    "Wr_rdma r \<in> set (conn_sq (sv_conns ?sv b)) \<longleftrightarrow> Wr_rdma r \<in> set (conn_sq (sv_conns sv b))" for b w r
    using response_views [OF d] by (simp_all add: post_response_def)
  have "conn_ok (sv_conns ?sv b)" for b using ok conn_ok_response [OF ok free] by simp
  moreover have "works_ok ?sv" using sv e unfolding srv_at_def works_ok_def work_ok_def by (simp del: upd_conn_sel(4))
  moreover have "kv_ok ?sv h" using sv e unfolding srv_at_def kv_ok_def by (simp del: upd_conn_sel(4))
  moreover have "get_ok ?sv" using sv e unfolding srv_at_def get_ok_def by (simp del: upd_conn_sel(4))
  ultimately show ?thesis by (simp add: srv_at_def)
qed

lemma srv_kv:
  assumes sv: "srv_at sv h" and nx: "kv_next (sv_kv sv) h kv h'" and le: "\<And>a. 0 < held (sv_works sv) a \<Longrightarrow> 0 < h a \<and> 0 < h' a"
    and fin: "\<And>a. finite (getters (sv_works sv) a)"
  shows "srv_at (upd_kv kv sv) h'"
proof -
  from nx have k: "kv_good kv h'" "same_shape (sv_kv sv) kv" "held_same (\<lambda>a. min (h a) (h' a)) (sv_kv sv) kv"
    by (simp_all add: kv_next_def)
  have g: "0 < held (sv_works sv) a" if "sv_works sv w = Some work" "wk_cb work = Cb_get_key_end a" for w work a
    using that fin [of a] unfolding held_def getters_def by (auto simp: card_gt_0_iff)
  have "get_ok (upd_kv kv sv)" unfolding get_ok_def upd_kv_sel
  proof (intro allI impI)
    fix w work a assume w: "sv_works sv w = Some work" "wk_cb work = Cb_get_key_end a"
    from le [OF g [OF this]] k(3) have "vaddr kv a = vaddr (sv_kv sv) a" "pk_valuelen (node kv a) = pk_valuelen (node (sv_kv sv) a)"
      by (simp_all add: held_same_def)
    with sv w show "wk_valuelen work = pk_valuelen (node kv a) \<and> (\<exists>sgls. transfers w (sv_conns sv (wk_conn work)) =
        rw_wrs w False Value_mr (vaddr kv a) 0 (pk_valuelen (node kv a)) sgls)" unfolding srv_at_def get_ok_def by metis
  qed
  moreover have "kv_ok (upd_kv kv sv) h'" using sv k(1,2) by (simp add: srv_at_def kv_ok_def same_shape_def small_keys_def)
  moreover have "works_ok (upd_kv kv sv)" using sv by (simp add: srv_at_def works_ok_def)
  ultimately show ?thesis using sv by (simp add: srv_at_def)
qed

text \<open>The works are finitely many.\<close>

lemma works_finite:
  assumes "works_ok sv"
  shows "finite {w. \<exists>work. sv_works sv w = Some work \<and> P work}" "finite (getters (sv_works sv) a)"
    "finite (dom (sv_works sv))" "held (sv_works sv) a \<le> card (dom (sv_works sv))"
proof -
  have "dom (sv_works sv) \<subseteq> {..<sv_next_work sv}" using assms by (auto simp: works_ok_def)
  then show f: "finite (dom (sv_works sv))" using finite_subset by blast
  have "{w. \<exists>work. sv_works sv w = Some work \<and> P work} \<subseteq> dom (sv_works sv)" by auto
  then show "finite {w. \<exists>work. sv_works sv w = Some work \<and> P work}" using f finite_subset by blast
  have g: "getters (sv_works sv) a \<subseteq> dom (sv_works sv)" by (auto simp: getters_def)
  then show "finite (getters (sv_works sv) a)" using f finite_subset by blast
  show "held (sv_works sv) a \<le> card (dom (sv_works sv))" unfolding held_def using g f by (rule card_mono [rotated])
qed

lemma held_add:
  assumes "works w = None" "\<And>a. finite (getters works a)"
  shows "held (works(w \<mapsto> work)) = (case wk_cb work of Cb_get_key_end a \<Rightarrow> (held works)(a := Suc (held works a)) | _ \<Rightarrow> held works)"
proof -
  have "getters (works(w \<mapsto> work)) a = (if wk_cb work = Cb_get_key_end a then insert w (getters works a) else getters works a)"
    and "w \<notin> getters works a" for a
    using assms(1) by (auto simp: getters_def split: if_splits)
  then show ?thesis using assms(2) by (auto simp: held_def fun_eq_iff split: rw_cb.splits)
qed

lemma held_replace:
  assumes "works w = Some work" "wk_cb work' = wk_cb work"
  shows "held (works(w \<mapsto> work')) = held works"
proof -
  have "getters (works(w \<mapsto> work')) a = getters works a" for a using assms by (auto simp: getters_def split: if_splits)
  then show ?thesis by (simp add: held_def fun_eq_iff)
qed

lemma in_transfer_add:
  assumes "works w = None" "finite {w. \<exists>work. works w = Some work \<and> wk_conn work = c}"
  shows "in_transfer c (works(w \<mapsto> work)) =
     (if wk_conn work = c then {#wk_request_id work#} else {#}) + in_transfer c works"
proof -
  let ?S = "{w. \<exists>work. works w = Some work \<and> wk_conn work = c}"
  have S: "{v. \<exists>k. (works(w \<mapsto> work)) v = Some k \<and> wk_conn k = c} = (if wk_conn work = c then insert w ?S else ?S)"
    and w: "w \<notin> ?S" using assms(1) by (auto split: if_splits)
  have "image_mset (\<lambda>v. wk_request_id (the ((works(w \<mapsto> work)) v))) (mset_set ?S) =
      image_mset (\<lambda>v. wk_request_id (the (works v))) (mset_set ?S)"
    using assms(2) w by (intro image_mset_cong) auto
  then show ?thesis using assms(2) w unfolding in_transfer_def S by simp
qed

lemma in_transfer_replace:
  assumes "works w = Some work" "wk_conn work' = wk_conn work" "wk_request_id work' = wk_request_id work"
  shows "in_transfer c (works(w \<mapsto> work')) = in_transfer c works"
proof -
  have "{v. \<exists>k. (works(w \<mapsto> work')) v = Some k \<and> wk_conn k = c} = {v. \<exists>k. works v = Some k \<and> wk_conn k = c}"
    using assms(1,2) by (auto split: if_splits)
  moreover have "wk_request_id (the ((works(w \<mapsto> work')) v)) = wk_request_id (the (works v))" for v using assms by simp
  ultimately show ?thesis by (simp only: in_transfer_def)
qed

lemma start_work_sel [simp]:
  "sv_kv (start_work c work rs sv) = sv_kv sv" "sv_next_work (start_work c work rs sv) = sv_next_work sv + 1"
  "sv_works (start_work c work rs sv) = (sv_works sv)(sv_next_work sv \<mapsto> work)"
  "sv_conns (start_work c work rs sv) = (sv_conns sv)(c := (sv_conns sv c)\<lparr>conn_sq := conn_sq (sv_conns sv c) @ map Wr_rdma rs\<rparr>)"
  by (simp_all add: start_work_def)

lemma of_map_rdma:
  "concat (map slot_of (map Wr_rdma rs)) = []" "concat (map answer_of (map Wr_rdma rs)) = []"
  "concat (map work_of (map Wr_rdma rs)) = map wr_work rs"
  "concat (map (transfer_of w) (map Wr_rdma rs)) = filter (\<lambda>r. wr_work r = w) rs"
  by (induction rs) simp_all

lemma works_fresh: "works_ok sv \<Longrightarrow> sv_works sv (sv_next_work sv) = None"
  unfolding works_ok_def by (metis not_Some_eq order_less_irrefl)

lemma works_unborn:
  assumes "works_ok sv"
  shows "sv_next_work sv \<notin> set (out_works (sv_conns sv c))" "transfers (sv_next_work sv) (sv_conns sv c) = []"
proof -
  have b: "\<And>r. Wr_rdma r \<in> set (conn_sq (sv_conns sv c)) \<Longrightarrow> wr_work r < sv_next_work sv"
    using assms by (simp add: works_ok_def)
  have "transfer_of (sv_next_work sv) x = []" if "x \<in> set (conn_sq (sv_conns sv c))" for x
    by (cases x) (use that b in force)+
  then show "transfers (sv_next_work sv) (sv_conns sv c) = []" by (simp add: transfers_def)
  show "sv_next_work sv \<notin> set (out_works (sv_conns sv c))"
    using assms works_fresh [OF assms] by (force simp: works_ok_def)
qed

lemma count_replicate [simp]: "count_list (replicate n x) x = n"
  by (induction n) simp_all

lemma srv_start:
  assumes sv: "srv_at sv h" and rs: "rs \<noteq> []" "length rs < 65536" "\<forall>r \<in> set rs. wr_work r = sv_next_work sv"
    and work: "work = new_work c req rq mr valuelen (length rs) False cb"
      "\<forall>t. cb \<noteq> Cb_tiering_get t \<and> cb \<noteq> Cb_tiering_set t"
    and keys: "\<And>a. mr = Keys_mr a \<Longrightarrow> map_option fst (keys_rmem (sv_conns sv c)) = Some a
        \<and> (\<forall>w work. sv_works sv w = Some work \<longrightarrow> wk_conn work = c \<longrightarrow> wk_mr work = Value_mr)"
    and get: "\<And>a. cb = Cb_get_key_end a \<Longrightarrow> valuelen = pk_valuelen (node (sv_kv sv) a)
        \<and> (\<exists>sgls. rs = rw_wrs (sv_next_work sv) False Value_mr (vaddr (sv_kv sv) a) 0 (pk_valuelen (node (sv_kv sv) a)) sgls)"
  shows "srv_at (start_work c work rs sv) h"
proof -
  let ?sv = "start_work c work rs sv" and ?n = "sv_next_work sv" and ?conn = "sv_conns sv c"
  let ?conn' = "?conn\<lparr>conn_sq := conn_sq ?conn @ map Wr_rdma rs\<rparr>"
  from sv have ok: "\<And>d. conn_ok (sv_conns sv d)" and wok: "works_ok sv" and kok: "kv_ok sv h" and gok: "get_ok sv"
    by (simp_all add: srv_at_def)
  have d: "conn_done ?conn \<le> length (conn_sq ?conn)" using ok [of c] by (simp add: conn_ok_def)
  note v = sq_views [OF d, where xs = "map Wr_rdma rs", unfolded of_map_rdma]
  have ws: "map wr_work rs = replicate (length rs) ?n" using rs(3) by (induction rs) simp_all
  have cnt: "count_list (out_works (sv_conns ?sv b)) w = count_list (out_works (sv_conns sv b)) w" if "w \<noteq> ?n" for b w
    using that v(3) ws by (simp add: count_list_append count_notin)
  have tr: "transfers w (sv_conns ?sv b) = transfers w (sv_conns sv b)" if "w \<noteq> ?n" for b w
    using that v(5) [of w] rs(3) by (auto simp: filter_empty_conv)
  have new: "count_list (out_works (sv_conns ?sv c)) ?n = length rs" "transfers ?n (sv_conns ?sv c) = rs"
    using v(3) v(5) [of ?n] ws works_unborn [OF wok, of c] rs(3)
    by (simp_all add: count_list_append count_notin filter_id_conv)
  have rest: "keys_rmem (sv_conns ?sv b) = keys_rmem (sv_conns sv b)" "conn_cap (sv_conns ?sv b) = conn_cap (sv_conns sv b)" for b
    by simp_all
  have "conn_ok (sv_conns ?sv b)" for b
  proof -
    have "slot_free ?conn' = slot_free ?conn" "slots_ok ?conn' = slots_ok ?conn"
      by (auto simp: slot_free_def slots_ok_def priskv_rdma_wr_size_def)
    then show ?thesis using ok [of b] ok [of c] v(2) d by (simp add: conn_ok_def)
  qed
  moreover have "kv_ok ?sv h" using kok by (simp add: kv_ok_def)
  moreover have "get_ok ?sv" unfolding get_ok_def
  proof (intro allI impI)
    fix w k a assume k: "sv_works ?sv w = Some k" "wk_cb k = Cb_get_key_end a"
    show "wk_valuelen k = pk_valuelen (node (sv_kv ?sv) a) \<and> (\<exists>sgls. transfers w (sv_conns ?sv (wk_conn k)) =
        rw_wrs w False Value_mr (vaddr (sv_kv ?sv) a) 0 (pk_valuelen (node (sv_kv ?sv) a)) sgls)"
    proof (cases "w = ?n")
      case True
      with k have "k = work" by simp
      with k(2) get [of a] new(2) True show ?thesis unfolding work(1) by simp
    next
      case False
      with k gok tr [OF False] show ?thesis unfolding get_ok_def start_work_sel(1) by simp
    qed
  qed
  moreover have "works_ok ?sv"
  proof -
    have a: "w < sv_next_work ?sv \<and> work_ok (sv_conns ?sv) w k" if "sv_works ?sv w = Some k" for w k
    proof (cases "w = ?n")
      case True
      with that have "k = work" by simp
      then show ?thesis using True new(1) rs work(2) keys unfolding work_ok_def work(1) by (simp add: count_notin)
    next
      case False
      with that have k: "sv_works sv w = Some k" by simp
      with wok have "w < ?n" "work_ok (sv_conns sv) w k" by (simp_all add: works_ok_def)
      with cnt [OF False] rest show ?thesis by (simp add: work_ok_def del: start_work_sel(4))
    qed
    have b: "\<exists>k. sv_works ?sv w = Some k \<and> wk_conn k = b" if "w \<in> set (out_works (sv_conns ?sv b))" for w b
    proof (cases "w = ?n")
      case True
      with that works_unborn(1) [OF wok, of b] have "b = c" by (auto split: if_splits)
      with True show ?thesis unfolding work(1) by simp
    next
      case False
      with that v(3) ws have "w \<in> set (out_works (sv_conns sv b))" by (auto split: if_splits)
      with wok False show ?thesis unfolding works_ok_def by simp
    qed
    have c: "wr_work r < sv_next_work ?sv" if "Wr_rdma r \<in> set (conn_sq (sv_conns ?sv b))" for r b
      using that wok rs(3) unfolding works_ok_def by (force simp: less_Suc_eq split: if_splits)
    have e: "w = w'" if "sv_works ?sv w = Some k" "sv_works ?sv w' = Some k'" "wk_mr k \<noteq> Value_mr" "wk_mr k' \<noteq> Value_mr"
      "wk_conn k = wk_conn k'" for w w' k k'
      using that wok keys unfolding works_ok_def work(1) by (auto split: if_splits) (metis mr.exhaust)+
    from a b c e show ?thesis unfolding works_ok_def by blast
  qed
  ultimately show ?thesis by (simp add: srv_at_def)
qed

section \<open>Completions\<close>

text \<open>The adapter completes the next entry of the send queue.\<close>

definition consume :: "priskv_rdma_conn \<Rightarrow> priskv_rdma_conn" where
  "consume conn = conn\<lparr>conn_done := conn_done conn + 1\<rparr>"

lemma consume_sel [simp]:
  "conn_sq (consume conn) = conn_sq conn" "resp_rmem (consume conn) = resp_rmem conn"
  "keys_rmem (consume conn) = keys_rmem conn" "conn_cap (consume conn) = conn_cap conn"
  "req_rmem (consume conn) = req_rmem conn" "conn_rq (consume conn) = conn_rq conn"
  "conn_stats (consume conn) = conn_stats conn" "conn_done (consume conn) = Suc (conn_done conn)"
  by (simp_all add: consume_def)

lemma consume_views:
  assumes "outstanding conn = x # xs"
  shows "outstanding (consume conn) = xs" "slot_of x @ out_slots (consume conn) = out_slots conn"
    "work_of x @ out_works (consume conn) = out_works conn"
    "answers (consume conn) = answers conn" "transfers w (consume conn) = transfers w conn"
    "slot_free (consume conn) = slot_free conn" "slots_ok (consume conn) = slots_ok conn"
    "Suc (conn_done conn) \<le> length (conn_sq conn)"
proof -
  show o: "outstanding (consume conn) = xs"
    using assms unfolding outstanding_def by (simp add: drop_Suc drop_tl)
  show "Suc (conn_done conn) \<le> length (conn_sq conn)"
    using assms unfolding outstanding_def by (metis drop_eq_Nil2 list.distinct(1) not_less_eq_eq)
  show "slot_of x @ out_slots (consume conn) = out_slots conn" "work_of x @ out_works (consume conn) = out_works conn"
    using assms by (simp_all add: out_slots_def out_works_def o)
qed (auto simp: answers_def transfers_def slot_free_def slots_ok_def priskv_rdma_wr_size_def)

text \<open>A completed response: its slot is free again.\<close>

lemma handle_send_ok:
  assumes sv: "srv_at sv h" and x: "outstanding (sv_conns sv c) = Wr_send i resp # xs"
  shows "\<exists>sv'. priskv_rdma_handle_send c i (upd_conn c consume sv) = Some (0, sv') \<and> srv_at sv' h
     \<and> sv_works sv' = sv_works sv \<and> (\<forall>d. answers (sv_conns sv' d) = answers (sv_conns sv d))"
proof -
  let ?conn = "sv_conns sv c"
  note v = consume_views [OF x]
  from sv have ok: "\<And>d. conn_ok (sv_conns sv d)" by (simp add: srv_at_def)
  have s: "out_slots ?conn = i # out_slots (consume ?conn)" using v(2) by simp
  have q: "distinct (i # out_slots (consume ?conn))"
    "set (i # out_slots (consume ?conn)) = {j. j < length (resp_rmem ?conn) \<and> \<not> slot_free ?conn j}"
    using ok [of c] unfolding conn_ok_def s by blast+
  then have i: "i < length (resp_rmem ?conn)" "\<not> slot_free ?conn i" "i \<notin> set (out_slots (consume ?conn))" by auto
  let ?free = "(resp_rmem ?conn ! i)\<lparr>resp_status := PRISKV_RDMA_RESPONSE_FREE_STATUS\<rparr>"
  let ?conn' = "(consume ?conn)\<lparr>resp_rmem := (resp_rmem ?conn)[i := ?free]\<rparr>"
  let ?sv = "sv\<lparr>sv_conns := (sv_conns sv)(c := ?conn')\<rparr>"
  have run: "priskv_rdma_handle_send c i (upd_conn c consume sv) = Some (0, ?sv)"
    using i by (simp add: priskv_rdma_handle_send_def priskv_rdma_response_free_def slot_free_def upd_conn_def Let_def)
  have vv: "out_slots ?conn' = out_slots (consume ?conn)" "out_works ?conn' = out_works ?conn"
    "answers ?conn' = answers ?conn" "transfers w ?conn' = transfers w ?conn" for w
    using v(3) by (simp_all add: out_slots_def out_works_def answers_def transfers_def outstanding_def)
  have f: "slot_free ?conn' j \<longleftrightarrow> slot_free ?conn j \<or> j = i" for j
    using i(1) by (cases "j = i") (simp_all add: slot_free_def)
  have "conn_ok ?conn'"
  proof -
    have "set (out_slots ?conn') = {j. j < length (resp_rmem ?conn') \<and> \<not> slot_free ?conn' j}"
      using q i unfolding f vv by auto
    moreover have "slots_ok ?conn'" using ok [of c] by (simp add: conn_ok_def slots_ok_def priskv_rdma_wr_size_def)
    moreover have "distinct (out_slots ?conn')" using q(1) unfolding vv by simp
    ultimately show ?thesis using ok [of c] v(8) by (simp add: conn_ok_def)
  qed
  with ok have "conn_ok (sv_conns ?sv d)" for d by simp
  moreover have e: "out_works (sv_conns ?sv b) = out_works (sv_conns sv b)" "transfers w (sv_conns ?sv b) = transfers w (sv_conns sv b)"
    "keys_rmem (sv_conns ?sv b) = keys_rmem (sv_conns sv b)" "conn_cap (sv_conns ?sv b) = conn_cap (sv_conns sv b)"
    "conn_sq (sv_conns ?sv b) = conn_sq (sv_conns sv b)" "answers (sv_conns ?sv b) = answers (sv_conns sv b)" for b w
    using vv by simp_all
  moreover have "works_ok ?sv"
  proof -
    have "sv_works ?sv = sv_works sv" "sv_next_work ?sv = sv_next_work sv" by simp_all
    with sv e show ?thesis unfolding srv_at_def works_ok_def work_ok_def by presburger
  qed
  moreover have "kv_ok ?sv h" using sv e(4) by (simp add: srv_at_def kv_ok_def)
  moreover have "get_ok ?sv"
  proof -
    have "sv_works ?sv = sv_works sv" "sv_kv ?sv = sv_kv sv" by simp_all
    with sv e show ?thesis unfolding srv_at_def get_ok_def by presburger
  qed
  ultimately have "srv_at ?sv h" by (simp add: srv_at_def)
  with run e(6) show ?thesis by (intro exI [of _ ?sv]) simp
qed

text \<open>A completed work request that is not the last of its work.\<close>

lemma srv_progress:
  assumes sv: "srv_at sv h" and x: "outstanding (sv_conns sv c) = Wr_rdma r # xs"
    and work: "sv_works sv (wr_work r) = Some work" "Suc (wk_completed work) < wk_nsgl work"
  shows "srv_at ((upd_conn c consume sv)\<lparr>sv_works := (sv_works sv)(wr_work r \<mapsto> work\<lparr>wk_completed := Suc (wk_completed work)\<rparr>)\<rparr>) h"
    (is "srv_at ?sv h")
proof -
  let ?conn = "sv_conns sv c" and ?w = "wr_work r"
  note v = consume_views [OF x]
  from sv have ok: "\<And>d. conn_ok (sv_conns sv d)" and wok: "works_ok sv" and gok: "get_ok sv" by (simp_all add: srv_at_def)
  have ow: "out_works ?conn = ?w # out_works (consume ?conn)" using v(3) by simp
  with wok work have c: "wk_conn work = c" unfolding works_ok_def by (metis list.set_intros(1) option.inject)
  have "conn_ok (consume ?conn)"
    using ok [of c] v(2) v(8) unfolding conn_ok_def v(6,7) by simp
  with ok have "conn_ok (sv_conns ?sv d)" for d by simp
  moreover have "works_ok ?sv"
  proof -
    have a: "u < sv_next_work ?sv \<and> work_ok (sv_conns ?sv) u k" if "sv_works ?sv u = Some k" for u k
    proof (cases "u = ?w")
      case True
      with that have k: "k = work\<lparr>wk_completed := Suc (wk_completed work)\<rparr>" by simp
      from wok work(1) have "?w < sv_next_work sv" "work_ok (sv_conns sv) ?w work" by (simp_all add: works_ok_def)
      with True c work(2) ow show ?thesis by (auto simp: k work_ok_def)
    next
      case False
      with that wok have "u < sv_next_work sv" "work_ok (sv_conns sv) u k" by (simp_all add: works_ok_def)
      with False ow show ?thesis by (auto simp: work_ok_def)
    qed
    have b: "\<exists>k. sv_works ?sv u = Some k \<and> wk_conn k = d" if "u \<in> set (out_works (sv_conns ?sv d))" for u d
    proof -
      have "u \<in> set (out_works (sv_conns sv d))" using that ow by (auto split: if_splits)
      with wok obtain k where "sv_works sv u = Some k" "wk_conn k = d" unfolding works_ok_def by blast
      with work(1) show ?thesis by (cases "u = ?w") simp_all
    qed
    have e: "u = u'" if "sv_works ?sv u = Some k" "sv_works ?sv u' = Some k'" "wk_mr k \<noteq> Value_mr" "wk_mr k' \<noteq> Value_mr"
      "wk_conn k = wk_conn k'" for u u' k k'
      using that wok work(1) unfolding works_ok_def by (auto split: if_splits)
    have f: "wr_work q < sv_next_work ?sv" if "Wr_rdma q \<in> set (conn_sq (sv_conns ?sv d))" for q d
      using that wok unfolding works_ok_def by (auto split: if_splits)
    from a b e f show ?thesis unfolding works_ok_def by blast
  qed
  moreover have "kv_ok ?sv h" using sv by (simp add: srv_at_def kv_ok_def)
  moreover have "get_ok ?sv" unfolding get_ok_def
  proof (intro allI impI)
    fix u k a assume k: "sv_works ?sv u = Some k" "wk_cb k = Cb_get_key_end a"
    then obtain k0 where k0: "sv_works sv u = Some k0" "wk_cb k0 = Cb_get_key_end a" "wk_valuelen k0 = wk_valuelen k" "wk_conn k0 = wk_conn k"
      using work(1) by (cases "u = ?w") auto
    have "transfers u (sv_conns ?sv d) = transfers u (sv_conns sv d)" for d using v(5) by simp
    with gok k0 show "wk_valuelen k = pk_valuelen (node (sv_kv ?sv) a) \<and> (\<exists>sgls. transfers u (sv_conns ?sv (wk_conn k)) =
        rw_wrs u False Value_mr (vaddr (sv_kv ?sv) a) 0 (pk_valuelen (node (sv_kv ?sv) a)) sgls)"
      unfolding get_ok_def by (simp del: upd_conn_sel(4)) metis
  qed
  ultimately show ?thesis by (simp add: srv_at_def)
qed

text \<open>The last one: the work is gone, and with it its KEYS buffer.\<close>

definition retire :: "nat \<Rightarrow> nat \<Rightarrow> mr \<Rightarrow> server \<Rightarrow> server" where
  "retire c w mr sv = (upd_conn c (\<lambda>conn. (consume conn)\<lparr>keys_rmem := (if mr = Value_mr then keys_rmem conn else None)\<rparr>) sv)
     \<lparr>sv_works := (sv_works sv)(w := None)\<rparr>"

lemma retire_sel [simp]:
  "sv_kv (retire c w mr sv) = sv_kv sv" "sv_next_work (retire c w mr sv) = sv_next_work sv"
  "sv_works (retire c w mr sv) = (sv_works sv)(w := None)"
  by (simp_all add: retire_def)

lemma srv_retire:
  assumes sv: "srv_at sv h" and x: "outstanding (sv_conns sv c) = Wr_rdma r # xs"
    and work: "sv_works sv (wr_work r) = Some work" "Suc (wk_completed work) = wk_nsgl work"
  shows "srv_at (retire c (wr_work r) (wk_mr work) sv) h" (is "srv_at ?sv h")
proof -
  let ?conn = "sv_conns sv c" and ?w = "wr_work r"
  let ?conn' = "(consume ?conn)\<lparr>keys_rmem := (if wk_mr work = Value_mr then keys_rmem ?conn else None)\<rparr>"
  note v = consume_views [OF x]
  from sv have ok: "\<And>d. conn_ok (sv_conns sv d)" and wok: "works_ok sv" and gok: "get_ok sv" by (simp_all add: srv_at_def)
  have cs: "sv_conns ?sv = (sv_conns sv)(c := ?conn')" by (simp add: retire_def)
  have vv: "out_works ?conn' = out_works (consume ?conn)" "out_slots ?conn' = out_slots (consume ?conn)"
    "transfers u ?conn' = transfers u ?conn" "slot_free ?conn' = slot_free ?conn" "slots_ok ?conn' = slots_ok ?conn" for u
    using v(5) by (auto simp: out_works_def out_slots_def transfers_def outstanding_def slot_free_def slots_ok_def priskv_rdma_wr_size_def)
  have ow: "out_works ?conn = ?w # out_works ?conn'" using v(3) by (simp add: vv)
  with wok work have c: "wk_conn work = c" unfolding works_ok_def by (metis list.set_intros(1) option.inject)
  from wok work(1) have wk: "work_ok (sv_conns sv) ?w work" by (simp add: works_ok_def)
  then have "Suc (count_list (out_works ?conn') ?w) = wk_nsgl work - wk_completed work"
    using ow c by (auto simp: work_ok_def)
  with work(2) have "count_list (out_works ?conn') ?w = 0" by linarith
  then have last: "?w \<notin> set (out_works ?conn')" by (simp only: count_list_0_iff) simp
  have "conn_ok ?conn'" using ok [of c] v(2) v(8) unfolding conn_ok_def vv by simp
  with ok have "conn_ok (sv_conns ?sv d)" for d by (simp add: cs)
  moreover have "works_ok ?sv"
  proof -
    have a: "u < sv_next_work ?sv \<and> work_ok (sv_conns ?sv) u k" if "sv_works ?sv u = Some k" for u k
    proof -
      from that have u: "u \<noteq> ?w" "sv_works sv u = Some k" by (auto split: if_splits)
      with wok have k: "u < sv_next_work sv" "work_ok (sv_conns sv) u k" by (simp_all add: works_ok_def)
      have "wk_mr work \<noteq> Value_mr \<Longrightarrow> wk_conn k = c \<Longrightarrow> wk_mr k = Value_mr"
        using wok u work(1) c unfolding works_ok_def by metis
      with k u(1) ow show ?thesis by (auto simp: work_ok_def cs)
    qed
    have b: "\<exists>k. sv_works ?sv u = Some k \<and> wk_conn k = d" if "u \<in> set (out_works (sv_conns ?sv d))" for u d
    proof -
      have u: "u \<in> set (out_works (sv_conns sv d))" using that ow by (auto simp: cs split: if_splits)
      with wok obtain k where k: "sv_works sv u = Some k" "wk_conn k = d" unfolding works_ok_def by blast
      have "u \<noteq> ?w" using that last k work(1) c by (auto simp: cs split: if_splits)
      with k show ?thesis by simp
    qed
    have e: "u = u'" if "sv_works ?sv u = Some k" "sv_works ?sv u' = Some k'" "wk_mr k \<noteq> Value_mr" "wk_mr k' \<noteq> Value_mr"
      "wk_conn k = wk_conn k'" for u u' k k'
      using that wok unfolding works_ok_def by (auto split: if_splits)
    have f: "wr_work q < sv_next_work ?sv" if "Wr_rdma q \<in> set (conn_sq (sv_conns ?sv d))" for q d
      using that wok unfolding works_ok_def cs by (auto split: if_splits)
    from a b e f show ?thesis unfolding works_ok_def by blast
  qed
  moreover have "kv_ok ?sv h" using sv by (simp add: srv_at_def kv_ok_def cs)
  moreover have "get_ok ?sv"
  proof -
    have "transfers u (sv_conns ?sv d) = transfers u (sv_conns sv d)" for d u using vv(3) by (simp add: cs)
    with gok show ?thesis unfolding get_ok_def by simp
  qed
  ultimately show ?thesis by (simp add: srv_at_def)
qed

lemma out_work:
  assumes "works_ok sv" "outstanding (sv_conns sv c) = Wr_rdma r # xs"
  shows "\<exists>work. sv_works sv (wr_work r) = Some work \<and> wk_conn work = c \<and> work_ok (sv_conns sv) (wr_work r) work"
proof -
  have "wr_work r \<in> set (out_works (sv_conns sv c))" using consume_views(3) [OF assms(2)] by (metis in_set_conv_decomp append_Nil work_of.simps(2) append_Cons)
  with assms(1) obtain work where "sv_works sv (wr_work r) = Some work" "wk_conn work = c" unfolding works_ok_def by blast
  with assms(1) show ?thesis by (auto simp: works_ok_def)
qed

lemma getters_sub: "getters (works(w := None)) a \<subseteq> getters works a"
  by (auto simp: getters_def split: if_splits)

lemma held_remove:
  assumes "sv_works sv w = Some work" "works_ok sv"
  shows "held (sv_works sv) = (case wk_cb work of
     Cb_get_key_end a \<Rightarrow> (held ((sv_works sv)(w := None)))(a := Suc (held ((sv_works sv)(w := None)) a))
   | _ \<Rightarrow> held ((sv_works sv)(w := None)))"
proof -
  have "finite (getters ((sv_works sv)(w := None)) a)" for a
    by (rule finite_subset [OF getters_sub works_finite(2) [OF assms(2)]])
  from held_add [of "(sv_works sv)(w := None)" w work, OF _ this] assms(1) show ?thesis
    by (simp add: fun_upd_idem)
qed

text \<open>The callback of a finished work gives back what the work held.\<close>

lemma run_cb_ok:
  assumes sv: "srv_inv sv" and work: "sv_works sv w = Some work"
    and cb: "\<forall>t. wk_cb work \<noteq> Cb_tiering_get t \<and> wk_cb work \<noteq> Cb_tiering_set t"
  shows "\<exists>kv. (\<forall>sv0. sv_kv sv0 = sv_kv sv \<longrightarrow> run_cb env (wk_cb work) sv0 = Some (upd_kv kv sv0))
     \<and> kv_next (sv_kv sv) (held (sv_works sv)) kv (held ((sv_works sv)(w := None)))"
proof -
  from sv have good: "kv_good (sv_kv sv) (held (sv_works sv))" and wok: "works_ok sv" by (simp_all add: srv_at_def kv_ok_def)
  have refl: "kv_next (sv_kv sv) (held (sv_works sv)) (sv_kv sv) (held (sv_works sv))" using good by (simp add: kv_next_def)
  note h = held_remove [OF work wok]
  have id: "upd_kv (sv_kv sv0) sv0 = sv0" for sv0 by (simp add: upd_kv_def)
  show ?thesis
  proof (cases "wk_cb work")
    case Cb_none
    then have "held ((sv_works sv)(w := None)) = held (sv_works sv)" using h by simp
    then show ?thesis using refl Cb_none id by (intro exI [of _ "sv_kv sv"]) (metis run_cb.simps(1))
  next
    case (Cb_get_key_end a)
    let ?h = "held (sv_works sv)"
    from h Cb_get_key_end have e: "?h = (held ((sv_works sv)(w := None)))(a := Suc (held ((sv_works sv)(w := None)) a))" by simp
    have e': "held ((sv_works sv)(w := None)) = ?h(a := ?h a - 1)" by (simp add: e)
    have "0 < ?h a" by (subst e) simp
    from good_get_end [OF good this] obtain kv where "priskv_get_key_end (sv_kv sv) (Some a) = Some kv"
      "kv_next (sv_kv sv) ?h kv (?h(a := ?h a - 1))" by blast
    then show ?thesis unfolding e' Cb_get_key_end by (intro exI [of _ kv]) simp
  next
    case (Cb_set_key_end a)
    then have "held ((sv_works sv)(w := None)) = held (sv_works sv)" using h by simp
    then show ?thesis unfolding Cb_set_key_end using good_set_end [OF good, of a]
      by (intro exI [of _ "priskv_set_key_end (sv_kv sv) (Some a)"]) simp
  qed (use cb in auto)
qed

text \<open>What a step does to the accounts: the requests answered or in transfer.\<close>

definition account :: "nat \<Rightarrow> server \<Rightarrow> nat multiset" where
  "account c sv = mset (answers (sv_conns sv c)) + in_transfer c (sv_works sv)"

lemma post_keys_commute:
  "(post_response m i resp conn)\<lparr>keys_rmem := k\<rparr> = post_response m i resp (conn\<lparr>keys_rmem := k\<rparr>)"
  by (cases conn) (simp add: post_response_def)

lemma handle_rw_last:
  assumes sv: "srv_inv sv" and x: "outstanding (sv_conns sv c) = Wr_rdma r # xs" and env: "accepts env"
    and j: "slot_free (sv_conns sv c) j" and work: "sv_works sv (wr_work r) = Some work" "Suc (wk_completed work) = wk_nsgl work"
    and wk: "wk_conn work = c" "work_ok (sv_conns sv) (wr_work r) work"
  shows "\<exists>sv'. priskv_rdma_handle_rw env (wr_work r) (upd_conn c consume sv) = Some (0, sv') \<and> srv_inv sv'
     \<and> (\<forall>d. account d sv' = account d sv)"
proof -
  let ?w = "wr_work r" and ?conn = "sv_conns sv c"
  note v = consume_views [OF x]
  from sv have ok: "conn_ok ?conn" and wok: "works_ok sv" by (simp_all add: srv_at_def)
  have n: "u16n (Suc (wk_completed work)) = Suc (wk_completed work)" using wk(2) by (simp add: work_ok_def wrap_simps)
  let ?work = "work\<lparr>wk_completed := Suc (wk_completed work)\<rparr>"
  let ?sv1 = "(upd_conn c consume sv)\<lparr>sv_works := (sv_works sv)(?w \<mapsto> ?work)\<rparr>"
  from run_cb_ok [OF sv work(1), of env] wk(2) obtain kv where kv: "run_cb env (wk_cb work) ?sv1 = Some (upd_kv kv ?sv1)"
    "kv_next (sv_kv sv) (held (sv_works sv)) kv (held ((sv_works sv)(?w := None)))" by (auto simp: work_ok_def)
  have c1: "sv_conns (upd_kv kv ?sv1) c = consume ?conn" by simp
  have "slots_ok (sv_conns (upd_kv kv ?sv1) c)" "slot_free (sv_conns (upd_kv kv ?sv1) c) j"
    using ok j unfolding c1 v(6,7) by (simp_all add: conn_ok_def)
  from send_response_ok [OF env this, of "wk_request_id work" PRISKV_RESP_STATUS_OK "wk_valuelen work"] obtain i m where
    i: "slot_free ?conn i" "priskv_rdma_send_response env c (wk_request_id work) PRISKV_RESP_STATUS_OK (wk_valuelen work) (upd_kv kv ?sv1) =
      Some (0, upd_conn c (post_response m i (response (wk_request_id work) PRISKV_RESP_STATUS_OK (wk_valuelen work))) (upd_kv kv ?sv1))"
    unfolding c1 v(6) by blast
  let ?post = "post_response m i (response (wk_request_id work) PRISKV_RESP_STATUS_OK (wk_valuelen work))"
  let ?sv' = "upd_conn c ?post (upd_kv kv (retire c ?w (wk_mr work) sv))"
  have "priskv_rdma_complete_rw_work env ?w PRISKV_RESP_STATUS_OK (wk_valuelen work) (upd_kv kv ?sv1) = Some (0, ?sv')"
  proof (cases "wk_mr work")
    case Value_mr
    then show ?thesis using i(2) wk(1)
      by (simp add: priskv_rdma_complete_rw_work_def retire_def upd_conn_def upd_kv_def post_response_def consume_def)
  next
    case (Keys_mr a)
    with wk have "map_option fst (keys_rmem ?conn) = Some a" by (simp add: work_ok_def)
    moreover have "(priskv_rdma_mem_free c (upd_conn c ?post (upd_kv kv ?sv1)))\<lparr>sv_works := (sv_works sv)(?w := None)\<rparr> = ?sv'"
      using Keys_mr by (cases sv) (simp add: retire_def upd_conn_def upd_kv_def priskv_rdma_mem_free_def post_keys_commute)
    ultimately show ?thesis using i(2) wk(1) Keys_mr
      by (simp add: priskv_rdma_complete_rw_work_def priskv_rdma_mem_free_def post_response_def)
  qed
  then have run: "priskv_rdma_handle_rw env ?w (upd_conn c consume sv) = Some (0, ?sv')"
    using work kv(1) n wk(2) by (simp add: priskv_rdma_handle_rw_def Let_def work_ok_def)
  have fin: "finite (getters (sv_works (retire c ?w (wk_mr work) sv)) a)" for a
    using finite_subset [OF getters_sub works_finite(2) [OF wok], of ?w a] by simp
  have "srv_at (upd_kv kv (retire c ?w (wk_mr work) sv)) (held ((sv_works sv)(?w := None)))"
    using held_remove [OF work(1) wok] kv(2)
    by (intro srv_kv [OF srv_retire [OF sv x work]]) (use fin in \<open>auto split: rw_cb.splits if_splits\<close>)
  then have "srv_inv ?sv'" using i(1) v(6)
    by (subst upd_conn_sel, intro srv_response) (simp_all add: retire_def slot_free_def)
  moreover have "account d ?sv' = account d sv" for d
  proof -
    have ad: "conn_done (sv_conns (retire c ?w (wk_mr work) sv) c) \<le> length (conn_sq (sv_conns (retire c ?w (wk_mr work) sv) c))"
      using v(8) by (simp add: retire_def)
    have "finite {u. \<exists>k. ((sv_works sv)(?w := None)) u = Some k \<and> wk_conn k = d}"
      by (rule finite_subset [OF _ works_finite(1) [OF wok, of "\<lambda>k. wk_conn k = d"]]) (auto split: if_splits)
    from in_transfer_add [of "(sv_works sv)(?w := None)" ?w d work, OF _ this] work(1)
    have t: "in_transfer d (sv_works sv) = (if wk_conn work = d then {#wk_request_id work#} else {#}) + in_transfer d ((sv_works sv)(?w := None))"
      by (simp add: fun_upd_idem)
    have "answers (sv_conns ?sv' d) = answers (sv_conns sv d) @ (if d = c then [wk_request_id work] else [])"
      using response_views(3) [OF ad] by (auto simp: retire_def answers_def)
    then show ?thesis unfolding account_def t using wk(1) by simp
  qed
  ultimately show ?thesis using run by (intro exI [of _ ?sv']) blast
qed

lemma handle_rw_ok:
  assumes sv: "srv_inv sv" and x: "outstanding (sv_conns sv c) = Wr_rdma r # xs" and env: "accepts env"
    and j: "slot_free (sv_conns sv c) j"
  shows "\<exists>sv'. priskv_rdma_handle_rw env (wr_work r) (upd_conn c consume sv) = Some (0, sv') \<and> srv_inv sv'
     \<and> (\<forall>d. account d sv' = account d sv)"
proof -
  from sv have wok: "works_ok sv" by (simp add: srv_at_def)
  from out_work [OF this x] obtain work where work: "sv_works sv (wr_work r) = Some work" "wk_conn work = c"
    "work_ok (sv_conns sv) (wr_work r) work" by blast
  show ?thesis
  proof (cases "Suc (wk_completed work) = wk_nsgl work")
    case True
    show ?thesis by (rule handle_rw_last [OF sv x env j work(1) True work(2,3)])
  next
    case False
    with work(3) have more: "Suc (wk_completed work) < wk_nsgl work" by (auto simp: work_ok_def)
    let ?work = "work\<lparr>wk_completed := Suc (wk_completed work)\<rparr>"
    let ?sv = "(upd_conn c consume sv)\<lparr>sv_works := (sv_works sv)(wr_work r \<mapsto> ?work)\<rparr>"
    have n: "u16n (Suc (wk_completed work)) = Suc (wk_completed work)" using work(3) by (simp add: work_ok_def wrap_simps)
    have "priskv_rdma_handle_rw env (wr_work r) (upd_conn c consume sv) = Some (0, ?sv)"
      using work(1) more n by (simp add: priskv_rdma_handle_rw_def Let_def)
    moreover have "held (sv_works ?sv) = held (sv_works sv)" 
      using held_replace [of "sv_works sv" "wr_work r" work ?work] work(1) by simp
    with srv_progress [OF sv x work(1) more] have "srv_inv ?sv" by simp
    moreover have "account d ?sv = account d sv" for d
      using consume_views(4) [OF x] in_transfer_replace [of "sv_works sv" "wr_work r" work ?work d] work(1) by (simp add: account_def)
    ultimately show ?thesis by blast
  qed
qed

section \<open>Requests\<close>

text \<open>A response on any path.\<close>

lemma respond_ok:
  assumes sv: "srv_at sv h" and env: "accepts env" and j: "slot_free (sv_conns sv c) j"
  shows "\<exists>sv'. priskv_rdma_send_response env c request_id status len sv = Some (0, sv') \<and> srv_at sv' h
     \<and> sv_works sv' = sv_works sv \<and> sv_kv sv' = sv_kv sv \<and> req_rmem (sv_conns sv' c) = req_rmem (sv_conns sv c)
     \<and> (\<forall>d. account d sv' = account d sv + (if d = c then {#request_id#} else {#}))"
proof -
  from sv have ok: "conn_ok (sv_conns sv c)" by (simp add: srv_at_def)
  then have s: "slots_ok (sv_conns sv c)" "conn_done (sv_conns sv c) \<le> length (conn_sq (sv_conns sv c))" by (simp_all add: conn_ok_def)
  from send_response_ok [OF env s(1) j, of request_id status len] obtain i n where
    i: "slot_free (sv_conns sv c) i" "priskv_rdma_send_response env c request_id status len sv =
      Some (0, upd_conn c (post_response n i (response request_id status len)) sv)" by blast
  let ?sv = "upd_conn c (post_response n i (response request_id status len)) sv"
  have "account d ?sv = account d sv + (if d = c then {#request_id#} else {#})" for d
    using response_views(3) [OF s(2)] by (simp add: account_def)
  with srv_response [OF sv i(1)] i(2) show ?thesis by (intro exI [of _ ?sv]) (simp add: post_response_def)
qed

text \<open>The start of a transfer.\<close>

lemma transfer_ok:
  assumes sv: "srv_at sv h" and env: "accepts env"
    and sgls: "rq_sgls rq \<noteq> []" "4 * length (rq_sgls rq) < 65536" "\<forall>sgl \<in> set (rq_sgls rq). sgl_length sgl < 2 ^ 32"
    and cb: "\<forall>t. cb \<noteq> Cb_tiering_get t \<and> cb \<noteq> Cb_tiering_set t"
    and h: "h = (case cb of Cb_get_key_end a \<Rightarrow> (held (sv_works sv))(a := Suc (held (sv_works sv) a)) | _ \<Rightarrow> held (sv_works sv))"
    and keys: "\<And>a. mr = Keys_mr a \<Longrightarrow> map_option fst (keys_rmem (sv_conns sv c)) = Some a
        \<and> (\<forall>w work. sv_works sv w = Some work \<longrightarrow> wk_conn work = c \<longrightarrow> wk_mr work = Value_mr)"
    and get: "\<And>a. cb = Cb_get_key_end a \<Longrightarrow> mr = Value_mr \<and> \<not> is_set \<and> val = vaddr (sv_kv sv) a
        \<and> valuelen = pk_valuelen (node (sv_kv sv) a)"
  shows "\<exists>w sv'. priskv_rdma_rw_req env c req rq mr val valuelen is_set cb False sv = (0, Some w, sv') \<and> srv_inv sv'
     \<and> req_rmem (sv_conns sv' c) = req_rmem (sv_conns sv c)
     \<and> (\<forall>d. account d sv' = account d sv + (if d = c then {#rq_request_id rq#} else {#}))"
proof -
  let ?n = "sv_next_work sv"
  define rs where "rs = rw_wrs ?n is_set mr val 0 valuelen (rq_sgls rq)"
  let ?work = "new_work c req rq mr valuelen (length rs) False cb"
  have wok: "works_ok sv" using sv by (simp add: srv_at_def)
  have len: "length rs < 65536" "rs \<noteq> []"
    using rw_wrs_count [OF sgls(3), of ?n is_set mr val 0 valuelen] sgls(1,2) unfolding rs_def [symmetric] by auto
  have ids: "\<forall>r \<in> set rs. wr_work r = ?n" unfolding rs_def using rw_wrs_inside by blast
  have "srv_at (start_work c ?work rs sv) h"
    by (rule srv_start [OF sv len(2,1) ids refl cb keys]) (use get rs_def in \<open>auto\<close>)
  moreover have "held (sv_works (start_work c ?work rs sv)) = h"
    using held_add [OF works_fresh [OF wok] works_finite(2) [OF wok], of ?work] h by simp
  ultimately have inv: "srv_inv (start_work c ?work rs sv)" by simp
  have "account d (start_work c ?work rs sv) = account d sv + (if d = c then {#rq_request_id rq#} else {#})" for d
  proof -
    have "conn_done (sv_conns sv c) \<le> length (conn_sq (sv_conns sv c))" using sv by (simp add: srv_at_def conn_ok_def)
    note v = sq_views(4) [OF this, of "map Wr_rdma rs", unfolded of_map_rdma]
    show ?thesis using v in_transfer_add [OF works_fresh [OF wok] works_finite(1) [OF wok], of d ?work]
      by (auto simp: account_def)
  qed
  with inv rw_req_ok [OF env rs_def len(1), of c req cb False] show ?thesis by auto
qed

text \<open>The environment and the state in which a request is handled, and a request that passed the
  checks of the header.\<close>

definition ready :: "env \<Rightarrow> nat \<Rightarrow> server \<Rightarrow> bool" where
  "ready env c sv \<longleftrightarrow> accepts env \<and> \<not> e_tiering env \<and> (\<exists>j. slot_free (sv_conns sv c) j)
     \<and> card (dom (sv_works sv)) < 2 ^ 32 - 2"

definition passed :: "priskv_request \<Rightarrow> priskv_rdma_conn_cap \<Rightarrow> bool" where
  "passed rq cap \<longleftrightarrow> length (rq_sgls rq) \<le> cap_max_sgl cap \<and> length (rq_key rq) \<le> cap_max_key_length cap
     \<and> (\<forall>sgl \<in> set (rq_sgls rq). sgl_length sgl < 2 ^ 32)"

text \<open>What handling a request comes to: the request is answered, or in transfer.\<close>

definition recv_post :: "nat \<Rightarrow> nat \<Rightarrow> server \<Rightarrow> outcome \<Rightarrow> bool" where
  "recv_post c request_id sv r \<longleftrightarrow> (\<exists>ret bytes sv'. r = Some (ret, False, bytes, sv') \<and> srv_inv sv'
     \<and> req_rmem (sv_conns sv' c) = req_rmem (sv_conns sv c)
     \<and> (\<forall>d. account d sv' = account d sv + (if d = c then {#request_id#} else {#})))"

lemma account_upd_kv [simp]: "account d (upd_kv kv sv) = account d sv"
  by (simp add: account_def)

lemma ready_room: "srv_inv sv \<Longrightarrow> ready env c sv \<Longrightarrow> ref_room kv (held (sv_works sv))"
  using works_finite(4) [of sv] unfolding ref_room_def ready_def srv_at_def by (meson le_less_trans)

lemma srv_kv_inv:
  assumes "srv_inv sv" "kv_next (sv_kv sv) (held (sv_works sv)) kv (held (sv_works sv))"
  shows "srv_inv (upd_kv kv sv)"
  using srv_kv [OF assms] works_finite(2) assms(1) by (simp add: srv_at_def)

lemma answered_ok:
  assumes "srv_inv sv" "ready env c sv"
  shows "recv_post c (rq_request_id rq) sv (answered env c rq status len sv)"
proof -
  from assms(2) obtain j where env: "accepts env" "slot_free (sv_conns sv c) j" by (auto simp: ready_def)
  from respond_ok [OF assms(1) env, of "rq_request_id rq" status len] obtain sv' where
    "priskv_rdma_send_response env c (rq_request_id rq) status len sv = Some (0, sv')" "srv_at sv' (held (sv_works sv))"
    "sv_works sv' = sv_works sv" "req_rmem (sv_conns sv' c) = req_rmem (sv_conns sv c)"
    "\<forall>d. account d sv' = account d sv + (if d = c then {#rq_request_id rq#} else {#})" by blast
  then show ?thesis by (simp add: recv_post_def answered_def)
qed

lemma answered_kv_ok:
  assumes "srv_inv sv" "ready env c sv" "kv_next (sv_kv sv) (held (sv_works sv)) kv (held (sv_works sv))"
  shows "recv_post c (rq_request_id rq) sv (answered env c rq status len (upd_kv kv sv))"
  using answered_ok [OF srv_kv_inv [OF assms(1,3)], of env c rq status len] assms(2)
  by (simp add: recv_post_def ready_def)

text \<open>A response while the GET holds its node, and the end of the GET.\<close>

lemma respond_and_end:
  assumes sv: "srv_inv sv" and rdy: "ready env c sv"
    and nx: "kv_next (sv_kv sv) (held (sv_works sv)) kv ((held (sv_works sv))(a := Suc (held (sv_works sv) a)))"
  shows "\<exists>sv2 kv'. priskv_rdma_send_response env c request_id status len (upd_kv kv sv) = Some (0, sv2)
     \<and> priskv_get_key_end (sv_kv sv2) (Some a) = Some kv' \<and> srv_inv (upd_kv kv' sv2)
     \<and> req_rmem (sv_conns sv2 c) = req_rmem (sv_conns sv c)
     \<and> (\<forall>d. account d sv2 = account d sv + (if d = c then {#request_id#} else {#}))"
proof -
  let ?h = "held (sv_works sv)" let ?h1 = "?h(a := Suc (?h a))"
  from rdy obtain j where env: "accepts env" "slot_free (sv_conns sv c) j" by (auto simp: ready_def)
  have fin: "finite (getters (sv_works sv) b)" for b using works_finite(2) sv by (simp add: srv_at_def)
  have at: "srv_at (upd_kv kv sv) ?h1" by (rule srv_kv [OF sv nx]) (use fin in auto)
  from respond_ok [OF at env(1), of c j request_id status len] env(2) obtain sv2 where
    s: "priskv_rdma_send_response env c request_id status len (upd_kv kv sv) = Some (0, sv2)" "srv_at sv2 ?h1"
      "sv_works sv2 = sv_works sv" "sv_kv sv2 = kv" "req_rmem (sv_conns sv2 c) = req_rmem (sv_conns sv c)"
      "\<forall>d. account d sv2 = account d sv + (if d = c then {#request_id#} else {#})" by auto
  have good: "kv_good (sv_kv sv2) ?h1" using s(2) by (simp add: srv_at_def kv_ok_def)
  from good_get_end [OF this, of a] obtain kv' where e: "priskv_get_key_end (sv_kv sv2) (Some a) = Some kv'"
    "kv_next (sv_kv sv2) ?h1 kv' ?h" by auto
  have "srv_at (upd_kv kv' sv2) ?h" by (rule srv_kv [OF s(2) e(2)]) (use s(3) fin in auto)
  with s e show ?thesis by (intro exI [of _ sv2] exI [of _ kv']) simp
qed

lemma recv_test_ok:
  assumes sv: "srv_inv sv" and rdy: "ready env c sv"
  shows "recv_post c (rq_request_id rq) sv (recv_test env c req rq sv)"
proof -
  have good: "kv_good (sv_kv sv) (held (sv_works sv))" using sv by (simp add: srv_at_def kv_ok_def)
  have nt: "\<not> e_tiering env" using rdy by (simp add: ready_def)
  show ?thesis
  proof (rule good_get [OF good ready_room [OF sv rdy], of "e_now env" "rq_key rq"])
    fix st kv' assume g: "priskv_get_key (sv_kv sv) (e_now env) (rq_key rq) = Some ((st, None, None), kv')"
      "kv_next (sv_kv sv) (held (sv_works sv)) kv' (held (sv_works sv))"
    from answered_kv_ok [OF sv rdy g(2), of rq st 0] show ?thesis using g(1) nt
      by (auto simp: recv_post_def recv_test_def answered_def priskv_get_key_end_def upd_kv_def)
  next
    fix a kv' assume g: "priskv_get_key (sv_kv sv) (e_now env) (rq_key rq) = Some ((PRISKV_RESP_STATUS_KEY_UPDATING, None, Some a), kv')"
      "kv_next (sv_kv sv) (held (sv_works sv)) kv' ((held (sv_works sv))(a := Suc (held (sv_works sv) a)))"
    from respond_and_end [OF sv rdy g(2), of "rq_request_id rq" PRISKV_RESP_STATUS_KEY_UPDATING 0] show ?thesis
      using g(1) nt by (auto simp: recv_post_def recv_test_def)
  next
    fix v n a kv' assume g: "priskv_get_key (sv_kv sv) (e_now env) (rq_key rq) = Some ((PRISKV_RESP_STATUS_OK, Some (v, n), Some a), kv')"
      "kv_next (sv_kv sv) (held (sv_works sv)) kv' ((held (sv_works sv))(a := Suc (held (sv_works sv) a)))"
    from respond_and_end [OF sv rdy g(2), of "rq_request_id rq" PRISKV_RESP_STATUS_OK n] show ?thesis
      using g(1) nt by (auto simp: recv_post_def recv_test_def)
  qed
qed

lemma sgls_nonempty: "0 < priskv_sgl_size_from_be sgls \<Longrightarrow> sgls \<noteq> []"
  by (auto simp: priskv_sgl_size_from_be_def)

lemma recv_get_ok:
  assumes sv: "srv_inv sv" and rdy: "ready env c sv" and rq: "passed rq (conn_cap (sv_conns sv c))"
  shows "recv_post c (rq_request_id rq) sv (recv_get env c req rq sv)"
proof -
  let ?h = "held (sv_works sv)"
  have good: "kv_good (sv_kv sv) ?h" using sv by (simp add: srv_at_def kv_ok_def)
  have nt: "\<not> e_tiering env" "accepts env" using rdy by (simp_all add: ready_def)
  have small: "4 * length (rq_sgls rq) < 65536" "\<forall>sgl \<in> set (rq_sgls rq). sgl_length sgl < 2 ^ 32"
    using sv rq by (auto simp: srv_at_def conn_ok_def passed_def) (metis le_less_trans mult_le_mono2)
  show ?thesis
  proof (rule good_get [OF good ready_room [OF sv rdy], of "e_now env" "rq_key rq"])
    fix st kv' assume g: "priskv_get_key (sv_kv sv) (e_now env) (rq_key rq) = Some ((st, None, None), kv')"
      "kv_next (sv_kv sv) ?h kv' ?h"
    from answered_kv_ok [OF sv rdy g(2), of rq st 0] show ?thesis using g(1) nt
      by (auto simp: recv_post_def recv_get_def answered_def priskv_get_key_end_def upd_kv_def Let_def split: priskv_resp_status.splits)
  next
    fix a kv' assume g: "priskv_get_key (sv_kv sv) (e_now env) (rq_key rq) = Some ((PRISKV_RESP_STATUS_KEY_UPDATING, None, Some a), kv')"
      "kv_next (sv_kv sv) ?h kv' (?h(a := Suc (?h a)))"
    from respond_and_end [OF sv rdy g(2), of "rq_request_id rq" PRISKV_RESP_STATUS_KEY_UPDATING 0] show ?thesis
      using g(1) nt by (auto simp: recv_post_def recv_get_def Let_def)
  next
    fix v n a kv' assume g: "priskv_get_key (sv_kv sv) (e_now env) (rq_key rq) = Some ((PRISKV_RESP_STATUS_OK, Some (v, n), Some a), kv')"
      "kv_next (sv_kv sv) ?h kv' (?h(a := Suc (?h a)))" "0 < n" "v = vaddr kv' a" "n = pk_valuelen (node kv' a)"
    show ?thesis
    proof (cases "priskv_sgl_size_from_be (rq_sgls rq) < n")
      case True
      with respond_and_end [OF sv rdy g(2), of "rq_request_id rq" PRISKV_RESP_STATUS_VALUE_TOO_BIG n] show ?thesis
        using g(1) nt by (auto simp: recv_post_def recv_get_def Let_def)
    next
      case False
      then have ne: "rq_sgls rq \<noteq> []" using g(3) by (intro sgls_nonempty) simp
      have at: "srv_at (upd_kv kv' sv) (?h(a := Suc (?h a)))"
        by (rule srv_kv [OF sv g(2)]) (use works_finite(2) sv in \<open>auto simp: srv_at_def\<close>)
      have "\<exists>w sv'. priskv_rdma_rw_req env c req rq Value_mr v n False (Cb_get_key_end a) False (upd_kv kv' sv) = (0, Some w, sv') \<and> srv_inv sv'
         \<and> req_rmem (sv_conns sv' c) = req_rmem (sv_conns (upd_kv kv' sv) c)
         \<and> (\<forall>d. account d sv' = account d (upd_kv kv' sv) + (if d = c then {#rq_request_id rq#} else {#}))"
        by (rule transfer_ok [OF at nt(2) ne small]) (use g(4,5) in auto)
      with g(1) nt False show ?thesis by (auto simp: recv_post_def recv_get_def Let_def)
    qed
  qed
qed

lemma sgl_size_less: "priskv_sgl_size_from_be sgls < 2 ^ 32"
  by (cases sgls rule: rev_cases) (simp_all add: priskv_sgl_size_from_be_def)

lemma buddy_serves_small:
  assumes "2 \<le> bd_size b" "0 < n" "n < 2 ^ 32"
  shows "buddy_serves b n"
proof -
  have "(n + bd_size b - 1) div bd_size b \<le> 2 ^ 31"
  proof -
    have "n + bd_size b - 1 < (2 ^ 31 + 1) * bd_size b"
    proof -
      have "n \<le> 2 ^ 31 * bd_size b"
        using assms(1,3) mult_le_mono2 [OF assms(1), of "2 ^ 31"] by simp
      with assms(1,2) show ?thesis by simp
    qed
    then have "(n + bd_size b - 1) div bd_size b < 2 ^ 31 + 1" using assms(1) by (intro less_mult_imp_div_less) simp
    then show ?thesis by simp
  qed
  with assms show ?thesis by (simp add: buddy_serves_def)
qed

lemma passed_small:
  assumes "srv_at sv h" "passed rq (conn_cap (sv_conns sv c))"
  shows "4 * length (rq_sgls rq) < 65536" "\<forall>sgl \<in> set (rq_sgls rq). sgl_length sgl < 2 ^ 32"
    "key_fits (sv_kv sv) (rq_key rq)"
proof -
  show "4 * length (rq_sgls rq) < 65536"
    using assms unfolding srv_at_def conn_ok_def passed_def by (meson le_less_trans mult_le_mono2)
  show "\<forall>sgl \<in> set (rq_sgls rq). sgl_length sgl < 2 ^ 32" using assms(2) by (simp add: passed_def)
  from assms have "key_struct_size + cap_max_key_length (conn_cap (sv_conns sv c)) \<le> slab_size (key_slab (sv_kv sv))"
    by (simp add: srv_at_def kv_ok_def)
  with assms(2) show "key_fits (sv_kv sv) (rq_key rq)" by (simp add: passed_def key_fits_def)
qed

lemma recv_set_ok:
  assumes sv: "srv_inv sv" and rdy: "ready env c sv" and rq: "passed rq (conn_cap (sv_conns sv c))"
  shows "recv_post c (rq_request_id rq) sv (recv_set env c req rq sv)"
proof (cases "priskv_sgl_size_from_be (rq_sgls rq) = 0")
  case True
  then show ?thesis using answered_ok [OF sv rdy] by (simp add: recv_set_def)
next
  case False
  let ?h = "held (sv_works sv)" and ?n = "priskv_sgl_size_from_be (rq_sgls rq)"
  have good: "kv_good (sv_kv sv) ?h" and big: "2 \<le> bd_size (value_buddy (sv_kv sv))" using sv by (simp_all add: srv_at_def kv_ok_def)
  have nt: "\<not> e_tiering env" "accepts env" using rdy by (simp_all add: ready_def)
  note small = passed_small [OF sv rq]
  have serve: "buddy_serves (value_buddy (sv_kv sv)) ?n" using buddy_serves_small [OF big] False sgl_size_less by simp
  show ?thesis
  proof (rule good_set [OF good small(3) serve, of "e_now env" "rq_timeout rq"])
    fix kv' assume g: "priskv_set_key (sv_kv sv) (e_now env) (rq_key rq) ?n (rq_timeout rq) = Some ((PRISKV_RESP_STATUS_NO_MEM, None, None), kv')"
      "kv_next (sv_kv sv) ?h kv' ?h"
    from answered_kv_ok [OF sv rdy g(2), of rq PRISKV_RESP_STATUS_NO_MEM 0] show ?thesis using g(1) nt False
      by (auto simp: recv_post_def recv_set_def answered_def priskv_set_key_end_def upd_kv_def Let_def)
  next
    fix v a kv' assume g: "priskv_set_key (sv_kv sv) (e_now env) (rq_key rq) ?n (rq_timeout rq) = Some ((PRISKV_RESP_STATUS_OK, Some v, Some a), kv')"
      "kv_next (sv_kv sv) ?h kv' ?h"
    have ne: "rq_sgls rq \<noteq> []" using False by (intro sgls_nonempty) simp
    have "\<exists>w sv'. priskv_rdma_rw_req env c req rq Value_mr v ?n True (Cb_set_key_end a) False (upd_kv kv' sv) = (0, Some w, sv') \<and> srv_inv sv'
       \<and> req_rmem (sv_conns sv' c) = req_rmem (sv_conns (upd_kv kv' sv) c)
       \<and> (\<forall>d. account d sv' = account d (upd_kv kv' sv) + (if d = c then {#rq_request_id rq#} else {#}))"
      by (rule transfer_ok [OF srv_kv_inv [OF sv g(2)] nt(2) ne small(1,2)]) auto
    with g(1) nt False show ?thesis by (auto simp: recv_post_def recv_set_def Let_def)
  qed
qed

lemma srv_keys:
  assumes sv: "srv_at sv h" and none: "keys_rmem (sv_conns sv c) = None"
  shows "srv_at (upd_conn c (\<lambda>conn. conn\<lparr>keys_rmem := k\<rparr>) sv) h" (is "srv_at ?sv h")
    and "\<forall>w work. sv_works sv w = Some work \<longrightarrow> wk_conn work = c \<longrightarrow> wk_mr work = Value_mr"
proof -
  from sv have ok: "\<And>d. conn_ok (sv_conns sv d)" and wok: "works_ok sv" by (simp_all add: srv_at_def)
  have "wk_mr work \<noteq> Keys_mr a" if "sv_works sv w = Some work" "wk_conn work = c" for w work a
    using wok that none unfolding works_ok_def work_ok_def by fastforce
  then show v: "\<forall>w work. sv_works sv w = Some work \<longrightarrow> wk_conn work = c \<longrightarrow> wk_mr work = Value_mr" by (metis mr.exhaust)
  let ?conn = "(sv_conns sv c)\<lparr>keys_rmem := k\<rparr>"
  have vv: "out_works ?conn = out_works (sv_conns sv c)" "out_slots ?conn = out_slots (sv_conns sv c)"
    "transfers u ?conn = transfers u (sv_conns sv c)" "slot_free ?conn = slot_free (sv_conns sv c)" "slots_ok ?conn = slots_ok (sv_conns sv c)" for u
    by (auto simp: out_works_def out_slots_def transfers_def outstanding_def slot_free_def slots_ok_def priskv_rdma_wr_size_def)
  have "conn_ok (sv_conns ?sv d)" for d using ok [of d] ok [of c] by (simp add: conn_ok_def vv)
  moreover have e: "out_works (sv_conns ?sv d) = out_works (sv_conns sv d)" "transfers u (sv_conns ?sv d) = transfers u (sv_conns sv d)"
    "conn_sq (sv_conns ?sv d) = conn_sq (sv_conns sv d)" for d u by (simp_all add: vv)
  moreover have "works_ok ?sv"
  proof -
    have "work_ok (sv_conns ?sv) w work" if "sv_works sv w = Some work" for w work
    proof -
      have "work_ok (sv_conns sv) w work" using wok that by (simp add: works_ok_def)
      moreover have "wk_conn work = c \<Longrightarrow> wk_mr work = Value_mr" using v that by blast
      ultimately show ?thesis using e(1) by (auto simp: work_ok_def)
    qed
    then show ?thesis using wok e unfolding works_ok_def by (simp del: upd_conn_sel(4))
  qed
  moreover have "kv_ok ?sv h" using sv by (simp add: srv_at_def kv_ok_def)
  moreover have "get_ok ?sv" using sv e(2) unfolding srv_at_def get_ok_def by (simp del: upd_conn_sel(4))
  ultimately show "srv_at ?sv h" by (simp add: srv_at_def)
qed

lemma recv_post_cong:
  assumes "recv_post c request_id sv1 r" "req_rmem (sv_conns sv1 c) = req_rmem (sv_conns sv c)" "\<And>d. account d sv1 = account d sv"
  shows "recv_post c request_id sv r"
  using assms by (simp add: recv_post_def)

lemma answers_keys [simp]: "answers (conn\<lparr>keys_rmem := k\<rparr>) = answers conn"
  by (simp add: answers_def)

lemma slot_free_keys [simp]: "slot_free (conn\<lparr>keys_rmem := k\<rparr>) = slot_free conn"
  by (auto simp: slot_free_def)

lemma recv_keys_ok:
  assumes sv: "srv_inv sv" and rdy: "ready env c sv" and rq: "passed rq (conn_cap (sv_conns sv c))"
  shows "recv_post c (rq_request_id rq) sv (recv_keys env c req rq sv)"
proof (cases "keys_rmem (sv_conns sv c)")
  case (Some k)
  with answered_ok [OF sv rdy, of rq PRISKV_RESP_STATUS_NO_MEM 0] show ?thesis
    by (auto simp: recv_keys_def recv_post_def answered_def)
next
  case None
  let ?n = "priskv_sgl_size_from_be (rq_sgls rq)"
  have good: "kv_good (sv_kv sv) (held (sv_works sv))" "small_keys (sv_kv sv)" using sv by (simp_all add: srv_at_def kv_ok_def)
  have nt: "accepts env" "e_errno env \<noteq> 0" using rdy by (simp_all add: ready_def accepts_def)
  note small = passed_small [OF sv rq]
  show ?thesis
  proof (cases "snd (priskv_rdma_mem_new env ?n)")
    case none: None
    then obtain ret where "priskv_rdma_mem_new env ?n = (ret, None)" "ret \<noteq> 0"
      using nt(2) by (auto simp: priskv_rdma_mem_new_def ENOMEM_def split: option.splits if_splits)
    with None answered_ok [OF sv rdy] show ?thesis by (simp add: recv_keys_def Let_def)
  next
    case (Some am)
    obtain a mem where am: "am = (a, mem)" by (cases am)
    with Some have new: "priskv_rdma_mem_new env ?n = (0, Some (a, mem))"
      by (auto simp: priskv_rdma_mem_new_def split: option.splits if_splits)
    from good_keys [OF good] obtain st buf n nkey where
      k: "priskv_get_keys (e_regcomp env) (sv_kv sv) (rq_key rq) ?n = Some (st, buf, n, nkey)"
        "st = PRISKV_RESP_STATUS_OK \<longrightarrow> n \<le> ?n" by metis
    let ?k = "\<lambda>conn. conn\<lparr>keys_rmem := Some (a, buf @ drop (length buf) mem)\<rparr>"
    let ?free = "upd_conn c (\<lambda>conn. conn\<lparr>keys_rmem := None\<rparr>) sv"
    have same: "account d (upd_conn c (\<lambda>conn. conn\<lparr>keys_rmem := x\<rparr>) sv) = account d sv" for d x by (simp add: account_def)
    show ?thesis
    proof (cases "st \<noteq> PRISKV_RESP_STATUS_OK \<or> n = 0")
      case True
      have "recv_post c (rq_request_id rq) ?free (answered env c rq st n ?free)"
        using srv_keys(1) [OF sv None, of None] rdy by (intro answered_ok) (simp_all add: ready_def)
      with same have "recv_post c (rq_request_id rq) sv (answered env c rq st n ?free)" by (elim recv_post_cong) simp_all
      with True None new k(1) show ?thesis by (simp add: recv_keys_def Let_def priskv_rdma_mem_free_def)
    next
      case False
      have ne: "rq_sgls rq \<noteq> []" using False k(2) by (intro sgls_nonempty) auto
      have "\<exists>w sv'. priskv_rdma_rw_req env c req rq (Keys_mr a) a n False Cb_none False (upd_conn c ?k sv) = (0, Some w, sv') \<and> srv_inv sv'
         \<and> req_rmem (sv_conns sv' c) = req_rmem (sv_conns (upd_conn c ?k sv) c)
         \<and> (\<forall>d. account d sv' = account d (upd_conn c ?k sv) + (if d = c then {#rq_request_id rq#} else {#}))"
        by (rule transfer_ok [OF srv_keys(1) [OF sv None] nt(1) ne small(1,2)]) (use srv_keys(2) [OF sv None] in auto)
      with False None new k(1) same show ?thesis by (auto simp: recv_keys_def Let_def recv_post_def)
    qed
  qed
qed

lemma recv_others_ok:
  assumes sv: "srv_inv sv" and rdy: "ready env c sv"
  shows "recv_post c (rq_request_id rq) sv (recv_delete env c req rq sv)"
    "recv_post c (rq_request_id rq) sv (recv_expire env c rq sv)"
    "recv_post c (rq_request_id rq) sv (recv_nrkeys env c rq sv)"
    "recv_post c (rq_request_id rq) sv (recv_flush env c rq sv)"
proof -
  have good: "kv_good (sv_kv sv) (held (sv_works sv))" "small_keys (sv_kv sv)" using sv by (simp_all add: srv_at_def kv_ok_def)
  have nt: "\<not> e_tiering env" using rdy by (simp add: ready_def)
  from good_delete [OF good(1), of "e_now env" "rq_key rq"] obtain st kv where
    "priskv_delete_key (sv_kv sv) (e_now env) (rq_key rq) = Some (st, kv)"
    "kv_next (sv_kv sv) (held (sv_works sv)) kv (held (sv_works sv))" by blast
  with answered_kv_ok [OF sv rdy] nt show "recv_post c (rq_request_id rq) sv (recv_delete env c req rq sv)"
    by (simp add: recv_delete_def)
  from good_expire [OF good(1) ready_room [OF sv rdy], of "e_now env" "rq_key rq" "rq_timeout rq"] obtain st kv where
    "priskv_expire_key (sv_kv sv) (e_now env) (rq_key rq) (rq_timeout rq) = Some (st, kv)"
    "kv_next (sv_kv sv) (held (sv_works sv)) kv (held (sv_works sv))" by blast
  with answered_kv_ok [OF sv rdy] show "recv_post c (rq_request_id rq) sv (recv_expire env c rq sv)"
    by (simp add: recv_expire_def)
  from good_keys [OF good] obtain st buf n nkey where
    "priskv_get_keys (e_regcomp env) (sv_kv sv) (rq_key rq) 0 = Some (st, buf, n, nkey)" by metis
  with answered_ok [OF sv rdy] show "recv_post c (rq_request_id rq) sv (recv_nrkeys env c rq sv)"
    by (simp add: recv_nrkeys_def)
  from good_flush [OF good, of "e_regcomp env" "rq_key rq"] obtain st n kv where
    "priskv_flush_keys (e_regcomp env) (sv_kv sv) (rq_key rq) = Some (st, n, kv)"
    "kv_next (sv_kv sv) (held (sv_works sv)) kv (held (sv_works sv))" by blast
  with answered_kv_ok [OF sv rdy] show "recv_post c (rq_request_id rq) sv (recv_flush env c rq sv)"
    by (simp add: recv_flush_def)
qed

lemma recv_command_ok:
  assumes "srv_inv sv" "ready env c sv" "passed rq (conn_cap (sv_conns sv c))" "rq_command rq < PRISKV_COMMAND_MAX"
  shows "recv_post c (rq_request_id rq) sv (recv_command env c req rq sv)"
proof -
  from assms(4) obtain cmd where "command_of (rq_command rq) = Some cmd" by (simp add: command_of_def)
  then show ?thesis
    using recv_get_ok [OF assms(1-3)] recv_set_ok [OF assms(1-3)] recv_test_ok [OF assms(1,2)]
      recv_keys_ok [OF assms(1-3)] recv_others_ok [OF assms(1,2)]
    by (cases cmd) (simp_all add: recv_command_def)
qed

text \<open>The statistics and the receive buffer.\<close>

lemma srv_stats_rq:
  assumes sv: "srv_inv sv" and xs: "length xs = PRISKV_COMMAND_MAX"
    and rq: "\<forall>a \<in> set as. fst (req_rmem (sv_conns sv c)) \<le> a \<and> a < fst (req_rmem (sv_conns sv c)) + snd (req_rmem (sv_conns sv c))"
  shows "srv_inv (upd_conn c (\<lambda>conn. conn\<lparr>conn_stats := xs, conn_rq := as\<rparr>) sv)" (is "srv_inv ?sv")
    "account d (upd_conn c (\<lambda>conn. conn\<lparr>conn_stats := xs, conn_rq := as\<rparr>) sv) = account d sv"
proof -
  let ?f = "\<lambda>conn. conn\<lparr>conn_stats := xs, conn_rq := as\<rparr>"
  have same: "conn_same (sv_conns sv c) (?f (sv_conns sv c))" by (simp add: conn_same_def)
  note v = conn_same_views [OF same]
  have "conn_ok (?f (sv_conns sv c))" using sv xs rq unfolding srv_at_def conn_ok_def v by simp
  from srv_conn_same [where f = ?f, OF sv same this] show "srv_inv ?sv" by simp
  show "account d ?sv = account d sv" using v by (simp add: account_def)
qed

lemma recv_done_ok:
  assumes r: "recv_post c request_id sv r" and env: "accepts env" and cmd: "command < PRISKV_COMMAND_MAX"
    and req: "fst (req_rmem (sv_conns sv c)) \<le> req" "req < fst (req_rmem (sv_conns sv c)) + snd (req_rmem (sv_conns sv c))"
  shows "\<exists>ret sv'. Option.bind r (recv_done env c req command) = Some (ret, sv') \<and> srv_inv sv'
     \<and> (\<forall>d. account d sv' = account d sv + (if d = c then {#request_id#} else {#}))"
proof -
  from r obtain ret bytes sv1 where s: "r = Some (ret, False, bytes, sv1)" "srv_inv sv1"
    "req_rmem (sv_conns sv1 c) = req_rmem (sv_conns sv c)"
    "\<forall>d. account d sv1 = account d sv + (if d = c then {#request_id#} else {#})" by (auto simp: recv_post_def)
  let ?conn = "sv_conns sv1 c"
  define xs where "xs b = (conn_stats ?conn)[command :=
      \<lparr>st_ops = u64n (st_ops (conn_stats ?conn ! command) + 1), st_bytes = u64n (st_bytes (conn_stats ?conn ! command) + b)\<rparr>]" for b
  have ok: "conn_ok ?conn" using s(2) by (simp add: srv_at_def)
  then have xs: "length (xs b) = PRISKV_COMMAND_MAX" for b by (simp add: conn_ok_def xs_def)
  have count: "count_op c command b sv1 = Some (upd_conn c (\<lambda>conn. conn\<lparr>conn_stats := xs b\<rparr>) sv1)" for b
    using ok cmd by (simp add: count_op_def Let_def xs_def conn_ok_def)
  have rqs: "\<forall>a \<in> set (conn_rq ?conn). fst (req_rmem ?conn) \<le> a \<and> a < fst (req_rmem ?conn) + snd (req_rmem ?conn)"
    using ok by (simp add: conn_ok_def)
  show ?thesis
  proof (cases "ret = 0")
    case True
    let ?sv = "upd_conn c (\<lambda>conn. conn\<lparr>conn_stats := xs bytes\<rparr>) sv1"
    obtain buf n where b: "req_rmem (sv_conns ?sv c) = (buf, n)" "buf \<le> req" "req < buf + n"
      using req s(3) by (cases "req_rmem (sv_conns sv c)") auto
    from recv_req_ok [OF env b] obtain k where
      "priskv_rdma_recv_req env c req ?sv = Some (k, upd_conn c (\<lambda>conn. conn\<lparr>conn_rq := conn_rq conn @ [req]\<rparr>) ?sv)" by blast
    then have "Option.bind r (recv_done env c req command) =
        Some (0, upd_conn c (\<lambda>conn. conn\<lparr>conn_stats := xs bytes, conn_rq := conn_rq ?conn @ [req]\<rparr>) sv1)"
      using True count s(1) by (simp add: recv_done_def upd_conn_def)
    moreover have "\<forall>a \<in> set (conn_rq ?conn @ [req]). fst (req_rmem ?conn) \<le> a \<and> a < fst (req_rmem ?conn) + snd (req_rmem ?conn)"
      using rqs req s(3) by simp
    note srv_stats_rq [OF s(2) xs [of bytes] this]
    ultimately show ?thesis using s(4) by auto
  next
    case False
    have "upd_conn c (\<lambda>conn. conn\<lparr>conn_stats := xs 0\<rparr>) sv1 =
        upd_conn c (\<lambda>conn. conn\<lparr>conn_stats := xs 0, conn_rq := conn_rq ?conn\<rparr>) sv1" by (simp add: upd_conn_def)
    with srv_stats_rq [OF s(2) xs [of 0] rqs] False count s show ?thesis by (simp add: recv_done_def)
  qed
qed

lemma be_dec_less: "be_dec bs < 256 ^ length bs"
proof (induction bs)
  case (Cons b bs)
  have u: "unat b < 256" by (rule order.strict_trans2 [OF unsigned_less]) simp
  have "unat b * 256 ^ length bs + be_dec bs < (unat b + 1) * 256 ^ length bs" using Cons by simp
  also have "\<dots> \<le> 256 * 256 ^ length bs" using u by (intro mult_le_mono1) simp
  finally show ?case by (simp add: be_dec_Cons)
qed (simp add: be_dec_def)

lemma get_sgl_length: "sgl_length (get_sgl buf i) < 2 ^ 32"
proof -
  have "256 ^ length (rd off 4 buf) \<le> (256 :: nat) ^ 4" for off by (rule power_increasing) (simp_all add: rd_def)
  then have "be_dec (rd off 4 buf) < 256 ^ 4" for off using be_dec_less order.strict_trans2 by blast
  then show ?thesis by (simp add: get_sgl_def Let_def)
qed

lemma get_request_passed:
  assumes "rq = get_request len buf" "u16n (len - priskv_request_key_off (rq_nsgl rq)) \<le> cap_max_key_length cap"
    "rq_nsgl rq \<le> cap_max_sgl cap"
  shows "passed rq cap"
  using assms(2,3) get_sgl_length by (auto simp: assms(1) passed_def get_request_def Let_def rd_def)

lemma handle_recv_ok:
  assumes sv: "srv_inv sv" and rdy: "ready env c sv" and cmd: "rq_command (get_request len buf) < PRISKV_COMMAND_MAX"
    and req: "fst (req_rmem (sv_conns sv c)) \<le> req" "req < fst (req_rmem (sv_conns sv c)) + snd (req_rmem (sv_conns sv c))"
  shows "\<exists>ret sv'. priskv_rdma_handle_recv env c req buf len sv = Some (ret, sv') \<and> srv_inv sv'
     \<and> (\<forall>d. account d sv' = account d sv + (if d = c then {#rq_request_id (get_request len buf)#} else {#}))"
proof -
  define rq where "rq = get_request len buf"
  let ?off = "priskv_request_key_off (rq_nsgl rq)" and ?cap = "conn_cap (sv_conns sv c)"
  from rdy obtain j where env: "accepts env" "slot_free (sv_conns sv c) j" by (auto simp: ready_def)
  have refused: "\<exists>sv'. refused env c (rq_request_id rq) status sv = Some (- EPROTO, sv') \<and> srv_inv sv'
      \<and> (\<forall>d. account d sv' = account d sv + (if d = c then {#rq_request_id rq#} else {#}))" for status
    using respond_ok [OF sv env, of "rq_request_id rq" status 0] by (auto simp: refused_def)
  show ?thesis
  proof (cases "?off \<le> len \<and> 0 < u16n (len - ?off) \<and> u16n (len - ?off) \<le> cap_max_key_length ?cap \<and> rq_nsgl rq \<le> cap_max_sgl ?cap")
    case True
    then have "passed rq ?cap" by (intro get_request_passed [OF rq_def]) simp_all
    from recv_command_ok [OF sv rdy this] cmd have "recv_post c (rq_request_id rq) sv (recv_command env c req rq sv)"
      by (simp add: rq_def)
    from recv_done_ok [OF this env(1) _ req, of "rq_command rq"] cmd True show ?thesis
      unfolding priskv_rdma_handle_recv_def rq_def [symmetric] by (simp add: Let_def rq_def [symmetric] not_less)
  next
    case False
    then have "\<exists>status. priskv_rdma_handle_recv env c req buf len sv = refused env c (rq_request_id rq) status sv"
      unfolding priskv_rdma_handle_recv_def rq_def [symmetric] Let_def by (auto simp: not_le)
    with refused show ?thesis unfolding rq_def by metis
  qed
qed

section \<open>Runs\<close>

text \<open>What the adapter does before it reports a completion.\<close>

fun deliver :: "nat \<Rightarrow> wc \<Rightarrow> server \<Rightarrow> server" where
  "deliver c (Wc_recv _ _ _) sv = upd_conn c (\<lambda>conn. conn\<lparr>conn_rq := tl (conn_rq conn)\<rparr>) sv"
| "deliver c (Wc_rdma _) sv = upd_conn c consume sv"
| "deliver c (Wc_send _) sv = upd_conn c consume sv"
| "deliver c _ sv = sv"

text \<open>
  A completion the adapter can report: a message in the buffer posted first, or the next entry
  of the send queue. While the event is handled the adapter accepts what is posted, a response
  slot is free, and the commands are those of the protocol.
\<close>

fun event_ok :: "env \<Rightarrow> nat \<Rightarrow> wc \<Rightarrow> server \<Rightarrow> bool" where
  "event_ok env c (Wc_recv req buf len) sv \<longleftrightarrow> ready env c sv
     \<and> rq_command (get_request len buf) < PRISKV_COMMAND_MAX \<and> (\<exists>rest. conn_rq (sv_conns sv c) = req # rest)"
| "event_ok env c (Wc_rdma w) sv \<longleftrightarrow> ready env c sv
     \<and> (\<exists>r xs. outstanding (sv_conns sv c) = Wr_rdma r # xs \<and> wr_work r = w)"
| "event_ok env c (Wc_send i) sv \<longleftrightarrow> (\<exists>resp xs. outstanding (sv_conns sv c) = Wr_send i resp # xs)"
| "event_ok env c _ sv \<longleftrightarrow> True"

fun received :: "wc \<Rightarrow> nat multiset" where
  "received (Wc_recv req buf len) = {#rq_request_id (get_request len buf)#}"
| "received _ = {#}"

text \<open>A connection and a server before the first event.\<close>

definition conn_start :: "nat \<Rightarrow> priskv_rdma_conn \<Rightarrow> bool" where
  "conn_start keylength conn \<longleftrightarrow> slots_ok conn \<and> (\<forall>i < length (resp_rmem conn). slot_free conn i)
     \<and> conn_sq conn = [] \<and> conn_done conn = 0 \<and> keys_rmem conn = None
     \<and> length (conn_stats conn) = PRISKV_COMMAND_MAX \<and> 4 * cap_max_sgl (conn_cap conn) < 65536
     \<and> cap_max_key_length (conn_cap conn) \<le> keylength
     \<and> (\<forall>a \<in> set (conn_rq conn). fst (req_rmem conn) \<le> a \<and> a < fst (req_rmem conn) + snd (req_rmem conn))"

definition server_start :: "server \<Rightarrow> bool" where
  "server_start sv \<longleftrightarrow> sv_works sv = Map.empty
     \<and> (\<exists>mem meta kb vb keys keylength block_size nblocks. config_ok mem meta kb keys keylength block_size nblocks
          \<and> keylength < 1024 \<and> 2 \<le> block_size
          \<and> priskv_new_kv mem meta (Some kb) (Some vb) keys keylength block_size nblocks = Some (sv_kv sv)
          \<and> (\<forall>c. conn_start keylength (sv_conns sv c)))"

inductive srv_run :: "server \<Rightarrow> (nat \<Rightarrow> nat multiset) \<Rightarrow> bool" where
  start: "server_start sv \<Longrightarrow> srv_run sv (\<lambda>_. {#})"
| event: "srv_run sv R \<Longrightarrow> event_ok env c wc sv \<Longrightarrow> priskv_rdma_handle_cq c [(env, wc)] (deliver c wc sv) = Some sv'
     \<Longrightarrow> srv_run sv' (R(c := R c + received wc))"
| expire: "srv_run sv R \<Longrightarrow> priskv_clear_expired_kv (sv_kv sv) now = Some kv \<Longrightarrow> srv_run (upd_kv kv sv) R"

lemma srv_close:
  assumes "srv_inv sv"
  shows "srv_inv (priskv_rdma_close_client_async c sv)" "account d (priskv_rdma_close_client_async c sv) = account d sv"
proof -
  let ?f = "\<lambda>conn. conn\<lparr>conn_closing := True\<rparr>"
  have same: "conn_same (sv_conns sv c) (?f (sv_conns sv c))" by (simp add: conn_same_def)
  note v = conn_same_views [OF same]
  have "conn_ok (?f (sv_conns sv c))" using assms unfolding srv_at_def conn_ok_def v by simp
  from srv_conn_same [where f = ?f, OF assms same this] assms v
  show "srv_inv (priskv_rdma_close_client_async c sv)" "account d (priskv_rdma_close_client_async c sv) = account d sv"
    by (simp_all add: priskv_rdma_close_client_async_def account_def)
qed

lemma event_step:
  assumes sv: "srv_inv sv" and ev: "event_ok env c wc sv"
  shows "\<exists>go sv'. handle_wc env c wc (deliver c wc sv) = Some (go, sv') \<and> srv_inv sv'
     \<and> (\<forall>d. account d sv' = account d sv + (if d = c then received wc else {#}))"
proof (cases wc)
  case (Wc_recv req buf len)
  with ev obtain rest where e: "ready env c sv" "rq_command (get_request len buf) < PRISKV_COMMAND_MAX"
    "conn_rq (sv_conns sv c) = req # rest" by auto
  have ok: "conn_ok (sv_conns sv c)" using sv by (simp add: srv_at_def)
  let ?conn = "sv_conns sv c" and ?sv = "deliver c wc sv"
  have d: "?sv = upd_conn c (\<lambda>conn. conn\<lparr>conn_stats := conn_stats ?conn, conn_rq := rest\<rparr>) sv"
    using e(3) by (simp add: Wc_recv upd_conn_def)
  have r: "\<forall>a \<in> set (req # rest). fst (req_rmem ?conn) \<le> a \<and> a < fst (req_rmem ?conn) + snd (req_rmem ?conn)"
    using ok unfolding conn_ok_def e(3) by blast
  have inv: "srv_inv ?sv" "\<And>d. account d ?sv = account d sv"
    unfolding d using ok r by (intro srv_stats_rq [OF sv]; simp add: conn_ok_def)+
  have "ready env c ?sv" using e(1) unfolding d by (simp add: ready_def slot_free_def)
  from handle_recv_ok [OF inv(1) this e(2), of req] r obtain ret sv' where
    "priskv_rdma_handle_recv env c req buf len ?sv = Some (ret, sv')" "srv_inv sv'"
    "\<forall>d. account d sv' = account d ?sv + (if d = c then {#rq_request_id (get_request len buf)#} else {#})"
    unfolding d by auto
  with inv(2) show ?thesis by (simp add: Wc_recv)
next
  case (Wc_rdma w)
  with ev obtain r xs j where e: "outstanding (sv_conns sv c) = Wr_rdma r # xs" "wr_work r = w" "accepts env" "slot_free (sv_conns sv c) j"
    by (auto simp: ready_def)
  from handle_rw_ok [OF sv e(1,3,4)] show ?thesis by (auto simp: Wc_rdma e(2))
next
  case (Wc_send i)
  with ev obtain resp xs where "outstanding (sv_conns sv c) = Wr_send i resp # xs" by auto
  from handle_send_ok [OF sv this] show ?thesis by (auto simp: Wc_send account_def)
qed (use sv in \<open>auto intro: exI [of _ False]\<close>)

lemma event_cq:
  assumes "srv_inv sv" "event_ok env c wc sv"
  shows "\<exists>sv'. priskv_rdma_handle_cq c [(env, wc)] (deliver c wc sv) = Some sv' \<and> srv_inv sv'
     \<and> (\<forall>d. account d sv' = account d sv + (if d = c then received wc else {#}))"
proof -
  from event_step [OF assms] obtain go sv' where "handle_wc env c wc (deliver c wc sv) = Some (go, sv')" "srv_inv sv'"
    "\<forall>d. account d sv' = account d sv + (if d = c then received wc else {#})" by blast
  with srv_close [OF \<open>srv_inv sv'\<close>] show ?thesis by (cases go) auto
qed

lemma start_inv:
  assumes "server_start sv"
  shows "srv_inv sv" "account c sv = {#}"
proof -
  from assms obtain mem meta kb vb keys keylength block_size nblocks where
    s: "sv_works sv = Map.empty" "config_ok mem meta kb keys keylength block_size nblocks" "keylength < 1024" "2 \<le> block_size"
      "priskv_new_kv mem meta (Some kb) (Some vb) keys keylength block_size nblocks = Some (sv_kv sv)"
      "\<And>c. conn_start keylength (sv_conns sv c)" unfolding server_start_def by blast
  have v: "outstanding (sv_conns sv c) = []" "out_slots (sv_conns sv c) = []" "out_works (sv_conns sv c) = []"
    "answers (sv_conns sv c) = []" for c
    using s(6) [of c] by (simp_all add: conn_start_def outstanding_def out_slots_def out_works_def answers_def)
  have h: "held (sv_works sv) = (\<lambda>_. 0)" by (simp add: s(1) held_def getters_def fun_eq_iff)
  from new_kv_config [OF s(2), of vb] s(5) new_kv_stats [OF s(5)]
  have k: "kv_inv (sv_kv sv) (\<lambda>_. 0)" "contents (sv_kv sv) = Map.empty" "slab_size (key_slab (sv_kv sv)) = key_struct_size + keylength"
    "bd_size (value_buddy (sv_kv sv)) = block_size" "stats_ok (sv_kv sv)" by auto
  then have "kv_good (sv_kv sv) (held (sv_works sv))" by (simp add: h kv_good_def sized_def)
  then have "kv_ok sv (held (sv_works sv))"
    using k(3,4) s(3,4) s(6) by (simp add: kv_ok_def small_keys_def conn_start_def)
  moreover have "conn_ok (sv_conns sv c)" for c using s(6) [of c] v [of c] by (auto simp: conn_ok_def conn_start_def)
  moreover have "works_ok sv" using s(6) by (simp add: works_ok_def s(1) v conn_start_def)
  moreover have "get_ok sv" by (simp add: get_ok_def s(1))
  ultimately show "srv_inv sv" by (simp add: srv_at_def)
  show "account c sv = {#}" by (simp add: account_def v in_transfer_def s(1))
qed

lemma srv_run_inv: "srv_run sv R \<Longrightarrow> srv_inv sv \<and> (\<forall>c. R c = account c sv)"
proof (induction rule: srv_run.induct)
  case (start sv)
  then show ?case using start_inv by simp
next
  case (event sv R env c wc sv')
  then show ?case using event_cq [of sv env c wc] by auto
next
  case (expire sv R now kv)
  then have good: "kv_good (sv_kv sv) (held (sv_works sv))" by (simp add: srv_at_def kv_ok_def)
  from good_clear_expired [OF this, of now] expire have "srv_inv (upd_kv kv sv)" by (intro srv_kv_inv) auto
  with expire show ?case by simp
qed

end
