(* ===== verification/Rdma_Props.thy ===== *)
theory Rdma_Props
  imports Rdma_Run KV_Props
begin

text \<open>
  The properties of the server: runs of the handlers over the store, transfers, connection
  requests, and the requests that go wrong.
\<close>

section \<open>A small server\<close>

definition demo_env :: env where
  "demo_env = \<lparr>e_now = noon, e_regcomp = (\<lambda>_. Some (\<lambda>_. True)), e_post_send = (\<lambda>_ _. 0), e_post_recv = (\<lambda>_ _. 0),
     e_errno = 12, e_calloc = True, e_malloc = True, e_mem_malloc = (\<lambda>_. Some 20000), e_reg_mr = True,
     e_tiering = False, e_backend = False\<rparr>"

definition demo_conn :: priskv_rdma_conn where
  "demo_conn = empty_conn\<lparr>conn_cap := \<lparr>cap_max_sgl = 2, cap_max_key_length = 8, cap_max_inflight_command = 1\<rparr>,
     req_rmem := (9000, 1024),
     resp_rmem := replicate 4 \<lparr>resp_request_id = 0, resp_length = 0, resp_status = PRISKV_RDMA_RESPONSE_FREE_STATUS\<rparr>,
     conn_rq := [9000, 9256, 9512, 9768]\<rparr>"

definition demo_sv :: server where
  "demo_sv = \<lparr>sv_kv = demo_kv, sv_conns = (\<lambda>_. demo_conn), sv_works = Map.empty, sv_next_work = 0,
     sv_treqs = Map.empty, sv_next_treq = 0, sv_backend_ops = [], sv_resumed = []\<rparr>"

definition demo_msg :: "priskv_req_command \<Rightarrow> nat \<Rightarrow> priskv_keyed_sgl list \<Rightarrow> bytes \<Rightarrow> bytes" where
  "demo_msg command request_id sgls key = put_request \<lparr>rq_request_id = request_id, rq_timeout = PRISKV_KEY_MAX_TIMEOUT,
     rq_command = command_code command, rq_nsgl = length sgls, rq_key_length = length key, rq_sgls = sgls, rq_key = key\<rparr>
     (replicate 256 0)"

definition demo_set_msg :: bytes where
  "demo_set_msg = demo_msg PRISKV_COMMAND_SET 77 [\<lparr>sgl_addr = 4096, sgl_length = 10, sgl_key = 5\<rparr>] [1]"

lemma demo_start: "server_start demo_sv"
proof -
  let ?mem = "\<lambda>_. zero_key \<lparr>pk_expire_time = \<lparr>tv_sec = 0, tv_usec = 0\<rparr>, pk_refcnt = 0,
       pk_inprocess = False, pk_keylen = 0, pk_valuelen = 0, pk_value_off = 0, pk_key = replicate 8 0\<rparr>"
  have c: "config_ok ?mem (replicate 8 0) 1000 2 8 16 4"
    unfolding config_ok_def by (auto simp: zero_key_def intro!: exI [of _ 2])
  from new_kv_config [OF c, of 5000] have "priskv_new_kv ?mem (replicate 8 0) (Some 1000) (Some 5000) 2 8 16 4 = Some demo_kv"
    by (auto simp: demo_kv_def)
  moreover have "conn_start 8 demo_conn"
    by (auto simp: conn_start_def demo_conn_def empty_conn_def slots_ok_def slot_free_def priskv_rdma_wr_size_def
        u32n_def PRISKV_COMMAND_MAX_def)
  ultimately have "config_ok ?mem (replicate 8 0) 1000 2 8 16 4 \<and> 8 < (1024 :: nat) \<and> 2 \<le> (16 :: nat)
      \<and> priskv_new_kv ?mem (replicate 8 0) (Some 1000) (Some 5000) 2 8 16 4 = Some (sv_kv demo_sv)
      \<and> (\<forall>c. conn_start 8 (sv_conns demo_sv c))" using c by (simp add: demo_sv_def)
  moreover have "sv_works demo_sv = Map.empty" by (simp add: demo_sv_def)
  ultimately show ?thesis unfolding server_start_def by blast
qed

lemma demo_set_event: "event_ok demo_env 0 (Wc_recv 9000 demo_set_msg 145) demo_sv"
proof -
  have "rq_command (get_request 145 demo_set_msg) = 1" by code_simp
  moreover have "slot_free demo_conn 0" by (simp add: slot_free_def demo_conn_def empty_conn_def)
  ultimately show ?thesis
    by (auto simp: ready_def accepts_def demo_env_def demo_sv_def PRISKV_COMMAND_MAX_def demo_conn_def)
qed

lemma demo_set_id: "received (Wc_recv 9000 demo_set_msg 145) = {#77#}"
proof -
  have "rq_request_id (get_request 145 demo_set_msg) = 77" by code_simp
  then show ?thesis by simp
qed

definition demo_get_msg :: bytes where
  "demo_get_msg = demo_msg PRISKV_COMMAND_GET 78 [\<lparr>sgl_addr = 8192, sgl_length = 32, sgl_key = 5\<rparr>] [1]"

text \<open>A SET of ten bytes, its transfer, and then either the end of its response or a GET.\<close>

definition demo_step :: "wc \<Rightarrow> server \<Rightarrow> server option" where
  "demo_step wc sv = priskv_rdma_handle_cq 0 [(demo_env, wc)] (deliver 0 wc sv)"

definition demo_view :: "server \<Rightarrow> nat \<times> addr list \<times> send_wr list \<times> bool \<times> rw_cb option" where
  "demo_view sv = (let conn = sv_conns sv 0
     in (sv_next_work sv, conn_rq conn, outstanding conn, slot_free conn 3, map_option wk_cb (sv_works sv 1)))"

definition demo_run :: "(server \<times> server \<times> server \<times> server) option" where
  "demo_run = do {
     sv1 \<leftarrow> demo_step (Wc_recv 9000 demo_set_msg 145) demo_sv;
     sv2 \<leftarrow> demo_step (Wc_rdma 0) sv1;
     sv3 \<leftarrow> demo_step (Wc_send 0) sv2;
     sv4 \<leftarrow> demo_step (Wc_recv 9256 demo_get_msg 145) sv2;
     Some (sv1, sv2, sv3, sv4)
   }"

lemma demo_views:
  "map_option (\<lambda>(sv1, sv2, sv3, sv4). (demo_view sv1, demo_view sv2, demo_view sv3, demo_view sv4)) demo_run =
   Some ((1, [9256, 9512, 9768, 9000], [Wr_rdma \<lparr>wr_work = 0, wr_read = True, wr_mr = Value_mr, wr_local = 5000,
            wr_length = 10, wr_remote = 4096, wr_rkey = 5\<rparr>], True, None),
     (1, [9256, 9512, 9768, 9000], [Wr_send 0 \<lparr>resp_request_id = 77, resp_length = 10, resp_status = 0\<rparr>],
        True, None),
     (1, [9256, 9512, 9768, 9000], [], True, None),
     (2, [9512, 9768, 9000, 9256], [Wr_send 0 \<lparr>resp_request_id = 77, resp_length = 10, resp_status = 0\<rparr>,
        Wr_rdma \<lparr>wr_work = 1, wr_read = False, wr_mr = Value_mr, wr_local = 5000,
            wr_length = 10, wr_remote = 8192, wr_rkey = 5\<rparr>], True, Some (Cb_get_key_end 1000)))"
  by code_simp

lemma demo_ready:
  assumes "srv_run sv R" "demo_view sv = (n, rq, out, True, cb)" "n < 10"
  shows "ready demo_env 0 sv"
proof -
  from srv_run_inv [OF assms(1)] have w: "works_ok sv" by (simp add: srv_at_def)
  have "dom (sv_works sv) \<subseteq> {..<n}" using w assms(2) by (auto simp: works_ok_def demo_view_def Let_def)
  from card_mono [OF _ this] assms(3) have "card (dom (sv_works sv)) < 2 ^ 32 - 2" by simp
  moreover have "slot_free (sv_conns sv 0) 3" using assms(2) by (simp add: demo_view_def Let_def)
  ultimately show ?thesis by (auto simp: ready_def accepts_def demo_env_def)
qed

text \<open>The states of the example are reached by a run.\<close>

lemma demo_reached:
  obtains sv1 sv2 sv3 sv4 R where "srv_run sv3 ((\<lambda>_. {#})(0 := {#77#}))" "outstanding (sv_conns sv3 0) = []"
    "srv_run sv4 R" "\<exists>work. sv_works sv4 1 = Some work \<and> wk_cb work = Cb_get_key_end 1000"
proof -
  obtain sv1 sv2 sv3 sv4 where d1: "demo_run = Some (sv1, sv2, sv3, sv4)"
  proof (cases demo_run)
    case None with demo_views show thesis by simp
  next
    case (Some q) with that show thesis by (cases q) simp
  qed
  note d = demo_views [unfolded d1 option.map option.inject prod.case prod.inject]
  note d2 = d [THEN conjunct1] and d3 = d [THEN conjunct2, THEN conjunct1]
    and d4 = d [THEN conjunct2, THEN conjunct2, THEN conjunct1] and d5 = d [THEN conjunct2, THEN conjunct2, THEN conjunct2]
  from d1 have s: "demo_step (Wc_recv 9000 demo_set_msg 145) demo_sv = Some sv1" "demo_step (Wc_rdma 0) sv1 = Some sv2"
    "demo_step (Wc_send 0) sv2 = Some sv3" "demo_step (Wc_recv 9256 demo_get_msg 145) sv2 = Some sv4"
    by (auto simp: demo_run_def)
  note r0 = srv_run.start [OF demo_start]
  have r1: "srv_run sv1 ((\<lambda>_. {#})(0 := {#77#}))"
    using srv_run.event [OF r0 demo_set_event s(1) [unfolded demo_step_def]] by (simp only: demo_set_id) simp
  have "event_ok demo_env 0 (Wc_rdma 0) sv1" using demo_ready [OF r1 d2] d2 by (simp add: demo_view_def Let_def)
  from srv_run.event [OF r1 this s(2) [unfolded demo_step_def]] have r2: "srv_run sv2 ((\<lambda>_. {#})(0 := {#77#}))"
    by simp
  have "event_ok demo_env 0 (Wc_send 0) sv2" using d3 by (simp add: demo_view_def Let_def)
  from srv_run.event [OF r2 this s(3) [unfolded demo_step_def]] have r3: "srv_run sv3 ((\<lambda>_. {#})(0 := {#77#}))" by simp
  have "rq_command (get_request 145 demo_get_msg) = 0" by code_simp
  then have "event_ok demo_env 0 (Wc_recv 9256 demo_get_msg 145) sv2"
    using demo_ready [OF r2 d3] d3 by (simp add: demo_view_def Let_def PRISKV_COMMAND_MAX_def)
  from srv_run.event [OF r2 this s(4) [unfolded demo_step_def]] r3 d4 d5 show thesis
    by (intro that) (auto simp: demo_view_def Let_def)
qed

section \<open>Runs\<close>





text \<open>
  C3: While a GET transfers its value, the posted work requests are those of the block its node
  has now, and that block belongs to no other key; when the client's SGL fits the value, they
  cover exactly the bytes of the value.
\<close>

theorem server_get_block:
  assumes run: "srv_run sv R" and work: "sv_works sv w = Some work" "wk_cb work = Cb_get_key_end a"
  shows "\<exists>sgls. transfers w (sv_conns sv (wk_conn work)) =
       rw_wrs w False Value_mr (vaddr (sv_kv sv) a) 0 (pk_valuelen (node (sv_kv sv) a)) sgls
     \<and> (sgls_fit (pk_valuelen (node (sv_kv sv) a)) sgls \<and> pk_valuelen (node (sv_kv sv) a) < 2 ^ 32
          \<and> vaddr (sv_kv sv) a + pk_valuelen (node (sv_kv sv) a) < 2 ^ 64 \<longrightarrow>
        contiguous (vaddr (sv_kv sv) a) (transfers w (sv_conns sv (wk_conn work)))
          (vaddr (sv_kv sv) a + pk_valuelen (node (sv_kv sv) a)))
     \<and> (\<forall>b \<in> chained (sv_kv sv) - {a}.
          {vaddr (sv_kv sv) a..<vaddr (sv_kv sv) a + pk_valuelen (node (sv_kv sv) a)}
          \<inter> {vaddr (sv_kv sv) b..<vaddr (sv_kv sv) b + pk_valuelen (node (sv_kv sv) b)} = {})"
proof -
  let ?kv = "sv_kv sv" and ?h = "held (sv_works sv)"
  from srv_run_inv [OF run] have inv: "kv_inv ?kv ?h" "works_ok sv" "get_ok sv" by (simp_all add: srv_at_def kv_ok_def kv_good_def)
  from inv(3) work obtain sgls where t: "transfers w (sv_conns sv (wk_conn work)) =
      rw_wrs w False Value_mr (vaddr ?kv a) 0 (pk_valuelen (node ?kv a)) sgls" unfolding get_ok_def by blast
  have "w \<in> getters (sv_works sv) a" using work by (auto simp: getters_def)
  then have "0 < ?h a" using works_finite(2) [OF inv(2)] unfolding held_def by (auto simp: card_gt_0_iff)
  then have "0 < refs ?kv ?h a" by (simp add: refs_def)
  then have "{vaddr ?kv a..<vaddr ?kv a + pk_valuelen (node ?kv a)} \<inter> {vaddr ?kv b..<vaddr ?kv b + pk_valuelen (node ?kv b)} = {}"
    if "b \<in> chained ?kv - {a}" for b using that by (intro blocks_disjoint [OF inv(1)]) (auto simp: refs_def)
  moreover have "sgls_fit (pk_valuelen (node ?kv a)) sgls \<and> pk_valuelen (node ?kv a) < 2 ^ 32
      \<and> vaddr ?kv a + pk_valuelen (node ?kv a) < 2 ^ 64 \<longrightarrow>
    contiguous (vaddr ?kv a) (transfers w (sv_conns sv (wk_conn work))) (vaddr ?kv a + pk_valuelen (node ?kv a))"
    unfolding t using rw_wrs_contiguous [of "pk_valuelen (node ?kv a)" sgls 0 "vaddr ?kv a"] by simp
  ultimately show ?thesis using t by blast
qed

theorem server_get_block_witness:
  "\<exists>sv R work sgls. srv_run sv R \<and> sv_works sv 1 = Some work \<and> wk_cb work = Cb_get_key_end 1000
     \<and> transfers 1 (sv_conns sv (wk_conn work)) =
         rw_wrs 1 False Value_mr (vaddr (sv_kv sv) 1000) 0 (pk_valuelen (node (sv_kv sv) 1000)) sgls"
proof -
  obtain sv R work where s: "srv_run sv R" "sv_works sv 1 = Some work" "wk_cb work = Cb_get_key_end 1000" by (rule demo_reached) blast
  from server_get_block [OF s] s show ?thesis by blast
qed

end
