(* ===== verification/Rdma_Conn.thy ===== *)
theory Rdma_Conn
  imports Rdma_Props
begin

text \<open>
  Connection requests (\<open>priskv_rdma_handle_connect_request\<close>): the limits a connection is
  given, its buffers, and that an accepted connection is one from which runs start.
\<close>

section \<open>Limits\<close>

text \<open>The limits of a listener that \<open>server.c\<close> accepts on its command line.\<close>

definition listener_ok :: "priskv_rdma_conn_cap \<Rightarrow> bool" where
  "listener_ok cap \<longleftrightarrow> 0 < cap_max_sgl cap \<and> cap_max_sgl cap \<le> 8 \<and> 0 < cap_max_key_length cap \<and> cap_max_key_length cap \<le> 1024
     \<and> 0 < cap_max_inflight_command cap \<and> cap_max_inflight_command cap \<le> 4096"

definition cap_within :: "priskv_rdma_conn_cap \<Rightarrow> priskv_rdma_conn_cap \<Rightarrow> bool" where
  "cap_within cap listener \<longleftrightarrow> 0 < cap_max_sgl cap \<and> cap_max_sgl cap \<le> cap_max_sgl listener
     \<and> 0 < cap_max_key_length cap \<and> cap_max_key_length cap \<le> cap_max_key_length listener
     \<and> 0 < cap_max_inflight_command cap \<and> cap_max_inflight_command cap \<le> cap_max_inflight_command listener"

lemma verify_conn_cap_within:
  assumes "priskv_rdma_verify_conn_cap client listener = (None, cap)" "listener_ok listener"
  shows "cap_within cap listener"
  using assms by (auto simp: priskv_rdma_verify_conn_cap_def cap_within_def listener_ok_def Let_def split: if_splits)

lemma round_up:
  assumes "b \<le> (1280 :: nat)"
  shows "(b + 63) div 64 * 64 \<le> 1280" "b \<le> (b + 63) div 64 * 64"
proof -
  have "(b + 63) div 64 \<le> 1343 div 64" using assms by (intro div_le_mono) simp
  then show "(b + 63) div 64 * 64 \<le> 1280" by simp
  have "(b + 63) div 64 * 64 + (b + 63) mod 64 = b + 63" "(b + 63) mod 64 < 64" by simp_all
  then show "b \<le> (b + 63) div 64 * 64" by linarith
qed

lemma cap_sizes:
  assumes "cap_within (conn_cap conn) listener" "listener_ok listener"
  defines "n \<equiv> priskv_rdma_wr_size conn" and "s \<equiv> u16n (priskv_request_size_aligend conn)"
  shows "n = cap_max_inflight_command (conn_cap conn) * (2 + cap_max_sgl (conn_cap conn))" "n \<le> 40960" "0 < s" "s \<le> 1280"
    "u32n (s * n) = s * n"
    "128 + 16 * cap_max_sgl (conn_cap conn) + cap_max_key_length (conn_cap conn) \<le> s"
proof -
  let ?cap = "conn_cap conn" let ?b = "128 + 16 * cap_max_sgl ?cap + cap_max_key_length ?cap"
  from assms have c: "cap_max_sgl ?cap \<le> 8" "cap_max_key_length ?cap \<le> 1024" "cap_max_inflight_command ?cap \<le> 4096"
    by (simp_all add: cap_within_def listener_ok_def)
  have n: "cap_max_inflight_command ?cap * (2 + cap_max_sgl ?cap) \<le> 4096 * 10" using c by (intro mult_le_mono) simp_all
  then show N: "n = cap_max_inflight_command ?cap * (2 + cap_max_sgl ?cap)"
    unfolding n_def priskv_rdma_wr_size_def by (simp add: wrap_simps)
  with n show le: "n \<le> 40960" by simp
  have b: "priskv_request_size (cap_max_sgl ?cap) (cap_max_key_length ?cap) = ?b"
    using c by (simp add: priskv_request_size_def priskv_request_key_off_def wrap_simps)
  have u: "unat (of_nat ?b :: u32) = ?b"
    using c by (subst unat_of_nat) (simp add: take_bit_nat_eq_self)
  have "unat (ALIGN_UP (of_nat ?b :: u32) (2 ^ 6)) = (?b + 2 ^ 6 - 1) div 2 ^ 6 * 2 ^ 6"
    using c u by (subst unat_ALIGN_UP) simp_all
  then have a: "priskv_request_size_aligend conn = (?b + 63) div 64 * 64"
    by (simp only: priskv_request_size_aligend_def Let_def b) simp
  have up: "(?b + 63) div 64 * 64 \<le> 1280" "?b \<le> (?b + 63) div 64 * 64" using c round_up [of ?b] by simp_all
  then have S: "s = (?b + 63) div 64 * 64" unfolding s_def a by (simp add: wrap_simps)
  with up show "0 < s" "s \<le> 1280" "?b \<le> s" by linarith+
  then have "s * n \<le> 1280 * 40960" using le by (intro mult_le_mono) simp_all
  then show "u32n (s * n) = s * n" by (simp add: wrap_simps)
qed

section \<open>Receive buffers\<close>

text \<open>The buffers of a connection follow each other.\<close>

definition buffers :: "addr \<Rightarrow> nat \<Rightarrow> nat \<Rightarrow> addr list" where
  "buffers req s n = map (\<lambda>i. req + i * s) [0..<n]"

lemma buffers_Suc: "buffers req s (Suc n) = req # buffers (req + s) s n"
proof -
  have "map (\<lambda>i. req + i * s) [0..<Suc n] = req # map (\<lambda>i. req + Suc i * s) [0..<n]"
    by (subst upt_conv_Cons) (simp_all add: map_Suc_upt [symmetric] del: upt_Suc)
  then show ?thesis by (simp add: buffers_def add.assoc)
qed

lemma post_recvs_result:
  assumes "0 < e_errno env" "req_rmem (sv_conns sv c) = (buf, m)" "s = u16n (priskv_request_size_aligend (sv_conns sv c))"
    "0 < s" "buf \<le> req" "req + n * s \<le> buf + m"
  shows "\<exists>posted sv'. post_recvs env c n req sv = Some (posted, sv')
     \<and> (posted \<longrightarrow> sv' = upd_conn c (\<lambda>conn. conn\<lparr>conn_rq := conn_rq conn @ buffers req s n\<rparr>) sv)
     \<and> (\<forall>d. d \<noteq> c \<longrightarrow> sv_conns sv' d = sv_conns sv d)"
  using assms
proof (induction n arbitrary: req sv)
  case 0
  then show ?case by (intro exI [of _ True]) (simp add: buffers_def upd_conn_def)
next
  case (Suc n)
  let ?sv = "upd_conn c (\<lambda>conn. conn\<lparr>conn_rq := conn_rq conn @ [req]\<rparr>) sv"
  have in_buf: "buf \<le> req" "req < buf + m" using Suc.prems(4-6) by auto
  show ?case
  proof (cases "e_post_recv env (conn_rq (sv_conns sv c)) req = 0")
    case True
    have al: "priskv_request_size_aligend (sv_conns ?sv c) = priskv_request_size_aligend (sv_conns sv c)"
      by (simp add: priskv_request_size_aligend_def)
    have "post_recvs env c (Suc n) req sv = post_recvs env c n (req + s) ?sv"
      using True in_buf Suc.prems(2,3) by (simp add: priskv_rdma_recv_req_def Let_def)
    moreover from Suc.IH [of ?sv "req + s"] Suc.prems al obtain posted sv' where
      "post_recvs env c n (req + s) ?sv = Some (posted, sv')"
      "posted \<longrightarrow> sv' = upd_conn c (\<lambda>conn. conn\<lparr>conn_rq := conn_rq conn @ buffers (req + s) s n\<rparr>) ?sv"
      "\<forall>d. d \<noteq> c \<longrightarrow> sv_conns sv' d = sv_conns ?sv d" by auto
    ultimately show ?thesis by (intro exI [of _ posted] exI [of _ sv']) (simp add: buffers_Suc del: post_recvs.simps)
  next
    case False
    with in_buf Suc.prems(1,2) show ?thesis
      by (intro exI [of _ False] exI [of _ sv]) (simp add: priskv_rdma_recv_req_def Let_def)
  qed
qed

lemma post_recvs_kv: "post_recvs env c n req sv = Some (posted, sv') \<Longrightarrow> sv_kv sv' = sv_kv sv"
  by (induction n arbitrary: req sv)
    (auto simp: priskv_rdma_recv_req_def upd_conn_def Let_def split: if_splits prod.splits bind_splits)

lemma buffers_inside:
  assumes "a \<in> set (buffers req s n)" "0 < s"
  shows "req \<le> a \<and> a + s \<le> req + n * s"
proof -
  from assms(1) obtain i where i: "i < n" "a = req + i * s" by (auto simp: buffers_def)
  then have "Suc i * s \<le> n * s" by (intro mult_le_mono) simp_all
  with i(2) show ?thesis by simp
qed

lemma buffers_apart: "i < j \<Longrightarrow> j < n \<Longrightarrow> buffers req s n ! i + s \<le> buffers req s n ! j"
proof -
  assume "i < j" "j < n"
  then have "Suc i * s \<le> j * s" by (intro mult_le_mono) simp_all
  with \<open>i < j\<close> \<open>j < n\<close> show ?thesis by (simp add: buffers_def)
qed

section \<open>Accepted connections\<close>

lemma ctrl_buffer_ok:
  assumes "cap_within (conn_cap conn) listener" "listener_ok listener"
  defines "n \<equiv> priskv_rdma_wr_size conn" and "s \<equiv> u16n (priskv_request_size_aligend conn)"
  shows "\<exists>ret conn'. priskv_rdma_new_ctrl_buffer env conn = Some (ret, conn')
     \<and> (ret = 0 \<longrightarrow> (\<exists>req. conn' = conn\<lparr>req_rmem := (req, s * n), resp_rmem := replicate n
          \<lparr>resp_request_id = 0, resp_length = 0, resp_status = PRISKV_RDMA_RESPONSE_FREE_STATUS\<rparr>\<rparr>))"
proof -
  note z = cap_sizes [OF assms(1,2), folded n_def s_def]
  have f: "snd (priskv_rdma_response_free \<lparr>resp_request_id = 0, resp_length = 0, resp_status = 0\<rparr>) =
      \<lparr>resp_request_id = 0, resp_length = 0, resp_status = PRISKV_RDMA_RESPONSE_FREE_STATUS\<rparr>"
    by (simp add: priskv_rdma_response_free_def PRISKV_RDMA_RESPONSE_FREE_STATUS_def)
  show ?thesis using z(2,5) unfolding priskv_rdma_new_ctrl_buffer_def
    by (auto simp: Let_def f n_def [symmetric] s_def [symmetric] ENOMEM_def split: option.splits)
qed

lemma accepted_start:
  assumes "cap_within (conn_cap conn) listener" "listener_ok listener" "conn = empty_conn\<lparr>conn_cap := cap\<rparr>"
  defines "n \<equiv> priskv_rdma_wr_size conn" and "s \<equiv> u16n (priskv_request_size_aligend conn)"
  shows "conn_start (cap_max_key_length listener) (conn\<lparr>req_rmem := (req, s * n), resp_rmem := replicate n
          \<lparr>resp_request_id = 0, resp_length = 0, resp_status = PRISKV_RDMA_RESPONSE_FREE_STATUS\<rparr>, conn_rq := buffers req s n\<rparr>)"
proof -
  note z = cap_sizes [OF assms(1,2), folded n_def s_def]
  have "priskv_rdma_wr_size (conn\<lparr>req_rmem := a, resp_rmem := b, conn_rq := c\<rparr>) = n" for a b c
    by (simp add: n_def priskv_rdma_wr_size_def)
  moreover have "\<forall>a \<in> set (buffers req s n). req \<le> a \<and> a < req + s * n"
    using buffers_inside [OF _ z(3)] z(3) by (fastforce simp: mult.commute)
  ultimately show ?thesis using z assms(1,2)
    by (simp add: conn_start_def slots_ok_def slot_free_def assms(3) empty_conn_def cap_within_def listener_ok_def)
qed


text \<open>The connection after its buffers are allocated and posted.\<close>

definition accepted_conn :: "priskv_rdma_conn_cap \<Rightarrow> addr \<Rightarrow> priskv_rdma_conn" where
  "accepted_conn cap req =
     (let conn = empty_conn\<lparr>conn_cap := cap\<rparr>; n = priskv_rdma_wr_size conn; s = u16n (priskv_request_size_aligend conn)
      in conn\<lparr>req_rmem := (req, s * n), resp_rmem := replicate n \<lparr>resp_request_id = 0, resp_length = 0,
           resp_status = PRISKV_RDMA_RESPONSE_FREE_STATUS\<rparr>, conn_rq := buffers req s n\<rparr>)"

definition accepted :: "priskv_rdma_conn_cap \<Rightarrow> priskv_rdma_conn \<Rightarrow> bool" where
  "accepted listener conn =
     (let (req, m) = req_rmem conn; s = u16n (priskv_request_size_aligend conn) in
      cap_within (conn_cap conn) listener \<and> conn_start (cap_max_key_length listener) conn
      \<and> length (conn_rq conn) = priskv_rdma_wr_size conn
      \<and> 128 + 16 * cap_max_sgl (conn_cap conn) + cap_max_key_length (conn_cap conn) \<le> s
      \<and> (\<forall>a \<in> set (conn_rq conn). req \<le> a \<and> a + s \<le> req + m)
      \<and> (\<forall>j < length (conn_rq conn). \<forall>i < j. conn_rq conn ! i + s \<le> conn_rq conn ! j))"

lemma accepted_conn_ok:
  assumes "cap_within cap listener" "listener_ok listener"
  shows "accepted listener (accepted_conn cap req)"
proof -
  let ?conn = "empty_conn\<lparr>conn_cap := cap\<rparr>"
  let ?n = "priskv_rdma_wr_size ?conn" and ?s = "u16n (priskv_request_size_aligend ?conn)"
  have w: "cap_within (conn_cap ?conn) listener" using assms(1) by simp
  note z = cap_sizes [OF w assms(2)]
  have same: "priskv_rdma_wr_size (?conn\<lparr>req_rmem := a, resp_rmem := b, conn_rq := d\<rparr>) = ?n"
    "priskv_request_size_aligend (?conn\<lparr>req_rmem := a, resp_rmem := b, conn_rq := d\<rparr>) = priskv_request_size_aligend ?conn" for a b d
    by (simp_all add: priskv_rdma_wr_size_def priskv_request_size_aligend_def)
  have len: "length (buffers req ?s ?n) = ?n" by (simp add: buffers_def)
  have "128 + 16 * cap_max_sgl cap + cap_max_key_length cap \<le> ?s" using z(6) by simp
  moreover have "\<forall>a \<in> set (buffers req ?s ?n). req \<le> a \<and> a + ?s \<le> req + ?s * ?n"
    using buffers_inside [OF _ z(3)] by (simp add: mult.commute)
  moreover have "\<forall>j < length (buffers req ?s ?n). \<forall>i < j. buffers req ?s ?n ! i + ?s \<le> buffers req ?s ?n ! j"
    using buffers_apart by (simp add: len)
  ultimately show ?thesis using accepted_start [OF w assms(2) refl, of req] assms(1)
    unfolding accepted_conn_def accepted_def Let_def by (simp add: same len)
qed

lemma set_up_result:
  assumes "cap_within cap listener" "listener_ok listener" "0 < e_errno env" "sv_conns sv c = empty_conn\<lparr>conn_cap := cap\<rparr>"
  shows "\<exists>ret conn. priskv_rdma_new_ctrl_buffer env (sv_conns sv c) = Some (ret, conn) \<and>
    (ret = 0 \<longrightarrow> (\<exists>posted sv'. post_recvs env c (priskv_rdma_wr_size conn) (fst (req_rmem conn)) (upd_conn c (\<lambda>_. conn) sv) = Some (posted, sv')
       \<and> sv_kv sv' = sv_kv sv \<and> (\<forall>d. d \<noteq> c \<longrightarrow> sv_conns sv' d = sv_conns sv d)
       \<and> (posted \<longrightarrow> (\<exists>req. sv_conns sv' c = accepted_conn cap req))))"
proof -
  let ?conn = "sv_conns sv c"
  have w: "cap_within (conn_cap ?conn) listener" using assms(1,4) by simp
  let ?n = "priskv_rdma_wr_size ?conn" and ?s = "u16n (priskv_request_size_aligend ?conn)"
  note z = cap_sizes [OF w assms(2)]
  from ctrl_buffer_ok [OF w assms(2), of env] obtain ret conn where
    b: "priskv_rdma_new_ctrl_buffer env ?conn = Some (ret, conn)"
    and r: "ret = 0 \<Longrightarrow> \<exists>req. conn = ?conn\<lparr>req_rmem := (req, ?s * ?n), resp_rmem := replicate ?n
          \<lparr>resp_request_id = 0, resp_length = 0, resp_status = PRISKV_RDMA_RESPONSE_FREE_STATUS\<rparr>\<rparr>" by blast
  show ?thesis
  proof (rule exI [of _ ret], rule exI [of _ conn], rule conjI [OF b], rule impI)
    assume "ret = 0"
    with r obtain req where conn: "conn = ?conn\<lparr>req_rmem := (req, ?s * ?n), resp_rmem := replicate ?n
          \<lparr>resp_request_id = 0, resp_length = 0, resp_status = PRISKV_RDMA_RESPONSE_FREE_STATUS\<rparr>\<rparr>" by blast
    let ?sv = "upd_conn c (\<lambda>_. conn) sv"
    have al: "priskv_request_size_aligend conn = priskv_request_size_aligend ?conn" "priskv_rdma_wr_size conn = ?n"
      by (simp_all add: conn priskv_request_size_aligend_def priskv_rdma_wr_size_def)
    have m: "req_rmem (sv_conns ?sv c) = (req, ?s * ?n)" "?s = u16n (priskv_request_size_aligend (sv_conns ?sv c))"
      by (simp_all add: al(1)) (simp add: conn)
    have "req + ?n * ?s \<le> req + ?s * ?n" by (simp add: mult.commute)
    from post_recvs_result [OF assms(3) m z(3) order.refl this] obtain posted sv' where
      p: "post_recvs env c ?n req ?sv = Some (posted, sv')"
        "posted \<longrightarrow> sv' = upd_conn c (\<lambda>conn. conn\<lparr>conn_rq := conn_rq conn @ buffers req ?s ?n\<rparr>) ?sv"
        "\<forall>d. d \<noteq> c \<longrightarrow> sv_conns sv' d = sv_conns ?sv d" by blast
    have "posted \<longrightarrow> sv_conns sv' c = accepted_conn cap req"
      using p(2) by (simp add: accepted_conn_def Let_def conn assms(4) empty_conn_def)
    moreover have "sv_kv sv' = sv_kv sv" using post_recvs_kv [OF p(1)] by simp
    moreover have "fst (req_rmem conn) = req" by (simp add: conn)
    ultimately show "\<exists>posted sv'. post_recvs env c (priskv_rdma_wr_size conn) (fst (req_rmem conn)) ?sv = Some (posted, sv')
       \<and> sv_kv sv' = sv_kv sv \<and> (\<forall>d. d \<noteq> c \<longrightarrow> sv_conns sv' d = sv_conns sv d)
       \<and> (posted \<longrightarrow> (\<exists>req. sv_conns sv' c = accepted_conn cap req))" using p(1,3) al(2) by auto
  qed
qed

lemma ends_ifI:
  assumes "b \<Longrightarrow> \<exists>x y. m = Some (x, y) \<and> Q x y" "\<not> b \<Longrightarrow> \<exists>x y. n = Some (x, y) \<and> Q x y"
  shows "\<exists>x y. (if b then m else n) = Some (x, y) \<and> Q x y"
  using assms by simp

lemma ends_SomeI: "Q x y \<Longrightarrow> \<exists>x' y'. Some (x, y) = Some (x', y') \<and> Q x' y'"
  by simp

text \<open>
  C4: With the limits the server's command line allows, the handler of a connection request
  always comes to an end, for any private data, any result of the access list, of the
  allocations and of the receive posts, and it touches no other connection and nothing of the
  store. Where it accepts, the access list
  let the peer pass, the limits of the connection are positive and at most the
  listener's, the connection is in the state from which runs of the server start, and one
  receive buffer for each of its \<open>wr_size\<close> work requests is posted: the buffers have the
  size of the largest request the limits allow, lie inside the registered memory and do not
  overlap. A refused or failed connection is marked as closing.
\<close>

theorem connect_request_accepts:
  assumes "listener_ok listener" "0 < e_errno env"
  shows "\<exists>res sv'. priskv_rdma_handle_connect_request env cm listener c data data_len sv = Some (res, sv')
     \<and> sv_kv sv' = sv_kv sv \<and> (\<forall>d. d \<noteq> c \<longrightarrow> sv_conns sv' d = sv_conns sv d)
     \<and> (case res of Cm_accepted msg \<Rightarrow> accepted listener (sv_conns sv' c) \<and> cm_acl_verify cm = 0 | _ \<Rightarrow> conn_closing (sv_conns sv' c))"
proof -
  let ?asked = "\<lparr>cap_max_sgl = cm_max_sgl (get_cm_req data), cap_max_key_length = cm_max_key_length (get_cm_req data),
    cap_max_inflight_command = cm_max_inflight_command (get_cm_req data)\<rparr>"
  obtain refusal cap where v: "priskv_rdma_verify_conn_cap ?asked listener = (refusal, cap)" by fastforce
  let ?sv = "upd_conn c (\<lambda>conn. conn\<lparr>conn_cap := cap\<rparr>) (upd_conn c (\<lambda>_. empty_conn) sv)"
  have closed: "sv_kv (priskv_rdma_close_client_async c s) = sv_kv s"
    "d \<noteq> c \<Longrightarrow> sv_conns (priskv_rdma_close_client_async c s) d = sv_conns s d"
    "conn_closing (sv_conns (priskv_rdma_close_client_async c s) c)" for s d
    by (simp_all add: priskv_rdma_close_client_async_def)
  show ?thesis
  proof (cases refusal)
    case (Some r)
    then show ?thesis using v closed
      by (cases r) (auto simp: priskv_rdma_handle_connect_request_def Let_def)
  next
    case None
    with v have w: "cap_within cap listener" using assms(1) verify_conn_cap_within by blast
    have e: "sv_conns ?sv c = empty_conn\<lparr>conn_cap := cap\<rparr>" by simp
    from set_up_result [OF w assms e] obtain ret conn where
      b: "priskv_rdma_new_ctrl_buffer env (sv_conns ?sv c) = Some (ret, conn)"
      and p: "ret = 0 \<longrightarrow> (\<exists>posted sv'. post_recvs env c (priskv_rdma_wr_size conn) (fst (req_rmem conn)) (upd_conn c (\<lambda>_. conn) ?sv) = Some (posted, sv')
       \<and> sv_kv sv' = sv_kv ?sv \<and> (\<forall>d. d \<noteq> c \<longrightarrow> sv_conns sv' d = sv_conns ?sv d)
       \<and> (posted \<longrightarrow> (\<exists>req. sv_conns sv' c = accepted_conn cap req)))" by (elim exE conjE)
    note d = priskv_rdma_handle_connect_request_def [of env cm listener c data data_len sv, unfolded v prod.case None option.case Let_def]
    show ?thesis
    proof (cases "ret = 0")
      case True
      with p obtain posted sv' where q:
        "post_recvs env c (priskv_rdma_wr_size conn) (fst (req_rmem conn)) (upd_conn c (\<lambda>_. conn) ?sv) = Some (posted, sv')"
        "sv_kv sv' = sv_kv sv" "\<forall>d. d \<noteq> c \<longrightarrow> sv_conns sv' d = sv_conns sv d"
        "posted \<longrightarrow> (\<exists>req. sv_conns sv' c = accepted_conn cap req)" by auto
      show ?thesis using q(2-4) accepted_conn_ok [OF w assms(1)]
        unfolding d b bind.bind_lunit True q(1) prod.case
        by (intro ends_ifI ends_SomeI) (auto simp: closed)
    next
      case False
      then show ?thesis unfolding d b bind.bind_lunit prod.case
        by (intro ends_ifI ends_SomeI) (auto simp: closed)
    qed
  qed
qed

text \<open>A client that asks for the default limits and presents 32 bytes of private data.\<close>

definition demo_cm :: cm_env where
  "demo_cm = \<lparr>cm_conn_param_size = 0, cm_acl_verify = 0, cm_resources = True, cm_accept = 0\<rparr>"

definition demo_listener :: priskv_rdma_conn_cap where
  "demo_listener = \<lparr>cap_max_sgl = 1, cap_max_key_length = 16, cap_max_inflight_command = 1\<rparr>"

theorem connect_request_accepts_witness:
  "\<exists>msg sv'. priskv_rdma_handle_connect_request demo_env demo_cm demo_listener 0 (0 # 1 # replicate 30 0) 32 demo_sv = Some (Cm_accepted msg, sv')
     \<and> accepted demo_listener (sv_conns sv' 0)"
proof -
  let ?r = "priskv_rdma_handle_connect_request demo_env demo_cm demo_listener 0 (0 # 1 # replicate 30 0) 32 demo_sv"
  have "listener_ok demo_listener" by code_simp
  moreover have "0 < e_errno demo_env" by (simp add: demo_env_def)
  ultimately obtain res sv' where r: "?r = Some (res, sv')"
    "case res of Cm_accepted msg \<Rightarrow> accepted demo_listener (sv_conns sv' 0) \<and> cm_acl_verify demo_cm = 0 | _ \<Rightarrow> conn_closing (sv_conns sv' 0)"
    using connect_request_accepts [of demo_listener demo_env demo_cm 0 "0 # 1 # replicate 30 0" 32 demo_sv] by blast
  have "(case ?r of Some (Cm_accepted _, _) \<Rightarrow> True | _ \<Rightarrow> False)" by code_simp
  with r show ?thesis by (auto split: cm_result.splits)
qed

end
