(* ===== verification/Rdma_Faults.thy ===== *)
theory Rdma_Faults
  imports Rdma_Props
begin

text \<open>
  The transfers of a request against the value they are for, and what the handlers do with
  requests that the checks of \<open>priskv_rdma_handle_recv\<close> let through although they should not.
\<close>

section \<open>Transfers\<close>

text \<open>
  C5: When the SGL of a request fits the value (each entry but the last is used up, the last
  reaches the end of the value; an SGL whose lengths add up to the value always does), the
  work requests of the transfer cover the value exactly, in order and without a gap, none of
  them leaves the value or the client's entry it serves, none exceeds 1 GiB, and their number
  is between one and four for each entry.
\<close>

theorem rw_transfer_exact:
  assumes "sgls_fit valuelen sgls \<or> valuelen = sum_list (map sgl_length sgls)"
    "valuelen < 2 ^ 32" "val + valuelen < 2 ^ 64" "\<forall>sgl \<in> set sgls. sgl_length sgl < 2 ^ 32"
  shows "let wrs = rw_wrs w is_set mr val 0 valuelen sgls in
     contiguous val wrs (val + valuelen) \<and> sum_list (map wr_length wrs) = valuelen
     \<and> (\<forall>r \<in> set wrs. val \<le> wr_local r \<and> wr_local r + wr_length r \<le> val + valuelen
          \<and> wr_length r \<le> priskv_rdma_max_rw_size \<and> (\<exists>sgl \<in> set sgls. inside_sgl sgl r))
     \<and> length sgls \<le> length wrs \<and> length wrs \<le> 4 * length sgls"
proof -
  have "sgls_fit valuelen sgls" using assms(1) sgls_fit_sum by blast
  with assms(2,3) have c: "contiguous val (rw_wrs w is_set mr val 0 valuelen sgls) (val + valuelen)"
    using rw_wrs_contiguous [of valuelen sgls 0 val w is_set mr] by simp
  from contiguous_sum [OF c] contiguous_bounds [OF c] rw_wrs_inside [of _ w is_set mr val 0 valuelen sgls]
    rw_wrs_count [OF assms(4), of w is_set mr val 0 valuelen] c show ?thesis
    unfolding Let_def by (intro conjI ballI) simp_all
qed

definition sgl_of :: "nat \<Rightarrow> priskv_keyed_sgl" where
  "sgl_of n = \<lparr>sgl_addr = 8192, sgl_length = n, sgl_key = 5\<rparr>"

theorem rw_transfer_exact_witness:
  "sgls_fit 20 [sgl_of 16, sgl_of 16] \<and> contiguous 5000 (rw_wrs 0 False Value_mr 5000 0 20 [sgl_of 16, sgl_of 16]) 5020"
proof -
  have "sgls_fit 20 [sgl_of 16, sgl_of 16]" by (simp add: sgl_of_def priskv_rdma_max_rw_size_def)
  with rw_transfer_exact [of 20 "[sgl_of 16, sgl_of 16]" 5000 0 False Value_mr] show ?thesis
    by (simp add: Let_def sgl_of_def)
qed

section \<open>Lengths that wrap around\<close>

text \<open>A request that has passed the checks of the header, the transfers posted so far, and a value
  that is in the store.\<close>

definition ask :: "env \<Rightarrow> priskv_req_command \<Rightarrow> nat list \<Rightarrow> bytes \<Rightarrow> server \<Rightarrow> server option" where
  "ask env command lens key sv = map_option (\<lambda>(_, _, _, sv). sv) (recv_command env 0 9000
     \<lparr>rq_request_id = 78, rq_timeout = PRISKV_KEY_MAX_TIMEOUT, rq_command = command_code command, rq_nsgl = length lens,
      rq_key_length = length key, rq_sgls = map sgl_of lens, rq_key = key\<rparr> sv)"

definition transfers_posted :: "server \<Rightarrow> (bool \<times> addr \<times> nat) list" where
  "transfers_posted sv = concat (map (\<lambda>wr. case wr of Wr_rdma r \<Rightarrow> [(wr_read r, wr_local r, wr_length r)] | _ \<Rightarrow> [])
     (conn_sq (sv_conns sv 0)))"

definition store_value :: "bytes \<Rightarrow> nat \<Rightarrow> server \<Rightarrow> server option" where
  "store_value key len sv = do {
     ((_, _, keynode), kv) \<leftarrow> priskv_set_key (sv_kv sv) noon key len PRISKV_KEY_MAX_TIMEOUT;
     Some (upd_kv (priskv_set_key_end kv keynode) sv)
   }"


text \<open>
  What is left of the value is decreased by the length of an entry even when the entry is
  longer: a GET of a value of 4 bytes with two entries of 16 bytes has the value at 5000 sent to
  the first entry and the next 16 bytes of the store, here the block of another key, to the
  second.
\<close>

theorem get_reads_other_value:
  "map_option transfers_posted (do {
     sv1 \<leftarrow> store_value [1] 4 demo_sv;
     sv2 \<leftarrow> store_value [2] 10 sv1;
     ask demo_env PRISKV_COMMAND_GET [16, 16] [1] sv2
   }) = Some [(False, 5000, 4), (False, 5016, 16)]"
  by code_simp

section \<open>Unknown commands\<close>

lemma command_of_None: "command_of n = None \<Longrightarrow> PRISKV_COMMAND_MAX \<le> n"
  by (simp add: command_of_def split: if_splits)

lemma send_response_stats:
  assumes "priskv_rdma_send_response env c request_id status len sv = Some (ret, sv')"
  shows "conn_stats (sv_conns sv' c) = conn_stats (sv_conns sv c)"
  using assms
  by (auto simp: priskv_rdma_send_response_def priskv_rdma_unused_response_def Let_def split: option.splits if_splits prod.splits)

text \<open>
  A request with a command code the protocol does not have passes the checks of the header,
  is answered with \<open>NO_SUCH_COMMAND\<close>, and is then counted in the connection's statistics, which
  are indexed by the code the client sent: an access behind the array of eight entries.
\<close>

theorem unknown_command_out_of_bounds:
  assumes "rq = get_request len buf" "command_of (rq_command rq) = None"
    "length (conn_stats (sv_conns sv c)) = PRISKV_COMMAND_MAX"
    "keyoff = priskv_request_key_off (rq_nsgl rq)" "keyoff \<le> len" "keylen = u16n (len - keyoff)"
    "0 < keylen" "keylen \<le> cap_max_key_length (conn_cap (sv_conns sv c))" "rq_nsgl rq \<le> cap_max_sgl (conn_cap (sv_conns sv c))"
  shows "priskv_rdma_handle_recv env c req buf len sv = None"
proof -
  have none: "recv_command env c req rq sv \<bind> recv_done env c req (rq_command rq) = None"
  proof (cases "priskv_rdma_send_response env c (rq_request_id rq) PRISKV_RESP_STATUS_NO_SUCH_COMMAND 0 sv")
    case (Some r)
    then obtain ret sv' where r: "r = (ret, sv')" by (cases r)
    have "length (conn_stats (sv_conns sv' c)) = PRISKV_COMMAND_MAX"
      using send_response_stats [OF Some [unfolded r]] assms(3) by simp
    moreover have "PRISKV_COMMAND_MAX \<le> rq_command rq" using assms(2) by (simp add: command_of_None)
    ultimately show ?thesis using assms(2) Some r by (simp add: recv_command_def recv_done_def count_op_def EPROTO_def)
  qed (simp add: recv_command_def assms(2))
  show ?thesis using assms(4-9)
    unfolding priskv_rdma_handle_recv_def Let_def assms(1) [symmetric] by (simp add: none)
qed

definition demo_bad_msg :: bytes where
  "demo_bad_msg = replicate 17 0 @ [8] @ replicate 110 0 @ [1]"

theorem unknown_command_out_of_bounds_witness:
  "priskv_rdma_handle_recv demo_env 0 9000 demo_bad_msg 129 demo_sv = None"
proof -
  have "command_of (rq_command (get_request 129 demo_bad_msg)) = None" "rq_nsgl (get_request 129 demo_bad_msg) = 0"
    by code_simp+
  then show ?thesis
    using unknown_command_out_of_bounds [OF refl, of 129 demo_bad_msg demo_sv 0 _ _ demo_env 9000]
    by (simp add: demo_sv_def demo_conn_def empty_conn_def priskv_request_key_off_def wrap_simps)
qed

section \<open>Tiering\<close>

definition demo_tiering :: env where
  "demo_tiering = demo_env\<lparr>e_tiering := True, e_backend := True\<rparr>"


end
