(* ===== verification/Acl.thy ===== *)
theory Acl
  imports Utils "HOL-Library.Code_Target_Nat"
begin

text \<open>
  The access list (\<open>server/acl.c\<close>): rules \<open>any\<close>, \<open>address\<close> or \<open>address/mask\<close>, added and
  deleted by the administrator and consulted for every incoming connection. The list of the
  rules is a HOL list, in the order of \<open>acl_list\<close>; the reader-writer lock makes each call one
  step. Name resolution (\<open>rdma_getaddrinfo\<close>) is a parameter.
\<close>

section \<open>Definitions\<close>

text \<open>A socket address: its family and, for the internet families, the address bytes in network
  order. The address of an \<open>any\<close> rule is the zeroed structure, of family 0.\<close>

datatype sockaddr = Sa_inet bytes | Sa_inet6 bytes | Sa_family nat

record priskv_acl =
  acl_rule :: string
  acl_addr :: sockaddr
  acl_mask_bits :: int

text \<open>\<open>rdma_getaddrinfo\<close>: its result and the address found, if any.\<close>

type_synonym getaddrinfo = "string \<Rightarrow> int \<times> sockaddr option"

definition EINVAL :: int where "EINVAL = 22"
definition EACCES :: int where "EACCES = 13"
definition ENOENT :: int where "ENOENT = 2"

definition priskv_acl_addr :: "getaddrinfo \<Rightarrow> string \<Rightarrow> int \<times> sockaddr option" where
  "priskv_acl_addr gai address =
     (let (ret, servinfo) = gai address
      in if ret \<noteq> 0 then (ret, None)
         else case servinfo of None \<Rightarrow> (- EINVAL, None) | Some saddr \<Rightarrow> (0, Some saddr))"

text \<open>\<open>__priskv_acl_verify_addr\<close>: the loop over the whole bytes, then the mask of the byte that
  the prefix ends in. \<open>None\<close> is a read outside the address.\<close>

fun acl_cmp_bytes :: "nat \<Rightarrow> bytes \<Rightarrow> bytes \<Rightarrow> bool option" where
  "acl_cmp_bytes 0 ss ds = Some True"
| "acl_cmp_bytes (Suc n) ss ds = (case (ss, ds) of
      (s # ss', d # ds') \<Rightarrow> if s \<noteq> d then Some False else acl_cmp_bytes n ss' ds'
    | _ \<Rightarrow> None)"

definition acl_byte_mask :: "nat \<Rightarrow> u8" where
  "acl_byte_mask bits = NOT (fold (\<lambda>k m. m OR push_bit k 1) [0..<bits] 0)"

definition acl_verify_bytes :: "bytes \<Rightarrow> bytes \<Rightarrow> int \<Rightarrow> bool option" where
  "acl_verify_bytes saddr daddr mask_bits = do {
     let nbytes = c_div mask_bits 8;
     let bits = mask_bits - 8 * nbytes;
     same \<leftarrow> acl_cmp_bytes (nat nbytes) saddr daddr;
     if \<not> same then Some False
     else if bits \<noteq> 0 then
       (let m = acl_byte_mask (nat bits)
        in if nbytes < 0 \<or> int (length saddr) \<le> nbytes \<or> int (length daddr) \<le> nbytes then None
           else Some (and (saddr ! nat nbytes) m = and (daddr ! nat nbytes) m))
     else Some True
   }"

fun priskv_acl_verify_addr :: "sockaddr \<Rightarrow> sockaddr \<Rightarrow> int \<Rightarrow> bool option" where
  "priskv_acl_verify_addr (Sa_inet s) (Sa_inet d) mask_bits = acl_verify_bytes s d mask_bits"
| "priskv_acl_verify_addr (Sa_inet6 s) (Sa_inet6 d) mask_bits = acl_verify_bytes s d mask_bits"
| "priskv_acl_verify_addr _ _ mask_bits = Some False"

text \<open>\<open>strcasecmp (a, b) == 0\<close>, and \<open>atoi\<close>: \<open>strtol\<close> cut to the 32 bits of an \<open>int\<close>.\<close>

definition to_lower :: "char \<Rightarrow> char" where
  "to_lower c = (if 65 \<le> (of_char c :: nat) \<and> (of_char c :: nat) \<le> 90 then char_of ((of_char c :: nat) + 32) else c)"

definition strcaseeq :: "string \<Rightarrow> string \<Rightarrow> bool" where
  "strcaseeq a b \<longleftrightarrow> map to_lower a = map to_lower b"

definition atoi :: "string \<Rightarrow> int" where
  "atoi str = (fst (strtoll str) + 2 ^ 31) mod 2 ^ 32 - 2 ^ 31"

definition acl_any :: string where
  "acl_any = ''any''"

text \<open>\<open>priskv_acl_add\<close>. An address of another family is not added, and the result is that of
  \<open>priskv_acl_addr\<close>, 0.\<close>

definition priskv_acl_add :: "getaddrinfo \<Rightarrow> string \<Rightarrow> priskv_acl list \<Rightarrow> int \<times> priskv_acl list" where
  "priskv_acl_add gai rule acls =
     (let insert = (\<lambda>saddr mask. (0, acls @ [\<lparr>acl_rule = rule, acl_addr = saddr, acl_mask_bits = mask\<rparr>]));
          mask = (case dropWhile (\<lambda>c. c \<noteq> CHR ''/'') rule of [] \<Rightarrow> 0 | _ # t \<Rightarrow> atoi t)
      in if strcaseeq rule acl_any then insert (Sa_family 0) 0
         else case priskv_acl_addr gai (takeWhile (\<lambda>c. c \<noteq> CHR ''/'') rule) of
           (ret, Some (Sa_inet a)) \<Rightarrow>
             if mask = 0 then insert (Sa_inet a) 32
             else if 32 < mask then (- EINVAL, acls) else insert (Sa_inet a) mask
         | (ret, Some (Sa_inet6 a)) \<Rightarrow>
             if mask = 0 then insert (Sa_inet6 a) 128
             else if 128 < mask then (- EINVAL, acls) else insert (Sa_inet6 a) mask
         | (ret, _) \<Rightarrow> (ret, acls))"

fun priskv_acl_del :: "string \<Rightarrow> priskv_acl list \<Rightarrow> int \<times> priskv_acl list" where
  "priskv_acl_del rule [] = (- ENOENT, [])"
| "priskv_acl_del rule (acl # acls) =
     (if strcaseeq (acl_rule acl) rule then (0, acls)
      else let (ret, rest) = priskv_acl_del rule acls in (ret, acl # rest))"

fun priskv_acl_verify :: "priskv_acl list \<Rightarrow> sockaddr \<Rightarrow> int option" where
  "priskv_acl_verify [] saddr = Some (- EACCES)"
| "priskv_acl_verify (acl # acls) saddr =
     (if strcaseeq (acl_rule acl) acl_any then Some 0
      else do {
        pass \<leftarrow> priskv_acl_verify_addr (acl_addr acl) saddr (acl_mask_bits acl);
        if pass then Some 0 else priskv_acl_verify acls saddr
      })"

definition priskv_acl_get_rules :: "priskv_acl list \<Rightarrow> string list" where
  "priskv_acl_get_rules acls = map acl_rule acls"

section \<open>Prefixes\<close>

text \<open>The bits of an address in the order a prefix counts them, and the prefix that a mask of the
  code really compares: the bits of the last byte are counted from the wrong end.\<close>

definition byte_bits :: "u8 \<Rightarrow> bool list" where
  "byte_bits b = map (\<lambda>k. bit b (7 - k)) [0..<8]"

definition addr_bits :: "bytes \<Rightarrow> bool list" where
  "addr_bits bs = concat (map byte_bits bs)"

definition compared_bits :: "nat \<Rightarrow> nat" where
  "compared_bits m = (if m mod 8 = 0 then m else 8 * (m div 8) + (8 - m mod 8))"

lemma length_byte_bits [simp]: "length (byte_bits b) = 8"
  by (simp add: byte_bits_def)

lemma byte_bits_inj [simp]: "byte_bits a = byte_bits b \<longleftrightarrow> a = b"
proof
  assume eq: "byte_bits a = byte_bits b"
  show "a = b"
  proof (rule bit_word_eqI)
    fix n assume "n < LENGTH(8)"
    then have n: "7 - n < 8" "7 - (7 - n) = n" by auto
    have "byte_bits a ! (7 - n) = byte_bits b ! (7 - n)" by (simp only: eq)
    with n show "bit a n = bit b n" by (simp add: byte_bits_def del: upt_Suc)
  qed
qed simp

lemma addr_bits_simps [simp]: "addr_bits [] = []" "addr_bits (b # bs) = byte_bits b @ addr_bits bs"
  by (simp_all add: addr_bits_def)

lemma length_addr_bits: "length (addr_bits bs) = 8 * length bs"
  by (induction bs) simp_all

lemma addr_bits_eq: "length as = length bs \<Longrightarrow> addr_bits as = addr_bits bs \<longleftrightarrow> as = bs"
  by (induction as bs rule: list_induct2) auto

lemma take_addr_bits:
  "q < length bs \<Longrightarrow> t \<le> 8 \<Longrightarrow> take (8 * q + t) (addr_bits bs) = addr_bits (take q bs) @ take t (byte_bits (bs ! q))"
proof (induction q arbitrary: bs)
  case 0
  then show ?case by (cases bs) simp_all
next
  case (Suc q)
  then show ?case by (cases bs) simp_all
qed

lemma acl_cmp_bytes_eq: "n \<le> length ss \<Longrightarrow> n \<le> length ds \<Longrightarrow> acl_cmp_bytes n ss ds = Some (take n ss = take n ds)"
  by (induction n arbitrary: ss ds) (auto split: list.splits)

lemma bit_fold_mask: "bit (fold (\<lambda>k m. m OR 2 ^ k) [0..<n] (0 :: u8)) i \<longleftrightarrow> i < n \<and> i < 8"
proof (induction n)
  case (Suc n)
  then show ?case by (auto simp: bit_or_iff bit_exp_iff less_Suc_eq)
qed simp

lemma masked_byte_eq:
  assumes "r \<le> 8"
  shows "and a (acl_byte_mask r) = and b (acl_byte_mask r) \<longleftrightarrow> take (8 - r) (byte_bits a) = take (8 - r) (byte_bits b)"
proof -
  have "and a (acl_byte_mask r) = and b (acl_byte_mask r) \<longleftrightarrow> (\<forall>n < 8. r \<le> n \<longrightarrow> bit a n = bit b n)"
    by (auto simp: bit_eq_iff [of "and a _"] acl_byte_mask_def bit_and_iff bit_not_iff bit_fold_mask)
  also have "\<dots> \<longleftrightarrow> (\<forall>k < 8 - r. bit a (7 - k) = bit b (7 - k))"
  proof safe
    fix n assume h: "\<forall>k < 8 - r. bit a (7 - k) = bit b (7 - k)" "n < 8" "r \<le> n"
    then have "7 - n < 8 - r" "7 - (7 - n) = n" by auto
    with h(1) show "bit a n \<Longrightarrow> bit b n" "bit b n \<Longrightarrow> bit a n" by metis+
  qed (use assms in auto)
  also have "\<dots> \<longleftrightarrow> take (8 - r) (byte_bits a) = take (8 - r) (byte_bits b)"
    using assms by (auto simp: byte_bits_def take_map take_upt)
  finally show ?thesis .
qed

lemma acl_verify_bytes_eq:
  assumes "length s = n" "length d = n" "0 < m" "m \<le> 8 * n"
  shows "acl_verify_bytes s d (int m) = Some (take (compared_bits m) (addr_bits s) = take (compared_bits m) (addr_bits d))"
proof -
  let ?q = "m div 8" and ?r = "m mod 8"
  have c: "c_div (int m) 8 = int ?q" "int m - 8 * int ?q = int ?r" by (simp_all add: zdiv_int zmod_int minus_mult_div_eq_mod)
  have q: "?q \<le> n" using assms(4) by simp
  have len: "length (take ?q s) = length (take ?q d)" using assms(1,2) by simp
  show ?thesis
  proof (cases "?r = 0")
    case True
    then have "8 * ?q = m" by presburger
    moreover have "?q \<noteq> 0" using True assms(3) by presburger
    then obtain j where j: "?q = Suc j" by (cases "?q") auto
    have "take (8 * Suc j) (addr_bits bs) = addr_bits (take (Suc j) bs)" if "length bs = n" for bs
      using take_addr_bits [of j bs 8] that q j by (simp add: take_Suc_conv_app_nth addr_bits_def add.commute)
    ultimately have "take m (addr_bits bs) = addr_bits (take ?q bs)" if "length bs = n" for bs using that j by simp
    with True c q len assms show ?thesis
      by (simp add: acl_verify_bytes_def Let_def acl_cmp_bytes_eq compared_bits_def addr_bits_eq)
  next
    case False
    have lt: "?q < n" using False assms(4) by presburger
    have "take (compared_bits m) (addr_bits bs) = addr_bits (take ?q bs) @ take (8 - ?r) (byte_bits (bs ! ?q))" if "length bs = n" for bs
      using take_addr_bits [of ?q bs "8 - ?r"] lt that False by (simp add: compared_bits_def)
    moreover have "length (addr_bits (take ?q s)) = length (addr_bits (take ?q d))"
      using len by (simp add: length_addr_bits)
    moreover have "?r \<le> 8" by simp
    ultimately show ?thesis using False c q lt len assms
      by (auto simp: acl_verify_bytes_def Let_def acl_cmp_bytes_eq addr_bits_eq masked_byte_eq)
  qed
qed

section \<open>Rules\<close>

text \<open>Name resolution delivers 4 or 16 address bytes.\<close>

fun sockaddr_ok :: "sockaddr \<Rightarrow> bool" where
  "sockaddr_ok (Sa_inet a) \<longleftrightarrow> length a = 4"
| "sockaddr_ok (Sa_inet6 a) \<longleftrightarrow> length a = 16"
| "sockaddr_ok (Sa_family f) \<longleftrightarrow> f \<noteq> 2 \<and> f \<noteq> 10"

definition gai_ok :: "getaddrinfo \<Rightarrow> bool" where
  "gai_ok gai \<longleftrightarrow> (\<forall>name ret saddr. gai name = (ret, Some saddr) \<longrightarrow> sockaddr_ok saddr)"

definition acl_ok :: "priskv_acl \<Rightarrow> bool" where
  "acl_ok acl \<longleftrightarrow> (case acl_addr acl of
      Sa_inet a \<Rightarrow> length a = 4 \<and> acl_mask_bits acl \<noteq> 0 \<and> acl_mask_bits acl \<le> 32
    | Sa_inet6 a \<Rightarrow> length a = 16 \<and> acl_mask_bits acl \<noteq> 0 \<and> acl_mask_bits acl \<le> 128
    | Sa_family _ \<Rightarrow> strcaseeq (acl_rule acl) acl_any)"

text \<open>A rule admits an address: it is \<open>any\<close>, or the compared prefixes agree.\<close>

definition admits :: "priskv_acl \<Rightarrow> sockaddr \<Rightarrow> bool" where
  "admits acl saddr \<longleftrightarrow> strcaseeq (acl_rule acl) acl_any \<or>
     (let same = (\<lambda>a b. take (compared_bits (nat (acl_mask_bits acl))) (addr_bits a) = take (compared_bits (nat (acl_mask_bits acl))) (addr_bits b))
      in case (acl_addr acl, saddr) of
        (Sa_inet a, Sa_inet b) \<Rightarrow> same a b | (Sa_inet6 a, Sa_inet6 b) \<Rightarrow> same a b | _ \<Rightarrow> False)"

text \<open>The administrator's calls.\<close>

datatype acl_call = Acl_add string | Acl_del string

fun acl_exec :: "getaddrinfo \<Rightarrow> acl_call list \<Rightarrow> priskv_acl list \<Rightarrow> priskv_acl list" where
  "acl_exec gai [] acls = acls"
| "acl_exec gai (Acl_add rule # calls) acls = acl_exec gai calls (snd (priskv_acl_add gai rule acls))"
| "acl_exec gai (Acl_del rule # calls) acls = acl_exec gai calls (snd (priskv_acl_del rule acls))"

lemma acl_add_result:
  assumes "gai_ok gai"
  shows "snd (priskv_acl_add gai rule acls) = acls \<or> (\<exists>acl. snd (priskv_acl_add gai rule acls) = acls @ [acl] \<and> acl_ok acl)"
proof -
  obtain ret found where g: "gai (takeWhile (\<lambda>c. c \<noteq> CHR ''/'') rule) = (ret, found)" by fastforce
  then have "found = Some a \<Longrightarrow> sockaddr_ok a" for a using assms by (auto simp: gai_ok_def)
  then show ?thesis using g
    by (auto simp: priskv_acl_add_def priskv_acl_addr_def Let_def acl_ok_def split: option.splits sockaddr.splits)
qed

lemma acl_del_subset: "set (snd (priskv_acl_del rule acls)) \<subseteq> set acls"
  by (induction acls) (auto simp: split_beta)

lemma acl_exec_ok:
  assumes "gai_ok gai"
  shows "\<forall>acl \<in> set acls. acl_ok acl \<Longrightarrow> acl \<in> set (acl_exec gai calls acls) \<Longrightarrow> acl_ok acl"
  using assms
proof (induction gai calls acls rule: acl_exec.induct)
  case (2 gai rule calls acls)
  then show ?case using acl_add_result [of gai rule acls] by auto
next
  case (3 gai rule calls acls)
  then show ?case using acl_del_subset [of rule acls] by auto
qed simp

lemma acl_verify_iff:
  assumes "\<forall>acl \<in> set acls. acl_ok acl \<and> 0 \<le> acl_mask_bits acl" "sockaddr_ok saddr"
  shows "priskv_acl_verify acls saddr = Some (if \<exists>acl \<in> set acls. admits acl saddr then 0 else - EACCES)"
  using assms(1)
proof (induction acls)
  case (Cons acl acls)
  have "priskv_acl_verify_addr (acl_addr acl) saddr (acl_mask_bits acl) = Some (admits acl saddr)"
    if "\<not> strcaseeq (acl_rule acl) acl_any"
  proof -
    obtain m where m: "acl_mask_bits acl = int m" using Cons.prems by (metis list.set_intros(1) nonneg_int_cases)
    show ?thesis using Cons.prems that assms(2) m
      by (cases "acl_addr acl"; cases saddr)
        (auto simp: admits_def acl_ok_def acl_verify_bytes_eq [where n = 4] acl_verify_bytes_eq [where n = 16])
  qed
  with Cons show ?case by (auto simp: admits_def)
qed simp


text \<open>A resolver for the examples: IPv4 literals of one address.\<close>

definition demo_gai :: getaddrinfo where
  "demo_gai name = (if name = ''10.0.0.0'' then (0, Some (Sa_inet [10, 0, 0, 0])) else (- 2, None))"

lemma demo_gai_ok: "gai_ok demo_gai"
  by (auto simp: gai_ok_def demo_gai_def split: if_splits)


text \<open>
  The bits of the last byte of a prefix are counted from the wrong end: a rule for the two
  addresses of a /31 network lets in the 128 addresses of the /25 network around it, and a
  rule for a /25 network refuses all but two of its addresses. A negative mask that is a
  multiple of 8 lets in every address.
\<close>

theorem acl_mask_reversed:
  "(let admitted = (\<lambda>rule. map (\<lambda>i. priskv_acl_verify (acl_exec demo_gai [Acl_add rule] []) (Sa_inet [10, 0, 0, of_nat i]) = Some 0) [0, 1, 2, 127, 128])
    in admitted ''10.0.0.0/31'' = [True, True, True, True, False] \<and> admitted ''10.0.0.0/25'' = [True, True, False, False, False])
   \<and> priskv_acl_verify (acl_exec demo_gai [Acl_add ''10.0.0.0/-8''] []) (Sa_inet [192, 168, 0, 1]) = Some 0"
  by code_simp

end
