(* ===== verification/Policy_Lru.thy ===== *)
theory Policy_Lru
  imports Ilist
begin

text \<open>
  The eviction policy of cache devices (\<open>server/backend/policy.c\<close>, \<open>policy_lru.c\<close>): a list of
  nodes in the order of their last use, on the heap of \<open>list_node\<close>s, and a hash table that finds
  the node of a key. The node's list member is its first field, so a node and its \<open>list_node\<close>
  have one address. The hash table (uthash) is the association list of its entries, in the
  order of insertion. \<open>None\<close> is a null pointer or freed node that is used, or the overflow of a
  reference count.
\<close>

section \<open>The policy\<close>

record priskv_lru_node =
  nd_key :: string
  nd_ref_count :: int

record priskv_policy_lru =
  lru_hd :: addr
  lru_links :: links
  lru_nodes :: "addr \<rightharpoonup> priskv_lru_node"
  lru_hashmap :: "(string \<times> addr) list"

definition lru_policy_create :: "addr \<Rightarrow> links \<Rightarrow> priskv_policy_lru" where
  "lru_policy_create h g = \<lparr>lru_hd = h, lru_links = list_head_init h g, lru_nodes = Map.empty, lru_hashmap = []\<rparr>"

definition hash_find_str :: "(string \<times> addr) list \<Rightarrow> string \<Rightarrow> addr option" where
  "hash_find_str m key = map_of m key"

definition hash_add_str :: "(string \<times> addr) list \<Rightarrow> string \<Rightarrow> addr \<Rightarrow> (string \<times> addr) list" where
  "hash_add_str m key n = m @ [(key, n)]"

definition hash_del :: "(string \<times> addr) list \<Rightarrow> addr \<Rightarrow> (string \<times> addr) list" where
  "hash_del m n = filter (\<lambda>e. snd e \<noteq> n) m"

text \<open>\<open>malloced\<close> is the node \<open>malloc\<close> would return.\<close>

definition lru_policy_access :: "addr option \<Rightarrow> string \<Rightarrow> priskv_policy_lru \<Rightarrow> priskv_policy_lru option" where
  "lru_policy_access malloced key lru =
     (case hash_find_str (lru_hashmap lru) key of
        Some n \<Rightarrow> Some (lru\<lparr>lru_links := list_add (lru_hd lru) n (list_del n (lru_links lru))\<rparr>)
      | None \<Rightarrow> do {
          n \<leftarrow> malloced;
          Some (lru\<lparr>lru_nodes := (lru_nodes lru)(n \<mapsto> \<lparr>nd_key = key, nd_ref_count = 0\<rparr>),
            lru_hashmap := hash_add_str (lru_hashmap lru) key n,
            lru_links := list_add (lru_hd lru) n (lru_links lru)\<rparr>)
        })"

text \<open>Unlinking a node from the list and the table and freeing it.\<close>

definition lru_remove :: "addr \<Rightarrow> priskv_policy_lru \<Rightarrow> priskv_policy_lru" where
  "lru_remove n lru = lru\<lparr>lru_links := list_del n (lru_links lru), lru_hashmap := hash_del (lru_hashmap lru) n,
     lru_nodes := (lru_nodes lru)(n := None)\<rparr>"

text \<open>The loop of \<open>lru_policy_evict\<close>, with the attempts that are left.\<close>

fun evict_scan :: "nat \<Rightarrow> addr option \<Rightarrow> priskv_policy_lru \<Rightarrow> (string option \<times> priskv_policy_lru) option" where
  "evict_scan 0 cursor lru = Some (None, lru)"
| "evict_scan (Suc k) cursor lru =
     (case cursor of
        None \<Rightarrow> Some (None, lru)
      | Some n \<Rightarrow> do {
          nd \<leftarrow> lru_nodes lru n;
          if nd_ref_count nd = 0 then Some (Some (nd_key nd), lru_remove n lru)
          else evict_scan k (list_entry_or_null (lru_hd lru) (ln_prev (lru_links lru) n) 0) lru
        })"

definition lru_policy_evict :: "priskv_policy_lru \<Rightarrow> (string option \<times> priskv_policy_lru) option" where
  "lru_policy_evict lru = evict_scan 128 (list_tail (lru_hd lru) 0 (lru_links lru)) lru"

definition lru_policy_del_key :: "string \<Rightarrow> priskv_policy_lru \<Rightarrow> priskv_policy_lru" where
  "lru_policy_del_key key lru =
     (case hash_find_str (lru_hashmap lru) key of Some n \<Rightarrow> lru_remove n lru | None \<Rightarrow> lru)"

definition lru_policy_try_ref_key :: "string \<Rightarrow> priskv_policy_lru \<Rightarrow> (bool \<times> priskv_policy_lru) option" where
  "lru_policy_try_ref_key key lru =
     (case hash_find_str (lru_hashmap lru) key of
        Some n \<Rightarrow> do {
          nd \<leftarrow> lru_nodes lru n;
          if nd_ref_count nd = 2 ^ 31 - 1 then None
          else Some (True, lru\<lparr>lru_nodes := (lru_nodes lru)(n \<mapsto> nd\<lparr>nd_ref_count := nd_ref_count nd + 1\<rparr>),
            lru_links := list_add (lru_hd lru) n (list_del n (lru_links lru))\<rparr>)
        }
      | None \<Rightarrow> Some (False, lru))"

definition lru_policy_unref_key :: "string \<Rightarrow> priskv_policy_lru \<Rightarrow> priskv_policy_lru option" where
  "lru_policy_unref_key key lru =
     (case hash_find_str (lru_hashmap lru) key of
        Some n \<Rightarrow> do {
          nd \<leftarrow> lru_nodes lru n;
          Some (if 0 < nd_ref_count nd
                then lru\<lparr>lru_nodes := (lru_nodes lru)(n \<mapsto> nd\<lparr>nd_ref_count := nd_ref_count nd - 1\<rparr>)\<rparr> else lru)
        }
      | None \<Rightarrow> Some lru)"

section \<open>The interface\<close>

text \<open>\<open>policy.c\<close>: the registered implementations, by name, and the calls, which do nothing without a
  policy. The only implementation is \<open>lru\<close>; \<open>malloced\<close> says whether the two allocations succeed.\<close>

definition priskv_policy_register :: "string \<Rightarrow> string list \<Rightarrow> string list option" where
  "priskv_policy_register name global_policy_list =
     (if name \<in> set global_policy_list then None else Some (global_policy_list @ [name]))"

definition priskv_policy_find :: "string \<Rightarrow> string list \<Rightarrow> string option" where
  "priskv_policy_find name global_policy_list = find (\<lambda>n. n = name) global_policy_list"

definition priskv_policy_create :: "bool \<Rightarrow> string \<Rightarrow> string list \<Rightarrow> addr \<Rightarrow> links \<Rightarrow> priskv_policy_lru option" where
  "priskv_policy_create malloced name global_policy_list h g =
     (case priskv_policy_find name global_policy_list of
        None \<Rightarrow> None
      | Some impl \<Rightarrow> if malloced then Some (lru_policy_create h g) else None)"

definition priskv_policy_access ::
  "addr option \<Rightarrow> string \<Rightarrow> priskv_policy_lru option \<Rightarrow> priskv_policy_lru option option"
where
  "priskv_policy_access malloced key policy =
     (case policy of None \<Rightarrow> Some None | Some lru \<Rightarrow> map_option Some (lru_policy_access malloced key lru))"

definition priskv_policy_evict :: "priskv_policy_lru option \<Rightarrow> (string option \<times> priskv_policy_lru option) option" where
  "priskv_policy_evict policy =
     (case policy of None \<Rightarrow> Some (None, None) | Some lru \<Rightarrow> map_option (map_prod id Some) (lru_policy_evict lru))"

definition priskv_policy_del_key :: "string \<Rightarrow> priskv_policy_lru option \<Rightarrow> priskv_policy_lru option" where
  "priskv_policy_del_key key policy = map_option (lru_policy_del_key key) policy"

definition priskv_policy_try_ref_key :: "string \<Rightarrow> priskv_policy_lru option \<Rightarrow> (bool \<times> priskv_policy_lru option) option" where
  "priskv_policy_try_ref_key key policy =
     (case policy of None \<Rightarrow> Some (False, None) | Some lru \<Rightarrow> map_option (map_prod id Some) (lru_policy_try_ref_key key lru))"

definition priskv_policy_unref_key :: "string \<Rightarrow> priskv_policy_lru option \<Rightarrow> priskv_policy_lru option option" where
  "priskv_policy_unref_key key policy =
     (case policy of None \<Rightarrow> Some None | Some lru \<Rightarrow> map_option Some (lru_policy_unref_key key lru))"

section \<open>The policy on lists\<close>

text \<open>The keys with their reference counts, the most recently used first.\<close>

type_synonym usage = "(string \<times> int) list"

definition drop_key :: "string \<Rightarrow> usage \<Rightarrow> usage" where
  "drop_key key xs = filter (\<lambda>e. fst e \<noteq> key) xs"

definition use_access :: "string \<Rightarrow> usage \<Rightarrow> usage" where
  "use_access key xs = (key, case map_of xs key of Some r \<Rightarrow> r | None \<Rightarrow> 0) # drop_key key xs"

definition use_evict :: "usage \<Rightarrow> string option \<times> usage" where
  "use_evict xs = (case find (\<lambda>e. snd e = 0) (take 128 (rev xs)) of
     None \<Rightarrow> (None, xs) | Some e \<Rightarrow> (Some (fst e), drop_key (fst e) xs))"

definition use_ref :: "string \<Rightarrow> usage \<Rightarrow> bool \<times> usage" where
  "use_ref key xs = (case map_of xs key of Some r \<Rightarrow> (True, (key, r + 1) # drop_key key xs) | None \<Rightarrow> (False, xs))"

definition use_unref :: "string \<Rightarrow> usage \<Rightarrow> usage" where
  "use_unref key xs = map (\<lambda>(k, r). (k, if k = key \<and> 0 < r then r - 1 else r)) xs"

section \<open>Refinement\<close>

abbreviation nd :: "priskv_policy_lru \<Rightarrow> addr \<Rightarrow> priskv_lru_node" where
  "nd lru n \<equiv> the (lru_nodes lru n)"

definition lru_inv :: "priskv_policy_lru \<Rightarrow> addr list \<Rightarrow> bool" where
  "lru_inv lru ns \<longleftrightarrow> is_list (lru_links lru) (lru_hd lru) ns \<and> dom (lru_nodes lru) = set ns
     \<and> inj_on (\<lambda>n. nd_key (nd lru n)) (set ns) \<and> distinct (map fst (lru_hashmap lru))
     \<and> set (lru_hashmap lru) = (\<lambda>n. (nd_key (nd lru n), n)) ` set ns"

definition lru_usage :: "priskv_policy_lru \<Rightarrow> addr list \<Rightarrow> usage" where
  "lru_usage lru ns = map (\<lambda>n. (nd_key (nd lru n), nd_ref_count (nd lru n))) ns"

lemma node_at: "lru_inv lru ns \<Longrightarrow> n \<in> set ns \<Longrightarrow> lru_nodes lru n = Some (nd lru n)"
  unfolding lru_inv_def by (metis domIff option.collapse)

lemma lru_find:
  assumes "lru_inv lru ns"
  shows "hash_find_str (lru_hashmap lru) key = Some n \<longleftrightarrow> n \<in> set ns \<and> nd_key (nd lru n) = key"
    "hash_find_str (lru_hashmap lru) key = None \<longleftrightarrow> key \<notin> fst ` set (lru_usage lru ns)"
  using assms by (auto simp: hash_find_str_def lru_inv_def lru_usage_def map_of_eq_Some_iff map_of_eq_None_iff image_image)

lemma usage_map_of:
  assumes "lru_inv lru ns" "n \<in> set ns"
  shows "map_of (lru_usage lru ns) (nd_key (nd lru n)) = Some (nd_ref_count (nd lru n))"
proof -
  have "distinct (map fst (lru_usage lru ns))"
    using assms(1) by (simp add: lru_usage_def comp_def distinct_map lru_inv_def is_list_def)
  then show ?thesis using assms(2) by (auto simp: lru_usage_def)
qed

lemma usage_drop:
  assumes "lru_inv lru ns" "n \<in> set ns"
  shows "drop_key (nd_key (nd lru n)) (lru_usage lru ns) = lru_usage lru (remove1 n ns)"
proof -
  have d: "distinct ns" "inj_on (\<lambda>n. nd_key (nd lru n)) (set ns)" using assms(1) by (simp_all add: lru_inv_def is_list_def)
  have "drop_key (nd_key (nd lru n)) (lru_usage lru ns) = lru_usage lru (filter (\<lambda>m. nd_key (nd lru m) \<noteq> nd_key (nd lru n)) ns)"
    by (simp add: drop_key_def lru_usage_def filter_map comp_def)
  also have "filter (\<lambda>m. nd_key (nd lru m) \<noteq> nd_key (nd lru n)) ns = filter (\<lambda>m. m \<noteq> n) ns"
    using d(2) assms(2) by (intro filter_cong) (auto dest: inj_onD)
  finally show ?thesis using d(1) by (simp add: remove1_distinct_filter)
qed

lemma list_touch:
  assumes "is_list g h ns" "n \<in> set ns"
  shows "is_list (list_add h n (list_del n g)) h (n # remove1 n ns)"
  using is_list_del [OF assms] assms by (intro is_list_add) (auto simp: is_list_def)

lemma touch_inv:
  assumes "lru_inv lru ns" "n \<in> set ns"
  shows "lru_inv (lru\<lparr>lru_links := list_add (lru_hd lru) n (list_del n (lru_links lru))\<rparr>) (n # remove1 n ns)"
proof -
  have "set (n # remove1 n ns) = set ns" using assms by (auto simp: lru_inv_def is_list_def)
  with assms list_touch [of "lru_links lru" "lru_hd lru" ns n] show ?thesis by (simp only: lru_inv_def) simp
qed

lemma set_ref:
  fixes r :: int
  assumes "lru_inv lru ns" "n \<in> set ns"
  defines "lru' \<equiv> lru\<lparr>lru_nodes := (lru_nodes lru)(n \<mapsto> (nd lru n)\<lparr>nd_ref_count := r\<rparr>)\<rparr>"
  shows "lru_inv lru' ns" "lru_usage lru' ns = map (\<lambda>(k, q). (k, if k = nd_key (nd lru n) then r else q)) (lru_usage lru ns)"
proof -
  have k: "nd_key (nd lru' m) = nd_key (nd lru m)" for m by (simp add: lru'_def)
  have "dom (lru_nodes lru') = dom (lru_nodes lru)" using assms(1,2) by (auto simp: lru'_def lru_inv_def)
  then show "lru_inv lru' ns" using assms(1) unfolding lru_inv_def k by (simp add: lru'_def)
  have "m = n \<longleftrightarrow> nd_key (nd lru m) = nd_key (nd lru n)" if "m \<in> set ns" for m
    using assms(1,2) that by (auto simp: lru_inv_def dest: inj_onD)
  then show "lru_usage lru' ns = map (\<lambda>(k, q). (k, if k = nd_key (nd lru n) then r else q)) (lru_usage lru ns)"
    by (auto simp: lru_usage_def lru'_def)
qed

lemma remove_inv:
  assumes "lru_inv lru ns" "n \<in> set ns"
  shows "lru_inv (lru_remove n lru) (remove1 n ns)" "lru_usage (lru_remove n lru) (remove1 n ns) = drop_key (nd_key (nd lru n)) (lru_usage lru ns)"
proof -
  have d: "is_list (lru_links lru) (lru_hd lru) ns" "dom (lru_nodes lru) = set ns" "distinct ns"
      "inj_on (\<lambda>n. nd_key (nd lru n)) (set ns)" "distinct (map fst (lru_hashmap lru))"
      "set (lru_hashmap lru) = (\<lambda>n. (nd_key (nd lru n), n)) ` set ns"
    using assms(1) by (simp_all add: lru_inv_def is_list_def)
  let ?lru = "lru_remove n lru"
  have set_ns: "set (remove1 n ns) = set ns - {n}" using d(3) by simp
  have k: "nd ?lru m = nd lru m" if "m \<in> set (remove1 n ns)" for m using that set_ns by (simp add: lru_remove_def)
  have "is_list (lru_links ?lru) (lru_hd ?lru) (remove1 n ns)"
    using is_list_del [OF d(1) assms(2)] by (simp add: lru_remove_def)
  moreover have "dom (lru_nodes ?lru) = set (remove1 n ns)" using d(2) set_ns by (auto simp: lru_remove_def)
  moreover have "inj_on (\<lambda>n. nd_key (nd ?lru n)) (set (remove1 n ns))"
    using d(4) unfolding set_ns by (auto simp: inj_on_def lru_remove_def)
  moreover have "distinct (map fst (lru_hashmap ?lru))"
    using d(5) by (simp add: lru_remove_def hash_del_def distinct_map_filter)
  moreover have "set (lru_hashmap ?lru) = (\<lambda>n. (nd_key (nd ?lru n), n)) ` set (remove1 n ns)"
    using d(6) unfolding set_ns by (auto simp: lru_remove_def hash_del_def)
  ultimately show "lru_inv ?lru (remove1 n ns)" by (simp add: lru_inv_def)
  have "lru_usage ?lru (remove1 n ns) = lru_usage lru (remove1 n ns)" unfolding lru_usage_def using k by (intro map_cong refl) simp
  then show "lru_usage ?lru (remove1 n ns) = drop_key (nd_key (nd lru n)) (lru_usage lru ns)" using usage_drop [OF assms] by simp
qed

lemma add_inv:
  assumes "lru_inv lru ns" "m \<notin> set (lru_hd lru # ns)" "key \<notin> fst ` set (lru_usage lru ns)"
  defines "lru' \<equiv> lru\<lparr>lru_nodes := (lru_nodes lru)(m \<mapsto> \<lparr>nd_key = key, nd_ref_count = 0\<rparr>),
      lru_hashmap := hash_add_str (lru_hashmap lru) key m, lru_links := list_add (lru_hd lru) m (lru_links lru)\<rparr>"
  shows "lru_inv lru' (m # ns)" "lru_usage lru' (m # ns) = (key, 0) # lru_usage lru ns"
proof -
  have d: "is_list (lru_links lru) (lru_hd lru) ns" "dom (lru_nodes lru) = set ns"
      "inj_on (\<lambda>n. nd_key (nd lru n)) (set ns)" "distinct (map fst (lru_hashmap lru))"
      "set (lru_hashmap lru) = (\<lambda>n. (nd_key (nd lru n), n)) ` set ns"
    using assms(1) by (simp_all add: lru_inv_def)
  have k: "nd lru' n = nd lru n" if "n \<in> set ns" for n using that assms(2) by (auto simp: lru'_def)
  have m: "nd lru' m = \<lparr>nd_key = key, nd_ref_count = 0\<rparr>" by (simp add: lru'_def)
  have keys: "nd_key (nd lru n) \<noteq> key" if "n \<in> set ns" for n using that assms(3) by (force simp: lru_usage_def)
  have "is_list (lru_links lru') (lru_hd lru') (m # ns)" using is_list_add [OF d(1), of m] assms(2) by (simp add: lru'_def)
  moreover have "dom (lru_nodes lru') = set (m # ns)" using d(2) by (auto simp: lru'_def)
  moreover have "inj_on (\<lambda>n. nd_key (nd lru' n)) (set (m # ns))"
    using d(3) k m keys unfolding inj_on_def by (metis priskv_lru_node.select_convs(1) set_ConsD)
  moreover have "distinct (map fst (lru_hashmap lru'))" using d(4,5) by (auto simp: lru'_def hash_add_str_def dest: keys)
  moreover have "set (lru_hashmap lru') = (\<lambda>n. (nd_key (nd lru' n), n)) ` set (m # ns)"
  proof -
    have "set (lru_hashmap lru') = insert (key, m) ((\<lambda>n. (nd_key (nd lru n), n)) ` set ns)"
      using d(5) by (simp add: lru'_def hash_add_str_def)
    also have "(\<lambda>n. (nd_key (nd lru n), n)) ` set ns = (\<lambda>n. (nd_key (nd lru' n), n)) ` set ns" using k by (intro image_cong) simp_all
    finally show ?thesis using m by simp
  qed
  ultimately show "lru_inv lru' (m # ns)" by (simp add: lru_inv_def)
  show "lru_usage lru' (m # ns) = (key, 0) # lru_usage lru ns" using k m by (simp add: lru_usage_def)
qed

lemma evict_scan_eq:
  assumes "lru_inv lru (as @ bs)"
  shows "evict_scan k (if as = [] then None else Some (last as)) lru =
     Some (case find (\<lambda>n. nd_ref_count (nd lru n) = 0) (take k (rev as)) of
       None \<Rightarrow> (None, lru) | Some n \<Rightarrow> (Some (nd_key (nd lru n)), lru_remove n lru))"
  using assms
proof (induction k arbitrary: as bs)
  case (Suc k)
  show ?case
  proof (cases as rule: rev_cases)
    case (snoc as' n)
    have inv: "lru_inv lru (as' @ n # bs)" using Suc.prems snoc by simp
    then have l: "is_list (lru_links lru) (lru_hd lru) (as' @ n # bs)" and "n \<in> dom (lru_nodes lru)" by (auto simp: lru_inv_def)
    then obtain x where x: "lru_nodes lru n = Some x" by blast
    have "ln_prev (lru_links lru) n = last (lru_hd lru # as')" using is_list_neighbours(2) [OF l] by simp
    moreover have "last as' \<noteq> lru_hd lru" if "as' \<noteq> []" using l last_in_set [OF that] by (auto simp: is_list_def)
    ultimately have "list_entry_or_null (lru_hd lru) (ln_prev (lru_links lru) n) 0 = (if as' = [] then None else Some (last as'))"
      by (simp add: list_entry_or_null_def)
    with Suc.IH [of as' "n # bs"] inv x snoc show ?thesis by simp
  qed simp
qed simp

lemma find_map_eq: "find P (map f xs) = map_option f (find (P \<circ> f) xs)"
  by (induction xs) auto

text \<open>Each operation is the one on lists.\<close>

lemma access_refines:
  assumes "lru_inv lru ns" "m \<notin> set (lru_hd lru # ns)"
  shows "\<exists>lru' ns'. lru_policy_access (Some m) key lru = Some lru' \<and> lru_inv lru' ns' \<and> set ns' \<subseteq> insert m (set ns)
     \<and> lru_hd lru' = lru_hd lru \<and> lru_usage lru' ns' = use_access key (lru_usage lru ns)"
proof (cases "hash_find_str (lru_hashmap lru) key")
  case (Some n)
  then have n: "n \<in> set ns" "nd_key (nd lru n) = key" using lru_find [OF assms(1)] by auto
  let ?lru = "lru\<lparr>lru_links := list_add (lru_hd lru) n (list_del n (lru_links lru))\<rparr>"
  have "lru_usage ?lru (n # remove1 n ns) = use_access key (lru_usage lru ns)"
    using usage_drop [OF assms(1) n(1)] usage_map_of [OF assms(1) n(1)] n(2) by (simp add: use_access_def) (simp add: lru_usage_def)
  then show ?thesis using touch_inv [OF assms(1) n(1)] Some n(1) set_remove1_subset [of n ns]
    by (intro exI [of _ ?lru] exI [of _ "n # remove1 n ns"]) (auto simp: lru_policy_access_def)
next
  case None
  then have k: "key \<notin> fst ` set (lru_usage lru ns)" using lru_find [OF assms(1)] by blast
  then have "use_access key (lru_usage lru ns) = (key, 0) # lru_usage lru ns"
    by (auto simp: use_access_def drop_key_def filter_id_conv map_of_eq_None_iff [THEN iffD2] split: option.splits)
  with add_inv [OF assms k] None show ?thesis by (auto simp: lru_policy_access_def intro!: exI)
qed

lemma evict_refines:
  assumes "lru_inv lru ns"
  shows "\<exists>lru' ns'. lru_policy_evict lru = Some (fst (use_evict (lru_usage lru ns)), lru') \<and> lru_inv lru' ns' \<and> set ns' \<subseteq> set ns
     \<and> lru_hd lru' = lru_hd lru \<and> lru_usage lru' ns' = snd (use_evict (lru_usage lru ns))"
proof -
  have l: "is_list (lru_links lru) (lru_hd lru) ns" using assms by (simp add: lru_inv_def)
  let ?f = "\<lambda>n. (nd_key (nd lru n), nd_ref_count (nd lru n))"
  let ?v = "find (\<lambda>n. nd_ref_count (nd lru n) = 0) (take 128 (rev ns))"
  have e: "lru_policy_evict lru = Some (case ?v of None \<Rightarrow> (None, lru) | Some n \<Rightarrow> (Some (nd_key (nd lru n)), lru_remove n lru))"
    using evict_scan_eq [of lru ns "[]" 128] assms list_ends(2) [OF l, of 0] by (simp add: lru_policy_evict_def split: if_splits)
  have u: "find (\<lambda>e. snd e = 0) (take 128 (rev (lru_usage lru ns))) = map_option ?f ?v"
    by (simp add: lru_usage_def rev_map take_map find_map_eq comp_def)
  show ?thesis
  proof (cases ?v)
    case None
    with e u assms show ?thesis by (auto simp: use_evict_def)
  next
    case (Some n)
    then have "n \<in> set (take 128 (rev ns))" using find_SomeD by metis
    then have n: "n \<in> set ns" using in_set_takeD by fastforce
    have "lru_hd (lru_remove n lru) = lru_hd lru" by (simp add: lru_remove_def)
    with e u Some remove_inv [OF assms n] set_remove1_subset [of n ns] show ?thesis
      by (auto simp: use_evict_def intro!: exI [of _ "remove1 n ns"])
  qed
qed

lemma del_refines:
  assumes "lru_inv lru ns"
  shows "\<exists>ns'. lru_inv (lru_policy_del_key key lru) ns' \<and> set ns' \<subseteq> set ns \<and> lru_hd (lru_policy_del_key key lru) = lru_hd lru
     \<and> lru_usage (lru_policy_del_key key lru) ns' = drop_key key (lru_usage lru ns)"
proof (cases "hash_find_str (lru_hashmap lru) key")
  case (Some n)
  then have n: "n \<in> set ns" "nd_key (nd lru n) = key" using lru_find [OF assms(1)] by auto
  with remove_inv [OF assms n(1)] Some set_remove1_subset [of n ns] show ?thesis
    by (intro exI [of _ "remove1 n ns"]) (auto simp: lru_policy_del_key_def lru_remove_def)
next
  case None
  then have "key \<notin> fst ` set (lru_usage lru ns)" using lru_find [OF assms(1)] by blast
  then have "drop_key key (lru_usage lru ns) = lru_usage lru ns" by (auto simp: drop_key_def filter_id_conv)
  with None assms show ?thesis by (auto simp: lru_policy_del_key_def)
qed

lemma ref_refines:
  assumes "lru_inv lru ns" "\<forall>e \<in> set (lru_usage lru ns). snd e < 2 ^ 31 - 1"
  shows "\<exists>lru' ns'. lru_policy_try_ref_key key lru = Some (fst (use_ref key (lru_usage lru ns)), lru') \<and> lru_inv lru' ns'
     \<and> set ns' \<subseteq> set ns \<and> lru_hd lru' = lru_hd lru \<and> lru_usage lru' ns' = snd (use_ref key (lru_usage lru ns))"
proof (cases "hash_find_str (lru_hashmap lru) key")
  case (Some n)
  then have n: "n \<in> set ns" "nd_key (nd lru n) = key" using lru_find [OF assms(1)] by auto
  then have x: "lru_nodes lru n = Some (nd lru n)" using node_at [OF assms(1)] by blast
  have r: "nd_ref_count (nd lru n) \<noteq> 2 ^ 31 - 1" using assms(2) n(1) by (auto simp: lru_usage_def)
  let ?a = "lru\<lparr>lru_nodes := (lru_nodes lru)(n \<mapsto> (nd lru n)\<lparr>nd_ref_count := nd_ref_count (nd lru n) + 1\<rparr>)\<rparr>"
  let ?b = "?a\<lparr>lru_links := list_add (lru_hd ?a) n (list_del n (lru_links ?a))\<rparr>"
  note a = set_ref [OF assms(1) n(1), of "nd_ref_count (nd lru n) + 1"]
  have "lru_usage ?b (n # remove1 n ns) = (key, nd_ref_count (nd lru n) + 1) # lru_usage ?a (remove1 n ns)"
    using n(2) by (simp add: lru_usage_def)
  also have "lru_usage ?a (remove1 n ns) = drop_key key (lru_usage lru ns)"
  proof -
    have "lru_usage ?a (remove1 n ns) = drop_key (nd_key (nd ?a n)) (lru_usage ?a ns)" by (rule usage_drop [OF a(1) n(1), symmetric])
    also have "nd_key (nd ?a n) = key" using n(2) by simp
    also have "drop_key key (lru_usage ?a ns) =
        map (\<lambda>(k, q). (k, if k = nd_key (nd lru n) then nd_ref_count (nd lru n) + 1 else q)) (drop_key key (lru_usage lru ns))"
      unfolding a(2) by (simp add: drop_key_def filter_map comp_def split_beta)
    also have "\<dots> = drop_key key (lru_usage lru ns)" using n(2) by (intro map_idI) (auto simp: drop_key_def)
    finally show ?thesis .
  qed
  also have "(key, nd_ref_count (nd lru n) + 1) # drop_key key (lru_usage lru ns) = snd (use_ref key (lru_usage lru ns))"
    using usage_map_of [OF assms(1) n(1)] n(2) by (simp add: use_ref_def)
  finally have "lru_usage ?b (n # remove1 n ns) = snd (use_ref key (lru_usage lru ns))" .
  moreover have "lru_policy_try_ref_key key lru = Some (True, ?b)" using Some x r by (cases "lru_nodes lru n") (simp_all add: lru_policy_try_ref_key_def)
  moreover have "fst (use_ref key (lru_usage lru ns)) = True" using usage_map_of [OF assms(1) n(1)] n(2) by (simp add: use_ref_def)
  ultimately show ?thesis using touch_inv [OF a(1) n(1)] n(1) set_remove1_subset [of n ns]
    by (intro exI [of _ ?b] exI [of _ "n # remove1 n ns"]) auto
next
  case None
  then have "map_of (lru_usage lru ns) key = None" using lru_find [OF assms(1)] by (simp add: map_of_eq_None_iff)
  with None assms show ?thesis by (auto simp: lru_policy_try_ref_key_def use_ref_def)
qed

lemma unref_refines:
  assumes "lru_inv lru ns"
  shows "\<exists>lru'. lru_policy_unref_key key lru = Some lru' \<and> lru_inv lru' ns \<and> lru_hd lru' = lru_hd lru
     \<and> lru_usage lru' ns = use_unref key (lru_usage lru ns)"
proof (cases "hash_find_str (lru_hashmap lru) key")
  case (Some n)
  then have n: "n \<in> set ns" "nd_key (nd lru n) = key" using lru_find [OF assms(1)] by auto
  then have x: "lru_nodes lru n = Some (nd lru n)" using node_at [OF assms(1)] by blast
  have here: "q = nd_ref_count (nd lru n)" if "(nd_key (nd lru n), q) \<in> set (lru_usage lru ns)" for q
  proof -
    have "distinct (map fst (lru_usage lru ns))" using assms by (simp add: lru_usage_def comp_def distinct_map lru_inv_def is_list_def)
    with that have "map_of (lru_usage lru ns) (nd_key (nd lru n)) = Some q" by simp
    with usage_map_of [OF assms n(1)] show ?thesis by simp
  qed
  show ?thesis
  proof (cases "0 < nd_ref_count (nd lru n)")
    case True
    have "map (\<lambda>(k, q). (k, if k = nd_key (nd lru n) then nd_ref_count (nd lru n) - 1 else q)) (lru_usage lru ns) = use_unref key (lru_usage lru ns)"
      unfolding use_unref_def using n(2) True by (auto dest: here)
    moreover have "lru_policy_unref_key key lru =
        Some (lru\<lparr>lru_nodes := (lru_nodes lru)(n \<mapsto> (nd lru n)\<lparr>nd_ref_count := nd_ref_count (nd lru n) - 1\<rparr>)\<rparr>)"
      using Some x True by (cases "lru_nodes lru n") (simp_all add: lru_policy_unref_key_def)
    ultimately show ?thesis using set_ref [OF assms n(1), of "nd_ref_count (nd lru n) - 1"] by simp
  next
    case False
    have "use_unref key (lru_usage lru ns) = lru_usage lru ns" unfolding use_unref_def using False n(2) by (auto intro!: map_idI dest: here)
    with Some x False assms show ?thesis by (cases "lru_nodes lru n") (simp_all add: lru_policy_unref_key_def)
  qed
next
  case None
  then have "key \<notin> fst ` set (lru_usage lru ns)" using lru_find [OF assms(1)] by blast
  then have "use_unref key (lru_usage lru ns) = lru_usage lru ns" unfolding use_unref_def by (force intro!: map_idI)
  with None assms show ?thesis by (simp add: lru_policy_unref_key_def)
qed

section \<open>Runs\<close>

datatype policy_call = P_access addr string | P_evict | P_del_key string | P_try_ref_key string | P_unref_key string

datatype policy_result = R_void | R_key "string option" | R_bool bool

fun policy_exec :: "policy_call \<Rightarrow> priskv_policy_lru \<Rightarrow> (policy_result \<times> priskv_policy_lru) option" where
  "policy_exec (P_access m key) lru = map_option (Pair R_void) (lru_policy_access (Some m) key lru)"
| "policy_exec P_evict lru = map_option (\<lambda>(key, lru'). (R_key key, lru')) (lru_policy_evict lru)"
| "policy_exec (P_del_key key) lru = Some (R_void, lru_policy_del_key key lru)"
| "policy_exec (P_try_ref_key key) lru = map_option (\<lambda>(b, lru'). (R_bool b, lru')) (lru_policy_try_ref_key key lru)"
| "policy_exec (P_unref_key key) lru = map_option (Pair R_void) (lru_policy_unref_key key lru)"

fun usage_exec :: "policy_call \<Rightarrow> usage \<Rightarrow> policy_result \<times> usage" where
  "usage_exec (P_access m key) xs = (R_void, use_access key xs)"
| "usage_exec P_evict xs = (R_key (fst (use_evict xs)), snd (use_evict xs))"
| "usage_exec (P_del_key key) xs = (R_void, drop_key key xs)"
| "usage_exec (P_try_ref_key key) xs = (R_bool (fst (use_ref key xs)), snd (use_ref key xs))"
| "usage_exec (P_unref_key key) xs = (R_void, use_unref key xs)"

fun policy_run :: "policy_call list \<Rightarrow> priskv_policy_lru \<Rightarrow> (policy_result list \<times> priskv_policy_lru) option" where
  "policy_run [] lru = Some ([], lru)"
| "policy_run (call # calls) lru = do {
     (r, lru1) \<leftarrow> policy_exec call lru;
     (rs, lru2) \<leftarrow> policy_run calls lru1;
     Some (r # rs, lru2)
   }"

fun usage_run :: "policy_call list \<Rightarrow> usage \<Rightarrow> policy_result list \<times> usage" where
  "usage_run [] xs = ([], xs)"
| "usage_run (call # calls) xs = (let (r, xs1) = usage_exec call xs; (rs, xs2) = usage_run calls xs1 in (r # rs, xs2))"

fun nodes_of :: "policy_call list \<Rightarrow> addr list" where
  "nodes_of [] = []"
| "nodes_of (P_access m key # calls) = m # nodes_of calls"
| "nodes_of (_ # calls) = nodes_of calls"

lemma exec_refines:
  assumes "lru_inv lru ns" "\<forall>e \<in> set (lru_usage lru ns). snd e < 2 ^ 31 - 1" "set (nodes_of [call]) \<inter> set (lru_hd lru # ns) = {}"
  shows "\<exists>lru' ns'. policy_exec call lru = Some (fst (usage_exec call (lru_usage lru ns)), lru') \<and> lru_inv lru' ns'
     \<and> set ns' \<subseteq> set (nodes_of [call]) \<union> set ns \<and> lru_hd lru' = lru_hd lru \<and> lru_usage lru' ns' = snd (usage_exec call (lru_usage lru ns))"
proof (cases call)
  case (P_access m key)
  with access_refines [OF assms(1), of m key] assms(3) show ?thesis by fastforce
next
  case P_evict
  with evict_refines [OF assms(1)] show ?thesis by fastforce
next
  case (P_del_key key)
  with del_refines [OF assms(1), of key] show ?thesis by fastforce
next
  case (P_try_ref_key key)
  with ref_refines [OF assms(1,2), of key] show ?thesis by fastforce
next
  case (P_unref_key key)
  with unref_refines [OF assms(1), of key] show ?thesis by fastforce
qed

lemma usage_bound:
  assumes "\<forall>e \<in> set xs. snd e \<le> b" "0 \<le> b"
  shows "\<forall>e \<in> set (snd (usage_exec call xs)). snd e \<le> b + 1"
proof (cases call)
  case (P_try_ref_key key)
  then show ?thesis using assms by (auto simp: use_ref_def drop_key_def split: option.splits dest!: map_of_SomeD)
next
  case (P_access m key)
  then show ?thesis using assms by (auto simp: use_access_def drop_key_def split: option.splits dest!: map_of_SomeD)
next
  case (P_unref_key key)
  then show ?thesis using assms by (auto simp: use_unref_def)
qed (use assms in \<open>auto simp: use_evict_def drop_key_def split: option.splits\<close>)

lemma policy_run_refines:
  assumes "lru_inv lru ns" "\<forall>e \<in> set (lru_usage lru ns). snd e \<le> b" "0 \<le> b" "b + int (length calls) < 2 ^ 31"
    "distinct (nodes_of calls)" "set (nodes_of calls) \<inter> set (lru_hd lru # ns) = {}"
  shows "\<exists>lru' ns'. policy_run calls lru = Some (fst (usage_run calls (lru_usage lru ns)), lru') \<and> lru_inv lru' ns'
     \<and> lru_usage lru' ns' = snd (usage_run calls (lru_usage lru ns))"
  using assms
proof (induction calls arbitrary: lru ns b)
  case (Cons call calls)
  have n: "nodes_of (call # calls) = nodes_of [call] @ nodes_of calls" by (cases call) simp_all
  have "\<forall>e \<in> set (lru_usage lru ns). snd e < 2 ^ 31 - 1" using Cons.prems(2,4) by fastforce
  from exec_refines [OF Cons.prems(1) this, of call] Cons.prems(6) obtain lru1 ns1 where
    e: "policy_exec call lru = Some (fst (usage_exec call (lru_usage lru ns)), lru1)" "lru_inv lru1 ns1"
      "set ns1 \<subseteq> set (nodes_of [call]) \<union> set ns" "lru_hd lru1 = lru_hd lru" "lru_usage lru1 ns1 = snd (usage_exec call (lru_usage lru ns))"
    unfolding n by auto
  have "\<forall>e \<in> set (lru_usage lru1 ns1). snd e \<le> b + 1" unfolding e(5) by (rule usage_bound [OF Cons.prems(2,3)])
  moreover have "set (nodes_of calls) \<inter> set (lru_hd lru1 # ns1) = {}" using e(3,4) Cons.prems(5,6) unfolding n by auto
  ultimately obtain lru2 ns2 where
    "policy_run calls lru1 = Some (fst (usage_run calls (lru_usage lru1 ns1)), lru2)" "lru_inv lru2 ns2"
    "lru_usage lru2 ns2 = snd (usage_run calls (lru_usage lru1 ns1))"
    using Cons.IH [OF e(2), of "b + 1"] Cons.prems(3-5) unfolding n by auto
  with e(1,5) show ?case by (auto simp: split_beta)
qed auto

text \<open>
  C33: Any run of fewer than \<open>2^31 - 1\<close> calls of the policy, on nodes that \<open>malloc\<close> returned,
  uses no freed or null node, and returns what the same run returns on the list of keys and
  reference counts in the order of last use: an eviction takes the least recently used key
  without references among the last 128 and forgets it, a referenced key is never evicted, and
  a deleted key is found no more.
\<close>

theorem lru_policy_refines:
  assumes "int (length calls) < 2 ^ 31" "distinct (h # nodes_of calls)"
  shows "\<exists>lru ns. policy_run calls (lru_policy_create h g) = Some (fst (usage_run calls []), lru)
     \<and> lru_inv lru ns \<and> lru_usage lru ns = snd (usage_run calls [])"
proof -
  have "lru_inv (lru_policy_create h g) []" by (simp add: lru_inv_def lru_policy_create_def is_list_init)
  moreover have "lru_usage (lru_policy_create h g) [] = []" by (simp add: lru_usage_def)
  moreover have "lru_hd (lru_policy_create h g) = h" by (simp add: lru_policy_create_def)
  ultimately show ?thesis using policy_run_refines [of "lru_policy_create h g" "[]" 0 calls] assms by auto
qed

definition demo_calls :: "policy_call list" where
  "demo_calls = [P_access 10 ''a'', P_access 20 ''b'', P_try_ref_key ''a'', P_access 30 ''b'', P_unref_key ''c'', P_evict, P_evict]"

theorem lru_policy_refines_witness:
  "\<exists>lru. policy_run demo_calls (lru_policy_create 1 \<lparr>ln_next = (\<lambda>_. 0), ln_prev = (\<lambda>_. 0)\<rparr>) =
     Some ([R_void, R_void, R_bool True, R_void, R_void, R_key (Some ''b''), R_key None], lru)"
proof -
  have "fst (usage_run demo_calls []) = [R_void, R_void, R_bool True, R_void, R_void, R_key (Some ''b''), R_key None]" by code_simp
  moreover have "int (length demo_calls) < 2 ^ 31" "distinct (1 # nodes_of demo_calls)" by (simp_all add: demo_calls_def)
  ultimately show ?thesis using lru_policy_refines [of demo_calls 1 "\<lparr>ln_next = (\<lambda>_. 0), ln_prev = (\<lambda>_. 0)\<rparr>"] by metis
qed

end
