(* ===== verification/Backend.thy ===== *)
theory Backend
  imports Rdma
begin

text \<open>
  \<open>server/backend/backend.c\<close>: chains of backend devices. A device of the chain is its level,
  0 for the outermost cache, \<open>depth - 1\<close> for the device without a child. The drivers are not
  part of this theory: an operation comes to a call of a driver together with the callback the
  driver will run, or to the answer of the request; what a driver answers is an argument of
  that callback. Callbacks and the requests they carry are the datatypes \<open>bcb\<close> and \<open>breq\<close>.
\<close>

section \<open>Links\<close>

record priskv_backend_link =
  link_protocol :: string
  link_address :: string
  link_childaddr :: "string option"

text \<open>\<open>parse_link\<close>: \<open>None\<close> is \<open>-EINVAL\<close>. With a semicolon before the first colon the length
  given to \<open>strndup\<close> is negative, that is huge: all behind the colon is copied.\<close>

definition parse_link :: "string option \<Rightarrow> priskv_backend_link option" where
  "parse_link address =
     (case address of
        None \<Rightarrow> None
      | Some s \<Rightarrow>
          if s = [] \<or> CHR '':'' \<notin> set s then None
          else
            let protocol = takeWhile (\<lambda>c. c \<noteq> CHR '':'') s; rest = tl (dropWhile (\<lambda>c. c \<noteq> CHR '':'') s);
                (addr, childaddr) =
                  (if CHR '';'' \<notin> set s then (rest, None)
                   else (if CHR '';'' \<in> set protocol then rest else takeWhile (\<lambda>c. c \<noteq> CHR '';'') rest,
                         Some (tl (dropWhile (\<lambda>c. c \<noteq> CHR '';'') s))))
            in if protocol = [] \<or> addr = [] \<or> childaddr = Some [] then None
               else Some \<lparr>link_protocol = protocol, link_address = addr, link_childaddr = childaddr\<rparr>)"

lemma parse_link_child:
  assumes "parse_link (Some s) = Some bdev" "link_childaddr bdev = Some childaddr"
  shows "length childaddr < length s"
proof -
  have c: "childaddr = tl (dropWhile (\<lambda>c. c \<noteq> CHR '';'') s)" "CHR '';'' \<in> set s"
    using assms by (auto simp: parse_link_def Let_def split: if_splits)
  then have "dropWhile (\<lambda>c. c \<noteq> CHR '';'') s \<noteq> []" by (auto simp: dropWhile_eq_Nil_conv)
  then have "length childaddr < length (dropWhile (\<lambda>c. c \<noteq> CHR '';'') s)" using c(1) by (cases "dropWhile (\<lambda>c. c \<noteq> CHR '';'') s") auto
  also have "\<dots> \<le> length s" by (rule length_dropWhile_le)
  finally show ?thesis .
qed

definition priskv_backend_register :: "string \<Rightarrow> string list \<Rightarrow> string list option" where
  "priskv_backend_register name global_bdrv_list =
     (if name \<in> set global_bdrv_list then None else Some (global_bdrv_list @ [name]))"

definition priskv_backend_find_driver :: "string \<Rightarrow> string list \<Rightarrow> string option" where
  "priskv_backend_find_driver name global_bdrv_list = find (\<lambda>n. n = name) global_bdrv_list"

text \<open>
  \<open>priskv_backend_open\<close>: the links of the opened chain, or \<open>None\<close> where the code returns NULL,
  and the driver calls \<open>open\<close>, \<open>close\<close> and \<open>clearup\<close> in their order. \<open>opens\<close> and
  \<open>clearups\<close> say whether the driver's \<open>open\<close> and \<open>clearup\<close> succeed on a link, \<open>closes\<close>
  is the result of \<open>close\<close>.
\<close>

datatype lifecycle = L_open priskv_backend_link | L_close priskv_backend_link | L_clearup priskv_backend_link

fun priskv_backend_close :: "(priskv_backend_link \<Rightarrow> int) \<Rightarrow> priskv_backend_link list \<Rightarrow> int \<times> lifecycle list" where
  "priskv_backend_close closes [] = (0, [])"
| "priskv_backend_close closes (bdev # child) =
     (let (ret, calls) = priskv_backend_close closes child
      in if child \<noteq> [] \<and> ret \<noteq> 0 then (ret, calls) else (closes bdev, calls @ [L_close bdev]))"

function priskv_backend_open ::
  "string list \<Rightarrow> (priskv_backend_link \<Rightarrow> bool) \<Rightarrow> (priskv_backend_link \<Rightarrow> bool) \<Rightarrow> (priskv_backend_link \<Rightarrow> int)
     \<Rightarrow> string \<Rightarrow> priskv_backend_link list option \<times> lifecycle list"
where
  "priskv_backend_open drivers opens clearups closes address =
     (case parse_link (Some address) of
        None \<Rightarrow> (None, [])
      | Some bdev \<Rightarrow>
          if priskv_backend_find_driver (link_protocol bdev) drivers = None then (None, [])
          else if \<not> opens bdev then (None, [L_open bdev])
          else case link_childaddr bdev of
              None \<Rightarrow> (Some [bdev], [L_open bdev])
            | Some childaddr \<Rightarrow>
                let (child, calls) = priskv_backend_open drivers opens clearups closes childaddr
                in case child of
                     None \<Rightarrow> (None, L_open bdev # calls @ [L_close bdev])
                   | Some chain \<Rightarrow>
                       if \<not> clearups bdev
                       then (None, L_open bdev # calls @ [L_clearup bdev] @ snd (priskv_backend_close closes (bdev # chain)))
                       else (Some (bdev # chain), L_open bdev # calls @ [L_clearup bdev]))"
  by pat_completeness auto
termination
  by (relation "measure (\<lambda>(_, _, _, _, address). length address)") (auto dest: parse_link_child)

declare priskv_backend_open.simps [simp del]

section \<open>Requests\<close>

datatype driver_call =
    D_get nat string nat | D_set nat string nat nat | D_del nat string | D_test nat string | D_evict nat

datatype breq = Breq (br_level: nat) (br_key: string) (br_valuelen: nat) (br_cb: bcb)
  and bcb = Bcb_user | Bcb_get breq | Bcb_child_get breq | Bcb_freeup nat breq | Bcb_cache_cb breq
    | Bcb_set breq | Bcb_child_set breq | Bcb_del breq | Bcb_child_del breq | Bcb_test breq

datatype bout = Driver driver_call bcb | Answer priskv_backend_status nat

definition priskv_backend_get :: "nat \<Rightarrow> string \<Rightarrow> nat \<Rightarrow> bcb \<Rightarrow> bout" where
  "priskv_backend_get level key valuelen cb = Driver (D_get level key valuelen) (Bcb_get (Breq level key valuelen cb))"

text \<open>SET and DELETE go down the chain first; \<open>children\<close> devices are below \<open>level\<close>.\<close>

fun priskv_backend_set :: "nat \<Rightarrow> nat \<Rightarrow> string \<Rightarrow> nat \<Rightarrow> nat \<Rightarrow> bcb \<Rightarrow> bout" where
  "priskv_backend_set 0 level key valuelen timeout cb =
     Driver (D_set level key valuelen timeout) (Bcb_set (Breq level key valuelen cb))"
| "priskv_backend_set (Suc children) level key valuelen timeout cb =
     priskv_backend_set children (level + 1) key valuelen timeout (Bcb_child_set (Breq level key valuelen cb))"

fun priskv_backend_del :: "nat \<Rightarrow> nat \<Rightarrow> string \<Rightarrow> bcb \<Rightarrow> bout" where
  "priskv_backend_del 0 level key cb = Driver (D_del level key) (Bcb_del (Breq level key 0 cb))"
| "priskv_backend_del (Suc children) level key cb =
     priskv_backend_del children (level + 1) key (Bcb_child_del (Breq level key 0 cb))"

definition priskv_backend_test :: "nat \<Rightarrow> string \<Rightarrow> bcb \<Rightarrow> bout" where
  "priskv_backend_test level key cb = Driver (D_test level key) (Bcb_test (Breq level key 0 cb))"

text \<open>
  The callbacks. \<open>k\<close> is \<open>req->cb\<close> with its argument, \<open>cacheable\<close> the driver's answer to
  \<open>is_cacheable\<close>. \<open>freeup\<close> is \<open>_priskv_backend_freeup\<close> for the request whose value is to be
  cached; its own callback is always \<open>priskv_backend_cache\<close>.
\<close>

definition priskv_backend_cache_cb :: "(priskv_backend_status \<Rightarrow> nat \<Rightarrow> bout) \<Rightarrow> priskv_backend_status \<Rightarrow> nat \<Rightarrow> bout" where
  [simp]: "priskv_backend_cache_cb k status len = k PRISKV_BACKEND_STATUS_OK len"

definition priskv_backend_cache ::
  "breq \<Rightarrow> (priskv_backend_status \<Rightarrow> nat \<Rightarrow> bout) \<Rightarrow> priskv_backend_status \<Rightarrow> nat \<Rightarrow> bout"
where
  [simp]: "priskv_backend_cache req k status len =
     (if status \<noteq> PRISKV_BACKEND_STATUS_OK then k PRISKV_BACKEND_STATUS_OK len
      else Driver (D_set (br_level req) (br_key req) (br_valuelen req) 0) (Bcb_cache_cb req))"

definition freeup ::
  "(nat \<Rightarrow> nat \<Rightarrow> bool) \<Rightarrow> nat \<Rightarrow> breq \<Rightarrow> (priskv_backend_status \<Rightarrow> nat \<Rightarrow> bout) \<Rightarrow> bout"
where
  "freeup cacheable valuelen req k =
     (if \<not> cacheable (br_level req) valuelen then Driver (D_evict (br_level req)) (Bcb_freeup valuelen req)
      else priskv_backend_cache req k PRISKV_BACKEND_STATUS_OK (u32n valuelen))"

definition priskv_backend_freeup_cb ::
  "(nat \<Rightarrow> nat \<Rightarrow> bool) \<Rightarrow> nat \<Rightarrow> breq \<Rightarrow> (priskv_backend_status \<Rightarrow> nat \<Rightarrow> bout) \<Rightarrow> priskv_backend_status \<Rightarrow> nat \<Rightarrow> bout"
where
  [simp]: "priskv_backend_freeup_cb cacheable valuelen req k status len =
     (if status \<noteq> PRISKV_BACKEND_STATUS_OK then priskv_backend_cache req k status (u32n valuelen)
      else freeup cacheable valuelen req k)"

definition priskv_backend_child_get_cb ::
  "(nat \<Rightarrow> nat \<Rightarrow> bool) \<Rightarrow> breq \<Rightarrow> (priskv_backend_status \<Rightarrow> nat \<Rightarrow> bout) \<Rightarrow> priskv_backend_status \<Rightarrow> nat \<Rightarrow> bout"
where
  [simp]: "priskv_backend_child_get_cb cacheable req k status len =
     (if status = PRISKV_BACKEND_STATUS_OK then freeup cacheable len req k else k status len)"

definition priskv_backend_get_cb ::
  "nat \<Rightarrow> breq \<Rightarrow> (priskv_backend_status \<Rightarrow> nat \<Rightarrow> bout) \<Rightarrow> priskv_backend_status \<Rightarrow> nat \<Rightarrow> bout"
where
  [simp]: "priskv_backend_get_cb depth req k status len =
     (if status = PRISKV_BACKEND_STATUS_OK then k status len
      else if br_level req + 1 < depth
      then priskv_backend_get (br_level req + 1) (br_key req) (br_valuelen req) (Bcb_child_get req)
      else k status len)"

definition priskv_backend_set_cb :: "(priskv_backend_status \<Rightarrow> nat \<Rightarrow> bout) \<Rightarrow> priskv_backend_status \<Rightarrow> nat \<Rightarrow> bout" where
  [simp]: "priskv_backend_set_cb k status len = k status len"

definition priskv_backend_child_set_cb ::
  "breq \<Rightarrow> (priskv_backend_status \<Rightarrow> nat \<Rightarrow> bout) \<Rightarrow> priskv_backend_status \<Rightarrow> nat \<Rightarrow> bout"
where
  [simp]: "priskv_backend_child_set_cb req k status len =
     (if status = PRISKV_BACKEND_STATUS_OK then Driver (D_del (br_level req) (br_key req)) (Bcb_set req)
      else k status len)"

definition priskv_backend_del_cb :: "(priskv_backend_status \<Rightarrow> nat \<Rightarrow> bout) \<Rightarrow> priskv_backend_status \<Rightarrow> nat \<Rightarrow> bout" where
  [simp]: "priskv_backend_del_cb k status len = k status len"

definition priskv_backend_child_del_cb ::
  "breq \<Rightarrow> (priskv_backend_status \<Rightarrow> nat \<Rightarrow> bout) \<Rightarrow> priskv_backend_status \<Rightarrow> nat \<Rightarrow> bout"
where
  [simp]: "priskv_backend_child_del_cb req k status len =
     (if status = PRISKV_BACKEND_STATUS_OK then Driver (D_del (br_level req) (br_key req)) (Bcb_del req)
      else k status len)"

definition priskv_backend_test_cb ::
  "nat \<Rightarrow> breq \<Rightarrow> (priskv_backend_status \<Rightarrow> nat \<Rightarrow> bout) \<Rightarrow> priskv_backend_status \<Rightarrow> nat \<Rightarrow> bout"
where
  [simp]: "priskv_backend_test_cb depth req k status len =
     (if status = PRISKV_BACKEND_STATUS_OK then k status len
      else if br_level req + 1 < depth then priskv_backend_test (br_level req + 1) (br_key req) (br_cb req)
      else k status len)"

text \<open>The callback a driver was given, run with the driver's answer.\<close>

fun backend_cb :: "(nat \<Rightarrow> nat \<Rightarrow> bool) \<Rightarrow> nat \<Rightarrow> bcb \<Rightarrow> priskv_backend_status \<Rightarrow> nat \<Rightarrow> bout" where
  "backend_cb cacheable depth Bcb_user status len = Answer status len"
| "backend_cb cacheable depth (Bcb_get (Breq l key n cb)) status len =
     priskv_backend_get_cb depth (Breq l key n cb) (\<lambda>s m. backend_cb cacheable depth cb s m) status len"
| "backend_cb cacheable depth (Bcb_child_get (Breq l key n cb)) status len =
     priskv_backend_child_get_cb cacheable (Breq l key n cb) (\<lambda>s m. backend_cb cacheable depth cb s m) status len"
| "backend_cb cacheable depth (Bcb_freeup valuelen (Breq l key n cb)) status len =
     priskv_backend_freeup_cb cacheable valuelen (Breq l key n cb) (\<lambda>s m. backend_cb cacheable depth cb s m) status len"
| "backend_cb cacheable depth (Bcb_cache_cb (Breq l key n cb)) status len =
     priskv_backend_cache_cb (\<lambda>s m. backend_cb cacheable depth cb s m) status len"
| "backend_cb cacheable depth (Bcb_set (Breq l key n cb)) status len =
     priskv_backend_set_cb (\<lambda>s m. backend_cb cacheable depth cb s m) status len"
| "backend_cb cacheable depth (Bcb_child_set (Breq l key n cb)) status len =
     priskv_backend_child_set_cb (Breq l key n cb) (\<lambda>s m. backend_cb cacheable depth cb s m) status len"
| "backend_cb cacheable depth (Bcb_del (Breq l key n cb)) status len =
     priskv_backend_del_cb (\<lambda>s m. backend_cb cacheable depth cb s m) status len"
| "backend_cb cacheable depth (Bcb_child_del (Breq l key n cb)) status len =
     priskv_backend_child_del_cb (Breq l key n cb) (\<lambda>s m. backend_cb cacheable depth cb s m) status len"
| "backend_cb cacheable depth (Bcb_test (Breq l key n cb)) status len =
     priskv_backend_test_cb depth (Breq l key n cb) (\<lambda>s m. backend_cb cacheable depth cb s m) status len"

section \<open>Drivers\<close>

text \<open>
  What the drivers store: the values of each level, and the request's buffer, which all levels
  read into and write from. \<open>driver_ok\<close> is what a driver may answer: GET reads a stored value
  that fits or fails, SET stores the first bytes of the buffer or fails and changes nothing, DELETE
  succeeds, evictions only remove values; no answer of SET says anything about the length.
\<close>

record tiers =
  tr_levels :: "nat \<Rightarrow> string \<rightharpoonup> bytes"
  tr_buf :: bytes

definition at_level :: "nat \<Rightarrow> string \<Rightarrow> bytes option \<Rightarrow> tiers \<Rightarrow> tiers" where
  "at_level l key v st = st\<lparr>tr_levels := (tr_levels st)(l := (tr_levels st l)(key := v))\<rparr>"

fun driver_ok :: "driver_call \<Rightarrow> tiers \<Rightarrow> priskv_backend_status \<Rightarrow> nat \<Rightarrow> tiers \<Rightarrow> bool" where
  "driver_ok (D_get l key n) st status len st' \<longleftrightarrow>
     (if status = PRISKV_BACKEND_STATUS_OK
      then \<exists>v. tr_levels st l key = Some v \<and> length v \<le> n \<and> len = length v \<and> st' = st\<lparr>tr_buf := v @ drop (length v) (tr_buf st)\<rparr>
      else \<exists>b. length b = length (tr_buf st) \<and> st' = st\<lparr>tr_buf := b\<rparr>)"
| "driver_ok (D_set l key n timeout) st status len st' \<longleftrightarrow>
     st' = (if status = PRISKV_BACKEND_STATUS_OK then at_level l key (Some (take n (tr_buf st))) st else st)"
| "driver_ok (D_del l key) st status len st' \<longleftrightarrow> status = PRISKV_BACKEND_STATUS_OK \<and> st' = at_level l key None st"
| "driver_ok (D_test l key) st status len st' \<longleftrightarrow>
     st' = st \<and> (status = PRISKV_BACKEND_STATUS_OK \<longrightarrow> (\<exists>v. tr_levels st l key = Some v \<and> len = length v))"
| "driver_ok (D_evict l) st status len st' \<longleftrightarrow>
     (\<exists>m. m \<subseteq>\<^sub>m tr_levels st l \<and> st' = st\<lparr>tr_levels := (tr_levels st)(l := m)\<rparr>)"

text \<open>A request served to its answer; \<open>is_cacheable\<close> may answer anything at any time.\<close>

inductive serves :: "nat \<Rightarrow> bout \<Rightarrow> tiers \<Rightarrow> priskv_backend_status \<Rightarrow> nat \<Rightarrow> tiers \<Rightarrow> bool" for depth where
  answer: "serves depth (Answer status len) st status len st"
| driver: "driver_ok call st s n st1 \<Longrightarrow> serves depth (backend_cb cacheable depth cb s n) st1 status len st2 \<Longrightarrow>
     serves depth (Driver call cb) st status len st2"

inductive_cases serves_answerE [elim!]: "serves depth (Answer s n) st status len st'"
inductive_cases serves_driverE: "serves depth (Driver call cb) st status len st'"

section \<open>Coherence\<close>

text \<open>A cached copy starts with the value of the last level. (It can be longer: a value is cached
  with the length of the GET's buffer.)\<close>

definition coherent :: "nat \<Rightarrow> tiers \<Rightarrow> bool" where
  "coherent depth st \<longleftrightarrow> (\<forall>l key w. l < depth \<longrightarrow> tr_levels st l key = Some w \<longrightarrow>
     (\<exists>v. tr_levels st (depth - 1) key = Some v \<and> take (length v) w = v))"

lemma coherentD:
  "coherent depth st \<Longrightarrow> l < depth \<Longrightarrow> tr_levels st l key = Some w \<Longrightarrow> \<exists>v. tr_levels st (depth - 1) key = Some v \<and> take (length v) w = v"
  by (simp add: coherent_def)

text \<open>What caching a value at level \<open>l\<close> changes.\<close>

definition cached :: "nat \<Rightarrow> string \<Rightarrow> nat \<Rightarrow> tiers \<Rightarrow> tiers \<Rightarrow> bool" where
  "cached l key n st st' \<longleftrightarrow> tr_buf st' = tr_buf st \<and> (\<forall>l'. l' \<noteq> l \<longrightarrow> tr_levels st' l' = tr_levels st l')
     \<and> (\<forall>k w. tr_levels st' l k = Some w \<longrightarrow> tr_levels st l k = Some w \<or> k = key \<and> w = take n (tr_buf st))"

lemma freeup_serves:
  assumes "serves depth (freeup cacheable m (Breq l key n cb) (\<lambda>s m. backend_cb cacheable depth cb s m)) st status len st'"
  shows "\<exists>c m' st1. serves depth (backend_cb c depth cb PRISKV_BACKEND_STATUS_OK m') st1 status len st' \<and> cached l key n st st1"
  using assms
proof (induction "freeup cacheable m (Breq l key n cb) (\<lambda>s m. backend_cb cacheable depth cb s m)" st status len st' arbitrary: cacheable rule: serves.induct)
  case (answer status len st)
  then show ?case by (simp add: freeup_def split: if_splits)
next
  case (driver call st s k st1 c cb' status len st2)
  show ?case
  proof (cases "cacheable l m")
    case True
    then have e: "call = D_set l key n 0" "cb' = Bcb_cache_cb (Breq l key n cb)" using driver(4) by (simp_all add: freeup_def)
    have "cached l key n st st1" using driver(1) unfolding e by (auto simp: cached_def at_level_def split: if_splits)
    with driver(2) show ?thesis unfolding e by auto
  next
    case False
    then have e: "call = D_evict l" "cb' = Bcb_freeup m (Breq l key n cb)" using driver(4) by (simp_all add: freeup_def)
    have ev: "cached l key n st st1" using driver(1) unfolding e by (auto simp: cached_def map_le_def dom_def)
    show ?thesis
    proof (cases "s = PRISKV_BACKEND_STATUS_OK")
      case True
      with driver(3) [of c] obtain c' m' st3 where
        "serves depth (backend_cb c' depth cb PRISKV_BACKEND_STATUS_OK m') st3 status len st2" "cached l key n st1 st3"
        unfolding e by auto
      moreover from this(2) ev have "cached l key n st st3" by (fastforce simp: cached_def)
      ultimately show ?thesis by blast
    next
      case False
      with driver(2) ev show ?thesis unfolding e by auto
    qed
  qed
qed

lemma cached_coherent:
  assumes "coherent depth st" "cached l key n st st'" "l < depth - 1" "tr_levels st (depth - 1) key = Some v"
    "length v \<le> n" "take (length v) (tr_buf st) = v"
  shows "coherent depth st'"
  unfolding coherent_def
proof (intro allI impI)
  fix l' k w assume h: "l' < depth" "tr_levels st' l' k = Some w"
  have bottom: "tr_levels st' (depth - 1) = tr_levels st (depth - 1)" using assms(2,3) by (auto simp: cached_def)
  show "\<exists>v. tr_levels st' (depth - 1) k = Some v \<and> take (length v) w = v"
  proof (cases "tr_levels st l' k = Some w")
    case True
    with assms(1) h(1) bottom show ?thesis by (auto simp: coherent_def)
  next
    case False
    with assms(2) h(2) have "k = key" "w = take n (tr_buf st)" unfolding cached_def by (metis)+
    with assms(4-6) bottom show ?thesis by (auto simp: min_absorb1)
  qed
qed

lemma get_serves:
  assumes "serves depth (priskv_backend_get l key n cb) st status len st'" "coherent depth st" "l < depth" "n \<le> length (tr_buf st)"
  shows "\<exists>c s m st1. serves depth (backend_cb c depth cb s m) st1 status len st' \<and> coherent depth st1
     \<and> tr_levels st1 (depth - 1) = tr_levels st (depth - 1) \<and> length (tr_buf st1) = length (tr_buf st)
     \<and> (s = PRISKV_BACKEND_STATUS_OK \<longrightarrow> (\<exists>v. tr_levels st (depth - 1) key = Some v \<and> length v \<le> n \<and> take (length v) (tr_buf st1) = v))"
  using assms
proof (induction "depth - l" arbitrary: l cb st rule: less_induct)
  case less
  from less.prems(1) obtain s k st1 c where
    d: "driver_ok (D_get l key n) st s k st1" "serves depth (backend_cb c depth (Bcb_get (Breq l key n cb)) s k) st1 status len st'"
    unfolding priskv_backend_get_def by (auto elim!: serves_driverE)
  from d(1) less.prems(4) have f: "tr_levels st1 = tr_levels st" "length (tr_buf st1) = length (tr_buf st)"
    by (auto split: if_splits)
  from f(1) less.prems(2) have coh: "coherent depth st1" by (simp add: coherent_def)
  show ?case
  proof (cases "s = PRISKV_BACKEND_STATUS_OK")
    case True
    with d(1) obtain w where w: "tr_levels st l key = Some w" "length w \<le> n" "tr_buf st1 = w @ drop (length w) (tr_buf st)" by auto
    with less.prems(2,3) obtain v where v: "tr_levels st (depth - 1) key = Some v" "take (length v) w = v" using coherentD by blast
    have "length (take (length v) w) \<le> length w" by simp
    then have "length v \<le> length w" by (simp only: v(2))
    with v(2) w(2,3) have "length v \<le> n" "take (length v) (tr_buf st1) = v" by auto
    with d(2) True f coh v(1) show ?thesis by (intro exI [of _ c] exI [of _ s] exI [of _ k] exI [of _ st1]) auto
  next
    case False
    show ?thesis
    proof (cases "l + 1 < depth")
      case True
      with False d(2) have "serves depth (priskv_backend_get (l + 1) key n (Bcb_child_get (Breq l key n cb))) st1 status len st'" by simp
      moreover have "depth - (l + 1) < depth - l" "n \<le> length (tr_buf st1)" using True less.prems(4) f(2) by simp_all
      ultimately obtain c2 s2 m2 st2 where
        g: "serves depth (backend_cb c2 depth (Bcb_child_get (Breq l key n cb)) s2 m2) st2 status len st'" "coherent depth st2"
          "tr_levels st2 (depth - 1) = tr_levels st1 (depth - 1)" "length (tr_buf st2) = length (tr_buf st1)"
          "s2 = PRISKV_BACKEND_STATUS_OK \<longrightarrow> (\<exists>v. tr_levels st1 (depth - 1) key = Some v \<and> length v \<le> n \<and> take (length v) (tr_buf st2) = v)"
        using less.hyps [of "l + 1" "Bcb_child_get (Breq l key n cb)" st1] coh True by blast
      show ?thesis
      proof (cases "s2 = PRISKV_BACKEND_STATUS_OK")
        case True2: True
        from g(5) True2 obtain v where v: "tr_levels st1 (depth - 1) key = Some v" "length v \<le> n" "take (length v) (tr_buf st2) = v" by blast
        from g(1) True2 have "serves depth (freeup c2 m2 (Breq l key n cb) (\<lambda>s m. backend_cb c2 depth cb s m)) st2 status len st'" by simp
        from freeup_serves [OF this] obtain c3 m3 st3 where
          h: "serves depth (backend_cb c3 depth cb PRISKV_BACKEND_STATUS_OK m3) st3 status len st'" "cached l key n st2 st3" by blast
        have l: "l < depth - 1" using True by simp
        have "coherent depth st3" using cached_coherent [OF g(2) h(2) l _ v(2,3)] v(1) g(3) by simp
        moreover have "tr_levels st3 (depth - 1) = tr_levels st2 (depth - 1)" "tr_buf st3 = tr_buf st2"
          using h(2) l by (auto simp: cached_def)
        ultimately show ?thesis using h(1) v g(3,4) f
          by (intro exI [of _ c3] exI [of _ PRISKV_BACKEND_STATUS_OK] exI [of _ m3] exI [of _ st3]) auto
      next
        case False2: False
        with g f show ?thesis by auto
      qed
    next
      case last: False
      with False d(2) f coh show ?thesis by (intro exI [of _ c] exI [of _ s] exI [of _ k] exI [of _ st1]) auto
    qed
  qed
qed

text \<open>A SET that succeeds, and a DELETE, leave the key nowhere but at the last level.\<close>

definition bottom_only :: "nat \<Rightarrow> nat \<Rightarrow> string \<Rightarrow> bytes option \<Rightarrow> tiers \<Rightarrow> tiers \<Rightarrow> bool" where
  "bottom_only depth l key v st st' \<longleftrightarrow> tr_buf st' = tr_buf st
     \<and> (\<forall>l'. tr_levels st' l' = (if l' = depth - 1 then (tr_levels st l')(key := v)
          else if l \<le> l' \<and> l' < depth then (tr_levels st l')(key := None) else tr_levels st l'))"

lemma bottom_only_step:
  assumes "bottom_only depth (l + 1) key v st st1" "l + 1 < depth"
  shows "bottom_only depth l key v st (at_level l key None st1)"
  using assms by (auto simp: bottom_only_def at_level_def fun_eq_iff)

lemma set_serves:
  assumes "serves depth (priskv_backend_set children l key n timeout cb) st status len st'" "l + children + 1 = depth"
  shows "\<exists>c s m st1. serves depth (backend_cb c depth cb s m) st1 status len st'
     \<and> (if s = PRISKV_BACKEND_STATUS_OK then bottom_only depth l key (Some (take n (tr_buf st))) st st1 else st1 = st)"
  using assms
proof (induction children arbitrary: l cb)
  case 0
  then obtain s k st1 c where d: "driver_ok (D_set l key n timeout) st s k st1"
    "serves depth (backend_cb c depth (Bcb_set (Breq l key n cb)) s k) st1 status len st'"
    by (auto elim!: serves_driverE)
  moreover have "s = PRISKV_BACKEND_STATUS_OK \<Longrightarrow> bottom_only depth l key (Some (take n (tr_buf st))) st st1"
    using d(1) 0(2) by (auto simp: bottom_only_def at_level_def)
  ultimately show ?case by (auto split: if_splits)
next
  case (Suc children)
  from Suc.IH [of "l + 1" "Bcb_child_set (Breq l key n cb)"] Suc.prems obtain c s m st1 where
    d: "serves depth (backend_cb c depth (Bcb_child_set (Breq l key n cb)) s m) st1 status len st'"
      "if s = PRISKV_BACKEND_STATUS_OK then bottom_only depth (l + 1) key (Some (take n (tr_buf st))) st st1 else st1 = st" by auto
  show ?case
  proof (cases "s = PRISKV_BACKEND_STATUS_OK")
    case True
    with d(1) obtain s2 k c2 st2 where e: "driver_ok (D_del l key) st1 s2 k st2"
      "serves depth (backend_cb c2 depth (Bcb_set (Breq l key n cb)) s2 k) st2 status len st'" by (auto elim!: serves_driverE)
    with bottom_only_step [of depth l key _ st st1] d(2) True Suc.prems(2) show ?thesis
      by (intro exI [of _ c2] exI [of _ PRISKV_BACKEND_STATUS_OK] exI [of _ k] exI [of _ st2]) auto
  next
    case False
    with d show ?thesis by auto
  qed
qed

lemma del_serves:
  assumes "serves depth (priskv_backend_del children l key cb) st status len st'" "l + children + 1 = depth"
  shows "\<exists>c m st1. serves depth (backend_cb c depth cb PRISKV_BACKEND_STATUS_OK m) st1 status len st' \<and> bottom_only depth l key None st st1"
  using assms
proof (induction children arbitrary: l cb)
  case 0
  then obtain s k st1 c where d: "driver_ok (D_del l key) st s k st1"
    "serves depth (backend_cb c depth (Bcb_del (Breq l key 0 cb)) s k) st1 status len st'"
    by (auto elim!: serves_driverE)
  moreover have "bottom_only depth l key None st st1" using d(1) 0(2) by (auto simp: bottom_only_def at_level_def)
  ultimately show ?case by auto
next
  case (Suc children)
  from Suc.IH [of "l + 1" "Bcb_child_del (Breq l key 0 cb)"] Suc.prems obtain c m st1 where
    d: "serves depth (backend_cb c depth (Bcb_child_del (Breq l key 0 cb)) PRISKV_BACKEND_STATUS_OK m) st1 status len st'"
      "bottom_only depth (l + 1) key None st st1" by auto
  then obtain s2 k c2 st2 where e: "driver_ok (D_del l key) st1 s2 k st2"
      "serves depth (backend_cb c2 depth (Bcb_del (Breq l key 0 cb)) s2 k) st2 status len st'" by (auto elim!: serves_driverE)
  with bottom_only_step [OF d(2)] Suc.prems(2) show ?case by auto
qed

lemma test_serves:
  assumes "serves depth (priskv_backend_test l key Bcb_user) st status len st'"
  shows "st' = st"
  using assms
proof (induction "depth - l" arbitrary: l rule: less_induct)
  case less
  from less.prems obtain s k c st1 where "driver_ok (D_test l key) st s k st1"
    "serves depth (backend_cb c depth (Bcb_test (Breq l key 0 Bcb_user)) s k) st1 status len st'"
    unfolding priskv_backend_test_def by (auto elim!: serves_driverE)
  then show ?case using less.hyps [of "l + 1"] by (auto split: if_splits)
qed

lemma bottom_only_coherent: "coherent depth st \<Longrightarrow> bottom_only depth 0 key v st st' \<Longrightarrow> 0 < depth \<Longrightarrow> coherent depth st'"
  unfolding coherent_def bottom_only_def by (auto split: if_splits)

lemma bottom_onlyD:
  assumes "bottom_only depth 0 key v st st'" "0 < depth"
  shows "tr_levels st' (depth - 1) key = v" "l < depth - 1 \<Longrightarrow> tr_levels st' l key = None"
  using assms by (auto simp: bottom_only_def)

section \<open>Runs\<close>

text \<open>Requests on an opened chain, one after the other, each with a buffer of its own. Opening has
  cleared the caches.\<close>

inductive chain_run :: "nat \<Rightarrow> tiers \<Rightarrow> bool" for depth where
  opened: "\<forall>l < depth - 1. tr_levels st l = Map.empty \<Longrightarrow> chain_run depth st"
| get: "chain_run depth st \<Longrightarrow> n \<le> length b \<Longrightarrow>
    serves depth (priskv_backend_get 0 key n Bcb_user) (st\<lparr>tr_buf := b\<rparr>) status len st' \<Longrightarrow> chain_run depth st'"
| set: "chain_run depth st \<Longrightarrow>
    serves depth (priskv_backend_set (depth - 1) 0 key n timeout Bcb_user) (st\<lparr>tr_buf := b\<rparr>) status len st' \<Longrightarrow> chain_run depth st'"
| del: "chain_run depth st \<Longrightarrow>
    serves depth (priskv_backend_del (depth - 1) 0 key Bcb_user) (st\<lparr>tr_buf := b\<rparr>) status len st' \<Longrightarrow> chain_run depth st'"
| test: "chain_run depth st \<Longrightarrow>
    serves depth (priskv_backend_test 0 key Bcb_user) (st\<lparr>tr_buf := b\<rparr>) status len st' \<Longrightarrow> chain_run depth st'"

lemma coherent_buf: "coherent depth (st\<lparr>tr_buf := b\<rparr>) = coherent depth st"
  by (simp add: coherent_def)

lemma chain_run_coherent:
  assumes "chain_run depth st" "0 < depth"
  shows "coherent depth st"
  using assms
proof (induction rule: chain_run.induct)
  case (opened st)
  then show ?case unfolding coherent_def by (metis Suc_pred' less_Suc_eq option.distinct(1) take_all_iff order_refl)
next
  case (get st n b key status len st')
  then show ?case using get_serves [of depth 0 key n Bcb_user "st\<lparr>tr_buf := b\<rparr>" status len st'] by (auto simp: coherent_buf)
next
  case (set st key n timeout b status len st')
  then show ?case using set_serves [OF set(2)] bottom_only_coherent [of depth "st\<lparr>tr_buf := b\<rparr>"] by (auto simp: coherent_buf split: if_splits)
next
  case (del st key b status len st')
  then show ?case using del_serves [OF del(2)] bottom_only_coherent [of depth "st\<lparr>tr_buf := b\<rparr>"] by (auto simp: coherent_buf)
next
  case (test st key b status len st')
  then show ?case using test_serves [OF test(2)] by (simp add: coherent_buf)
qed


text \<open>A cache without the key over a device that has it.\<close>

definition demo_tiers :: tiers where
  "demo_tiers = \<lparr>tr_levels = (\<lambda>l. if l = 1 then [''k'' \<mapsto> [1, 2, 3, 4]] else Map.empty), tr_buf = [9, 9, 9, 9, 9, 9, 9, 9]\<rparr>"

lemma demo_chain: "chain_run 2 demo_tiers"
  by (rule chain_run.opened) (simp add: demo_tiers_def)


text \<open>
  A value found below a cache is cached with the length of the GET's buffer instead of its
  own: with a buffer of 8 bytes the cached copy of a value of 4 bytes has 8 bytes, and the next
  GET answers 8.
\<close>

theorem backend_get_caches_buffer_length:
  "\<exists>st1 st2. serves 2 (priskv_backend_get 0 ''k'' 8 Bcb_user) demo_tiers PRISKV_BACKEND_STATUS_OK 8 st1
     \<and> serves 2 (priskv_backend_get 0 ''k'' 8 Bcb_user) st1 PRISKV_BACKEND_STATUS_OK 8 st2
     \<and> tr_levels st2 0 ''k'' = Some [1, 2, 3, 4, 9, 9, 9, 9] \<and> tr_levels st2 1 ''k'' = Some [1, 2, 3, 4]"
proof -
  let ?c = "\<lambda>_ _. True" and ?b = "[1, 2, 3, 4, 9, 9, 9, 9]"
  let ?st1 = "demo_tiers\<lparr>tr_buf := ?b\<rparr>" let ?st2 = "at_level 0 ''k'' (Some ?b) ?st1"
  let ?r0 = "Breq 0 ''k'' 8 Bcb_user" let ?r1 = "Breq 1 ''k'' 8 (Bcb_child_get ?r0)"
  have "serves 2 (backend_cb ?c 2 (Bcb_cache_cb ?r0) PRISKV_BACKEND_STATUS_OK 8) ?st2 PRISKV_BACKEND_STATUS_OK 8 ?st2"
    by (simp add: serves.answer)
  from serves.driver [OF _ this, of "D_set 0 ''k'' 8 0" ?st1]
  have "serves 2 (backend_cb ?c 2 (Bcb_get ?r1) PRISKV_BACKEND_STATUS_OK 4) ?st1 PRISKV_BACKEND_STATUS_OK 8 ?st2"
    by (simp add: freeup_def)
  from serves.driver [OF _ this, of "D_get 1 ''k'' 8" demo_tiers]
  have "serves 2 (backend_cb ?c 2 (Bcb_get ?r0) PRISKV_BACKEND_STATUS_NOT_FOUND 0) demo_tiers PRISKV_BACKEND_STATUS_OK 8 ?st2"
    by (simp add: priskv_backend_get_def demo_tiers_def)
  from serves.driver [OF _ this, of "D_get 0 ''k'' 8" demo_tiers]
  have first: "serves 2 (priskv_backend_get 0 ''k'' 8 Bcb_user) demo_tiers PRISKV_BACKEND_STATUS_OK 8 ?st2"
    by (simp add: priskv_backend_get_def) (metis tiers.surjective tiers.update_convs(2))
  have "serves 2 (backend_cb ?c 2 (Bcb_get ?r0) PRISKV_BACKEND_STATUS_OK 8) ?st2 PRISKV_BACKEND_STATUS_OK 8 ?st2"
    by (simp add: serves.answer)
  from serves.driver [OF _ this, of "D_get 0 ''k'' 8" ?st2]
  have "serves 2 (priskv_backend_get 0 ''k'' 8 Bcb_user) ?st2 PRISKV_BACKEND_STATUS_OK 8 ?st2"
    by (simp add: priskv_backend_get_def at_level_def)
  with first show ?thesis by (intro exI [of _ ?st2]) (simp add: at_level_def demo_tiers_def)
qed

end
