(* ===== verification/Localfs.thy ===== *)
theory Localfs
  imports Rdma Policy_Lru
begin

text \<open>
  The file system driver (\<open>server/backend/be_localfs.c\<close>): one file for each key, read and
  written through io_uring, with a bounded number of requests in flight, an account of the free
  space and an eviction policy. The file system is a directory that maps the names to inodes,
  so that a file that is unlinked or truncated while a request has it open is still there for
  the request. A completion of io_uring is an event. \<open>None\<close> is a thread that waits for a lock it
  holds itself, or a failure of the policy.
\<close>

section \<open>State\<close>

datatype localfs_op_type = LOCALFS_OP_GET | LOCALFS_OP_SET | LOCALFS_OP_DEL | LOCALFS_OP_TEST

record localfs_request =
  lr_key :: string
  lr_val :: bytes
  lr_valuelen :: nat
  lr_old_valuelen :: nat
  lr_op_type :: localfs_op_type
  lr_fd :: nat
  lr_queued_once :: bool
  lr_cbarg :: nat

text \<open>The shared context, the files, the allocated requests, the buffers GET has filled, and the
  callbacks that have been run: argument, status and length. Of io_uring there are the number
  of submission entries that were taken and not prepared, and the submitted ones, each with the
  request it carries; \<open>None\<close> is an entry that was submitted without having been prepared.\<close>

record localfs =
  lf_path :: string
  lf_total_size :: nat
  lf_free_size :: nat
  lf_policy :: "priskv_policy_lru option"
  lf_inflight_count :: nat
  lf_max_depth :: nat
  lf_pending_queue :: "nat list"
  lf_dir :: "string \<rightharpoonup> nat"
  lf_inodes :: "nat \<Rightarrow> bytes"
  lf_next_inode :: nat
  lf_reqs :: "nat \<rightharpoonup> localfs_request"
  lf_next_req :: nat
  lf_unprepared :: nat
  lf_ring :: "nat option list"
  lf_bufs :: "nat \<rightharpoonup> bytes"
  lf_answers :: "(nat \<times> priskv_backend_status \<times> nat) list"

text \<open>Of one call: whether \<open>malloc\<close>, \<open>open\<close>, \<open>io_uring_get_sqe\<close> and \<open>unlink\<close> succeed.\<close>

record lf_env =
  le_malloc :: bool
  le_open :: bool
  le_sqe :: bool
  le_unlink :: bool

definition PATH_MAX :: nat where
  "PATH_MAX = 4096"

definition DEFAULT_MAX_DEPTH :: nat where
  "DEFAULT_MAX_DEPTH = 1023"

definition path_too_long :: "localfs \<Rightarrow> string \<Rightarrow> bool" where
  "path_too_long lf key \<longleftrightarrow> PATH_MAX \<le> length (lf_path lf) + 1 + length key"

definition get_file_size :: "localfs \<Rightarrow> string \<Rightarrow> nat" where
  "get_file_size lf key = (case lf_dir lf key of None \<Rightarrow> 0 | Some i \<Rightarrow> length (lf_inodes lf i))"

definition lf_answer :: "nat \<Rightarrow> priskv_backend_status \<Rightarrow> nat \<Rightarrow> localfs \<Rightarrow> localfs" where
  "lf_answer cbarg status len lf = lf\<lparr>lf_answers := lf_answers lf @ [(cbarg, status, u32n len)]\<rparr>"

section \<open>The shared context\<close>

text \<open>\<open>localfs_parse_address\<close>: the path and the capacity; \<open>available\<close> is what \<open>statvfs\<close> says of
  the file system, negative when it fails, and \<open>erange\<close> what an earlier call
  left in \<open>errno\<close>.\<close>

fun after_size :: "string \<Rightarrow> string option" where
  "after_size [] = None"
| "after_size (c # cs) = (if take 5 (c # cs) = ''size='' then Some (drop 4 cs) else after_size cs)"

definition localfs_parse_address :: "bool \<Rightarrow> int \<Rightarrow> string \<Rightarrow> (string \<times> int) option" where
  "localfs_parse_address erange available address =
     (let path = takeWhile (\<lambda>c. c \<noteq> CHR ''&'') address;
          fs_size = (if available < 0 then None else Some (path, available))
      in case dropWhile (\<lambda>c. c \<noteq> CHR ''&'') address of
           [] \<Rightarrow> fs_size
         | p \<Rightarrow> (case after_size p of
               None \<Rightarrow> fs_size
             | Some num \<Rightarrow> map_option (Pair path) (priskv_str2num erange num)))"

text \<open>\<open>localfs_shared_context_create\<close>: \<open>dir_ok\<close> is \<open>check_or_create_dir\<close>, and \<open>used_size\<close> adds
  up the files that are there, negative when the directory cannot be read; the policy is
  created with head \<open>h\<close>.\<close>

definition localfs_shared_context_create ::
  "bool \<Rightarrow> int \<Rightarrow> bool \<Rightarrow> int \<Rightarrow> addr \<Rightarrow> links \<Rightarrow> (string \<rightharpoonup> nat) \<Rightarrow> (nat \<Rightarrow> bytes) \<Rightarrow> nat \<Rightarrow> string \<Rightarrow> localfs option"
where
  "localfs_shared_context_create erange available dir_ok used_size h g dir inodes next_inode address = do {
     (path, total_size) \<leftarrow> localfs_parse_address erange available address;
     let total = nat (total_size mod 2 ^ 64);
     policy \<leftarrow> priskv_policy_create True ''lru'' [''lru''] h g;
     if PATH_MAX < length path + 255 + 1 \<or> \<not> dir_ok \<or> used_size < 0 \<or> int total < used_size then None
     else Some \<lparr>lf_path = path, lf_total_size = total, lf_free_size = total - nat used_size,
       lf_policy = Some policy, lf_inflight_count = 0, lf_max_depth = DEFAULT_MAX_DEPTH,
       lf_pending_queue = [], lf_dir = dir, lf_inodes = inodes, lf_next_inode = next_inode, lf_reqs = Map.empty,
       lf_next_req = 0, lf_unprepared = 0, lf_ring = [], lf_bufs = Map.empty, lf_answers = []\<rparr>
   }"

definition localfs_is_cacheable :: "localfs \<Rightarrow> nat \<Rightarrow> bool" where
  "localfs_is_cacheable lf valuelen \<longleftrightarrow> valuelen \<le> lf_free_size lf"

section \<open>Requests\<close>

definition localfs_free_request :: "nat \<Rightarrow> localfs \<Rightarrow> localfs" where
  "localfs_free_request r lf = lf\<lparr>lf_reqs := (lf_reqs lf)(r := None)\<rparr>"

definition localfs_complete_request :: "nat \<Rightarrow> localfs_request \<Rightarrow> priskv_backend_status \<Rightarrow> localfs \<Rightarrow> localfs" where
  "localfs_complete_request r req status lf =
     localfs_free_request r (lf_answer (lr_cbarg req) status (lr_valuelen req) lf)"

text \<open>\<open>localfs_make_request\<close>: a SET creates or truncates the file. The size of the file is cut to
  32 bits.\<close>

definition localfs_make_request ::
  "lf_env \<Rightarrow> string \<Rightarrow> bytes \<Rightarrow> nat \<Rightarrow> localfs_op_type \<Rightarrow> nat \<Rightarrow> localfs \<Rightarrow> nat option \<times> localfs"
where
  "localfs_make_request env key val valuelen op_type cbarg lf =
     (let r = lf_next_req lf; file_size = u32n (get_file_size lf key);
          req = \<lparr>lr_key = key, lr_val = val, lr_valuelen = valuelen,
                 lr_old_valuelen = (if op_type = LOCALFS_OP_SET then file_size else 0), lr_op_type = op_type,
                 lr_fd = (case lf_dir lf key of None \<Rightarrow> lf_next_inode lf | Some i \<Rightarrow> i),
                 lr_queued_once = False, lr_cbarg = cbarg\<rparr>
      in if \<not> le_malloc env then (None, lf_answer cbarg PRISKV_BACKEND_STATUS_ERROR 0 lf)
         else if path_too_long lf key then (None, lf_answer cbarg PRISKV_BACKEND_STATUS_ERROR valuelen lf)
         else if op_type = LOCALFS_OP_GET \<and> valuelen < file_size
         then (None, lf_answer cbarg PRISKV_BACKEND_STATUS_VALUE_TOO_BIG valuelen lf)
         else if \<not> le_open env \<or> op_type = LOCALFS_OP_GET \<and> lf_dir lf key = None
         then (None, lf_answer cbarg PRISKV_BACKEND_STATUS_ERROR valuelen lf)
         else (Some r, lf\<lparr>lf_reqs := (lf_reqs lf)(r \<mapsto> req), lf_next_req := r + 1,
           lf_dir := (lf_dir lf)(key \<mapsto> lr_fd req),
           lf_inodes := (if op_type = LOCALFS_OP_SET then (lf_inodes lf)(lr_fd req := []) else lf_inodes lf),
           lf_next_inode := (if lf_dir lf key = None then lf_next_inode lf + 1 else lf_next_inode lf)\<rparr>))"

text \<open>\<open>submit_io_request\<close>; \<open>locked\<close> says that the thread already holds \<open>queue_lock\<close>, which is a
  spinlock.\<close>

definition lf_enqueue :: "nat \<Rightarrow> localfs_request \<Rightarrow> localfs \<Rightarrow> localfs" where
  "lf_enqueue r req lf =
     (if lr_queued_once req then lf\<lparr>lf_pending_queue := r # lf_pending_queue lf\<rparr>
      else lf\<lparr>lf_pending_queue := lf_pending_queue lf @ [r], lf_reqs := (lf_reqs lf)(r \<mapsto> req\<lparr>lr_queued_once := True\<rparr>)\<rparr>)"

text \<open>Taking back the count of a request that is not submitted after all, and \<open>io_uring_submit\<close>,
  which also submits the entries that were taken before.\<close>

definition lf_uncount :: "localfs \<Rightarrow> localfs" where
  "lf_uncount lf = (if 0 < lf_inflight_count lf then lf\<lparr>lf_inflight_count := lf_inflight_count lf - 1\<rparr> else lf)"

definition io_uring_submit :: "nat \<Rightarrow> localfs \<Rightarrow> localfs" where
  "io_uring_submit r lf = lf\<lparr>lf_ring := lf_ring lf @ replicate (lf_unprepared lf) None @ [Some r], lf_unprepared := 0\<rparr>"

definition submit_io_request :: "lf_env \<Rightarrow> bool \<Rightarrow> nat \<Rightarrow> localfs \<Rightarrow> (bool \<times> localfs) option" where
  "submit_io_request env locked r lf = do {
     req \<leftarrow> lf_reqs lf r;
     if locked then None
     else if lf_max_depth lf \<le> lf_inflight_count lf then Some (False, lf_enqueue r req lf)
     else if \<not> le_sqe env then Some (False, lf_enqueue r req lf)
     else do {
       let lf1 = lf\<lparr>lf_inflight_count := lf_inflight_count lf + 1\<rparr>;
       let unprepared = lf1\<lparr>lf_unprepared := lf_unprepared lf1 + 1\<rparr>;
       case lr_op_type req of
         LOCALFS_OP_GET \<Rightarrow>
           if lf_policy lf1 = None then Some (True, io_uring_submit r lf1)
           else do {
             (ref_acquired, policy) \<leftarrow> priskv_policy_try_ref_key (lr_key req) (lf_policy lf1);
             if \<not> ref_acquired
             then Some (False, localfs_complete_request r req PRISKV_BACKEND_STATUS_NOT_FOUND
               (lf_uncount (unprepared\<lparr>lf_policy := policy\<rparr>)))
             else Some (True, io_uring_submit r (lf1\<lparr>lf_policy := policy\<rparr>))
           }
       | LOCALFS_OP_SET \<Rightarrow> Some (True, io_uring_submit r lf1)
       | _ \<Rightarrow> Some (False, localfs_complete_request r req PRISKV_BACKEND_STATUS_ERROR (lf_uncount unprepared))
     }
   }"

definition localfs_get :: "lf_env \<Rightarrow> string \<Rightarrow> nat \<Rightarrow> nat \<Rightarrow> localfs \<Rightarrow> localfs option" where
  "localfs_get env key valuelen cbarg lf =
     (case localfs_make_request env key [] valuelen LOCALFS_OP_GET cbarg lf of
        (None, lf1) \<Rightarrow> Some lf1
      | (Some r, lf1) \<Rightarrow> map_option snd (submit_io_request env False r lf1))"

definition localfs_set :: "lf_env \<Rightarrow> string \<Rightarrow> bytes \<Rightarrow> nat \<Rightarrow> nat \<Rightarrow> localfs \<Rightarrow> localfs option" where
  "localfs_set env key val valuelen cbarg lf =
     (case localfs_make_request env key val valuelen LOCALFS_OP_SET cbarg lf of
        (None, lf1) \<Rightarrow> Some lf1
      | (Some r, lf1) \<Rightarrow> map_option snd (submit_io_request env False r lf1))"

text \<open>
  \<open>handle_io_uring_events\<close>: one completion, with its result and the node \<open>malloc\<close> would return.
  The transfer takes place here: a write puts the value over the start of the file, a read
  fills the buffer. The result tells whether the completion is counted. A completion of an
  entry that was never prepared carries no valid request.
\<close>

type_synonym cqe = "nat option \<times> int \<times> addr option"

definition lf_transfer :: "localfs_request \<Rightarrow> nat \<Rightarrow> localfs \<Rightarrow> localfs" where
  "lf_transfer req n lf =
     (if lr_op_type req = LOCALFS_OP_SET
      then lf\<lparr>lf_inodes := (lf_inodes lf)(lr_fd req := take n (lr_val req) @ drop n (lf_inodes lf (lr_fd req)))\<rparr>
      else lf\<lparr>lf_bufs := (lf_bufs lf)(lr_cbarg req \<mapsto> take n (lf_inodes lf (lr_fd req)))\<rparr>)"

definition charge :: "localfs_request \<Rightarrow> localfs \<Rightarrow> localfs" where
  "charge req lf =
     (let delta = int (lr_valuelen req) - int (lr_old_valuelen req)
      in lf\<lparr>lf_free_size := nat ((int (lf_free_size lf) - delta) mod 2 ^ 64)\<rparr>)"

definition handle_cqe :: "cqe \<Rightarrow> localfs \<Rightarrow> (bool \<times> localfs) option" where
  "handle_cqe c lf = (case c of (entry, res, malloced) \<Rightarrow>
     if entry \<notin> set (lf_ring lf) then Some (False, lf)
     else do {
       r \<leftarrow> entry;
       req \<leftarrow> lf_reqs lf r;
       let lf0 = lf\<lparr>lf_ring := remove1 entry (lf_ring lf)\<rparr>;
       if res < 0 then do {
         policy \<leftarrow> (if lr_op_type req = LOCALFS_OP_GET then priskv_policy_unref_key (lr_key req) (lf_policy lf0) else Some (lf_policy lf0));
         Some (False, localfs_complete_request r req PRISKV_BACKEND_STATUS_ERROR (lf0\<lparr>lf_policy := policy\<rparr>))
       } else do {
         let lf1 = lf_transfer req (nat res) lf0;
         if lr_op_type req = LOCALFS_OP_SET \<and> nat res \<noteq> lr_valuelen req
         then Some (False, localfs_complete_request r req PRISKV_BACKEND_STATUS_ERROR lf1)
         else do {
           let lf2 = (if lr_op_type req = LOCALFS_OP_SET then charge req lf1 else lf1);
           policy \<leftarrow> (if lr_op_type req = LOCALFS_OP_SET then priskv_policy_access malloced (lr_key req) (lf_policy lf2)
                     else priskv_policy_unref_key (lr_key req) (lf_policy lf2));
           Some (True, localfs_complete_request r (req\<lparr>lr_valuelen := nat res\<rparr>) PRISKV_BACKEND_STATUS_OK (lf2\<lparr>lf_policy := policy\<rparr>))
         }
       }
     })"

fun handle_cqes :: "cqe list \<Rightarrow> localfs \<Rightarrow> (nat \<times> localfs) option" where
  "handle_cqes [] lf = Some (0, lf)"
| "handle_cqes (c # cs) lf = do {
     (counted, lf1) \<leftarrow> handle_cqe c lf;
     (completed_reqs, lf2) \<leftarrow> handle_cqes cs lf1;
     Some ((if counted then 1 else 0) + completed_reqs, lf2)
   }"

text \<open>The loop that starts waiting requests, which runs with \<open>queue_lock\<close> held; every round that
  goes on has taken a request out of the queue, so \<open>k\<close> above its length is enough.\<close>

primrec start_pending :: "nat \<Rightarrow> lf_env \<Rightarrow> localfs \<Rightarrow> localfs option" where
  "start_pending 0 env lf = Some lf"
| "start_pending (Suc k) env lf =
     (if lf_inflight_count lf < lf_max_depth lf
      then case lf_pending_queue lf of
             [] \<Rightarrow> Some lf
           | waiting # queue \<Rightarrow> do {
               (submitted, lf1) \<leftarrow> submit_io_request env True waiting (lf\<lparr>lf_pending_queue := queue\<rparr>);
               if submitted then start_pending k env lf1 else Some lf1
             }
      else Some lf)"

definition handle_io_uring_events :: "lf_env \<Rightarrow> cqe list \<Rightarrow> localfs \<Rightarrow> localfs option" where
  "handle_io_uring_events env cqes lf = do {
     (completed_reqs, lf1) \<leftarrow> handle_cqes cqes lf;
     if completed_reqs = 0 then Some lf1
     else start_pending (length (lf_pending_queue lf1) + 1) env
       (lf1\<lparr>lf_inflight_count := (if lf_inflight_count lf1 < completed_reqs then 0 else lf_inflight_count lf1 - completed_reqs)\<rparr>)
   }"

section \<open>Operations without I/O\<close>

text \<open>\<open>localfs_del\<close>; when the path is too long, it reports a length that was never assigned.\<close>

definition lf_unlink :: "string \<Rightarrow> localfs \<Rightarrow> localfs" where
  "lf_unlink key lf = lf\<lparr>lf_dir := (lf_dir lf)(key := None), lf_free_size := u64n (lf_free_size lf + get_file_size lf key)\<rparr>"

definition localfs_del :: "lf_env \<Rightarrow> string \<Rightarrow> nat \<Rightarrow> localfs \<Rightarrow> localfs option" where
  "localfs_del env key cbarg lf =
     (let valuelen = get_file_size lf key
      in if path_too_long lf key then None
         else if \<not> le_unlink env then Some (lf_answer cbarg PRISKV_BACKEND_STATUS_ERROR valuelen lf)
         else Some (lf_answer cbarg PRISKV_BACKEND_STATUS_OK valuelen
           ((lf_unlink key lf)\<lparr>lf_policy := priskv_policy_del_key key (lf_policy lf)\<rparr>)))"

definition localfs_evict :: "lf_env \<Rightarrow> nat \<Rightarrow> localfs \<Rightarrow> localfs option" where
  "localfs_evict env cbarg lf =
     (if lf_policy lf = None then Some (lf_answer cbarg PRISKV_BACKEND_STATUS_ERROR 0 lf)
      else do {
        (victim, policy) \<leftarrow> priskv_policy_evict (lf_policy lf);
        let lf1 = lf\<lparr>lf_policy := policy\<rparr>;
        case victim of
          None \<Rightarrow> Some (lf_answer cbarg PRISKV_BACKEND_STATUS_NO_SPACE 0 lf1)
        | Some key \<Rightarrow>
            if path_too_long lf key then Some (lf_answer cbarg PRISKV_BACKEND_STATUS_ERROR 0 lf1)
            else if \<not> le_unlink env then Some (lf_answer cbarg PRISKV_BACKEND_STATUS_ERROR (get_file_size lf1 key) lf1)
            else Some (lf_answer cbarg PRISKV_BACKEND_STATUS_OK (get_file_size lf1 key) (lf_unlink key lf1))
      })"

text \<open>\<open>localfs_clearup\<close> keeps the policy as it is. \<open>dir_ok\<close> says that the directory can be opened;
  \<open>removed\<close> are the files it has removed before the first failure, if one is not removed.\<close>

definition localfs_clearup :: "bool \<Rightarrow> string set option \<Rightarrow> localfs \<Rightarrow> int \<times> localfs" where
  "localfs_clearup dir_ok removed lf =
     (if \<not> dir_ok then (- 1, lf)
      else case removed of
             Some names \<Rightarrow> (- 1, lf\<lparr>lf_dir := lf_dir lf |` (- names)\<rparr>)
           | None \<Rightarrow> (0, lf\<lparr>lf_dir := Map.empty, lf_free_size := lf_total_size lf\<rparr>))"

text \<open>\<open>localfs_test\<close>; \<open>errno_enoent\<close> is what an earlier call left in \<open>errno\<close>, which decides the answer
  for an empty file.\<close>

definition localfs_test :: "bool \<Rightarrow> string \<Rightarrow> nat \<Rightarrow> localfs \<Rightarrow> localfs option" where
  "localfs_test errno_enoent key cbarg lf = do {
     (ref_acquired, policy) \<leftarrow> priskv_policy_try_ref_key key (lf_policy lf);
     let lf1 = lf\<lparr>lf_policy := policy\<rparr>;
     let valuelen = u32n (get_file_size lf key);
     if lf_policy lf \<noteq> None \<and> \<not> ref_acquired then Some (lf_answer cbarg PRISKV_BACKEND_STATUS_NOT_FOUND 0 lf1)
     else do {
       policy2 \<leftarrow> priskv_policy_unref_key key policy;
       let lf2 = lf1\<lparr>lf_policy := policy2\<rparr>;
       if path_too_long lf key then Some (lf_answer cbarg PRISKV_BACKEND_STATUS_ERROR 0 lf2)
       else if 0 < valuelen then Some (lf_answer cbarg PRISKV_BACKEND_STATUS_OK valuelen lf2)
       else if lf_dir lf key = None \<or> errno_enoent then Some (lf_answer cbarg PRISKV_BACKEND_STATUS_NOT_FOUND valuelen lf2)
       else Some (lf_answer cbarg PRISKV_BACKEND_STATUS_ERROR valuelen lf2)
     }
   }"

section \<open>Devices\<close>

text \<open>\<open>localfs_shared_ctx\<close>, the one context of the process, with its \<open>ref_count\<close>. Destroying it
  completes the waiting requests.\<close>

type_synonym localfs_shared = "(int \<times> localfs) option"

definition localfs_shared_context_get :: "localfs_shared \<Rightarrow> localfs_shared" where
  "localfs_shared_context_get shared = map_option (\<lambda>(ref_count, ctx). (ref_count + 1, ctx)) shared"

fun fail_pending :: "nat list \<Rightarrow> localfs \<Rightarrow> localfs option" where
  "fail_pending [] lf = Some lf"
| "fail_pending (r # rs) lf = do {
     req \<leftarrow> lf_reqs lf r;
     fail_pending rs (localfs_complete_request r req PRISKV_BACKEND_STATUS_ERROR lf)
   }"

definition localfs_shared_context_destroy :: "localfs \<Rightarrow> localfs option" where
  "localfs_shared_context_destroy lf = fail_pending (lf_pending_queue lf) (lf\<lparr>lf_pending_queue := [], lf_policy := None\<rparr>)"

text \<open>The second component is the destroyed context.\<close>

definition localfs_shared_context_put :: "localfs_shared \<Rightarrow> (localfs_shared \<times> localfs option) option" where
  "localfs_shared_context_put shared = (case shared of
     None \<Rightarrow> Some (None, None)
   | Some (ref_count, ctx) \<Rightarrow>
       if ref_count - 1 = 0 then map_option (\<lambda>dead. (None, Some dead)) (localfs_shared_context_destroy ctx)
       else Some (Some (ref_count - 1, ctx), None))"

text \<open>\<open>created\<close> is what \<open>localfs_shared_context_create\<close> would return; \<open>calloc_ok\<close> and \<open>ring_ok\<close> say whether
  the context of the thread and its ring can be had.\<close>

definition localfs_open :: "localfs option \<Rightarrow> bool \<Rightarrow> bool \<Rightarrow> localfs_shared \<Rightarrow> (int \<times> localfs_shared) option" where
  "localfs_open created calloc_ok ring_ok shared =
     (case (case shared of None \<Rightarrow> map_option (Pair 1) created | Some _ \<Rightarrow> localfs_shared_context_get shared) of
        None \<Rightarrow> Some (- 1, None)
      | Some ctx \<Rightarrow>
          if calloc_ok \<and> ring_ok then Some (0, Some ctx)
          else map_option (\<lambda>(shared', _). (- 1, shared')) (localfs_shared_context_put (Some ctx)))"

definition localfs_close :: "localfs_shared \<Rightarrow> (int \<times> localfs_shared) option" where
  "localfs_close shared = map_option (\<lambda>(shared', _). (0, shared')) (localfs_shared_context_put shared)"

section \<open>One request at a time\<close>

text \<open>A device that is given its next call when the last one is complete, and whose I/O succeeds:
  a write takes the whole value and a read all that the file has.\<close>

datatype lf_call = L_set addr string bytes | L_get string nat | L_del string | L_evict | L_test string

definition lf_fine :: lf_env where
  "lf_fine = \<lparr>le_malloc = True, le_open = True, le_sqe = True, le_unlink = True\<rparr>"

definition all_done :: "addr option \<Rightarrow> localfs \<Rightarrow> localfs option" where
  "all_done malloced lf = (case lf_ring lf of
     Some r # _ \<Rightarrow> do {
       req \<leftarrow> lf_reqs lf r;
       let n = (if lr_op_type req = LOCALFS_OP_SET then lr_valuelen req else min (lr_valuelen req) (length (lf_inodes lf (lr_fd req))));
       handle_io_uring_events lf_fine [(Some r, int n, malloced)] lf
     }
   | _ \<Rightarrow> Some lf)"

fun lf_exec :: "nat \<Rightarrow> lf_call \<Rightarrow> localfs \<Rightarrow> localfs option" where
  "lf_exec cbarg (L_set m key val) lf = do { lf1 \<leftarrow> localfs_set lf_fine key val (length val) cbarg lf; all_done (Some m) lf1 }"
| "lf_exec cbarg (L_get key valuelen) lf = do { lf1 \<leftarrow> localfs_get lf_fine key valuelen cbarg lf; all_done None lf1 }"
| "lf_exec cbarg (L_del key) lf = localfs_del lf_fine key cbarg lf"
| "lf_exec cbarg L_evict lf = localfs_evict lf_fine cbarg lf"
| "lf_exec cbarg (L_test key) lf = localfs_test False key cbarg lf"

fun lf_run :: "nat \<Rightarrow> lf_call list \<Rightarrow> localfs \<Rightarrow> localfs option" where
  "lf_run cbarg [] lf = Some lf"
| "lf_run cbarg (call # calls) lf = do { lf1 \<leftarrow> lf_exec cbarg call lf; lf_run (cbarg + 1) calls lf1 }"

text \<open>The same on a list of keys and values, the most recently used first: status, length, data
  that is read, and the list afterwards.\<close>

type_synonym files = "(string \<times> bytes) list"

definition without :: "string \<Rightarrow> files \<Rightarrow> files" where
  "without key xs = filter (\<lambda>e. fst e \<noteq> key) xs"

definition volume :: "files \<Rightarrow> nat" where
  "volume xs = sum_list (map (length \<circ> snd) xs)"

fun files_exec :: "lf_call \<Rightarrow> files \<Rightarrow> (priskv_backend_status \<times> nat \<times> bytes option) \<times> files" where
  "files_exec (L_set m key val) xs = ((PRISKV_BACKEND_STATUS_OK, length val, None), (key, val) # without key xs)"
| "files_exec (L_get key valuelen) xs = (case map_of xs key of
     None \<Rightarrow> ((PRISKV_BACKEND_STATUS_ERROR, valuelen, None), xs)
   | Some val \<Rightarrow> if length val \<le> valuelen then ((PRISKV_BACKEND_STATUS_OK, length val, Some val), (key, val) # without key xs)
       else ((PRISKV_BACKEND_STATUS_VALUE_TOO_BIG, valuelen, None), xs))"
| "files_exec (L_del key) xs =
     ((PRISKV_BACKEND_STATUS_OK, case map_of xs key of None \<Rightarrow> 0 | Some val \<Rightarrow> length val, None), without key xs)"
| "files_exec L_evict xs =
     (if xs = [] then ((PRISKV_BACKEND_STATUS_NO_SPACE, 0, None), [])
      else ((PRISKV_BACKEND_STATUS_OK, length (snd (last xs)), None), butlast xs))"
| "files_exec (L_test key) xs = (case map_of xs key of
     None \<Rightarrow> ((PRISKV_BACKEND_STATUS_NOT_FOUND, 0, None), xs)
   | Some val \<Rightarrow> ((PRISKV_BACKEND_STATUS_OK, length val, None), (key, val) # without key xs))"

section \<open>Refinement\<close>

definition quiet :: "localfs \<Rightarrow> bool" where
  "quiet lf \<longleftrightarrow> lf_inflight_count lf = 0 \<and> 0 < lf_max_depth lf \<and> lf_pending_queue lf = [] \<and> lf_unprepared lf = 0
     \<and> lf_ring lf = [] \<and> lf_reqs lf = Map.empty"

definition holds_files :: "localfs \<Rightarrow> files \<Rightarrow> bool" where
  "holds_files lf xs \<longleftrightarrow> distinct (map fst xs) \<and> (\<forall>k. map_option (lf_inodes lf) (lf_dir lf k) = map_of xs k)
     \<and> inj_on (lf_dir lf) (dom (lf_dir lf)) \<and> ran (lf_dir lf) \<subseteq> {..<lf_next_inode lf}
     \<and> lf_free_size lf + volume xs = lf_total_size lf \<and> lf_total_size lf < 2 ^ 64
     \<and> (\<forall>e \<in> set xs. 0 < length (snd e) \<and> length (snd e) < 2 ^ 31 \<and> \<not> path_too_long lf (fst e))"

definition unused :: "files \<Rightarrow> usage" where
  "unused xs = map (\<lambda>e. (fst e, 0)) xs"

definition tracks :: "localfs \<Rightarrow> addr \<Rightarrow> addr list \<Rightarrow> files \<Rightarrow> bool" where
  "tracks lf h ns xs \<longleftrightarrow> (\<exists>lru. lf_policy lf = Some lru \<and> lru_inv lru ns \<and> lru_hd lru = h
     \<and> lru_usage lru ns = unused xs)"

text \<open>The two operations with I/O, run to the end.\<close>

definition opened :: "string \<Rightarrow> localfs \<Rightarrow> nat" where
  "opened key lf = (case lf_dir lf key of None \<Rightarrow> lf_next_inode lf | Some i \<Rightarrow> i)"

lemma exec_set:
  assumes "quiet lf" "\<not> path_too_long lf key" "lf_policy lf = Some lru" "lru_policy_access (Some m) key lru = Some lru'"
  shows "lf_exec cbarg (L_set m key val) lf = Some (lf\<lparr>
     lf_free_size := nat ((int (lf_free_size lf) - (int (length val) - int (u32n (get_file_size lf key)))) mod 2 ^ 64),
     lf_policy := Some lru', lf_dir := (lf_dir lf)(key \<mapsto> opened key lf), lf_inodes := (lf_inodes lf)(opened key lf := val),
     lf_next_inode := (if lf_dir lf key = None then lf_next_inode lf + 1 else lf_next_inode lf),
     lf_next_req := lf_next_req lf + 1,
     lf_answers := lf_answers lf @ [(cbarg, PRISKV_BACKEND_STATUS_OK, u32n (length val))]\<rparr>)"
  using assms
  by (simp add: quiet_def localfs_set_def localfs_make_request_def lf_fine_def submit_io_request_def io_uring_submit_def
      all_done_def handle_io_uring_events_def handle_cqe_def lf_transfer_def charge_def priskv_policy_access_def
      localfs_complete_request_def localfs_free_request_def lf_answer_def opened_def Let_def)

lemma exec_get:
  assumes "quiet lf" "\<not> path_too_long lf key" "lf_policy lf = Some lru" "lf_dir lf key = Some i"
    "length (lf_inodes lf i) \<le> valuelen" "length (lf_inodes lf i) < 2 ^ 32"
    "lru_policy_try_ref_key key lru = Some (True, lru1)" "lru_policy_unref_key key lru1 = Some lru2"
  shows "lf_exec cbarg (L_get key valuelen) lf = Some (lf\<lparr>lf_policy := Some lru2, lf_next_req := lf_next_req lf + 1,
     lf_bufs := (lf_bufs lf)(cbarg \<mapsto> lf_inodes lf i),
     lf_answers := lf_answers lf @ [(cbarg, PRISKV_BACKEND_STATUS_OK, length (lf_inodes lf i))]\<rparr>)"
proof -
  have "u32n (length (lf_inodes lf i)) = length (lf_inodes lf i)" using assms(6) by (simp add: wrap_simps)
  with assms show ?thesis
    by (simp add: quiet_def localfs_get_def localfs_make_request_def lf_fine_def submit_io_request_def io_uring_submit_def
        all_done_def handle_io_uring_events_def handle_cqe_def lf_transfer_def priskv_policy_try_ref_key_def
        priskv_policy_unref_key_def get_file_size_def localfs_complete_request_def localfs_free_request_def lf_answer_def
        fun_upd_idem Let_def)
qed

lemma exec_get_refused:
  assumes "quiet lf" "\<not> path_too_long lf key" "valuelen < 2 ^ 32" "get_file_size lf key < 2 ^ 32"
    "valuelen < get_file_size lf key \<and> st = PRISKV_BACKEND_STATUS_VALUE_TOO_BIG
     \<or> lf_dir lf key = None \<and> st = PRISKV_BACKEND_STATUS_ERROR"
  shows "lf_exec cbarg (L_get key valuelen) lf = Some (lf\<lparr>lf_answers := lf_answers lf @ [(cbarg, st, valuelen)]\<rparr>)"
proof -
  have "u32n valuelen = valuelen" "u32n (get_file_size lf key) = get_file_size lf key" using assms(3,4) by (simp_all add: wrap_simps)
  moreover have "get_file_size lf key = 0" if "lf_dir lf key = None" using that by (simp add: get_file_size_def)
  ultimately have "localfs_make_request lf_fine key [] valuelen LOCALFS_OP_GET cbarg lf = (None, lf\<lparr>lf_answers := lf_answers lf @ [(cbarg, st, valuelen)]\<rparr>)"
    using assms(2,5) by (elim disjE) (simp_all add: localfs_make_request_def lf_fine_def lf_answer_def Let_def)
  then show ?thesis using assms(1) by (simp add: localfs_get_def all_done_def quiet_def)
qed

lemma volume_without:
  "distinct (map fst xs) \<Longrightarrow> volume xs = volume (without key xs) + (case map_of xs key of None \<Rightarrow> 0 | Some v \<Rightarrow> length v)"
proof (induction xs)
  case (Cons e xs)
  have "without (fst e) xs = xs" if "fst e \<notin> fst ` set xs" using that unfolding without_def by (intro filter_True) (metis image_eqI)
  with Cons show ?case by (cases "fst e = key") (auto simp: volume_def without_def map_of_eq_None_iff [THEN iffD2])
qed (simp add: volume_def without_def)

lemma map_of_without [simp]: "map_of (without key xs) k = (if k = key then None else map_of xs k)"
  by (induction xs) (auto simp: without_def)

lemma distinct_without: "distinct (map fst xs) \<Longrightarrow> distinct (map fst (without key xs)) \<and> key \<notin> fst ` set (without key xs)"
  by (auto simp: without_def distinct_map_filter)

lemma stored_size:
  assumes "holds_files lf xs"
  shows "get_file_size lf key = (case map_of xs key of None \<Rightarrow> 0 | Some v \<Rightarrow> length v)" "get_file_size lf key < 2 ^ 31"
proof -
  have "map_option (lf_inodes lf) (lf_dir lf key) = map_of xs key" using assms by (simp add: holds_files_def)
  then show e: "get_file_size lf key = (case map_of xs key of None \<Rightarrow> 0 | Some v \<Rightarrow> length v)"
    by (auto simp: get_file_size_def split: option.splits)
  show "get_file_size lf key < 2 ^ 31"
    using assms unfolding e by (auto simp: holds_files_def split: option.splits dest!: map_of_SomeD)
qed

text \<open>Moving a key to the front leaves the files as they are.\<close>

lemma volume_front:
  "distinct (map fst xs) \<Longrightarrow> map_of xs key = Some v \<Longrightarrow> volume ((key, v) # without key xs) = volume xs"
  using volume_without [of xs key] by (simp add: volume_def)

lemma holds_front:
  assumes "holds_files lf xs" "map_of xs key = Some v"
  shows "holds_files lf ((key, v) # without key xs)"
proof -
  have d: "distinct (map fst xs)" using assms(1) by (simp add: holds_files_def)
  have "map_of ((key, v) # without key xs) = map_of xs" using assms(2) by auto
  moreover have "set ((key, v) # without key xs) \<subseteq> set xs" using assms(2) by (auto simp: without_def dest: map_of_SomeD)
  ultimately show ?thesis using assms(1) distinct_without [OF d, of key] volume_front [OF d assms(2)]
    unfolding holds_files_def by (auto simp del: map_of.simps)
qed

lemma holds_same:
  "holds_files lf xs \<Longrightarrow> holds_files (lf\<lparr>lf_policy := p, lf_next_req := r, lf_bufs := b, lf_answers := as\<rparr>) xs"
  by (simp add: holds_files_def path_too_long_def)

lemma small_mod: "a = int n \<Longrightarrow> n < 2 ^ 64 \<Longrightarrow> nat (a mod 2 ^ 64) = n"
  by simp

lemma holds_set:
  assumes h: "holds_files lf xs" and "0 < length val" "length val < 2 ^ 31" "\<not> path_too_long lf key"
    "volume ((key, val) # without key xs) \<le> lf_total_size lf"
  shows "holds_files (lf\<lparr>
     lf_free_size := nat ((int (lf_free_size lf) - (int (length val) - int (u32n (get_file_size lf key)))) mod 2 ^ 64),
     lf_policy := p, lf_dir := (lf_dir lf)(key \<mapsto> opened key lf), lf_inodes := (lf_inodes lf)(opened key lf := val),
     lf_next_inode := (if lf_dir lf key = None then lf_next_inode lf + 1 else lf_next_inode lf),
     lf_next_req := r, lf_answers := as\<rparr>) ((key, val) # without key xs)"
proof -
  have d: "distinct (map fst xs)" and t: "lf_free_size lf + volume xs = lf_total_size lf" "lf_total_size lf < 2 ^ 64"
    and m: "\<And>k. map_option (lf_inodes lf) (lf_dir lf k) = map_of xs k" and i: "inj_on (lf_dir lf) (dom (lf_dir lf))"
    and n: "ran (lf_dir lf) \<subseteq> {..<lf_next_inode lf}" using h by (simp_all add: holds_files_def)
  have "u32n (get_file_size lf key) = get_file_size lf key" using stored_size(2) [OF h, of key] by (simp add: wrap_simps)
  moreover have v: "volume xs = volume (without key xs) + get_file_size lf key"
    using volume_without [OF d, of key] stored_size(1) [OF h] by simp
  moreover have w: "volume ((key, val) # without key xs) = length val + volume (without key xs)" by (simp add: volume_def)
  ultimately have "int (lf_free_size lf) - (int (length val) - int (u32n (get_file_size lf key)))
      = int (lf_total_size lf - volume ((key, val) # without key xs))" using t(1) assms(5) by linarith
  from small_mod [OF this] have f: "nat ((int (lf_free_size lf) - (int (length val) - int (u32n (get_file_size lf key)))) mod 2 ^ 64)
      + volume ((key, val) # without key xs) = lf_total_size lf"
    using t(2) assms(5) by (simp only: le_add_diff_inverse2 less_imp_diff_less)
  have other: "j \<noteq> opened key lf" if "lf_dir lf k = Some j" "k \<noteq> key" for k j
  proof (cases "lf_dir lf key")
    case None
    then show ?thesis using that(1) n by (auto simp: opened_def ran_def)
  next
    case (Some l)
    then show ?thesis using that i by (auto simp: opened_def inj_on_def dom_def)
  qed
  have "inj_on ((lf_dir lf)(key \<mapsto> opened key lf)) (dom ((lf_dir lf)(key \<mapsto> opened key lf)))"
    using i other unfolding inj_on_def dom_def by (simp split: if_splits) metis
  moreover have "ran ((lf_dir lf)(key \<mapsto> opened key lf)) \<subseteq> {..<if lf_dir lf key = None then lf_next_inode lf + 1 else lf_next_inode lf}"
    using n by (fastforce simp: opened_def ran_def split: option.splits if_splits)
  moreover have "map_option ((lf_inodes lf)(opened key lf := val)) (((lf_dir lf)(key \<mapsto> opened key lf)) k)
      = map_of ((key, val) # without key xs) k" for k
    using m [of k] other [of k] by (cases "lf_dir lf k") auto
  moreover have "\<forall>e \<in> set ((key, val) # without key xs). 0 < length (snd e) \<and> length (snd e) < 2 ^ 31 \<and> \<not> path_too_long lf (fst e)"
    using h assms(2-4) by (auto simp: holds_files_def without_def)
  ultimately show ?thesis using f t(2) distinct_without [OF d, of key] by (simp add: holds_files_def path_too_long_def)
qed

lemma holds_unlink:
  assumes h: "holds_files lf xs"
  shows "holds_files ((lf_unlink key lf)\<lparr>lf_policy := p, lf_answers := as\<rparr>) (without key xs)"
proof -
  have d: "distinct (map fst xs)" and t: "lf_free_size lf + volume xs = lf_total_size lf" "lf_total_size lf < 2 ^ 64"
    using h by (simp_all add: holds_files_def)
  have "volume xs = volume (without key xs) + get_file_size lf key"
    using volume_without [OF d, of key] stored_size(1) [OF h] by simp
  then have "u64n (lf_free_size lf + get_file_size lf key) + volume (without key xs) = lf_total_size lf"
    using t by (simp add: wrap_simps)
  moreover have "inj_on ((lf_dir lf)(key := None)) (dom ((lf_dir lf)(key := None)))" using h by (auto simp: holds_files_def inj_on_def)
  moreover have "ran ((lf_dir lf)(key := None)) \<subseteq> {..<lf_next_inode lf}" using h by (auto simp: holds_files_def ran_def)
  moreover have "\<forall>e \<in> set (without key xs). 0 < length (snd e) \<and> length (snd e) < 2 ^ 31 \<and> \<not> path_too_long lf (fst e)"
    using h by (auto simp: holds_files_def without_def)
  ultimately show ?thesis using h distinct_without [OF d, of key] t(2)
    by (simp add: holds_files_def lf_unlink_def path_too_long_def)
qed

text \<open>What the policy does on keys without references.\<close>

lemma map_of_unused: "map_of (unused xs) key = map_option (\<lambda>_. 0) (map_of xs key)"
  by (induction xs) (auto simp: unused_def)

lemma unused_drop: "drop_key key (unused xs) = unused (without key xs)"
  by (simp add: drop_key_def unused_def without_def filter_map comp_def)

lemma unused_access: "use_access key (unused xs) = unused ((key, val) # without key xs)"
  by (simp add: use_access_def map_of_unused unused_drop) (simp add: unused_def split: option.splits)

lemma unused_ref:
  "use_ref key (unused xs) = (case map_of xs key of None \<Rightarrow> (False, unused xs) | Some v \<Rightarrow> (True, (key, 1) # unused (without key xs)))"
  by (simp add: use_ref_def map_of_unused unused_drop split: option.splits)

lemma unused_unref: "use_unref key ((key, 1) # unused (without key xs)) = unused ((key, v) # without key xs)"
  by (auto simp: use_unref_def unused_def without_def)

lemma without_last: "distinct (map fst xs) \<Longrightarrow> xs \<noteq> [] \<Longrightarrow> without (fst (last xs)) xs = butlast xs"
proof (induction xs rule: rev_induct)
  case (snoc e xs)
  have "filter (\<lambda>e'. fst e' \<noteq> fst e) xs = xs" using snoc.prems by (intro filter_True) (auto simp: image_iff)
  then show ?case by (simp add: without_def)
qed simp

lemma unused_evict:
  assumes "distinct (map fst xs)"
  shows "use_evict (unused xs) = (if xs = [] then (None, []) else (Some (fst (last xs)), unused (butlast xs)))"
proof (cases xs rule: rev_cases)
  case (snoc ys e)
  then have "find (\<lambda>e. snd e = 0) (take 128 (rev (unused xs))) = Some (fst e, 0)" by (simp add: unused_def)
  then show ?thesis using without_last [OF assms] snoc by (simp add: use_evict_def unused_drop)
qed (simp add: use_evict_def unused_def)

lemma unused_refs: "\<forall>e \<in> set (unused xs). snd e < 2 ^ 31 - 1"
  by (auto simp: unused_def)

lemma ref_unref:
  assumes "lru_inv lru ns" "lru_usage lru ns = unused xs" "map_of xs key = Some v"
  shows "\<exists>lru1 lru2 ns'. lru_policy_try_ref_key key lru = Some (True, lru1) \<and> lru_policy_unref_key key lru1 = Some lru2
     \<and> lru_inv lru2 ns' \<and> set ns' \<subseteq> set ns \<and> lru_hd lru2 = lru_hd lru \<and> lru_usage lru2 ns' = unused ((key, v) # without key xs)"
proof -
  have "\<forall>e \<in> set (lru_usage lru ns). snd e < 2 ^ 31 - 1" unfolding assms(2) by (rule unused_refs)
  from ref_refines [OF assms(1) this, of key] obtain lru1 ns' where
    r: "lru_policy_try_ref_key key lru = Some (True, lru1)" "lru_inv lru1 ns'" "set ns' \<subseteq> set ns" "lru_hd lru1 = lru_hd lru"
      "lru_usage lru1 ns' = (key, 1) # unused (without key xs)" using assms(2,3) by (auto simp: unused_ref)
  from unref_refines [OF r(2), of key] r show ?thesis by (auto simp: unused_unref [of key xs v])
qed

text \<open>A call that can be served: names that make a path, values that are not empty and fit in the
  rest of the space, lengths of 32 bits. The new node of the policy is a fresh one.\<close>

fun call_fits :: "localfs \<Rightarrow> files \<Rightarrow> lf_call \<Rightarrow> bool" where
  "call_fits lf xs (L_set m key val) \<longleftrightarrow> \<not> path_too_long lf key \<and> 0 < length val \<and> length val < 2 ^ 31
     \<and> volume ((key, val) # without key xs) \<le> lf_total_size lf"
| "call_fits lf xs (L_get key valuelen) \<longleftrightarrow> \<not> path_too_long lf key \<and> valuelen < 2 ^ 32"
| "call_fits lf xs (L_del key) \<longleftrightarrow> \<not> path_too_long lf key"
| "call_fits lf xs L_evict \<longleftrightarrow> True"
| "call_fits lf xs (L_test key) \<longleftrightarrow> \<not> path_too_long lf key"

fun new_nodes :: "lf_call list \<Rightarrow> addr list" where
  "new_nodes [] = []"
| "new_nodes (L_set m key val # calls) = m # new_nodes calls"
| "new_nodes (_ # calls) = new_nodes calls"

definition served :: "nat \<Rightarrow> priskv_backend_status \<times> nat \<times> bytes option \<Rightarrow> localfs \<Rightarrow> localfs \<Rightarrow> bool" where
  "served cbarg res lf lf' \<longleftrightarrow> lf_path lf' = lf_path lf \<and> lf_total_size lf' = lf_total_size lf
     \<and> lf_answers lf' = lf_answers lf @ [(cbarg, fst res, fst (snd res))]
     \<and> lf_bufs lf' = (case snd (snd res) of None \<Rightarrow> lf_bufs lf | Some val \<Rightarrow> (lf_bufs lf)(cbarg \<mapsto> val))"

definition sim :: "localfs \<Rightarrow> addr \<Rightarrow> addr list \<Rightarrow> files \<Rightarrow> bool" where
  "sim lf h ns xs \<longleftrightarrow> quiet lf \<and> holds_files lf xs \<and> tracks lf h ns xs"

lemma quiet_same [simp]:
  "quiet (lf\<lparr>lf_policy := p\<rparr>) = quiet lf" "quiet (lf\<lparr>lf_answers := as\<rparr>) = quiet lf" "quiet (lf\<lparr>lf_bufs := b\<rparr>) = quiet lf"
  "quiet (lf\<lparr>lf_next_req := r\<rparr>) = quiet lf" "quiet (lf_unlink key lf) = quiet lf"
  by (simp_all add: quiet_def lf_unlink_def)

lemma policy_same [simp]:
  "get_file_size (lf\<lparr>lf_policy := p\<rparr>) key = get_file_size lf key"
  "lf_unlink key (lf\<lparr>lf_policy := p\<rparr>) = (lf_unlink key lf)\<lparr>lf_policy := p\<rparr>"
  "lf_answers (lf_unlink key lf) = lf_answers lf"
  by (cases lf; simp add: get_file_size_def lf_unlink_def cong: option.case_cong)+

lemma stepI:
  assumes "lf_exec cbarg call lf = Some lf'" "quiet lf'" "holds_files lf' xs'" "tracks lf' h ns' xs'" "set ns' \<subseteq> N"
    "served cbarg res lf lf'"
  shows "\<exists>lf' ns'. lf_exec cbarg call lf = Some lf' \<and> sim lf' h ns' xs' \<and> set ns' \<subseteq> N \<and> served cbarg res lf lf'"
  using assms unfolding sim_def by blast

lemma lf_set_step:
  assumes "sim lf h ns xs" "call_fits lf xs (L_set m key val)" "m \<notin> set (h # ns)"
  shows "\<exists>lf' ns'. lf_exec cbarg (L_set m key val) lf = Some lf' \<and> sim lf' h ns' ((key, val) # without key xs)
     \<and> set ns' \<subseteq> insert m (set ns) \<and> served cbarg (PRISKV_BACKEND_STATUS_OK, length val, None) lf lf'"
proof -
  obtain lru where l: "lf_policy lf = Some lru" "lru_inv lru ns" "lru_hd lru = h" "lru_usage lru ns = unused xs"
    using assms(1) by (auto simp: sim_def tracks_def)
  from access_refines [OF l(2), of m key] assms(3) l(3) obtain lru' ns' where
    a: "lru_policy_access (Some m) key lru = Some lru'" "lru_inv lru' ns'" "set ns' \<subseteq> insert m (set ns)" "lru_hd lru' = h"
      "lru_usage lru' ns' = use_access key (unused xs)" using l(4) by auto
  have q: "quiet lf" and f: "holds_files lf xs" using assms(1) by (simp_all add: sim_def)
  have c: "\<not> path_too_long lf key" "0 < length val" "length val < 2 ^ 31" "volume ((key, val) # without key xs) \<le> lf_total_size lf"
    using assms(2) by simp_all
  let ?lf = "lf\<lparr>
     lf_free_size := nat ((int (lf_free_size lf) - (int (length val) - int (u32n (get_file_size lf key)))) mod 2 ^ 64),
     lf_policy := Some lru', lf_dir := (lf_dir lf)(key \<mapsto> opened key lf), lf_inodes := (lf_inodes lf)(opened key lf := val),
     lf_next_inode := (if lf_dir lf key = None then lf_next_inode lf + 1 else lf_next_inode lf),
     lf_next_req := lf_next_req lf + 1,
     lf_answers := lf_answers lf @ [(cbarg, PRISKV_BACKEND_STATUS_OK, u32n (length val))]\<rparr>"
  have "lf_exec cbarg (L_set m key val) lf = Some ?lf" by (rule exec_set [OF q c(1) l(1) a(1)])
  moreover have "holds_files ?lf ((key, val) # without key xs)" by (rule holds_set [OF f c(2,3,1,4)])
  moreover have "quiet ?lf" using q by (simp add: quiet_def)
  moreover have "tracks ?lf h ns' ((key, val) # without key xs)"
    using a(2,4,5) unused_access [of key xs val] by (simp add: tracks_def)
  moreover have "served cbarg (PRISKV_BACKEND_STATUS_OK, length val, None) lf ?lf" using c(3) by (simp add: served_def wrap_simps)
  ultimately show ?thesis using a(3) stepI by metis
qed

lemma lf_get_step:
  assumes "sim lf h ns xs" "call_fits lf xs (L_get key valuelen)"
  shows "\<exists>lf' ns'. lf_exec cbarg (L_get key valuelen) lf = Some lf' \<and> sim lf' h ns' (snd (files_exec (L_get key valuelen) xs))
     \<and> set ns' \<subseteq> set ns \<and> served cbarg (fst (files_exec (L_get key valuelen) xs)) lf lf'"
proof -
  obtain lru where l: "lf_policy lf = Some lru" "lru_inv lru ns" "lru_hd lru = h" "lru_usage lru ns = unused xs"
    using assms(1) by (auto simp: sim_def tracks_def)
  have q: "quiet lf" and f: "holds_files lf xs" using assms(1) by (simp_all add: sim_def)
  have c: "\<not> path_too_long lf key" "valuelen < 2 ^ 32" using assms(2) by simp_all
  have s: "get_file_size lf key < 2 ^ 32" using stored_size(2) [OF f, of key] by simp
  have m: "map_option (lf_inodes lf) (lf_dir lf key) = map_of xs key" using f by (simp add: holds_files_def)
  have same: "holds_files (lf\<lparr>lf_answers := as\<rparr>) xs" for as using f by (simp add: holds_files_def path_too_long_def)
  consider (hit) v where "map_of xs key = Some v" "length v \<le> valuelen" | (big) v where "map_of xs key = Some v" "valuelen < length v"
    | (miss) "map_of xs key = None" by (cases "map_of xs key") (auto, metis not_le)
  then show ?thesis
  proof cases
    case hit
    then obtain i where i: "lf_dir lf key = Some i" "lf_inodes lf i = v" using m by auto
    have "length v < 2 ^ 32" using s i by (simp add: get_file_size_def)
    from ref_unref [OF l(2,4) hit(1)] obtain lru1 lru2 ns' where
      r: "lru_policy_try_ref_key key lru = Some (True, lru1)" "lru_policy_unref_key key lru1 = Some lru2" "lru_inv lru2 ns'"
        "set ns' \<subseteq> set ns" "lru_hd lru2 = lru_hd lru" "lru_usage lru2 ns' = unused ((key, v) # without key xs)" by blast
    note e = exec_get [OF q c(1) l(1) i(1), of valuelen lru1 lru2 cbarg, unfolded i(2), OF hit(2) \<open>length v < 2 ^ 32\<close> r(1,2)]
    show ?thesis using q r l(3) hit holds_front [OF f hit(1)]
      by (intro stepI [OF e, where ns' = ns']) (simp_all add: tracks_def served_def holds_same)
  next
    case big
    then have "valuelen < get_file_size lf key" using stored_size(1) [OF f, of key] by simp
    then show ?thesis using big q l same
      by (intro stepI [OF exec_get_refused [OF q c s, of PRISKV_BACKEND_STATUS_VALUE_TOO_BIG], where ns' = ns])
        (simp_all add: tracks_def served_def)
  next
    case miss
    then have "lf_dir lf key = None" using m by simp
    then show ?thesis using miss q l same
      by (intro stepI [OF exec_get_refused [OF q c s, of PRISKV_BACKEND_STATUS_ERROR], where ns' = ns])
        (simp_all add: tracks_def served_def)
  qed
qed

lemma lf_del_step:
  assumes "sim lf h ns xs" "call_fits lf xs (L_del key)"
  shows "\<exists>lf' ns'. lf_exec cbarg (L_del key) lf = Some lf' \<and> sim lf' h ns' (without key xs)
     \<and> set ns' \<subseteq> set ns \<and> served cbarg (fst (files_exec (L_del key) xs)) lf lf'"
proof -
  obtain lru where l: "lf_policy lf = Some lru" "lru_inv lru ns" "lru_hd lru = h" "lru_usage lru ns = unused xs"
    using assms(1) by (auto simp: sim_def tracks_def)
  have q: "quiet lf" and f: "holds_files lf xs" using assms(1) by (simp_all add: sim_def)
  from del_refines [OF l(2), of key] obtain ns' where
    d: "lru_inv (lru_policy_del_key key lru) ns'" "set ns' \<subseteq> set ns" "lru_hd (lru_policy_del_key key lru) = h"
      "lru_usage (lru_policy_del_key key lru) ns' = unused (without key xs)" using l(3,4) by (auto simp: unused_drop)
  let ?n = "get_file_size lf key"
  let ?lf = "(lf_unlink key lf)\<lparr>lf_policy := Some (lru_policy_del_key key lru),
    lf_answers := lf_answers lf @ [(cbarg, PRISKV_BACKEND_STATUS_OK, ?n)]\<rparr>"
  have n: "u32n ?n = ?n" using stored_size(2) [OF f, of key] by (simp add: wrap_simps)
  have "lf_exec cbarg (L_del key) lf = Some ?lf"
    using assms(2) l(1) n by (simp add: localfs_del_def lf_fine_def lf_answer_def lf_unlink_def priskv_policy_del_key_def Let_def)
  moreover have "served cbarg (fst (files_exec (L_del key) xs)) lf ?lf"
    using stored_size(1) [OF f, of key] by (simp add: served_def lf_unlink_def)
  ultimately show ?thesis using q d holds_unlink [OF f, where key = key] by (auto simp: sim_def tracks_def)
qed

lemma lf_evict_step:
  assumes "sim lf h ns xs"
  shows "\<exists>lf' ns'. lf_exec cbarg L_evict lf = Some lf' \<and> sim lf' h ns' (snd (files_exec L_evict xs))
     \<and> set ns' \<subseteq> set ns \<and> served cbarg (fst (files_exec L_evict xs)) lf lf'"
proof -
  obtain lru where l: "lf_policy lf = Some lru" "lru_inv lru ns" "lru_hd lru = h" "lru_usage lru ns = unused xs"
    using assms(1) by (auto simp: sim_def tracks_def)
  have q: "quiet lf" and f: "holds_files lf xs" using assms(1) by (simp_all add: sim_def)
  have d: "distinct (map fst xs)" using f by (simp add: holds_files_def)
  from evict_refines [OF l(2)] obtain lru' ns' where
    e: "lru_policy_evict lru = Some (fst (use_evict (unused xs)), lru')" "lru_inv lru' ns'" "set ns' \<subseteq> set ns" "lru_hd lru' = h"
      "lru_usage lru' ns' = snd (use_evict (unused xs))" using l(3,4) by auto
  show ?thesis
  proof (cases "xs = []")
    case True
    with e l(1) q f show ?thesis unfolding unused_evict [OF d]
      by (simp add: localfs_evict_def priskv_policy_evict_def lf_answer_def served_def sim_def tracks_def holds_files_def
          path_too_long_def unused_def wrap_simps) blast
  next
    case False
    let ?key = "fst (last xs)" and ?n = "length (snd (last xs))"
    let ?lf = "(lf_unlink ?key lf)\<lparr>lf_policy := Some lru', lf_answers := lf_answers lf @ [(cbarg, PRISKV_BACKEND_STATUS_OK, ?n)]\<rparr>"
    have "map_of xs ?key = Some (snd (last xs))" using d False by (intro map_of_is_SomeI) simp_all
    then have n: "get_file_size lf ?key = ?n" "u32n ?n = ?n" using stored_size [OF f, of ?key] by (simp_all add: wrap_simps)
    have "\<not> path_too_long lf ?key" using f False by (simp add: holds_files_def)
    then have "lf_exec cbarg L_evict lf = Some ?lf"
      using l(1) e(1) False n unfolding unused_evict [OF d]
      by (simp add: localfs_evict_def priskv_policy_evict_def lf_fine_def lf_answer_def Let_def)
    moreover have "served cbarg (PRISKV_BACKEND_STATUS_OK, ?n, None) lf ?lf" by (simp add: served_def lf_unlink_def)
    moreover have "holds_files ?lf (butlast xs)" using holds_unlink [OF f, where key = ?key] without_last [OF d False] by simp
    ultimately show ?thesis using False q e(2-5) unfolding unused_evict [OF d] by (auto simp: sim_def tracks_def)
  qed
qed

lemma lf_test_step:
  assumes "sim lf h ns xs" "call_fits lf xs (L_test key)"
  shows "\<exists>lf' ns'. lf_exec cbarg (L_test key) lf = Some lf' \<and> sim lf' h ns' (snd (files_exec (L_test key) xs))
     \<and> set ns' \<subseteq> set ns \<and> served cbarg (fst (files_exec (L_test key) xs)) lf lf'"
proof -
  obtain lru where l: "lf_policy lf = Some lru" "lru_inv lru ns" "lru_hd lru = h" "lru_usage lru ns = unused xs"
    using assms(1) by (auto simp: sim_def tracks_def)
  have q: "quiet lf" and f: "holds_files lf xs" using assms(1) by (simp_all add: sim_def)
  have n: "u32n (get_file_size lf key) = get_file_size lf key" using stored_size(2) [OF f, of key] by (simp add: wrap_simps)
  show ?thesis
  proof (cases "map_of xs key")
    case None
    have "\<forall>e \<in> set (lru_usage lru ns). snd e < 2 ^ 31 - 1" unfolding l(4) by (rule unused_refs)
    from ref_refines [OF l(2) this, of key] obtain lru' ns' where
      "lru_policy_try_ref_key key lru = Some (False, lru')" "lru_inv lru' ns'" "set ns' \<subseteq> set ns" "lru_hd lru' = h"
      "lru_usage lru' ns' = unused xs" using l(3,4) None by (auto simp: unused_ref)
    with None l(1) q f show ?thesis
      by (auto simp: localfs_test_def priskv_policy_try_ref_key_def lf_answer_def served_def sim_def tracks_def holds_files_def
          path_too_long_def wrap_simps)
  next
    case (Some v)
    then have v: "get_file_size lf key = length v" "0 < length v"
      using stored_size(1) [OF f, of key] f by (auto simp: holds_files_def dest: map_of_SomeD)
    let ?lf = "\<lambda>lru. lf\<lparr>lf_policy := Some lru, lf_answers := lf_answers lf @ [(cbarg, PRISKV_BACKEND_STATUS_OK, length v)]\<rparr>"
    from ref_unref [OF l(2,4) Some] obtain lru1 lru2 ns' where
      r: "lru_policy_try_ref_key key lru = Some (True, lru1)" "lru_policy_unref_key key lru1 = Some lru2" "lru_inv lru2 ns'"
        "set ns' \<subseteq> set ns" "lru_hd lru2 = lru_hd lru" "lru_usage lru2 ns' = unused ((key, v) # without key xs)" by blast
    then have "lf_exec cbarg (L_test key) lf = Some (?lf lru2)" using l(1) assms(2) n v
      by (simp add: localfs_test_def priskv_policy_try_ref_key_def priskv_policy_unref_key_def lf_answer_def Let_def)
    moreover have "holds_files (?lf lru2) ((key, v) # without key xs)"
      using holds_front [OF f Some] by (simp add: holds_files_def path_too_long_def)
    ultimately show ?thesis using Some q r l(3) by (auto simp: sim_def tracks_def served_def)
  qed
qed

lemma lf_exec_step:
  assumes "sim lf h ns xs" "call_fits lf xs call" "set (new_nodes [call]) \<inter> set (h # ns) = {}"
  shows "\<exists>lf' ns'. lf_exec cbarg call lf = Some lf' \<and> sim lf' h ns' (snd (files_exec call xs))
     \<and> set ns' \<subseteq> set (new_nodes [call]) \<union> set ns \<and> served cbarg (fst (files_exec call xs)) lf lf'"
proof (cases call)
  case (L_set m key val)
  with lf_set_step [OF assms(1), of m key val cbarg] assms(2,3) show ?thesis by (simp del: lf_exec.simps)
next
  case (L_get key valuelen)
  with lf_get_step [OF assms(1)] assms(2) show ?thesis by simp
next
  case (L_del key)
  with lf_del_step [OF assms(1)] assms(2) show ?thesis by simp
next
  case L_evict
  with lf_evict_step [OF assms(1)] show ?thesis by simp
next
  case (L_test key)
  with lf_test_step [OF assms(1)] assms(2) show ?thesis by simp
qed

fun files_run :: "lf_call list \<Rightarrow> files \<Rightarrow> (priskv_backend_status \<times> nat \<times> bytes option) list \<times> files" where
  "files_run [] xs = ([], xs)"
| "files_run (call # calls) xs =
     (let (res, xs1) = files_exec call xs; (rest, xs2) = files_run calls xs1 in (res # rest, xs2))"

fun calls_fit :: "localfs \<Rightarrow> files \<Rightarrow> lf_call list \<Rightarrow> bool" where
  "calls_fit lf xs [] \<longleftrightarrow> True"
| "calls_fit lf xs (call # calls) \<longleftrightarrow> call_fits lf xs call \<and> calls_fit lf (snd (files_exec call xs)) calls"

text \<open>The answers of a run, in order, and what a buffer holds at the end.\<close>

fun answers_of :: "nat \<Rightarrow> (priskv_backend_status \<times> nat \<times> bytes option) list \<Rightarrow> (nat \<times> priskv_backend_status \<times> nat) list" where
  "answers_of cbarg [] = []"
| "answers_of cbarg ((st, n, val) # rest) = (cbarg, st, n) # answers_of (cbarg + 1) rest"

fun bufs_of :: "nat \<Rightarrow> (priskv_backend_status \<times> nat \<times> bytes option) list \<Rightarrow> (nat \<rightharpoonup> bytes) \<Rightarrow> nat \<rightharpoonup> bytes" where
  "bufs_of cbarg [] b = b"
| "bufs_of cbarg ((st, n, val) # rest) b = bufs_of (cbarg + 1) rest (case val of None \<Rightarrow> b | Some v \<Rightarrow> b(cbarg \<mapsto> v))"

lemma fits_same:
  "lf_path lf' = lf_path lf \<Longrightarrow> lf_total_size lf' = lf_total_size lf \<Longrightarrow> calls_fit lf' xs calls = calls_fit lf xs calls"
proof (induction calls arbitrary: xs)
  case (Cons call calls)
  moreover have "call_fits lf' xs call = call_fits lf xs call" using Cons.prems by (cases call) (simp_all add: path_too_long_def)
  ultimately show ?case by simp
qed simp

lemma localfs_run_sim:
  assumes "sim lf h ns xs" "calls_fit lf xs calls" "distinct (new_nodes calls)" "set (new_nodes calls) \<inter> set (h # ns) = {}"
  shows "\<exists>lf' ns'. lf_run cbarg calls lf = Some lf' \<and> sim lf' h ns' (snd (files_run calls xs))
     \<and> lf_answers lf' = lf_answers lf @ answers_of cbarg (fst (files_run calls xs))
     \<and> lf_bufs lf' = bufs_of cbarg (fst (files_run calls xs)) (lf_bufs lf) \<and> lf_total_size lf' = lf_total_size lf"
  using assms
proof (induction calls arbitrary: cbarg lf ns xs)
  case (Cons call calls)
  have n: "new_nodes (call # calls) = new_nodes [call] @ new_nodes calls" by (cases call) simp_all
  obtain st len val xs1 where e: "files_exec call xs = ((st, len, val), xs1)" by (metis prod.exhaust)
  obtain lf1 ns1 where s: "lf_exec cbarg call lf = Some lf1" "sim lf1 h ns1 xs1" "set ns1 \<subseteq> set (new_nodes [call]) \<union> set ns"
      "served cbarg (st, len, val) lf lf1"
    using lf_exec_step [OF Cons.prems(1), of call cbarg] Cons.prems(2,4) e unfolding n by auto
  then have "calls_fit lf1 xs1 calls" using Cons.prems(2) e by (simp add: fits_same [of lf1 lf] served_def)
  moreover have "set (new_nodes calls) \<inter> set (h # ns1) = {}" using s(3) Cons.prems(3,4) unfolding n by auto
  ultimately obtain lf2 ns2 where "lf_run (cbarg + 1) calls lf1 = Some lf2" "sim lf2 h ns2 (snd (files_run calls xs1))"
      "lf_answers lf2 = lf_answers lf1 @ answers_of (cbarg + 1) (fst (files_run calls xs1))"
      "lf_bufs lf2 = bufs_of (cbarg + 1) (fst (files_run calls xs1)) (lf_bufs lf1)" "lf_total_size lf2 = lf_total_size lf1"
    using Cons.IH [OF s(2), of "cbarg + 1"] Cons.prems(3) unfolding n by auto
  with s(1,4) e show ?case by (auto simp: split_beta served_def simp del: lf_exec.simps)
qed (auto simp: sim_def)

lemma created:
  assumes "localfs_shared_context_create erange available True used_size h g dir inodes next_inode address = Some lf"
  obtains total where "total < 2 ^ 64" "nat used_size \<le> total"
    "lf = \<lparr>lf_path = lf_path lf, lf_total_size = total, lf_free_size = total - nat used_size,
       lf_policy = Some (lru_policy_create h g), lf_inflight_count = 0, lf_max_depth = DEFAULT_MAX_DEPTH,
       lf_pending_queue = [], lf_dir = dir, lf_inodes = inodes, lf_next_inode = next_inode, lf_reqs = Map.empty,
       lf_next_req = 0, lf_unprepared = 0, lf_ring = [], lf_bufs = Map.empty, lf_answers = []\<rparr>"
proof -
  obtain path total_size where
    p: "localfs_parse_address erange available address = Some (path, total_size)"
    using assms by (auto simp: localfs_shared_context_create_def split: bind_splits)
  have "nat (total_size mod 2 ^ 64) < 2 ^ 64" using pos_mod_bound [of "2 ^ 64" total_size] by (simp add: nat_less_iff)
  with assms p show ?thesis
    by (intro that [of "nat (total_size mod 2 ^ 64)"])
      (auto simp: localfs_shared_context_create_def priskv_policy_create_def priskv_policy_find_def Let_def split: if_splits)
qed

lemma create_empty:
  assumes "localfs_shared_context_create erange available True 0 h g Map.empty inodes next_inode address = Some lf"
  shows "sim lf h [] []" "lf_answers lf = []" "lf_bufs lf = Map.empty"
proof -
  obtain total where t: "total < 2 ^ 64"
    and lf: "lf = \<lparr>lf_path = lf_path lf, lf_total_size = total, lf_free_size = total - nat 0,
       lf_policy = Some (lru_policy_create h g), lf_inflight_count = 0, lf_max_depth = DEFAULT_MAX_DEPTH,
       lf_pending_queue = [], lf_dir = Map.empty, lf_inodes = inodes, lf_next_inode = next_inode, lf_reqs = Map.empty,
       lf_next_req = 0, lf_unprepared = 0, lf_ring = [], lf_bufs = Map.empty, lf_answers = []\<rparr>" using created [OF assms] by blast
  have "lru_inv (lru_policy_create h g) []" by (simp add: lru_inv_def lru_policy_create_def is_list_init)
  with t show "sim lf h [] []" by (subst lf)
    (simp add: sim_def quiet_def holds_files_def tracks_def DEFAULT_MAX_DEPTH_def lru_policy_create_def lru_usage_def unused_def volume_def)
  show "lf_answers lf = []" "lf_bufs lf = Map.empty" by (subst lf, simp)+
qed


definition demo_lf_calls :: "lf_call list" where
  "demo_lf_calls = [L_set 10 ''a'' [1, 2, 3], L_set 20 ''b'' [4], L_get ''a'' 8, L_evict, L_test ''b'', L_set 30 ''a'' [5, 6], L_get ''a'' 8]"


section \<open>Faults\<close>

text \<open>
  The files that are in the directory when the device is opened are never found again: the
  policy starts empty, so TEST and GET answer that the key does not exist. The GET takes a
  submission entry of the ring and leaves it without a request, so the next request submits
  it, and its completion is handled with a pointer that is no request.
\<close>

theorem localfs_restart_loses_files:
  assumes "localfs_shared_context_create erange available True used_size h g dir inodes next_inode address = Some lf"
    "dir key = Some i" "length (inodes i) \<le> valuelen" "valuelen < 2 ^ 32" "\<not> path_too_long lf key"
    "\<not> path_too_long lf key2"
  shows "map_option lf_answers (localfs_test enoent key cbarg lf) = Some [(cbarg, PRISKV_BACKEND_STATUS_NOT_FOUND, 0)]
     \<and> (\<exists>lf1 lf2. localfs_get lf_fine key valuelen cbarg lf = Some lf1 \<and> lf_answers lf1 = [(cbarg, PRISKV_BACKEND_STATUS_NOT_FOUND, valuelen)]
       \<and> localfs_set lf_fine key2 val (length val) (cbarg + 1) lf1 = Some lf2 \<and> lf_ring lf2 = [None, Some 1]
       \<and> handle_io_uring_events lf_fine [(None, 0, malloced)] lf2 = None)"
proof -
  obtain total where lf: "lf = \<lparr>lf_path = lf_path lf, lf_total_size = total, lf_free_size = total - nat used_size,
       lf_policy = Some (lru_policy_create h g), lf_inflight_count = 0, lf_max_depth = DEFAULT_MAX_DEPTH,
       lf_pending_queue = [], lf_dir = dir, lf_inodes = inodes, lf_next_inode = next_inode, lf_reqs = Map.empty,
       lf_next_req = 0, lf_unprepared = 0, lf_ring = [], lf_bufs = Map.empty, lf_answers = []\<rparr>" using created [OF assms(1)] by blast
  define path where "path = lf_path lf"
  have none: "lru_policy_try_ref_key key (lru_policy_create h g) = Some (False, lru_policy_create h g)"
    by (simp add: lru_policy_try_ref_key_def hash_find_str_def lru_policy_create_def)
  have u: "u32n valuelen = valuelen" "u32n (length (inodes i)) = length (inodes i)" using assms(3,4) by (simp_all add: wrap_simps)
  have p: "\<not> PATH_MAX \<le> length path + 1 + length key" "\<not> PATH_MAX \<le> length path + 1 + length key2"
    using assms(5,6) by (simp_all add: path_too_long_def path_def)
  note defs = localfs_make_request_def submit_io_request_def path_too_long_def get_file_size_def lf_fine_def DEFAULT_MAX_DEPTH_def
    lf_answer_def priskv_policy_try_ref_key_def localfs_complete_request_def localfs_free_request_def lf_uncount_def io_uring_submit_def Let_def
  have "map_option lf_answers (localfs_test enoent key cbarg lf) = Some [(cbarg, PRISKV_BACKEND_STATUS_NOT_FOUND, 0)]"
    using none by (subst lf) (simp add: localfs_test_def priskv_policy_try_ref_key_def lf_answer_def wrap_simps)
  moreover have "\<exists>lf1. localfs_get lf_fine key valuelen cbarg lf = Some lf1 \<and> lf_ring lf1 = [] \<and> lf_path lf1 = path
      \<and> lf_answers lf1 = [(cbarg, PRISKV_BACKEND_STATUS_NOT_FOUND, valuelen)] \<and> lf_unprepared lf1 = 1
      \<and> lf_inflight_count lf1 = 0 \<and> lf_max_depth lf1 = 1023 \<and> lf_next_req lf1 = 1"
    using none assms(2,3) u p(1) by (subst lf) (simp add: localfs_get_def defs path_def [symmetric])
  then obtain lf1 where lf1: "localfs_get lf_fine key valuelen cbarg lf = Some lf1" "lf_ring lf1 = []" "lf_path lf1 = path"
      "lf_answers lf1 = [(cbarg, PRISKV_BACKEND_STATUS_NOT_FOUND, valuelen)]" "lf_unprepared lf1 = 1" "lf_inflight_count lf1 = 0"
      "lf_max_depth lf1 = 1023" "lf_next_req lf1 = 1" by blast
  moreover have "\<exists>lf2. localfs_set lf_fine key2 val (length val) (cbarg + 1) lf1 = Some lf2 \<and> lf_ring lf2 = [None, Some 1]"
    using lf1(2-) p(2) by (simp add: localfs_set_def defs)
  moreover have "handle_io_uring_events lf_fine [(None, 0, malloced)] lf2 = None" if "lf_ring lf2 = [None, Some 1]" for lf2
    using that by (simp add: handle_io_uring_events_def handle_cqe_def)
  ultimately show ?thesis by blast
qed

theorem localfs_restart_loses_files_witness:
  "\<exists>lf lf1. localfs_shared_context_create False (- 1) True 3 1 \<lparr>ln_next = (\<lambda>_. 0), ln_prev = (\<lambda>_. 0)\<rparr> [''a'' \<mapsto> 0] (\<lambda>_. [1, 2, 3]) 1 ''/d&size=4'' = Some lf
     \<and> lf_inodes lf (the (lf_dir lf ''a'')) = [1, 2, 3]
     \<and> localfs_get lf_fine ''a'' 8 0 lf = Some lf1 \<and> lf_answers lf1 = [(0, PRISKV_BACKEND_STATUS_NOT_FOUND, 8)]"
proof -
  let ?c = "localfs_shared_context_create False (- 1) True 3 1 \<lparr>ln_next = (\<lambda>_. 0), ln_prev = (\<lambda>_. 0)\<rparr> [''a'' \<mapsto> 0] (\<lambda>_. [1, 2, 3]) 1 ''/d&size=4''"
  have a: "localfs_parse_address False (- 1) ''/d&size=4'' = Some (''/d'', 4)" by code_simp
  then obtain lf where lf: "?c = Some lf" "lf_path lf = ''/d''" "lf_dir lf = [''a'' \<mapsto> 0]" "lf_inodes lf = (\<lambda>_. [1, 2, 3])"
    by (simp add: localfs_shared_context_create_def priskv_policy_create_def priskv_policy_find_def PATH_MAX_def)
  have "\<not> path_too_long lf ''a''" using lf(2) by (simp add: path_too_long_def PATH_MAX_def)
  with localfs_restart_loses_files [OF lf(1), of "''a''" 0 8 "''a''" True 0] lf show ?thesis by auto
qed

lemma handle_cqes_queue:
  "handle_cqes cqes lf = Some (n, lf1) \<Longrightarrow> lf_pending_queue lf1 = lf_pending_queue lf
     \<and> lf_inflight_count lf1 = lf_inflight_count lf \<and> lf_max_depth lf1 = lf_max_depth lf"
proof (induction cqes arbitrary: lf n)
  case (Cons c cqes)
  obtain b lf2 where h: "handle_cqe c lf = Some (b, lf2)" using Cons.prems by (auto split: bind_splits)
  then have "lf_pending_queue lf2 = lf_pending_queue lf \<and> lf_inflight_count lf2 = lf_inflight_count lf \<and> lf_max_depth lf2 = lf_max_depth lf"
    by (auto simp: handle_cqe_def localfs_complete_request_def localfs_free_request_def lf_answer_def lf_transfer_def charge_def Let_def
        split: prod.splits bind_splits if_splits)
  with Cons h show ?case by (auto split: bind_splits)
qed simp

text \<open>
  When as many requests are in flight as the device allows, the next one waits; and then
  the handler of the next completions never returns: it starts the waiting request with
  \<open>queue_lock\<close> held, and \<open>submit_io_request\<close> takes the same lock.
\<close>

theorem localfs_waiting_deadlock:
  assumes "lf_reqs lf r = Some req" "lf_inflight_count lf = lf_max_depth lf" "0 < lf_max_depth lf" "lf_pending_queue lf = []"
  shows "\<exists>lf1. submit_io_request env False r lf = Some (False, lf1) \<and> lf_pending_queue lf1 = [r]
     \<and> (\<forall>cqes n lf2. handle_cqes cqes lf1 = Some (n, lf2) \<and> 0 < n \<longrightarrow> handle_io_uring_events env cqes lf1 = None)"
proof -
  let ?lf = "lf_enqueue r req lf"
  have q: "lf_pending_queue ?lf = [r]" "lf_inflight_count ?lf = lf_max_depth ?lf" "0 < lf_max_depth ?lf"
    using assms(2-) by (simp_all add: lf_enqueue_def)
  have "handle_io_uring_events env cqes ?lf = None" if "handle_cqes cqes ?lf = Some (n, lf2)" "0 < n" for cqes n lf2
    using that q handle_cqes_queue [OF that(1)] by (auto simp: handle_io_uring_events_def submit_io_request_def split: bind_splits)
  moreover have "submit_io_request env False r lf = Some (False, ?lf)" using assms(1,2) by (simp add: submit_io_request_def)
  ultimately show ?thesis using q(1) by blast
qed

definition demo_full :: localfs where
  "demo_full =
     (let req = \<lparr>lr_key = ''a'', lr_val = [1, 2, 3], lr_valuelen = 3, lr_old_valuelen = 0, lr_op_type = LOCALFS_OP_SET, lr_fd = 0,
        lr_queued_once = False, lr_cbarg = 0\<rparr>
      in \<lparr>lf_path = ''/d'', lf_total_size = 8, lf_free_size = 8, lf_policy = Some (lru_policy_create 1 \<lparr>ln_next = (\<lambda>_. 0), ln_prev = (\<lambda>_. 0)\<rparr>),
        lf_inflight_count = 1, lf_max_depth = 1, lf_pending_queue = [], lf_dir = [''a'' \<mapsto> 0, ''b'' \<mapsto> 1], lf_inodes = (\<lambda>_. []),
        lf_next_inode = 2, lf_reqs = [0 \<mapsto> req, 1 \<mapsto> req\<lparr>lr_key := ''b'', lr_fd := 1, lr_cbarg := 1\<rparr>], lf_next_req = 2, lf_unprepared = 0,
        lf_ring = [Some 0], lf_bufs = Map.empty, lf_answers = []\<rparr>)"

theorem localfs_waiting_deadlock_witness:
  "\<exists>lf. submit_io_request lf_fine False 1 demo_full = Some (False, lf)
     \<and> handle_io_uring_events lf_fine [(Some 0, 3, Some 10)] lf = None"
proof -
  have "lf_reqs demo_full 1 = Some (the (lf_reqs demo_full 1))" "lf_inflight_count demo_full = lf_max_depth demo_full" "0 < lf_max_depth demo_full"
    "lf_pending_queue demo_full = []" by (simp_all add: demo_full_def)
  note d = localfs_waiting_deadlock [OF this, of lf_fine]
  moreover have "map_option (\<lambda>(b, lf). map_option fst (handle_cqes [(Some 0, 3, Some 10)] lf)) (submit_io_request lf_fine False 1 demo_full) = Some (Some 1)"
    by code_simp
  ultimately show ?thesis by fastforce
qed

end
