(* ===== verification/Client.thy ===== *)
theory Client
  imports Utils Protocol "HOL-Library.Multiset" "HOL-Library.Code_Target_Nat"
begin

text \<open>
  The client library (\<open>client/rdma.c\<close>): requests of one connection. A connection has as many
  request slots as commands may be in flight. A request takes a slot, is filled in and posted;
  it is complete when its send has completed and its response has arrived, and then its
  callback runs. Requests that find no slot wait in a list. Requests are named by numbers,
  which stand for their addresses and go over the wire as \<open>request_id\<close>. \<open>None\<close> is a failed assertion,
  a null or stale pointer that is used, or a request that does not fit its slot. Callbacks do not
  call the client.
\<close>

section \<open>State\<close>

abbreviation PRISKV_STATUS_OK :: nat where "PRISKV_STATUS_OK \<equiv> 0"
abbreviation PRISKV_STATUS_KEY_EMPTY :: nat where "PRISKV_STATUS_KEY_EMPTY \<equiv> 0x101"
abbreviation PRISKV_STATUS_KEY_TOO_BIG :: nat where "PRISKV_STATUS_KEY_TOO_BIG \<equiv> 0x102"
abbreviation PRISKV_STATUS_VALUE_EMPTY :: nat where "PRISKV_STATUS_VALUE_EMPTY \<equiv> 0x103"
abbreviation PRISKV_STATUS_VALUE_TOO_BIG :: nat where "PRISKV_STATUS_VALUE_TOO_BIG \<equiv> 0x104"
abbreviation PRISKV_STATUS_INVALID_SGL :: nat where "PRISKV_STATUS_INVALID_SGL \<equiv> 0x107"
abbreviation PRISKV_STATUS_NO_MEM :: nat where "PRISKV_STATUS_NO_MEM \<equiv> 0x200"
abbreviation PRISKV_STATUS_DISCONNECTED :: nat where "PRISKV_STATUS_DISCONNECTED \<equiv> 0xF00"
abbreviation PRISKV_STATUS_RDMA_ERROR :: nat where "PRISKV_STATUS_RDMA_ERROR \<equiv> 0xF01"
abbreviation PRISKV_STATUS_BUSY :: nat where "PRISKV_STATUS_BUSY \<equiv> 0xF02"
abbreviation PRISKV_STATUS_PROTOCOL_ERROR :: nat where "PRISKV_STATUS_PROTOCOL_ERROR \<equiv> 0xF03"
abbreviation EAGAIN :: int where "EAGAIN \<equiv> 11"
abbreviation EIO :: int where "EIO \<equiv> 5"
abbreviation EPROTO :: int where "EPROTO \<equiv> 71"
abbreviation sizeof_response :: nat where "sizeof_response \<equiv> 32"

text \<open>\<open>priskv_sgl\<close>: without memory handle, or with one whose region for this connection has a key;
  \<open>Mem None\<close> is a handle whose region is a null pointer.\<close>

datatype priskv_memory = NoMem | Mem "nat option"

record priskv_sgl =
  cs_iova :: nat
  cs_length :: nat
  cs_mem :: priskv_memory

datatype cl_result = No_result | Length nat | Keyset "(bytes \<times> nat) list"

record cl_rdma_req =
  cr_request_id :: nat
  cr_key :: bytes
  cr_sgl :: "priskv_sgl list"
  cr_timeout :: nat
  cr_cmd :: priskv_req_command
  cr_req :: "nat option"
  cr_flag_send :: bool
  cr_flag_recv :: bool
  cr_status :: nat
  cr_length :: nat
  cr_result :: cl_result
  cr_delaying :: bool

text \<open>A slot of the request buffer: free (\<open>PRISKV_RDMA_REQUEST_FREE_COMMAND\<close>) or filled in.\<close>

datatype cl_slot = Free | Filled priskv_request

text \<open>Address and size of a mapped buffer, and the key of its region.\<close>

record cl_rmem =
  rm_buf :: nat
  rm_size :: nat
  rm_rkey :: nat

text \<open>A connection, with the slots whose send has not completed, the messages that have been
  posted and the callbacks that have been run.\<close>

record cl_conn =
  cc_max_sgl :: nat
  cc_max_key_length :: nat
  cc_max_inflight_command :: nat
  cc_established :: bool
  cc_slots :: "cl_slot list"
  cc_inflight_list :: "nat list"
  cc_complete_list :: "nat list"
  cc_keys_running_req :: "nat option"
  cc_keys_rmem :: "cl_rmem option"
  cc_keys_buf :: bytes
  cc_stats :: "priskv_req_command \<Rightarrow> nat"
  cc_resps :: nat
  cc_reqs :: "nat \<rightharpoonup> cl_rdma_req"
  cc_next :: nat
  cc_sq :: "nat list"
  cc_posted :: "priskv_request list"
  cc_callbacks :: "(nat \<times> nat \<times> cl_result) list"

text \<open>What the libraries answer: whether a send can be posted, the key of a region that is
  registered for one request, the buffer a new KEYS region gets, and whether \<open>calloc\<close> succeeds.\<close>

record cl_env =
  ce_post :: "nat \<Rightarrow> bool"
  ce_rkey :: "nat \<Rightarrow> nat option"
  ce_mem_new :: "nat \<Rightarrow> cl_rmem option"
  ce_calloc :: bool

section \<open>Requests\<close>

definition cl_request_size_aligend :: "cl_conn \<Rightarrow> nat" where
  "cl_request_size_aligend conn =
     unat (ALIGN_UP (of_nat (priskv_request_size (cc_max_sgl conn) (cc_max_key_length conn)) :: u32) 64)"

text \<open>\<open>priskv_request_free\<close>: the assertions hold exactly for the addresses of slots.\<close>

definition priskv_request_free :: "nat option \<Rightarrow> cl_conn \<Rightarrow> cl_conn option" where
  "priskv_request_free req conn = do {
     s \<leftarrow> req;
     if s < length (cc_slots conn) then Some (conn\<lparr>cc_slots := (cc_slots conn)[s := Free]\<rparr>) else None
   }"

fun first_free :: "cl_slot list \<Rightarrow> nat option" where
  "first_free [] = None"
| "first_free (s # ss) = (if s = Free then Some 0 else map_option Suc (first_free ss))"

definition priskv_rdma_unused_command :: "cl_conn \<Rightarrow> nat option" where
  "priskv_rdma_unused_command conn = first_free (take (cc_max_inflight_command conn) (cc_slots conn))"

definition upd_req :: "nat \<Rightarrow> (cl_rdma_req \<Rightarrow> cl_rdma_req) \<Rightarrow> cl_conn \<Rightarrow> cl_conn" where
  "upd_req r f conn = conn\<lparr>cc_reqs := (cc_reqs conn)(r := map_option f (cc_reqs conn r))\<rparr>"

definition priskv_rdma_req_free :: "nat \<Rightarrow> cl_conn \<Rightarrow> cl_conn" where
  "priskv_rdma_req_free r conn = conn\<lparr>cc_reqs := (cc_reqs conn)(r := None)\<rparr>"

definition cl_user_cb :: "nat \<Rightarrow> nat \<Rightarrow> cl_result \<Rightarrow> cl_conn \<Rightarrow> cl_conn" where
  "cl_user_cb request_id status res conn = conn\<lparr>cc_callbacks := cc_callbacks conn @ [(request_id, status, res)]\<rparr>"

definition priskv_rdma_req_cb :: "nat \<Rightarrow> cl_conn \<Rightarrow> cl_conn option" where
  "priskv_rdma_req_cb r conn = do {
     req \<leftarrow> cc_reqs conn r;
     Some (priskv_rdma_req_free r (cl_user_cb (cr_request_id req) (cr_status req) (cr_result req) conn))
   }"

text \<open>The callback of a request that ends with the status \<open>st\<close> of the client, which is neither
  success nor VALUE_TOO_BIG: \<open>priskv_rdma_keys_req_cb\<close> goes straight to its exit.\<close>

definition cl_fail :: "nat \<Rightarrow> nat \<Rightarrow> cl_conn \<Rightarrow> cl_conn option" where
  "cl_fail r st conn = do {
     req \<leftarrow> cc_reqs conn r;
     let conn1 = upd_req r (\<lambda>req. req\<lparr>cr_status := st\<rparr>) conn;
     priskv_rdma_req_cb r (if cr_cmd req = PRISKV_COMMAND_KEYS then conn1\<lparr>cc_keys_running_req := None\<rparr> else conn1)
   }"

definition keys_sgl :: "cl_conn \<Rightarrow> priskv_sgl" where
  "keys_sgl conn = (case cc_keys_rmem conn of
     None \<Rightarrow> \<lparr>cs_iova = 0, cs_length = 0, cs_mem = Mem None\<rparr>
   | Some rm \<Rightarrow> \<lparr>cs_iova = rm_buf rm, cs_length = rm_size rm, cs_mem = Mem (Some (rm_rkey rm))\<rparr>)"

definition priskv_rdma_req_new ::
  "cl_env \<Rightarrow> nat \<Rightarrow> bytes \<Rightarrow> priskv_sgl list \<Rightarrow> nat \<Rightarrow> priskv_req_command \<Rightarrow> cl_conn \<Rightarrow> nat option \<times> cl_conn"
where
  "priskv_rdma_req_new env request_id key sgl timeout cmd conn =
     (let r = cc_next conn
      in if \<not> ce_calloc env then (None, conn)
         else (Some r, conn\<lparr>cc_next := r + 1, cc_reqs := (cc_reqs conn)(r \<mapsto>
           \<lparr>cr_request_id = request_id, cr_key = key,
            cr_sgl = (if sgl \<noteq> [] then sgl else if cmd = PRISKV_COMMAND_KEYS then [keys_sgl conn] else []),
            cr_timeout = timeout, cr_cmd = cmd, cr_req = None, cr_flag_send = False, cr_flag_recv = False,
            cr_status = 0, cr_length = 0, cr_result = No_result, cr_delaying = False\<rparr>)\<rparr>))"

definition priskv_rdma_req_reset :: "cl_rdma_req \<Rightarrow> cl_rdma_req" where
  "priskv_rdma_req_reset req = req\<lparr>cr_flag_send := False, cr_flag_recv := False, cr_req := None,
     cr_status := PRISKV_STATUS_OK, cr_length := 0, cr_delaying := False\<rparr>"

text \<open>The regions of the SGL entries (\<open>priskv_fillup_sql\<close>, whose bytes \<open>put_sgl\<close> writes).\<close>

fun cl_fillup_sql :: "cl_env \<Rightarrow> priskv_sgl list \<Rightarrow> priskv_keyed_sgl list option" where
  "cl_fillup_sql env [] = Some []"
| "cl_fillup_sql env (s # ss) = do {
     rkey \<leftarrow> (case cs_mem s of NoMem \<Rightarrow> ce_rkey env (cs_iova s) | Mem mr \<Rightarrow> mr);
     rest \<leftarrow> cl_fillup_sql env ss;
     Some (\<lparr>sgl_addr = cs_iova s, sgl_length = cs_length s, sgl_key = rkey\<rparr> # rest)
   }"

definition cl_message :: "nat \<Rightarrow> cl_rdma_req \<Rightarrow> priskv_keyed_sgl list \<Rightarrow> priskv_request" where
  "cl_message r req sgls = \<lparr>rq_request_id = r, rq_timeout = cr_timeout req, rq_command = command_code (cr_cmd req),
     rq_nsgl = length (cr_sgl req), rq_key_length = length (cr_key req), rq_sgls = sgls, rq_key = cr_key req\<rparr>"

text \<open>The bytes that \<open>priskv_rdma_req_send\<close> writes stay inside the slot.\<close>

definition fits_slot :: "cl_conn \<Rightarrow> cl_rdma_req \<Rightarrow> bool" where
  "fits_slot conn req \<longleftrightarrow>
     request_struct_size + sgl_struct_size * length (cr_sgl req) \<le> cl_request_size_aligend conn
     \<and> priskv_request_key_off (length (cr_sgl req)) + length (cr_key req) \<le> cl_request_size_aligend conn"

definition cl_wait :: "nat \<Rightarrow> cl_rdma_req \<Rightarrow> cl_conn \<Rightarrow> cl_conn" where
  "cl_wait r req conn =
     (if cr_delaying req then conn\<lparr>cc_inflight_list := r # cc_inflight_list conn\<rparr>
      else upd_req r (\<lambda>req. req\<lparr>cr_delaying := True\<rparr>) (conn\<lparr>cc_inflight_list := cc_inflight_list conn @ [r]\<rparr>))"

definition priskv_rdma_req_send :: "cl_env \<Rightarrow> nat \<Rightarrow> cl_conn \<Rightarrow> (int \<times> cl_conn) option" where
  "priskv_rdma_req_send env r conn = do {
     req \<leftarrow> cc_reqs conn r;
     let keys = (cr_cmd req = PRISKV_COMMAND_KEYS);
     if \<not> cc_established conn then map_option (Pair (- 1)) (cl_fail r PRISKV_STATUS_DISCONNECTED conn)
     else if keys \<and> cc_keys_running_req conn \<noteq> None \<and> cc_keys_running_req conn \<noteq> Some r
     then map_option (Pair (- 1)) (cl_fail r PRISKV_STATUS_BUSY conn)
     else do {
       let conn1 = (if keys then conn\<lparr>cc_keys_running_req := Some r\<rparr> else conn);
       case priskv_rdma_unused_command conn1 of
         None \<Rightarrow> Some (EAGAIN, cl_wait r req conn1)
       | Some s \<Rightarrow>
           if \<not> fits_slot conn1 req then None
           else do {
             sgls \<leftarrow> cl_fillup_sql env (cr_sgl req);
             let msg = cl_message r req sgls;
             let conn2 = upd_req r (\<lambda>req. req\<lparr>cr_req := Some s\<rparr>) (conn1\<lparr>cc_slots := (cc_slots conn1)[s := Filled msg]\<rparr>);
             if \<not> ce_post env r then map_option (Pair (- 1)) (cl_fail r PRISKV_STATUS_RDMA_ERROR conn2)
             else Some (0, conn2\<lparr>cc_posted := cc_posted conn2 @ [msg], cc_sq := cc_sq conn2 @ [s],
               cc_stats := (cc_stats conn2)(cr_cmd req := u64n (cc_stats conn2 (cr_cmd req) + 1))\<rparr>)
           }
     }
   }"

text \<open>\<open>priskv_rdma_keys_req_cb\<close> of a request that the server has answered: the answer of KEYS is
  parsed, and a buffer that is too small is replaced and the request sent again.\<close>

definition priskv_rdma_keys_req_cb :: "cl_env \<Rightarrow> nat \<Rightarrow> cl_conn \<Rightarrow> cl_conn option" where
  "priskv_rdma_keys_req_cb env r conn = do {
     req \<leftarrow> cc_reqs conn r;
     let valuelen = cr_length req;
     let exit = (\<lambda>f. priskv_rdma_req_cb r ((upd_req r f conn)\<lparr>cc_keys_running_req := None\<rparr>));
     if cr_status req = PRISKV_STATUS_OK then
       if length (cc_keys_buf conn) < valuelen then None
       else case keys_req_parse (take valuelen (cc_keys_buf conn)) of
              None \<Rightarrow> exit (\<lambda>req. req\<lparr>cr_status := PRISKV_STATUS_PROTOCOL_ERROR\<rparr>)
            | Some keys \<Rightarrow> exit (\<lambda>req. req\<lparr>cr_result := Keyset keys\<rparr>)
     else if cr_status req = PRISKV_STATUS_VALUE_TOO_BIG then
       case ce_mem_new env (u32n (valuelen + valuelen div 8)) of
         None \<Rightarrow> priskv_rdma_req_cb r ((upd_req r (\<lambda>req. req\<lparr>cr_status := PRISKV_STATUS_RDMA_ERROR\<rparr>) conn)
                   \<lparr>cc_keys_running_req := None, cc_keys_rmem := None, cc_keys_buf := []\<rparr>)
       | Some rm \<Rightarrow> do {
           let conn1 = conn\<lparr>cc_keys_rmem := Some rm, cc_keys_buf := replicate (rm_size rm) 0\<rparr>;
           map_option snd (priskv_rdma_req_send env r
             (upd_req r (\<lambda>req. (priskv_rdma_req_reset req)\<lparr>cr_sgl := [keys_sgl conn1]\<rparr>) conn1))
         }
     else exit id
   }"

definition cl_cb :: "cl_env \<Rightarrow> nat \<Rightarrow> cl_conn \<Rightarrow> cl_conn option" where
  "cl_cb env r conn = do {
     req \<leftarrow> cc_reqs conn r;
     if cr_cmd req = PRISKV_COMMAND_KEYS then priskv_rdma_keys_req_cb env r conn else priskv_rdma_req_cb r conn
   }"

section \<open>Completions\<close>

text \<open>\<open>priskv_rdma_req_delay_send\<close>: the loop is over the list as it was; the only request the body
  puts back ends the loop.\<close>

fun delay_send_loop :: "cl_env \<Rightarrow> nat list \<Rightarrow> cl_conn \<Rightarrow> cl_conn option" where
  "delay_send_loop env [] conn = Some conn"
| "delay_send_loop env (r # rs) conn = do {
     (ret, conn1) \<leftarrow> priskv_rdma_req_send env r (conn\<lparr>cc_inflight_list := remove1 r (cc_inflight_list conn)\<rparr>);
     if ret = EAGAIN then Some conn1 else delay_send_loop env rs conn1
   }"

definition priskv_rdma_req_delay_send :: "cl_env \<Rightarrow> cl_conn \<Rightarrow> cl_conn option" where
  "priskv_rdma_req_delay_send env conn = delay_send_loop env (cc_inflight_list conn) conn"

definition priskv_rdma_req_done :: "nat \<Rightarrow> cl_conn \<Rightarrow> cl_conn option" where
  "priskv_rdma_req_done r conn = do {
     req \<leftarrow> cc_reqs conn r;
     Some (if cr_flag_send req \<and> cr_flag_recv req then conn\<lparr>cc_complete_list := cc_complete_list conn @ [r]\<rparr> else conn)
   }"

fun complete_loop :: "cl_env \<Rightarrow> nat list \<Rightarrow> cl_conn \<Rightarrow> cl_conn option" where
  "complete_loop env [] conn = Some conn"
| "complete_loop env (r # rs) conn = do {
     req \<leftarrow> cc_reqs conn r;
     conn1 \<leftarrow> priskv_request_free (cr_req req) (conn\<lparr>cc_complete_list := remove1 r (cc_complete_list conn)\<rparr>);
     conn2 \<leftarrow> cl_cb env r conn1;
     complete_loop env rs conn2
   }"

definition priskv_rdma_req_complete :: "cl_env \<Rightarrow> cl_conn \<Rightarrow> cl_conn option" where
  "priskv_rdma_req_complete env conn = complete_loop env (cc_complete_list conn) conn"

text \<open>A response: identifier, status and length. The receive is posted again; that this can
  fail is only logged.\<close>

definition cl_handle_recv :: "nat \<Rightarrow> nat \<Rightarrow> nat \<Rightarrow> nat \<Rightarrow> cl_conn \<Rightarrow> (int \<times> cl_conn) option" where
  "cl_handle_recv request_id status len_field byte_len conn =
     (if byte_len \<noteq> sizeof_response then Some (- EPROTO, conn)
      else do {
        req \<leftarrow> cc_reqs conn request_id;
        conn1 \<leftarrow> priskv_rdma_req_done request_id (upd_req request_id (\<lambda>req. req\<lparr>cr_status := status, cr_length := len_field,
          cr_result := (if cr_cmd req \<noteq> PRISKV_COMMAND_KEYS then Length len_field else cr_result req), cr_flag_recv := True\<rparr>) conn);
        Some (0, conn1\<lparr>cc_resps := u64n (cc_resps conn1 + 1)\<rparr>)
      })"

definition cl_handle_send :: "nat \<Rightarrow> cl_conn \<Rightarrow> cl_conn option" where
  "cl_handle_send s conn =
     (if s < length (cc_slots conn) then
        case cc_slots conn ! s of
          Free \<Rightarrow> None
        | Filled msg \<Rightarrow> do {
            req \<leftarrow> cc_reqs conn (rq_request_id msg);
            priskv_rdma_req_done (rq_request_id msg) (upd_req (rq_request_id msg) (\<lambda>req. req\<lparr>cr_flag_send := True\<rparr>) conn)
          }
      else None)"

text \<open>A work completion: a response, of a number of bytes and with what the server has written to
  the KEYS buffer before; a send, by its slot; or a failure or unknown operation. A slot leaves
  the send queue when its send completes.\<close>

datatype cl_wc = WC_recv nat nat nat nat bytes | WC_send nat | WC_bad

fun cl_handle_wc :: "cl_wc \<Rightarrow> cl_conn \<Rightarrow> (int \<times> cl_conn) option" where
  "cl_handle_wc (WC_recv request_id status len_field byte_len written) conn =
     cl_handle_recv request_id status len_field byte_len
       (conn\<lparr>cc_keys_buf := written @ drop (length written) (cc_keys_buf conn)\<rparr>)"
| "cl_handle_wc (WC_send s) conn = map_option (Pair 0) (cl_handle_send s (conn\<lparr>cc_sq := remove1 s (cc_sq conn)\<rparr>))"
| "cl_handle_wc WC_bad conn = Some (- EIO, conn)"

fun cl_handle_cq :: "cl_env \<Rightarrow> cl_wc list \<Rightarrow> cl_conn \<Rightarrow> (int \<times> cl_conn) option" where
  "cl_handle_cq env [] conn = do {
     conn1 \<leftarrow> priskv_rdma_req_complete env conn;
     conn2 \<leftarrow> priskv_rdma_req_delay_send env conn1;
     Some (0, conn2)
   }"
| "cl_handle_cq env (wc # wcs) conn = do {
     (ret, conn1) \<leftarrow> cl_handle_wc wc conn;
     if ret < 0 then Some (ret, conn1) else cl_handle_cq env wcs conn1
   }"

section \<open>Commands\<close>

text \<open>\<open>priskv_send_command\<close>: a key or SGL that is refused is reported, and the request is sent all
  the same.\<close>

definition priskv_send_command ::
  "cl_env \<Rightarrow> nat \<Rightarrow> bytes \<Rightarrow> priskv_sgl list \<Rightarrow> nat \<Rightarrow> priskv_req_command \<Rightarrow> cl_conn \<Rightarrow> cl_conn option"
where
  "priskv_send_command env request_id key sgl timeout cmd conn =
     (let keylen = u16n (length key);
          refuse = (\<lambda>c st conn. if c then cl_user_cb request_id st No_result conn else conn);
          conn1 = refuse (keylen = 0) PRISKV_STATUS_KEY_EMPTY conn;
          conn2 = refuse (cc_max_key_length conn < keylen) PRISKV_STATUS_KEY_TOO_BIG conn1;
          conn3 = refuse (cc_max_sgl conn < length sgl) PRISKV_STATUS_INVALID_SGL conn2
      in case priskv_rdma_req_new env request_id (take keylen key) sgl timeout cmd conn3 of
           (None, conn4) \<Rightarrow> Some (cl_user_cb request_id PRISKV_STATUS_NO_MEM No_result conn4)
         | (Some r, conn4) \<Rightarrow> map_option snd (priskv_rdma_req_send env r conn4))"

definition priskv_get_async :: "cl_env \<Rightarrow> bytes \<Rightarrow> priskv_sgl list \<Rightarrow> nat \<Rightarrow> cl_conn \<Rightarrow> cl_conn option" where
  "priskv_get_async env key sgl request_id conn =
     (if sgl = [] then Some (cl_user_cb request_id PRISKV_STATUS_VALUE_EMPTY No_result conn)
      else priskv_send_command env request_id key sgl 0 PRISKV_COMMAND_GET conn)"

definition priskv_set_async :: "cl_env \<Rightarrow> bytes \<Rightarrow> priskv_sgl list \<Rightarrow> nat \<Rightarrow> nat \<Rightarrow> cl_conn \<Rightarrow> cl_conn option" where
  "priskv_set_async env key sgl timeout request_id conn =
     (if sgl = [] then Some (cl_user_cb request_id PRISKV_STATUS_VALUE_EMPTY No_result conn)
      else priskv_send_command env request_id key sgl timeout PRISKV_COMMAND_SET conn)"

definition priskv_test_async :: "cl_env \<Rightarrow> bytes \<Rightarrow> nat \<Rightarrow> cl_conn \<Rightarrow> cl_conn option" where
  "priskv_test_async env key request_id conn = priskv_send_command env request_id key [] 0 PRISKV_COMMAND_TEST conn"

definition priskv_delete_async :: "cl_env \<Rightarrow> bytes \<Rightarrow> nat \<Rightarrow> cl_conn \<Rightarrow> cl_conn option" where
  "priskv_delete_async env key request_id conn = priskv_send_command env request_id key [] 0 PRISKV_COMMAND_DELETE conn"

definition priskv_expire_async :: "cl_env \<Rightarrow> bytes \<Rightarrow> nat \<Rightarrow> nat \<Rightarrow> cl_conn \<Rightarrow> cl_conn option" where
  "priskv_expire_async env key timeout request_id conn =
     priskv_send_command env request_id key [] timeout PRISKV_COMMAND_EXPIRE conn"

definition priskv_keys_async :: "cl_env \<Rightarrow> bytes \<Rightarrow> nat \<Rightarrow> cl_conn \<Rightarrow> cl_conn option" where
  "priskv_keys_async env regex request_id conn = priskv_send_command env request_id regex [] 0 PRISKV_COMMAND_KEYS conn"

definition priskv_nrkeys_async :: "cl_env \<Rightarrow> bytes \<Rightarrow> nat \<Rightarrow> cl_conn \<Rightarrow> cl_conn option" where
  "priskv_nrkeys_async env regex request_id conn = priskv_send_command env request_id regex [] 0 PRISKV_COMMAND_NRKEYS conn"

definition priskv_flush_async :: "cl_env \<Rightarrow> bytes \<Rightarrow> nat \<Rightarrow> cl_conn \<Rightarrow> cl_conn option" where
  "priskv_flush_async env regex request_id conn = priskv_send_command env request_id regex [] 0 PRISKV_COMMAND_FLUSH conn"

section \<open>Connecting and closing\<close>

text \<open>What the verbs library answers while a connection is set up: the device attributes, the
  results of the calls, and the three buffers by the size that is asked for.\<close>

record cl_cm_env =
  cm_query_device :: bool
  cm_resize_max_wr :: bool
  cm_resize_cq :: int
  cm_modify_qp :: int
  cm_establish_qp :: int
  cm_mem_req :: "nat \<Rightarrow> cl_rmem option"
  cm_mem_resp :: "nat \<Rightarrow> cl_rmem option"
  cm_mem_keys :: "nat \<Rightarrow> cl_rmem option"
  cm_post_recv :: "nat \<Rightarrow> bool"

record priskv_rdma_cm_rep =
  rep_version :: nat
  rep_max_sgl :: nat
  rep_max_key_length :: nat
  rep_max_inflight_command :: nat
  rep_capacity :: nat

abbreviation PRISKV_RDMA_DEFAULT_INFLIGHT_COMMAND :: nat where "PRISKV_RDMA_DEFAULT_INFLIGHT_COMMAND \<equiv> 128"
abbreviation ENOMEM :: int where "ENOMEM \<equiv> 12"
abbreviation sizeof_cm_rep :: nat where "sizeof_cm_rep \<equiv> 32"
abbreviation getpagesize :: nat where "getpagesize \<equiv> 4096"

text \<open>The connection as \<open>priskv_conn_connect\<close> makes it.\<close>

definition priskv_conn_new :: cl_conn where
  "priskv_conn_new = \<lparr>cc_max_sgl = 0, cc_max_key_length = 0, cc_max_inflight_command = PRISKV_RDMA_DEFAULT_INFLIGHT_COMMAND,
     cc_established = False, cc_slots = [], cc_inflight_list = [], cc_complete_list = [], cc_keys_running_req = None,
     cc_keys_rmem = None, cc_keys_buf = [], cc_stats = (\<lambda>_. 0), cc_resps = 0, cc_reqs = Map.empty, cc_next = 0, cc_sq = [],
     cc_posted = [], cc_callbacks = []\<rparr>"

definition priskv_rdma_modify_max_inflight_command :: "cl_cm_env \<Rightarrow> nat \<Rightarrow> cl_conn \<Rightarrow> int \<times> cl_conn" where
  "priskv_rdma_modify_max_inflight_command cm max_inflight_command conn =
     (if max_inflight_command = PRISKV_RDMA_DEFAULT_INFLIGHT_COMMAND
      then (0, conn\<lparr>cc_max_inflight_command := PRISKV_RDMA_DEFAULT_INFLIGHT_COMMAND\<rparr>)
      else if \<not> cm_query_device cm then (0, conn)
      else if \<not> cm_resize_max_wr cm
      then (0, conn\<lparr>cc_max_inflight_command := min max_inflight_command PRISKV_RDMA_DEFAULT_INFLIGHT_COMMAND\<rparr>)
      else (let conn1 = conn\<lparr>cc_max_inflight_command := max_inflight_command\<rparr>
            in if cm_resize_cq cm \<noteq> 0 then (cm_resize_cq cm, conn1)
               else if cm_modify_qp cm \<noteq> 0 then (- cm_modify_qp cm, conn1)
               else (0, conn1)))"

text \<open>\<open>priskv_rdma_mem_new_all\<close>: when a buffer cannot be had, all are freed.\<close>

definition cl_mem_new_all :: "cl_cm_env \<Rightarrow> cl_conn \<Rightarrow> int \<times> cl_conn" where
  "cl_mem_new_all cm conn =
     (let reqsize = cl_request_size_aligend conn; freed = conn\<lparr>cc_slots := [], cc_keys_rmem := None, cc_keys_buf := []\<rparr>
      in case cm_mem_req cm (u32n (reqsize * cc_max_inflight_command conn)) of
           None \<Rightarrow> (- ENOMEM, freed)
         | Some _ \<Rightarrow>
      (case cm_mem_resp cm (u32n (sizeof_response * cc_max_inflight_command conn)) of
           None \<Rightarrow> (- ENOMEM, freed)
         | Some _ \<Rightarrow>
      (case cm_mem_keys cm getpagesize of
           None \<Rightarrow> (- ENOMEM, freed)
         | Some keys \<Rightarrow> (0, conn\<lparr>cc_slots := replicate (cc_max_inflight_command conn) Free, cc_keys_rmem := Some keys,
             cc_keys_buf := replicate (rm_size keys) 0\<rparr>))))"

definition priskv_rdma_responsed :: "cl_cm_env \<Rightarrow> nat \<Rightarrow> priskv_rdma_cm_rep \<Rightarrow> cl_conn \<Rightarrow> int \<times> cl_conn" where
  "priskv_rdma_responsed cm private_data_len rep conn =
     (if private_data_len < sizeof_cm_rep then (- EPROTO, conn)
      else let (ret, conn1) = priskv_rdma_modify_max_inflight_command cm (rep_max_inflight_command rep)
                 (conn\<lparr>cc_max_sgl := rep_max_sgl rep, cc_max_key_length := rep_max_key_length rep\<rparr>)
           in if ret \<noteq> 0 then (ret, conn1)
              else if cm_establish_qp cm \<noteq> 0 then (cm_establish_qp cm, conn1)
              else let (ret, conn2) = cl_mem_new_all cm conn1
                   in if ret \<noteq> 0 then (ret, conn2)
                      else if list_all (cm_post_recv cm) [0..<cc_max_inflight_command conn2] then (0, conn2) else (- 1, conn2))"

text \<open>The answer of the server in \<open>priskv_rdma_handle_cm_event\<close>: the connection counts as
  established even when it could not be set up.\<close>

definition cl_connect_response :: "cl_cm_env \<Rightarrow> nat \<Rightarrow> priskv_rdma_cm_rep \<Rightarrow> cl_conn \<Rightarrow> int \<times> cl_conn" where
  "cl_connect_response cm private_data_len rep conn =
     (let (ret, conn1) = priskv_rdma_responsed cm private_data_len rep conn in (ret, conn1\<lparr>cc_established := True\<rparr>))"

fun close_waiting :: "nat list \<Rightarrow> cl_conn \<Rightarrow> cl_conn option" where
  "close_waiting [] conn = Some conn"
| "close_waiting (r # rs) conn = do {
     req \<leftarrow> cc_reqs conn r;
     conn1 \<leftarrow> priskv_request_free (cr_req req) (conn\<lparr>cc_inflight_list := remove1 r (cc_inflight_list conn)\<rparr>);
     conn2 \<leftarrow> cl_fail r PRISKV_STATUS_DISCONNECTED conn1;
     close_waiting rs conn2
   }"

definition cl_close_conn :: "cl_env \<Rightarrow> cl_conn \<Rightarrow> cl_conn option" where
  "cl_close_conn env conn = do {
     conn1 \<leftarrow> priskv_rdma_req_complete env (conn\<lparr>cc_established := False\<rparr>);
     conn2 \<leftarrow> close_waiting (cc_inflight_list conn1) conn1;
     Some (conn2\<lparr>cc_slots := [], cc_keys_rmem := None, cc_keys_buf := []\<rparr>)
   }"

end
