(* ===== verification/Client_Run.thy ===== *)
theory Client_Run
  imports Client
begin

text \<open>
  Runs of a client connection: commands and batches of completions in any order. The invariant
  says where each request is: it waits, or it owns exactly one slot, which names it.
\<close>

section \<open>The invariant\<close>

text \<open>The limits of a connection leave the size of a request below \<open>2^16\<close>, as its count has 16
  bits, and room for the SGL entry of KEYS.\<close>

definition limits_ok :: "cl_conn \<Rightarrow> bool" where
  "limits_ok conn \<longleftrightarrow> 0 < cc_max_sgl conn
     \<and> request_struct_size + sgl_struct_size * cc_max_sgl conn + cc_max_key_length conn < 2 ^ 16"

definition sgl_typed :: "priskv_sgl \<Rightarrow> bool" where
  "sgl_typed s \<longleftrightarrow> cs_iova s < 2 ^ 64 \<and> cs_length s < 2 ^ 32
     \<and> (case cs_mem s of NoMem \<Rightarrow> True | Mem None \<Rightarrow> False | Mem (Some rkey) \<Rightarrow> rkey < 2 ^ 32)"

definition req_typed :: "nat \<Rightarrow> nat \<Rightarrow> cl_rdma_req \<Rightarrow> bool" where
  "req_typed max_sgl max_key_length req \<longleftrightarrow> length (cr_key req) \<le> max_key_length \<and> length (cr_sgl req) \<le> max_sgl
     \<and> cr_timeout req < 2 ^ 64 \<and> (\<forall>s \<in> set (cr_sgl req). sgl_typed s)"

definition rmem_typed :: "cl_rmem \<Rightarrow> bool" where
  "rmem_typed rm \<longleftrightarrow> rm_buf rm < 2 ^ 64 \<and> rm_size rm < 2 ^ 32 \<and> rm_rkey rm < 2 ^ 32"

definition conn_ok :: "cl_conn \<Rightarrow> bool" where
  "conn_ok conn \<longleftrightarrow> cc_established conn \<and> length (cc_slots conn) = cc_max_inflight_command conn \<and> limits_ok conn
     \<and> (\<exists>rm. cc_keys_rmem conn = Some rm \<and> rmem_typed rm \<and> length (cc_keys_buf conn) = rm_size rm)"

text \<open>A request that has been posted: it owns the slot that names it, the send queue has the slot
  until the send completes, and the complete list has the request when both have come.\<close>

definition owns_slot :: "cl_slot list \<Rightarrow> nat set \<Rightarrow> nat set \<Rightarrow> nat \<Rightarrow> cl_rdma_req \<Rightarrow> bool" where
  "owns_slot slots sq complete r req \<longleftrightarrow> (\<exists>s msg. cr_req req = Some s \<and> s < length slots \<and> slots ! s = Filled msg
     \<and> rq_request_id msg = r \<and> (s \<in> sq \<longleftrightarrow> \<not> cr_flag_send req)) \<and> (r \<in> complete \<longleftrightarrow> cr_flag_send req \<and> cr_flag_recv req)"

definition no_slot :: "cl_rdma_req \<Rightarrow> bool" where
  "no_slot req \<longleftrightarrow> cr_req req = None \<and> \<not> cr_flag_send req \<and> \<not> cr_flag_recv req"

text \<open>\<open>D\<close> are requests that are being handled and are in no list.\<close>

definition reqs_ok :: "cl_conn \<Rightarrow> nat set \<Rightarrow> bool" where
  "reqs_ok conn D \<longleftrightarrow> finite (dom (cc_reqs conn)) \<and> (\<forall>r \<in> dom (cc_reqs conn). r < cc_next conn)
     \<and> distinct (cc_inflight_list conn) \<and> set (cc_inflight_list conn) \<union> D \<subseteq> dom (cc_reqs conn) \<and> D \<inter> set (cc_inflight_list conn) = {}
     \<and> distinct (cc_complete_list conn) \<and> set (cc_complete_list conn) \<subseteq> dom (cc_reqs conn)
     \<and> (\<forall>r req. cc_reqs conn r = Some req \<longrightarrow> req_typed (cc_max_sgl conn) (cc_max_key_length conn) req)
     \<and> (\<forall>r \<in> set (cc_inflight_list conn). \<forall>req. cc_reqs conn r = Some req \<longrightarrow> no_slot req)
     \<and> set (cc_complete_list conn) \<inter> (set (cc_inflight_list conn) \<union> D) = {}
     \<and> (\<forall>r req. cc_reqs conn r = Some req \<longrightarrow> r \<notin> set (cc_inflight_list conn) \<union> D
          \<longrightarrow> owns_slot (cc_slots conn) (set (cc_sq conn)) (set (cc_complete_list conn)) r req)"

definition slots_ok :: "cl_conn \<Rightarrow> bool" where
  "slots_ok conn \<longleftrightarrow> distinct (cc_sq conn) \<and> (\<forall>s \<in> set (cc_sq conn). s < length (cc_slots conn) \<and> cc_slots conn ! s \<noteq> Free)
     \<and> (\<forall>s msg. s < length (cc_slots conn) \<longrightarrow> cc_slots conn ! s = Filled msg \<longrightarrow>
          (\<exists>req. cc_reqs conn (rq_request_id msg) = Some req \<and> cr_req req = Some s))"

text \<open>Messages with fields of their widths, within the limits of the connection.\<close>

definition msg_typed :: "nat \<Rightarrow> nat \<Rightarrow> priskv_request \<Rightarrow> bool" where
  "msg_typed max_sgl max_key_length msg \<longleftrightarrow> rq_nsgl msg \<le> max_sgl \<and> rq_key_length msg \<le> max_key_length
     \<and> (rq_request_id msg < 2 ^ 64 \<longrightarrow> request_ok msg)"

definition posts_ok :: "cl_conn \<Rightarrow> bool" where
  "posts_ok conn \<longleftrightarrow> (\<forall>msg \<in> set (cc_posted conn). rq_request_id msg < cc_next conn
     \<and> msg_typed (cc_max_sgl conn) (cc_max_key_length conn) msg)"

definition cl_wf :: "cl_conn \<Rightarrow> nat set \<Rightarrow> bool" where
  "cl_wf conn D \<longleftrightarrow> conn_ok conn \<and> reqs_ok conn D \<and> slots_ok conn \<and> posts_ok conn"

text \<open>The identifiers the user gave: of the requests that are alive, and all that were submitted
  so far, answered or not.\<close>

definition live_ids :: "cl_conn \<Rightarrow> nat multiset" where
  "live_ids conn = image_mset (\<lambda>r. cr_request_id (the (cc_reqs conn r))) (mset_set (dom (cc_reqs conn)))"

definition known_ids :: "cl_conn \<Rightarrow> nat multiset" where
  "known_ids conn = mset (map fst (cc_callbacks conn)) + live_ids conn"

definition full :: "cl_conn \<Rightarrow> bool" where
  "full conn \<longleftrightarrow> Free \<notin> set (cc_slots conn)"

definition same_limits :: "cl_conn \<Rightarrow> cl_conn \<Rightarrow> bool" where
  "same_limits conn conn' \<longleftrightarrow> cc_max_sgl conn' = cc_max_sgl conn \<and> cc_max_key_length conn' = cc_max_key_length conn
     \<and> cc_max_inflight_command conn' = cc_max_inflight_command conn \<and> cc_next conn' = cc_next conn"

text \<open>Requests are only dropped or keep their command and their response.\<close>

definition evolves :: "cl_conn \<Rightarrow> cl_conn \<Rightarrow> bool" where
  "evolves conn conn' \<longleftrightarrow> same_limits conn conn' \<and> cc_keys_buf conn' = cc_keys_buf conn
     \<and> (\<forall>r req'. cc_reqs conn' r = Some req' \<longrightarrow> (\<exists>req. cc_reqs conn r = Some req \<and> cr_cmd req' = cr_cmd req
          \<and> cr_flag_recv req' = cr_flag_recv req \<and> cr_status req' = cr_status req \<and> cr_length req' = cr_length req))"

text \<open>An environment in which posting and registering work.\<close>

definition cl_env_ok :: "cl_env \<Rightarrow> bool" where
  "cl_env_ok env \<longleftrightarrow> ce_calloc env \<and> (\<forall>r. ce_post env r) \<and> (\<forall>a. \<exists>k. ce_rkey env a = Some k \<and> k < 2 ^ 32)
     \<and> (\<forall>n. \<exists>rm. ce_mem_new env n = Some rm \<and> rmem_typed rm)"

section \<open>Slots\<close>

lemma first_free_None: "first_free ss = None \<longleftrightarrow> Free \<notin> set ss"
  by (induction ss) auto

lemma first_free_Some: "first_free ss = Some s \<Longrightarrow> s < length ss \<and> ss ! s = Free"
  by (induction ss arbitrary: s) (auto split: if_splits)

lemma unused_command:
  assumes "conn_ok conn"
  shows "priskv_rdma_unused_command conn = first_free (cc_slots conn)"
  using assms by (simp add: priskv_rdma_unused_command_def conn_ok_def)

lemma slot_size:
  assumes "limits_ok conn"
  shows "request_struct_size + sgl_struct_size * cc_max_sgl conn + cc_max_key_length conn \<le> cl_request_size_aligend conn"
proof -
  let ?b = "request_struct_size + sgl_struct_size * cc_max_sgl conn + cc_max_key_length conn"
  have b: "?b < 2 ^ 16" using assms by (simp add: limits_ok_def)
  then have s: "priskv_request_size (cc_max_sgl conn) (cc_max_key_length conn) = ?b"
    by (simp add: priskv_request_size_def priskv_request_key_off_def wrap_simps)
  have "unat (of_nat n :: u32) = n" if "n < 2 ^ 16" for n using that by (simp add: unat_of_nat)
  then have u: "unat (of_nat ?b :: u32) = ?b" using b by blast
  have "unat (ALIGN_UP (of_nat ?b :: u32) (2 ^ 6)) = (?b + 2 ^ 6 - 1) div 2 ^ 6 * 2 ^ 6"
    using b u by (subst unat_ALIGN_UP) simp_all
  then have "cl_request_size_aligend conn = (?b + 63) div 64 * 64" using s by (simp add: cl_request_size_aligend_def)
  then show ?thesis by simp
qed

lemma typed_fits:
  assumes "limits_ok conn" "req_typed (cc_max_sgl conn) (cc_max_key_length conn) req"
  shows "fits_slot conn req"
proof -
  have "sgl_struct_size * length (cr_sgl req) \<le> sgl_struct_size * cc_max_sgl conn" using assms(2) by (simp add: req_typed_def)
  then have "request_struct_size + sgl_struct_size * length (cr_sgl req) + length (cr_key req) \<le> cl_request_size_aligend conn"
    using slot_size [OF assms(1)] assms(2) unfolding req_typed_def by linarith
  moreover have "priskv_request_key_off (length (cr_sgl req)) \<le> request_struct_size + sgl_struct_size * length (cr_sgl req)"
    unfolding priskv_request_key_off_def u16n_def by (rule mod_less_eq_dividend)
  ultimately show ?thesis unfolding fits_slot_def by linarith
qed

lemma fillup_ok:
  assumes "cl_env_ok env" "\<forall>s \<in> set ss. sgl_typed s"
  shows "\<exists>sgls. cl_fillup_sql env ss = Some sgls \<and> length sgls = length ss \<and> (\<forall>sgl \<in> set sgls. sgl_ok sgl)"
  using assms(2)
proof (induction ss)
  case (Cons s ss)
  then obtain sgls where i: "cl_fillup_sql env ss = Some sgls" "length sgls = length ss" "\<forall>sgl \<in> set sgls. sgl_ok sgl" by auto
  obtain k where "(case cs_mem s of NoMem \<Rightarrow> ce_rkey env (cs_iova s) | Mem mr \<Rightarrow> mr) = Some k" "k < 2 ^ 32"
    using Cons.prems assms(1) by (force simp: sgl_typed_def cl_env_ok_def split: priskv_memory.splits option.splits)
  with i Cons.prems show ?case by (simp add: sgl_typed_def sgl_ok_def)
qed simp

section \<open>Steps\<close>

lemma wf_typed: "cl_wf conn D \<Longrightarrow> cc_reqs conn r = Some req \<Longrightarrow> req_typed (cc_max_sgl conn) (cc_max_key_length conn) req"
  by (simp add: cl_wf_def reqs_ok_def)

lemma wf_owns:
  "cl_wf conn {} \<Longrightarrow> cc_reqs conn r = Some req \<Longrightarrow> r \<notin> set (cc_inflight_list conn)
     \<Longrightarrow> owns_slot (cc_slots conn) (set (cc_sq conn)) (set (cc_complete_list conn)) r req"
  by (simp add: cl_wf_def reqs_ok_def)

lemma upd_req_simps [simp]:
  "cc_established (upd_req r f conn) = cc_established conn" "cc_slots (upd_req r f conn) = cc_slots conn"
  "cc_max_inflight_command (upd_req r f conn) = cc_max_inflight_command conn" "cc_max_sgl (upd_req r f conn) = cc_max_sgl conn"
  "cc_max_key_length (upd_req r f conn) = cc_max_key_length conn" "cc_keys_rmem (upd_req r f conn) = cc_keys_rmem conn"
  "cc_keys_buf (upd_req r f conn) = cc_keys_buf conn" "cc_inflight_list (upd_req r f conn) = cc_inflight_list conn"
  "cc_complete_list (upd_req r f conn) = cc_complete_list conn" "cc_next (upd_req r f conn) = cc_next conn"
  "cc_sq (upd_req r f conn) = cc_sq conn" "cc_callbacks (upd_req r f conn) = cc_callbacks conn"
  "cc_posted (upd_req r f conn) = cc_posted conn" "cc_keys_running_req (upd_req r f conn) = cc_keys_running_req conn"
  "cc_stats (upd_req r f conn) = cc_stats conn" "cc_resps (upd_req r f conn) = cc_resps conn"
  "cc_reqs (upd_req r f conn) = (cc_reqs conn)(r := map_option f (cc_reqs conn r))"
  by (simp_all add: upd_req_def)

lemma delaying_same:
  "req_typed a b (req\<lparr>cr_delaying := d\<rparr>) = req_typed a b req" "no_slot (req\<lparr>cr_delaying := d\<rparr>) = no_slot req"
  by (simp_all add: req_typed_def no_slot_def)

lemma live_ids_upd:
  "\<forall>req. cr_request_id (f req) = cr_request_id req \<Longrightarrow> cc_reqs conn r = Some req
     \<Longrightarrow> cc_reqs conn' = (cc_reqs conn)(r := Some (f req)) \<Longrightarrow> live_ids conn' = live_ids conn"
  by (auto simp: live_ids_def insert_absorb domI intro!: image_mset_cong)

lemma live_ids_remove:
  assumes "finite (dom (cc_reqs conn))" "cc_reqs conn r = Some req" "cc_reqs conn' = (cc_reqs conn)(r := None)"
  shows "live_ids conn = add_mset (cr_request_id req) (live_ids conn')"
proof -
  have "dom (cc_reqs conn) = insert r (dom (cc_reqs conn'))" "r \<notin> dom (cc_reqs conn')" "finite (dom (cc_reqs conn'))"
    using assms by auto
  moreover have "image_mset (\<lambda>x. cr_request_id (the (cc_reqs conn x))) (mset_set (dom (cc_reqs conn')))
      = image_mset (\<lambda>x. cr_request_id (the (cc_reqs conn' x))) (mset_set (dom (cc_reqs conn')))"
    using assms(1,3) by (intro image_mset_cong) (auto split: if_splits)
  ultimately show ?thesis using assms(2) by (simp add: live_ids_def)
qed

lemma wait_wf:
  assumes "cl_wf conn (insert r D)" "r \<notin> D" "cc_reqs conn r = Some req" "no_slot req"
  shows "cl_wf (cl_wait r req conn) D" "live_ids (cl_wait r req conn) = live_ids conn"
proof -
  have o: "reqs_ok conn (insert r D)" and n: "r \<notin> set (cc_inflight_list conn)" using assms(1) by (auto simp: cl_wf_def reqs_ok_def)
  have "conn_ok (cl_wait r req conn)" using assms(1) by (simp add: cl_wf_def cl_wait_def conn_ok_def limits_ok_def)
  moreover have "reqs_ok (cl_wait r req conn) D"
    using o n assms(2-4) unfolding reqs_ok_def cl_wait_def by (auto simp: delaying_same split: if_splits)
  moreover have "slots_ok (cl_wait r req conn)" using assms(1,3,4) unfolding cl_wf_def slots_ok_def cl_wait_def no_slot_def
    by (auto split: if_splits)
  moreover have "posts_ok (cl_wait r req conn)" using assms(1) by (simp add: cl_wf_def posts_ok_def cl_wait_def)
  ultimately show "cl_wf (cl_wait r req conn) D" by (simp add: cl_wf_def)
  show "live_ids (cl_wait r req conn) = live_ids conn" 
  proof (cases "cr_delaying req")
    case False
    with assms(3) show ?thesis by (intro live_ids_upd [of "\<lambda>req. req\<lparr>cr_delaying := True\<rparr>"]) (simp_all add: cl_wait_def)
  qed (simp add: cl_wait_def live_ids_def)
qed

text \<open>A request that is being handled gets a free slot and is posted.\<close>

lemma post_wf:
  assumes "cl_wf conn (insert r D)" "r \<notin> D" "cc_reqs conn r = Some req" "no_slot req"
    "s < length (cc_slots conn)" "cc_slots conn ! s = Free" "rq_request_id msg = r"
    "msg_typed (cc_max_sgl conn) (cc_max_key_length conn) msg"
  shows "cl_wf (upd_req r (\<lambda>req. req\<lparr>cr_req := Some s\<rparr>)
     (conn\<lparr>cc_slots := (cc_slots conn)[s := Filled msg], cc_posted := cc_posted conn @ [msg], cc_sq := cc_sq conn @ [s], cc_stats := st\<rparr>)) D" (is "cl_wf ?conn D")
proof -
  have o: "reqs_ok conn (insert r D)" and sl: "slots_ok conn" and c: "conn_ok conn" using assms(1) by (auto simp: cl_wf_def)
  have "conn_ok ?conn" using c by (simp add: conn_ok_def limits_ok_def)
  moreover have "reqs_ok ?conn D"
  proof -
    have s: "s \<notin> set (cc_sq conn)" using sl assms(6) by (auto simp: slots_ok_def)
    have "owns_slot ((cc_slots conn)[s := Filled msg]) (insert s (set (cc_sq conn))) (set (cc_complete_list conn)) q rq"
      if "owns_slot (cc_slots conn) (set (cc_sq conn)) (set (cc_complete_list conn)) q rq" for q rq
      using that assms(6) unfolding owns_slot_def by (metis cl_slot.distinct(1) insertE insertI2 length_list_update nth_list_update_neq)
    moreover have "owns_slot ((cc_slots conn)[s := Filled msg]) (insert s (set (cc_sq conn))) (set (cc_complete_list conn)) r (req\<lparr>cr_req := Some s\<rparr>)"
      using o assms(3-5,7) by (auto simp: owns_slot_def no_slot_def reqs_ok_def)
    moreover have "req_typed a b (req\<lparr>cr_req := Some s\<rparr>) = req_typed a b req" for a b by (simp add: req_typed_def)
    ultimately show ?thesis using o assms(2-4) unfolding reqs_ok_def by auto
  qed
  moreover have "slots_ok ?conn" using sl assms(3-7) unfolding slots_ok_def no_slot_def
    by (auto simp: nth_list_update split: if_splits)
  moreover have "posts_ok ?conn" using assms(1,3,7,8) by (auto simp: cl_wf_def posts_ok_def reqs_ok_def)
  ultimately show ?thesis by (simp add: cl_wf_def)
qed

text \<open>The callback of a request that is being handled.\<close>

definition dropped :: "nat \<Rightarrow> cl_conn \<Rightarrow> cl_conn \<Rightarrow> bool" where
  "dropped r conn conn' \<longleftrightarrow> same_limits conn conn' \<and> cc_keys_buf conn' = cc_keys_buf conn \<and> cc_reqs conn' = (cc_reqs conn)(r := None)"

lemma dropped_evolves: "dropped r conn conn' \<Longrightarrow> evolves conn conn'"
  by (auto simp: dropped_def evolves_def split: if_splits)

lemma answer_wf:
  assumes "cl_wf conn (insert r D)" "r \<notin> D" "cc_reqs conn r = Some req" "\<forall>s < length (cc_slots conn). \<forall>msg. cc_slots conn ! s = Filled msg \<longrightarrow> rq_request_id msg \<noteq> r"
  shows "\<exists>conn'. priskv_rdma_req_cb r conn = Some conn' \<and> cl_wf conn' D \<and> known_ids conn' = known_ids conn
     \<and> cc_slots conn' = cc_slots conn \<and> cc_inflight_list conn' = cc_inflight_list conn \<and> cc_complete_list conn' = cc_complete_list conn
     \<and> dropped r conn conn'"
proof -
  let ?conn = "priskv_rdma_req_free r (cl_user_cb (cr_request_id req) (cr_status req) (cr_result req) conn)"
  have o: "reqs_ok conn (insert r D)" and sl: "slots_ok conn" and c: "conn_ok conn" using assms(1) by (auto simp: cl_wf_def)
  have "conn_ok ?conn" using c by (simp add: conn_ok_def limits_ok_def priskv_rdma_req_free_def cl_user_cb_def)
  moreover have "reqs_ok ?conn D" using o assms(2) unfolding reqs_ok_def priskv_rdma_req_free_def cl_user_cb_def by auto
  moreover have "slots_ok ?conn" using sl assms(4) unfolding slots_ok_def priskv_rdma_req_free_def cl_user_cb_def by auto
  moreover have "posts_ok ?conn" using assms(1) by (simp add: cl_wf_def posts_ok_def priskv_rdma_req_free_def cl_user_cb_def)
  moreover have "known_ids ?conn = known_ids conn"
    using o assms(3) live_ids_remove [of conn r req ?conn]
    by (simp add: known_ids_def reqs_ok_def priskv_rdma_req_free_def cl_user_cb_def)
  ultimately show ?thesis using assms(3)
    by (simp add: priskv_rdma_req_cb_def cl_wf_def) (simp add: priskv_rdma_req_free_def cl_user_cb_def dropped_def same_limits_def)
qed

lemma message_typed:
  assumes "limits_ok conn" "req_typed (cc_max_sgl conn) (cc_max_key_length conn) req" "length sgls = length (cr_sgl req)"
    "\<forall>sgl \<in> set sgls. sgl_ok sgl"
  shows "msg_typed (cc_max_sgl conn) (cc_max_key_length conn) (cl_message r req sgls)"
proof -
  have "sgl_struct_size * length (cr_sgl req) \<le> sgl_struct_size * cc_max_sgl conn" using assms(2) by (simp add: req_typed_def)
  then have "request_struct_size + sgl_struct_size * length (cr_sgl req) + length (cr_key req) < 2 ^ 16"
    using assms(1,2) unfolding limits_ok_def req_typed_def by linarith
  moreover have "command_code c < 2 ^ 16" for c by (cases c) simp_all
  ultimately show ?thesis using assms(2-4) by (simp add: msg_typed_def cl_message_def request_ok_def req_typed_def)
qed

lemma not_named:
  assumes "cl_wf conn D" "cc_reqs conn r = Some req" "cr_req req = None"
  shows "\<forall>s < length (cc_slots conn). \<forall>msg. cc_slots conn ! s = Filled msg \<longrightarrow> rq_request_id msg \<noteq> r"
  using assms by (auto simp: cl_wf_def slots_ok_def)

lemma wf_keys_running [simp]:
  "fits_slot (conn\<lparr>cc_keys_running_req := k\<rparr>) req = fits_slot conn req" "cl_wf (conn\<lparr>cc_keys_running_req := k\<rparr>) D = cl_wf conn D" "known_ids (conn\<lparr>cc_keys_running_req := k\<rparr>) = known_ids conn"
  by (simp_all add: fits_slot_def cl_request_size_aligend_def cl_wf_def conn_ok_def limits_ok_def reqs_ok_def slots_ok_def posts_ok_def
      known_ids_def live_ids_def)

lemma wf_upd:
  assumes "cl_wf conn (insert r D)" "cc_reqs conn r = Some req" "r \<notin> D" "req_typed (cc_max_sgl conn) (cc_max_key_length conn) (f req)"
    "cr_request_id (f req) = cr_request_id req"
    "\<forall>s < length (cc_slots conn). \<forall>msg. cc_slots conn ! s = Filled msg \<longrightarrow> rq_request_id msg \<noteq> r"
  shows "cl_wf (upd_req r f conn) (insert r D)" "known_ids (upd_req r f conn) = known_ids conn"
proof -
  have o: "reqs_ok conn (insert r D)" and sl: "slots_ok conn" and c: "conn_ok conn" "posts_ok conn" using assms(1) by (auto simp: cl_wf_def)
  have "reqs_ok (upd_req r f conn) (insert r D)" using o assms(2,4) unfolding reqs_ok_def by auto
  moreover have "slots_ok (upd_req r f conn)" using sl assms(6) unfolding slots_ok_def by auto
  ultimately show "cl_wf (upd_req r f conn) (insert r D)" using c by (simp add: cl_wf_def conn_ok_def limits_ok_def posts_ok_def)
  have "live_ids (upd_req r f conn) = live_ids conn"
    using assms(2,5) by (auto simp: live_ids_def insert_absorb domI intro!: image_mset_cong)
  then show "known_ids (upd_req r f conn) = known_ids conn" by (simp add: known_ids_def)
qed

lemma fail_wf:
  assumes "cl_wf conn (insert r D)" "r \<notin> D" "cc_reqs conn r = Some req"
    "\<forall>s < length (cc_slots conn). \<forall>msg. cc_slots conn ! s = Filled msg \<longrightarrow> rq_request_id msg \<noteq> r"
  shows "\<exists>conn'. cl_fail r st conn = Some conn' \<and> cl_wf conn' D \<and> known_ids conn' = known_ids conn
     \<and> cc_slots conn' = cc_slots conn \<and> cc_inflight_list conn' = cc_inflight_list conn \<and> cc_complete_list conn' = cc_complete_list conn \<and> dropped r conn conn'"
proof -
  let ?c = "upd_req r (\<lambda>req. req\<lparr>cr_status := st\<rparr>) conn"
  let ?k = "if cr_cmd req = PRISKV_COMMAND_KEYS then ?c\<lparr>cc_keys_running_req := None\<rparr> else ?c"
  have t: "req_typed (cc_max_sgl conn) (cc_max_key_length conn) (req\<lparr>cr_status := st\<rparr>)"
    using wf_typed [OF assms(1,3)] by (simp add: req_typed_def)
  have "cl_wf ?k (insert r D)" "known_ids ?k = known_ids conn" "cc_reqs ?k r = Some (req\<lparr>cr_status := st\<rparr>)"
    "cc_slots ?k = cc_slots conn" "cc_inflight_list ?k = cc_inflight_list conn" "cc_complete_list ?k = cc_complete_list conn" "dropped r ?k x = dropped r conn x" for x
    using wf_upd [OF assms(1,3,2), of "\<lambda>req. req\<lparr>cr_status := st\<rparr>"] t assms(3,4) by (simp_all add: dropped_def same_limits_def)
  from answer_wf [OF this(1) assms(2) this(3)] this(2,4-7) assms(3,4) show ?thesis by (auto simp: cl_fail_def Let_def)
qed

text \<open>\<open>priskv_rdma_req_send\<close> of a request that is being handled: it is posted, waits because every
  slot is taken, or is answered.\<close>

lemma send_wf:
  assumes "cl_env_ok env" "cl_wf conn (insert r D)" "r \<notin> D" "cc_reqs conn r = Some req" "no_slot req"
  shows "\<exists>ret conn'. priskv_rdma_req_send env r conn = Some (ret, conn') \<and> cl_wf conn' D \<and> known_ids conn' = known_ids conn
     \<and> cc_complete_list conn' = cc_complete_list conn \<and> (ret = EAGAIN \<longrightarrow> full conn')
     \<and> (ret \<noteq> EAGAIN \<longrightarrow> cc_inflight_list conn' = cc_inflight_list conn) \<and> (full conn \<longrightarrow> full conn') \<and> evolves conn conn'"
proof -
  let ?keys = "cr_cmd req = PRISKV_COMMAND_KEYS"
  let ?busy = "?keys \<and> cc_keys_running_req conn \<noteq> None \<and> cc_keys_running_req conn \<noteq> Some r"
  let ?c = "if ?keys then conn\<lparr>cc_keys_running_req := Some r\<rparr> else conn"
  have e: "cc_established conn" using assms(2) by (simp add: cl_wf_def conn_ok_def)
  have c: "cl_wf ?c (insert r D)" "known_ids ?c = known_ids conn" "cc_reqs ?c r = Some req" "cc_slots ?c = cc_slots conn"
    "cc_complete_list ?c = cc_complete_list conn" "cc_inflight_list ?c = cc_inflight_list conn" "same_limits conn ?c"
    "cc_reqs ?c = cc_reqs conn" "cc_keys_buf ?c = cc_keys_buf conn" using assms(2,4) by (simp_all add: same_limits_def)
  show ?thesis
  proof (cases ?busy)
    case True
    with fail_wf [OF assms(2-4) not_named [OF assms(2,4)], of PRISKV_STATUS_BUSY] assms(4,5) e show ?thesis
      by (auto simp: priskv_rdma_req_send_def no_slot_def full_def Let_def dest: dropped_evolves)
  next
    case free: False
    show ?thesis
    proof (cases "first_free (cc_slots conn)")
      case None
      then have "priskv_rdma_req_send env r conn = Some (EAGAIN, cl_wait r req ?c)"
        using assms(4) e free c(1) unused_command [of ?c] by (simp add: priskv_rdma_req_send_def cl_wf_def Let_def)
      moreover have "full (cl_wait r req ?c)" using None by (simp add: full_def cl_wait_def first_free_None)
      ultimately show ?thesis using wait_wf [OF c(1) assms(3) c(3) assms(5)] c(2) c(7) assms(4)
        by (simp add: known_ids_def cl_wait_def same_limits_def evolves_def)
    next
      case (Some s)
      then have s: "s < length (cc_slots ?c)" "cc_slots ?c ! s = Free" using first_free_Some c(4) by auto
      have "limits_ok conn" using assms(2) by (simp add: cl_wf_def conn_ok_def)
      note fits = typed_fits [OF this wf_typed [OF assms(2,4)]]
      have l: "limits_ok ?c" and t: "req_typed (cc_max_sgl ?c) (cc_max_key_length ?c) req"
        using c(1) wf_typed [OF c(1,3)] by (auto simp: cl_wf_def conn_ok_def)
      obtain sgls where g: "cl_fillup_sql env (cr_sgl req) = Some sgls" "length sgls = length (cr_sgl req)" "\<forall>sgl \<in> set sgls. sgl_ok sgl"
        using fillup_ok [OF assms(1), of "cr_sgl req"] t by (auto simp: req_typed_def)
      let ?m = "cl_message r req sgls"
      let ?d = "upd_req r (\<lambda>req. req\<lparr>cr_req := Some s\<rparr>)
        (?c\<lparr>cc_slots := (cc_slots ?c)[s := Filled ?m], cc_posted := cc_posted ?c @ [?m], cc_sq := cc_sq ?c @ [s],
          cc_stats := (cc_stats ?c)(cr_cmd req := u64n (cc_stats ?c (cr_cmd req) + 1))\<rparr>)"
      have "priskv_rdma_req_send env r conn = Some (0, ?d)"
        using assms(1,4) e free Some g(1) fits c(1) unused_command [of ?c]
        by (simp add: priskv_rdma_req_send_def cl_wf_def cl_env_ok_def Let_def upd_req_def)
      moreover have "cl_wf ?d D" using message_typed [OF l t g(2,3)]
        by (intro post_wf [OF c(1) assms(3) c(3) assms(5) s]) (simp_all add: cl_message_def)
      moreover have "live_ids ?d = live_ids ?c" by (rule live_ids_upd [of "\<lambda>req. req\<lparr>cr_req := Some s\<rparr>" _ r req]) (use c(3) in simp_all)
      moreover have "\<not> full conn" using s c(4) by (auto simp: full_def in_set_conv_nth)
      ultimately show ?thesis using c(2) c(7) assms(4) by (auto simp: known_ids_def same_limits_def evolves_def)
    qed
  qed
qed

lemma wf_list_remove:
  assumes "cl_wf conn D" "r \<in> set (cc_inflight_list conn)"
  shows "cl_wf (conn\<lparr>cc_inflight_list := remove1 r (cc_inflight_list conn)\<rparr>) (insert r D)" "r \<notin> D"
    "\<exists>req. cc_reqs conn r = Some req \<and> no_slot req"
  using assms by (auto simp: cl_wf_def conn_ok_def limits_ok_def reqs_ok_def slots_ok_def posts_ok_def)

lemma evolves_refl [simp]: "evolves conn conn"
  by (simp add: evolves_def same_limits_def)

lemma evolves_trans: "evolves a b \<Longrightarrow> evolves b c \<Longrightarrow> evolves a c"
  unfolding evolves_def same_limits_def by metis

lemma delay_send_wf:
  assumes "cl_env_ok env" "cl_wf conn {}" "cc_inflight_list conn = rs"
  shows "\<exists>conn'. delay_send_loop env rs conn = Some conn' \<and> cl_wf conn' {} \<and> known_ids conn' = known_ids conn
     \<and> cc_complete_list conn' = cc_complete_list conn \<and> (cc_inflight_list conn' \<noteq> [] \<longrightarrow> full conn') \<and> evolves conn conn'"
  using assms(2,3)
proof (induction rs arbitrary: conn)
  case Nil
  then show ?case by simp
next
  case (Cons r rs)
  let ?c = "conn\<lparr>cc_inflight_list := remove1 r (cc_inflight_list conn)\<rparr>"
  have r: "r \<in> set (cc_inflight_list conn)" using Cons.prems(2) by simp
  then obtain req where req: "cc_reqs ?c r = Some req" "no_slot req" using wf_list_remove(3) [OF Cons.prems(1)] by auto
  have k: "known_ids ?c = known_ids conn" by (simp add: known_ids_def live_ids_def)
  from send_wf [OF assms(1) wf_list_remove(1,2) [OF Cons.prems(1) r] req] obtain ret conn1 where
    s: "priskv_rdma_req_send env r ?c = Some (ret, conn1)" "cl_wf conn1 {}" "known_ids conn1 = known_ids conn"
      "cc_complete_list conn1 = cc_complete_list conn" "ret = EAGAIN \<longrightarrow> full conn1"
      "ret \<noteq> EAGAIN \<longrightarrow> cc_inflight_list conn1 = rs" "evolves conn conn1"
    using Cons.prems(2) k by (auto simp: evolves_def same_limits_def)
  show ?case
  proof (cases "ret = EAGAIN")
    case True
    with s show ?thesis by simp
  next
    case False
    with Cons.IH [OF s(2)] s show ?thesis using evolves_trans [OF s(7)] by fastforce
  qed
qed

section \<open>Completions\<close>

text \<open>At most one KEYS is alive, and its answer is within the buffer.\<close>

definition keys_ok :: "cl_conn \<Rightarrow> bool" where
  "keys_ok conn \<longleftrightarrow>
     (\<forall>r req r' req'. cc_reqs conn r = Some req \<longrightarrow> cc_reqs conn r' = Some req' \<longrightarrow> cr_cmd req = PRISKV_COMMAND_KEYS
        \<longrightarrow> cr_cmd req' = PRISKV_COMMAND_KEYS \<longrightarrow> r = r')
     \<and> (\<forall>r req. cc_reqs conn r = Some req \<longrightarrow> cr_cmd req = PRISKV_COMMAND_KEYS \<longrightarrow> cr_flag_recv req \<longrightarrow> cr_status req = PRISKV_STATUS_OK
        \<longrightarrow> cr_length req \<le> length (cc_keys_buf conn))"

lemma evolves_keys_ok: "evolves conn conn' \<Longrightarrow> keys_ok conn \<Longrightarrow> keys_ok conn'"
  unfolding keys_ok_def evolves_def by metis

abbreviation unnamed :: "nat \<Rightarrow> cl_conn \<Rightarrow> bool" where
  "unnamed r conn \<equiv> \<forall>s < length (cc_slots conn). \<forall>msg. cc_slots conn ! s = Filled msg \<longrightarrow> rq_request_id msg \<noteq> r"

lemma free_wf:
  assumes "cl_wf conn {}" "r \<in> set (cc_complete_list conn)" "cc_reqs conn r = Some req"
  shows "\<exists>conn'. priskv_request_free (cr_req req) (conn\<lparr>cc_complete_list := remove1 r (cc_complete_list conn)\<rparr>) = Some conn'
     \<and> cl_wf conn' {r} \<and> unnamed r conn' \<and> cc_reqs conn' = cc_reqs conn \<and> known_ids conn' = known_ids conn
     \<and> cc_complete_list conn' = remove1 r (cc_complete_list conn) \<and> cr_flag_recv req \<and> evolves conn conn'"
proof -
  have o: "reqs_ok conn {}" and sl: "slots_ok conn" and c: "conn_ok conn" "posts_ok conn" using assms(1) by (auto simp: cl_wf_def)
  have "r \<notin> set (cc_inflight_list conn)" using o assms(2) by (auto simp: reqs_ok_def)
  then have "owns_slot (cc_slots conn) (set (cc_sq conn)) (set (cc_complete_list conn)) r req" using o assms(3) by (simp add: reqs_ok_def)
  then obtain s msg where s: "cr_req req = Some s" "s < length (cc_slots conn)" "cc_slots conn ! s = Filled msg" "rq_request_id msg = r"
      "s \<notin> set (cc_sq conn)" "cr_flag_recv req" using assms(2) by (auto simp: owns_slot_def)
  let ?c = "conn\<lparr>cc_complete_list := remove1 r (cc_complete_list conn), cc_slots := (cc_slots conn)[s := Free]\<rparr>"
  have only: "rq_request_id m \<noteq> r" if "t < length (cc_slots conn)" "cc_slots conn ! t = Filled m" "t \<noteq> s" for t m
    using that sl s(1) assms(3) by (fastforce simp: slots_ok_def)
  have "owns_slot ((cc_slots conn)[s := Free]) (set (cc_sq conn)) (set (remove1 r (cc_complete_list conn))) q rq"
    if "owns_slot (cc_slots conn) (set (cc_sq conn)) (set (cc_complete_list conn)) q rq" "q \<noteq> r" for q rq
  proof -
    have "t \<noteq> s" if "cc_slots conn ! t = Filled m" "rq_request_id m = q" for t m using that \<open>q \<noteq> r\<close> s(3,4) by auto
    with that show ?thesis unfolding owns_slot_def by (metis in_set_remove1 length_list_update nth_list_update_neq)
  qed
  then have "reqs_ok ?c {r}" using o assms(2) unfolding reqs_ok_def by (auto dest: notin_set_remove1)
  moreover have "slots_ok ?c" using sl s(2,5) unfolding slots_ok_def by (auto simp: nth_list_update split: if_splits)
  moreover have "conn_ok ?c" "posts_ok ?c" using c by (simp_all add: conn_ok_def limits_ok_def posts_ok_def)
  moreover have "unnamed r ?c" using only s(2) by (auto simp: nth_list_update split: if_splits)
  moreover have "priskv_request_free (cr_req req) (conn\<lparr>cc_complete_list := remove1 r (cc_complete_list conn)\<rparr>) = Some ?c"
    using s(1,2) by (simp add: priskv_request_free_def)
  ultimately show ?thesis using s(6) by (auto simp: cl_wf_def known_ids_def live_ids_def evolves_def same_limits_def)
qed

lemma wf_new_buf:
  assumes "cl_wf conn D" "rmem_typed rm"
  shows "cl_wf (conn\<lparr>cc_keys_rmem := Some rm, cc_keys_buf := replicate (rm_size rm) 0\<rparr>) D"
    "known_ids (conn\<lparr>cc_keys_rmem := Some rm, cc_keys_buf := replicate (rm_size rm) 0\<rparr>) = known_ids conn"
  using assms by (auto simp: cl_wf_def conn_ok_def limits_ok_def reqs_ok_def slots_ok_def posts_ok_def known_ids_def live_ids_def)

lemma keys_resend:
  assumes "cl_env_ok env" "cl_wf conn {r}" "cc_reqs conn r = Some req" "cr_cmd req = PRISKV_COMMAND_KEYS" "unnamed r conn" "keys_ok conn"
    "cr_status req = PRISKV_STATUS_VALUE_TOO_BIG"
  shows "\<exists>conn'. priskv_rdma_keys_req_cb env r conn = Some conn' \<and> cl_wf conn' {} \<and> known_ids conn' = known_ids conn
     \<and> cc_complete_list conn' = cc_complete_list conn \<and> keys_ok conn' \<and> same_limits conn conn'"
proof -
  obtain rm where rm: "ce_mem_new env (u32n (cr_length req + cr_length req div 8)) = Some rm" "rmem_typed rm"
    using assms(1) unfolding cl_env_ok_def by blast
  let ?c = "conn\<lparr>cc_keys_rmem := Some rm, cc_keys_buf := replicate (rm_size rm) 0\<rparr>"
  let ?f = "\<lambda>req. (priskv_rdma_req_reset req)\<lparr>cr_sgl := [keys_sgl ?c]\<rparr>"
  note w = wf_new_buf [OF assms(2) rm(2)]
  have "0 < cc_max_sgl conn" using assms(2) by (simp add: cl_wf_def conn_ok_def limits_ok_def)
  then have "req_typed (cc_max_sgl ?c) (cc_max_key_length ?c) (?f req)"
    using wf_typed [OF assms(2,3)] rm(2) by (simp add: req_typed_def priskv_rdma_req_reset_def keys_sgl_def sgl_typed_def rmem_typed_def Suc_le_eq)
  from wf_upd [OF w(1), of req ?f] this assms(3,5) have u: "cl_wf (upd_req r ?f ?c) {r}" "known_ids (upd_req r ?f ?c) = known_ids conn"
    using w(2) by (simp_all add: priskv_rdma_req_reset_def)
  have "cc_reqs (upd_req r ?f ?c) r = Some (?f req)" "no_slot (?f req)" using assms(3) by (simp_all add: no_slot_def priskv_rdma_req_reset_def)
  from send_wf [OF assms(1) u(1) _ this] obtain ret conn' where
    c: "priskv_rdma_req_send env r (upd_req r ?f ?c) = Some (ret, conn')" "cl_wf conn' {}" "known_ids conn' = known_ids conn"
      "cc_complete_list conn' = cc_complete_list conn" "evolves (upd_req r ?f ?c) conn'" using u(2) by auto
  have "keys_ok (upd_req r ?f ?c)" using assms(3,4,6) unfolding keys_ok_def by (auto simp: priskv_rdma_req_reset_def)
  then have "keys_ok conn'" by (rule evolves_keys_ok [OF c(5)])
  then show ?thesis using c assms(3,7) rm(1)
    by (simp add: priskv_rdma_keys_req_cb_def Let_def) (simp add: evolves_def same_limits_def)
qed

text \<open>The end of a KEYS that is not sent again changes nothing but the request itself.\<close>

lemma keys_exit:
  assumes "cl_wf conn {r}" "cc_reqs conn r = Some req" "unnamed r conn" "req_typed (cc_max_sgl conn) (cc_max_key_length conn) (f req)"
    "cr_request_id (f req) = cr_request_id req"
  shows "\<exists>conn'. priskv_rdma_req_cb r ((upd_req r f conn)\<lparr>cc_keys_running_req := None\<rparr>) = Some conn' \<and> cl_wf conn' {}
     \<and> known_ids conn' = known_ids conn \<and> cc_complete_list conn' = cc_complete_list conn \<and> dropped r conn conn'"
proof -
  let ?c = "(upd_req r f conn)\<lparr>cc_keys_running_req := None\<rparr>"
  have "cl_wf ?c {r}" "known_ids ?c = known_ids conn" "cc_reqs ?c r = Some (f req)" "unnamed r ?c" "dropped r ?c x = dropped r conn x" for x
    using wf_upd [of conn r "{}" req f] assms by (simp_all add: dropped_def same_limits_def)
  from answer_wf [OF this(1) _ this(3,4)] this(2,5) show ?thesis by auto
qed

lemma cb_wf:
  assumes "cl_env_ok env" "cl_wf conn {r}" "cc_reqs conn r = Some req" "unnamed r conn" "keys_ok conn" "cr_flag_recv req"
  shows "\<exists>conn'. cl_cb env r conn = Some conn' \<and> cl_wf conn' {} \<and> known_ids conn' = known_ids conn
     \<and> cc_complete_list conn' = cc_complete_list conn \<and> keys_ok conn' \<and> same_limits conn conn'"
proof -
  have fin: ?thesis if "cl_cb env r conn = priskv_rdma_req_cb r ((upd_req r f conn)\<lparr>cc_keys_running_req := None\<rparr>)"
    "req_typed (cc_max_sgl conn) (cc_max_key_length conn) (f req)" "cr_request_id (f req) = cr_request_id req" for f
    using keys_exit [of conn r req f] assms(2-4) that dropped_evolves evolves_keys_ok [OF _ assms(5)] by (auto simp: dropped_def)
  have t: "req_typed (cc_max_sgl conn) (cc_max_key_length conn) req" by (rule wf_typed [OF assms(2,3)])
  consider (plain) "cr_cmd req \<noteq> PRISKV_COMMAND_KEYS" | (big) "cr_cmd req = PRISKV_COMMAND_KEYS" "cr_status req = PRISKV_STATUS_VALUE_TOO_BIG"
    | (ok) "cr_cmd req = PRISKV_COMMAND_KEYS" "cr_status req = PRISKV_STATUS_OK"
    | (other) "cr_cmd req = PRISKV_COMMAND_KEYS" "cr_status req \<noteq> PRISKV_STATUS_OK" "cr_status req \<noteq> PRISKV_STATUS_VALUE_TOO_BIG" by blast
  then show ?thesis
  proof cases
    case plain
    then have "cl_cb env r conn = priskv_rdma_req_cb r conn" using assms(3) by (simp add: cl_cb_def)
    with answer_wf [OF assms(2) _ assms(3,4)] show ?thesis
      using dropped_evolves evolves_keys_ok [OF _ assms(5)] by (auto simp: dropped_def)
  next
    case big
    with keys_resend [OF assms(1-3) _ assms(4,5)] assms(3) show ?thesis by (simp add: cl_cb_def)
  next
    case ok
    then have l: "\<not> length (cc_keys_buf conn) < cr_length req" using assms(3,5,6) by (auto simp: keys_ok_def not_less)
    show ?thesis
    proof (cases "keys_req_parse (take (cr_length req) (cc_keys_buf conn))")
      case None
      with ok l assms(3) t show ?thesis by (intro fin [of "\<lambda>req. req\<lparr>cr_status := PRISKV_STATUS_PROTOCOL_ERROR\<rparr>"])
        (simp_all add: cl_cb_def priskv_rdma_keys_req_cb_def Let_def req_typed_def)
    next
      case (Some keys)
      with ok l assms(3) t show ?thesis by (intro fin [of "\<lambda>req. req\<lparr>cr_result := Keyset keys\<rparr>"])
        (simp_all add: cl_cb_def priskv_rdma_keys_req_cb_def Let_def req_typed_def)
    qed
  next
    case other
    with assms(3) t show ?thesis by (intro fin [of id]) (simp_all add: cl_cb_def priskv_rdma_keys_req_cb_def Let_def)
  qed
qed

lemma complete_wf:
  assumes "cl_env_ok env" "cl_wf conn {}" "keys_ok conn" "cc_complete_list conn = rs"
  shows "\<exists>conn'. complete_loop env rs conn = Some conn' \<and> cl_wf conn' {} \<and> known_ids conn' = known_ids conn
     \<and> cc_complete_list conn' = [] \<and> keys_ok conn' \<and> same_limits conn conn'"
  using assms(2-4)
proof (induction rs arbitrary: conn)
  case Nil
  then show ?case by (simp add: same_limits_def)
next
  case (Cons r rs)
  then have "r \<in> dom (cc_reqs conn)" by (auto simp: cl_wf_def reqs_ok_def)
  then obtain req where req: "cc_reqs conn r = Some req" by blast
  from free_wf [OF Cons.prems(1) _ req] Cons.prems(3) obtain conn1 where
    f: "priskv_request_free (cr_req req) (conn\<lparr>cc_complete_list := remove1 r (cc_complete_list conn)\<rparr>) = Some conn1" "cl_wf conn1 {r}"
      "unnamed r conn1" "cc_reqs conn1 = cc_reqs conn" "known_ids conn1 = known_ids conn" "cc_complete_list conn1 = rs" "cr_flag_recv req" "evolves conn conn1"
    by auto
  from cb_wf [OF assms(1) f(2) _ f(3) evolves_keys_ok [OF f(8) Cons.prems(2)] f(7)] req f(4) obtain conn2 where
    c: "cl_cb env r conn1 = Some conn2" "cl_wf conn2 {}" "known_ids conn2 = known_ids conn1" "cc_complete_list conn2 = rs" "keys_ok conn2"
      "same_limits conn1 conn2" using f(6) by auto
  from Cons.IH [OF c(2,5,4)] c f req show ?case by (auto simp: evolves_def same_limits_def)
qed

section \<open>Runs\<close>

text \<open>The completions an adapter and a server can produce: a send completes that was posted, and a
  request that was posted is answered once.\<close>

fun valid_wc :: "cl_conn \<Rightarrow> cl_wc \<Rightarrow> bool" where
  "valid_wc conn (WC_recv r st len byte_len written) \<longleftrightarrow> byte_len = sizeof_response \<and> length written \<le> length (cc_keys_buf conn)
     \<and> r \<notin> set (cc_inflight_list conn) \<and> (case cc_reqs conn r of None \<Rightarrow> False | Some req \<Rightarrow> \<not> cr_flag_recv req
       \<and> (cr_cmd req = PRISKV_COMMAND_KEYS \<longrightarrow> st = PRISKV_STATUS_OK \<longrightarrow> len \<le> length (cc_keys_buf conn)))"
| "valid_wc conn (WC_send s) \<longleftrightarrow> s \<in> set (cc_sq conn)"
| "valid_wc conn WC_bad \<longleftrightarrow> False"

fun valid_wcs :: "cl_wc list \<Rightarrow> cl_conn \<Rightarrow> bool" where
  "valid_wcs [] conn \<longleftrightarrow> True"
| "valid_wcs (wc # wcs) conn \<longleftrightarrow> valid_wc conn wc \<and> (case cl_handle_wc wc conn of None \<Rightarrow> False | Some (ret, conn') \<Rightarrow> valid_wcs wcs conn')"

text \<open>A posted request gets a flag; with both flags it joins the complete list.\<close>

lemma flag_wf:
  assumes "cl_wf conn {}" "cc_reqs conn r = Some req" "r \<notin> set (cc_inflight_list conn)"
    "\<not> (cr_flag_send req \<and> cr_flag_recv req)" "cr_req req = Some s"
    "cr_req (f req) = cr_req req" "cr_request_id (f req) = cr_request_id req"
    "req_typed (cc_max_sgl conn) (cc_max_key_length conn) (f req)"
    "cr_flag_send req \<longrightarrow> cr_flag_send (f req)" "sq = (if cr_flag_send (f req) then remove1 s (cc_sq conn) else cc_sq conn)"
  shows "\<exists>conn'. priskv_rdma_req_done r (upd_req r f (conn\<lparr>cc_sq := sq\<rparr>)) = Some conn' \<and> cl_wf conn' {} \<and> known_ids conn' = known_ids conn
     \<and> same_limits conn conn' \<and> cc_keys_buf conn' = cc_keys_buf conn \<and> cc_reqs conn' = (cc_reqs conn)(r \<mapsto> f req)"
proof -
  have o: "reqs_ok conn {}" and sl: "slots_ok conn" and c: "conn_ok conn" "posts_ok conn" using assms(1) by (auto simp: cl_wf_def)
  let ?both = "cr_flag_send (f req) \<and> cr_flag_recv (f req)"
  let ?C = "cc_complete_list conn @ (if ?both then [r] else [])"
  let ?c = "(upd_req r f (conn\<lparr>cc_sq := sq\<rparr>))\<lparr>cc_complete_list := ?C\<rparr>"
  have w: "owns_slot (cc_slots conn) (set (cc_sq conn)) (set (cc_complete_list conn)) r req" using o assms(2,3) by (simp add: reqs_ok_def)
  then obtain msg where m: "s < length (cc_slots conn)" "cc_slots conn ! s = Filled msg" "rq_request_id msg = r" "r \<notin> set (cc_complete_list conn)"
      "s \<in> set (cc_sq conn) \<longleftrightarrow> \<not> cr_flag_send req"
    using assms(4,5) by (auto simp: owns_slot_def)
  have d: "distinct (cc_sq conn)" using sl by (simp add: slots_ok_def)
  have "owns_slot (cc_slots conn) (set sq) (set ?C) q rq" if "owns_slot (cc_slots conn) (set (cc_sq conn)) (set (cc_complete_list conn)) q rq" "q \<noteq> r" for q rq
    using that m d assms(10) unfolding owns_slot_def by (auto simp: set_remove1_eq)
  moreover have "owns_slot (cc_slots conn) (set sq) (set ?C) r (f req)"
    using m d assms(4-6,9,10) unfolding owns_slot_def by (auto simp: set_remove1_eq)
  ultimately have "reqs_ok ?c {}" using o assms(2,3,8) m(4) unfolding reqs_ok_def by auto
  moreover have "slots_ok ?c" using sl d assms(2,6,10) unfolding slots_ok_def by (auto simp: set_remove1_eq)
  moreover have "conn_ok ?c" "posts_ok ?c" using c by (simp_all add: conn_ok_def limits_ok_def posts_ok_def)
  moreover have "live_ids ?c = live_ids conn" using assms(2,7) by (auto simp: live_ids_def insert_absorb domI intro!: image_mset_cong)
  moreover have "priskv_rdma_req_done r (upd_req r f (conn\<lparr>cc_sq := sq\<rparr>)) = Some ?c"
    using assms(2) by (simp add: priskv_rdma_req_done_def)
  ultimately show ?thesis using assms(2) by (simp add: cl_wf_def known_ids_def same_limits_def)
qed

lemma wf_resps [simp]:
  "cl_wf (conn\<lparr>cc_resps := n\<rparr>) D = cl_wf conn D" "known_ids (conn\<lparr>cc_resps := n\<rparr>) = known_ids conn"
  "keys_ok (conn\<lparr>cc_resps := n\<rparr>) = keys_ok conn" "same_limits c (conn\<lparr>cc_resps := n\<rparr>) = same_limits c conn"
  by (simp_all add: cl_wf_def conn_ok_def limits_ok_def reqs_ok_def slots_ok_def posts_ok_def known_ids_def live_ids_def
      same_limits_def keys_ok_def)

lemma wc_wf:
  assumes "cl_wf conn {}" "keys_ok conn" "valid_wc conn wc"
  shows "\<exists>conn'. cl_handle_wc wc conn = Some (0, conn') \<and> cl_wf conn' {} \<and> keys_ok conn' \<and> known_ids conn' = known_ids conn \<and> same_limits conn conn'"
proof (cases wc)
  case (WC_recv r st len byte_len written)
  let ?b = "conn\<lparr>cc_keys_buf := written @ drop (length written) (cc_keys_buf conn)\<rparr>"
  let ?f = "\<lambda>req. req\<lparr>cr_status := st, cr_length := len,
    cr_result := (if cr_cmd req \<noteq> PRISKV_COMMAND_KEYS then Length len else cr_result req), cr_flag_recv := True\<rparr>"
  obtain req where r: "cc_reqs conn r = Some req" "\<not> cr_flag_recv req" "r \<notin> set (cc_inflight_list conn)" "byte_len = sizeof_response"
      "length written \<le> length (cc_keys_buf conn)" "cr_cmd req = PRISKV_COMMAND_KEYS \<longrightarrow> st = PRISKV_STATUS_OK \<longrightarrow> len \<le> length (cc_keys_buf conn)"
    using assms(3) WC_recv by (auto split: option.splits)
  have b: "cl_wf ?b {}" "known_ids ?b = known_ids conn" using assms(1) r(5)
    by (auto simp: cl_wf_def conn_ok_def limits_ok_def reqs_ok_def slots_ok_def posts_ok_def known_ids_def live_ids_def)
  obtain s where s: "cr_req req = Some s" "s \<in> set (cc_sq conn) \<longleftrightarrow> \<not> cr_flag_send req"
    using wf_owns [OF assms(1) r(1,3)] by (auto simp: owns_slot_def)
  have "req_typed (cc_max_sgl ?b) (cc_max_key_length ?b) (?f req)" using wf_typed [OF assms(1) r(1)] by (simp add: req_typed_def)
  moreover have "cc_sq ?b = (if cr_flag_send (?f req) then remove1 s (cc_sq ?b) else cc_sq ?b)" using s(2) by (simp add: remove1_idem)
  ultimately have "\<exists>conn'. priskv_rdma_req_done r (upd_req r ?f (?b\<lparr>cc_sq := cc_sq ?b\<rparr>)) = Some conn' \<and> cl_wf conn' {} \<and> known_ids conn' = known_ids ?b
     \<and> same_limits ?b conn' \<and> cc_keys_buf conn' = cc_keys_buf ?b \<and> cc_reqs conn' = (cc_reqs ?b)(r \<mapsto> ?f req)"
    using r(1-3) s(1) by (intro flag_wf [OF b(1)]) simp_all
  then obtain conn' where
    c: "priskv_rdma_req_done r (upd_req r ?f ?b) = Some conn'" "cl_wf conn' {}" "known_ids conn' = known_ids conn" "same_limits conn conn'"
      "cc_keys_buf conn' = cc_keys_buf ?b" "cc_reqs conn' = (cc_reqs conn)(r \<mapsto> ?f req)"
    using b(2) by (auto simp: same_limits_def)
  have "keys_ok conn'" using assms(2) r(1,5,6) c(5,6) unfolding keys_ok_def by (auto split: if_splits)
  with c r(1,4) WC_recv show ?thesis
    by (simp add: cl_handle_recv_def)
next
  case (WC_send s)
  then have sq: "s \<in> set (cc_sq conn)" using assms(3) by simp
  then obtain msg where m: "s < length (cc_slots conn)" "cc_slots conn ! s = Filled msg"
    using assms(1) by (cases "cc_slots conn ! s") (auto simp: cl_wf_def slots_ok_def)
  let ?r = "rq_request_id msg"
  obtain req where r: "cc_reqs conn ?r = Some req" "cr_req req = Some s" using assms(1) m unfolding cl_wf_def slots_ok_def by blast
  then have n: "?r \<notin> set (cc_inflight_list conn)" using assms(1) by (auto simp: cl_wf_def reqs_ok_def no_slot_def)
  then have "\<not> cr_flag_send req" using wf_owns [OF assms(1) r(1)] r(2) sq by (auto simp: owns_slot_def)
  moreover have "req_typed (cc_max_sgl conn) (cc_max_key_length conn) (req\<lparr>cr_flag_send := True\<rparr>)"
    using wf_typed [OF assms(1) r(1)] by (simp add: req_typed_def)
  ultimately have "\<exists>conn'. priskv_rdma_req_done ?r (upd_req ?r (\<lambda>req. req\<lparr>cr_flag_send := True\<rparr>) (conn\<lparr>cc_sq := remove1 s (cc_sq conn)\<rparr>)) = Some conn'
     \<and> cl_wf conn' {} \<and> known_ids conn' = known_ids conn \<and> same_limits conn conn' \<and> cc_keys_buf conn' = cc_keys_buf conn
     \<and> cc_reqs conn' = (cc_reqs conn)(?r \<mapsto> req\<lparr>cr_flag_send := True\<rparr>)"
    by (intro flag_wf [OF assms(1) r(1) n _ r(2)]) simp_all
  then obtain conn' where
    c: "priskv_rdma_req_done ?r (upd_req ?r (\<lambda>req. req\<lparr>cr_flag_send := True\<rparr>) (conn\<lparr>cc_sq := remove1 s (cc_sq conn)\<rparr>)) = Some conn'"
      "cl_wf conn' {}" "known_ids conn' = known_ids conn" "same_limits conn conn'" "cc_keys_buf conn' = cc_keys_buf conn"
      "cc_reqs conn' = (cc_reqs conn)(?r \<mapsto> req\<lparr>cr_flag_send := True\<rparr>)" by blast
  have "keys_ok conn'" using assms(2) r(1) c(5,6) unfolding keys_ok_def by (auto split: if_splits)
  with c m r(1) WC_send show ?thesis by (simp add: cl_handle_send_def)
next
  case WC_bad
  then show ?thesis using assms(3) by simp
qed

lemma wcs_wf:
  assumes "cl_env_ok env" "cl_wf conn {}" "keys_ok conn" "valid_wcs wcs conn"
  shows "\<exists>conn'. cl_handle_cq env wcs conn = Some (0, conn') \<and> cl_wf conn' {} \<and> keys_ok conn' \<and> known_ids conn' = known_ids conn
     \<and> same_limits conn conn' \<and> cc_complete_list conn' = [] \<and> (cc_inflight_list conn' \<noteq> [] \<longrightarrow> full conn')"
  using assms(2-4)
proof (induction wcs arbitrary: conn)
  case Nil
  from complete_wf [OF assms(1) Nil(1,2) refl] obtain conn1 where
    c: "complete_loop env (cc_complete_list conn) conn = Some conn1" "cl_wf conn1 {}" "known_ids conn1 = known_ids conn"
      "cc_complete_list conn1 = []" "keys_ok conn1" "same_limits conn conn1" by blast
  from delay_send_wf [OF assms(1) c(2) refl] c evolves_keys_ok [OF _ c(5)] show ?case
    by (auto simp: priskv_rdma_req_complete_def priskv_rdma_req_delay_send_def evolves_def same_limits_def)
next
  case (Cons wc wcs)
  from wc_wf [OF Cons.prems(1,2)] Cons.prems(3) obtain conn1 where
    w: "cl_handle_wc wc conn = Some (0, conn1)" "cl_wf conn1 {}" "keys_ok conn1" "known_ids conn1 = known_ids conn" "same_limits conn conn1" by auto
  with Cons.IH [OF w(2,3)] Cons.prems(3) show ?case by (auto simp: same_limits_def)
qed

datatype cl_event = C_command nat bytes "priskv_sgl list" nat priskv_req_command | C_poll "cl_wc list"

fun cl_step :: "cl_env \<Rightarrow> cl_event \<Rightarrow> cl_conn \<Rightarrow> cl_conn option" where
  "cl_step env (C_command request_id key sgl timeout cmd) conn = priskv_send_command env request_id key sgl timeout cmd conn"
| "cl_step env (C_poll wcs) conn = map_option snd (cl_handle_cq env wcs conn)"

fun cl_run :: "cl_env \<Rightarrow> cl_event list \<Rightarrow> cl_conn \<Rightarrow> cl_conn option" where
  "cl_run env [] conn = Some conn"
| "cl_run env (ev # evs) conn = do { conn1 \<leftarrow> cl_step env ev conn; cl_run env evs conn1 }"

text \<open>Commands within the limits of the connection, and no second KEYS before the first is answered.\<close>

fun valid_event :: "cl_conn \<Rightarrow> cl_event \<Rightarrow> bool" where
  "valid_event conn (C_command request_id key sgl timeout cmd) \<longleftrightarrow> 0 < length key \<and> length key \<le> cc_max_key_length conn
     \<and> length sgl \<le> cc_max_sgl conn \<and> (\<forall>s \<in> set sgl. sgl_typed s) \<and> timeout < 2 ^ 64
     \<and> (cmd = PRISKV_COMMAND_KEYS \<longrightarrow>
          list_all (\<lambda>r. case cc_reqs conn r of None \<Rightarrow> True | Some req \<Rightarrow> cr_cmd req \<noteq> PRISKV_COMMAND_KEYS) [0..<cc_next conn])"
| "valid_event conn (C_poll wcs) \<longleftrightarrow> valid_wcs wcs conn"

fun valid_run :: "cl_env \<Rightarrow> cl_event list \<Rightarrow> cl_conn \<Rightarrow> bool" where
  "valid_run env [] conn \<longleftrightarrow> True"
| "valid_run env (ev # evs) conn \<longleftrightarrow> valid_event conn ev \<and> (case cl_step env ev conn of None \<Rightarrow> False | Some conn1 \<Rightarrow> valid_run env evs conn1)"

fun submitted :: "cl_event list \<Rightarrow> nat list" where
  "submitted [] = []"
| "submitted (C_command request_id key sgl timeout cmd # evs) = request_id # submitted evs"
| "submitted (C_poll wcs # evs) = submitted evs"

text \<open>Between two events.\<close>

definition cl_inv :: "cl_conn \<Rightarrow> bool" where
  "cl_inv conn \<longleftrightarrow> cl_wf conn {} \<and> keys_ok conn \<and> cc_complete_list conn = [] \<and> (cc_inflight_list conn \<noteq> [] \<longrightarrow> full conn)"

lemma new_wf:
  assumes "cl_inv conn" "ce_calloc env" "valid_event conn (C_command request_id key sgl timeout cmd)"
  shows "\<exists>conn' req. priskv_rdma_req_new env request_id key sgl timeout cmd conn = (Some (cc_next conn), conn') \<and> cl_wf conn' {cc_next conn}
     \<and> keys_ok conn' \<and> cc_reqs conn' (cc_next conn) = Some req \<and> no_slot req \<and> known_ids conn' = add_mset request_id (known_ids conn)
     \<and> cc_complete_list conn' = [] \<and> cc_inflight_list conn' = cc_inflight_list conn \<and> cc_slots conn' = cc_slots conn
     \<and> cc_max_sgl conn' = cc_max_sgl conn \<and> cc_max_key_length conn' = cc_max_key_length conn
     \<and> cc_max_inflight_command conn' = cc_max_inflight_command conn \<and> cc_next conn' = cc_next conn + 1"
proof -
  let ?r = "cc_next conn"
  let ?sgl = "if sgl \<noteq> [] then sgl else if cmd = PRISKV_COMMAND_KEYS then [keys_sgl conn] else []"
  let ?req = "\<lparr>cr_request_id = request_id, cr_key = key, cr_sgl = ?sgl, cr_timeout = timeout, cr_cmd = cmd, cr_req = None,
    cr_flag_send = False, cr_flag_recv = False, cr_status = 0, cr_length = 0, cr_result = No_result, cr_delaying = False\<rparr>"
  let ?c = "conn\<lparr>cc_next := ?r + 1, cc_reqs := (cc_reqs conn)(?r \<mapsto> ?req)\<rparr>"
  have o: "reqs_ok conn {}" and sl: "slots_ok conn" and c: "conn_ok conn" "posts_ok conn" and k: "keys_ok conn"
    using assms(1) by (auto simp: cl_inv_def cl_wf_def)
  have n: "cc_reqs conn ?r = None" using o by (auto simp: reqs_ok_def)
  have "req_typed (cc_max_sgl conn) (cc_max_key_length conn) ?req" using assms(3) c(1)
    by (auto simp: req_typed_def conn_ok_def limits_ok_def keys_sgl_def sgl_typed_def rmem_typed_def Suc_le_eq)
  then have "reqs_ok ?c {?r}" using o n assms(1) unfolding reqs_ok_def cl_inv_def by (auto simp: less_Suc_eq)
  moreover have "slots_ok ?c" using sl n unfolding slots_ok_def by (auto split: if_splits)
  moreover have "conn_ok ?c" "posts_ok ?c" using c by (auto simp: conn_ok_def limits_ok_def posts_ok_def less_Suc_eq)
  moreover have "cr_cmd req \<noteq> PRISKV_COMMAND_KEYS" if "cmd = PRISKV_COMMAND_KEYS" "cc_reqs conn r = Some req" for r req
  proof -
    have "r < cc_next conn" using o that(2) by (auto simp: reqs_ok_def)
    then show ?thesis using assms(3) that by (force simp: list_all_iff)
  qed
  then have "keys_ok ?c" using k n unfolding keys_ok_def by (auto split: if_splits)
  moreover have "live_ids ?c = add_mset request_id (live_ids conn)"
    using live_ids_remove [of ?c ?r ?req conn] o n by (auto simp: reqs_ok_def fun_upd_idem)
  ultimately show ?thesis using assms(1,2)
    by (auto simp: priskv_rdma_req_new_def cl_wf_def known_ids_def cl_inv_def no_slot_def Let_def)
qed

lemma command_inv:
  assumes "cl_env_ok env" "cl_inv conn" "valid_event conn (C_command request_id key sgl timeout cmd)"
  shows "\<exists>conn'. priskv_send_command env request_id key sgl timeout cmd conn = Some conn' \<and> cl_inv conn'
     \<and> known_ids conn' = add_mset request_id (known_ids conn) \<and> cc_next conn' = cc_next conn + 1
     \<and> cc_max_sgl conn' = cc_max_sgl conn \<and> cc_max_key_length conn' = cc_max_key_length conn
     \<and> cc_max_inflight_command conn' = cc_max_inflight_command conn"
proof -
  have l: "length key < 65536" "u16n (length key) = length key" "0 < length key" "length key \<le> cc_max_key_length conn" "length sgl \<le> cc_max_sgl conn"
    using assms(2,3) by (auto simp: cl_inv_def cl_wf_def conn_ok_def limits_ok_def wrap_simps)
  have "ce_calloc env" using assms(1) by (simp add: cl_env_ok_def)
  from new_wf [OF assms(2) this assms(3)] obtain conn1 req where
    n: "priskv_rdma_req_new env request_id key sgl timeout cmd conn = (Some (cc_next conn), conn1)" "cl_wf conn1 {cc_next conn}" "keys_ok conn1"
      "cc_reqs conn1 (cc_next conn) = Some req" "no_slot req" "known_ids conn1 = add_mset request_id (known_ids conn)"
      "cc_complete_list conn1 = []" "cc_inflight_list conn1 = cc_inflight_list conn" "cc_slots conn1 = cc_slots conn"
      "cc_max_sgl conn1 = cc_max_sgl conn" "cc_max_key_length conn1 = cc_max_key_length conn"
      "cc_max_inflight_command conn1 = cc_max_inflight_command conn" "cc_next conn1 = cc_next conn + 1" by blast
  from send_wf [OF assms(1) n(2) _ n(4,5)] obtain ret conn2 where
    s: "priskv_rdma_req_send env (cc_next conn) conn1 = Some (ret, conn2)" "cl_wf conn2 {}" "known_ids conn2 = known_ids conn1"
      "cc_complete_list conn2 = []" "ret = EAGAIN \<longrightarrow> full conn2" "ret \<noteq> EAGAIN \<longrightarrow> cc_inflight_list conn2 = cc_inflight_list conn1"
      "full conn1 \<longrightarrow> full conn2" "evolves conn1 conn2" using n(7) by auto
  have "cl_inv conn2" using s n assms(2) evolves_keys_ok [OF s(8) n(3)] by (auto simp: cl_inv_def full_def)
  moreover have "priskv_send_command env request_id key sgl timeout cmd conn = Some conn2"
    using l n(1) s(1) by (simp add: priskv_send_command_def Let_def)
  ultimately show ?thesis using s(3,8) n(6,10-13) by (simp add: evolves_def same_limits_def)
qed

lemma client_run_inv:
  assumes "cl_env_ok env" "cl_inv conn" "valid_run env evs conn"
  shows "\<exists>conn'. cl_run env evs conn = Some conn' \<and> cl_inv conn' \<and> known_ids conn' = known_ids conn + mset (submitted evs)
     \<and> cc_next conn' = cc_next conn + length (submitted evs) \<and> cc_max_sgl conn' = cc_max_sgl conn
     \<and> cc_max_key_length conn' = cc_max_key_length conn \<and> cc_max_inflight_command conn' = cc_max_inflight_command conn"
  using assms(2,3)
proof (induction evs arbitrary: conn)
  case (Cons ev evs)
  show ?case
  proof (cases ev)
    case (C_command request_id key sgl timeout cmd)
    with command_inv [OF assms(1) Cons.prems(1), of request_id key sgl timeout cmd] Cons.prems(2) obtain conn1 where
      c: "cl_step env ev conn = Some conn1" "cl_inv conn1" "known_ids conn1 = add_mset request_id (known_ids conn)" "cc_next conn1 = cc_next conn + 1"
        "cc_max_sgl conn1 = cc_max_sgl conn" "cc_max_key_length conn1 = cc_max_key_length conn"
        "cc_max_inflight_command conn1 = cc_max_inflight_command conn" by (auto simp del: valid_event.simps)
    with Cons.IH [OF c(2)] Cons.prems(2) C_command show ?thesis by auto
  next
    case (C_poll wcs)
    with wcs_wf [OF assms(1), of conn wcs] Cons.prems obtain conn1 where
      c: "cl_step env ev conn = Some conn1" "cl_inv conn1" "known_ids conn1 = known_ids conn" "same_limits conn conn1"
      by (auto simp: cl_inv_def)
    with Cons.IH [OF c(2)] Cons.prems(2) C_poll show ?thesis by (auto simp: same_limits_def)
  qed
qed simp

end
