(* ===== verification/Client_Props.thy ===== *)
theory Client_Props
  imports Client_Run
begin

text \<open>
  What the client library promises: every command is answered exactly once, and what it sends is
  well formed; and where it does not keep to this.
\<close>

section \<open>Promises\<close>

lemma response_inv:
  assumes "cl_connect_response cm len rep priskv_conn_new = (0, conn)" "limits_ok conn" "\<forall>n rm. cm_mem_keys cm n = Some rm \<longrightarrow> rmem_typed rm"
  shows "cl_inv conn" "known_ids conn = {#}" "cc_posted conn = []" "cc_next conn = 0"
proof -
  obtain conn1 where r: "priskv_rdma_responsed cm len rep priskv_conn_new = (0, conn1)" and c: "conn = conn1\<lparr>cc_established := True\<rparr>"
    using assms(1) by (auto simp: cl_connect_response_def split: prod.splits)
  obtain c0 where m: "priskv_rdma_modify_max_inflight_command cm (rep_max_inflight_command rep)
      (priskv_conn_new\<lparr>cc_max_sgl := rep_max_sgl rep, cc_max_key_length := rep_max_key_length rep\<rparr>) = (0, c0)" "cl_mem_new_all cm c0 = (0, conn1)"
    using r by (auto simp: priskv_rdma_responsed_def split: if_splits prod.splits)
  obtain n where c0: "c0 = priskv_conn_new\<lparr>cc_max_sgl := rep_max_sgl rep, cc_max_key_length := rep_max_key_length rep, cc_max_inflight_command := n\<rparr>"
    using m(1) by (fastforce simp: priskv_rdma_modify_max_inflight_command_def priskv_conn_new_def Let_def split: if_splits)
  obtain keys where "cm_mem_keys cm getpagesize = Some keys" and "conn1 = c0\<lparr>cc_slots := replicate n Free, cc_keys_rmem := Some keys,
      cc_keys_buf := replicate (rm_size keys) 0\<rparr>"
    using m(2) unfolding c0 by (auto simp: cl_mem_new_all_def Let_def split: option.splits)
  with assms(2,3) c c0 show "cl_inv conn" "known_ids conn = {#}" "cc_posted conn = []" "cc_next conn = 0"
    by (auto simp: cl_inv_def cl_wf_def conn_ok_def limits_ok_def reqs_ok_def slots_ok_def posts_ok_def keys_ok_def known_ids_def live_ids_def
        priskv_conn_new_def)
qed

text \<open>When every live request waits, no slot is taken, so none waits.\<close>

lemma idle_answered:
  assumes "cl_inv conn" "0 < cc_max_inflight_command conn" "dom (cc_reqs conn) \<subseteq> set (cc_inflight_list conn)"
  shows "live_ids conn = {#}"
proof -
  have n: "length (cc_slots conn) = cc_max_inflight_command conn" and w: "cl_wf conn {}"
    using assms(1) by (simp_all add: cl_inv_def cl_wf_def conn_ok_def)
  have "cc_slots conn ! 0 = Free"
  proof (cases "cc_slots conn ! 0")
    case (Filled msg)
    then obtain req where r: "cc_reqs conn (rq_request_id msg) = Some req" "cr_req req = Some 0"
      using w assms(2) n unfolding cl_wf_def slots_ok_def by metis
    then have "rq_request_id msg \<in> set (cc_inflight_list conn)" using assms(3) by blast
    then show ?thesis using w r by (auto simp: cl_wf_def reqs_ok_def no_slot_def)
  qed
  then have "\<not> full conn" using assms(2) n by (metis full_def nth_mem)
  then have "cc_inflight_list conn = []" using assms(1) by (auto simp: cl_inv_def)
  then show ?thesis using assms(3) by (simp add: live_ids_def)
qed


definition demo_cm :: cl_cm_env where
  "demo_cm = \<lparr>cm_query_device = True, cm_resize_max_wr = False, cm_resize_cq = 0, cm_modify_qp = 0, cm_establish_qp = 0,
     cm_mem_req = (\<lambda>n. Some \<lparr>rm_buf = 4096, rm_size = n, rm_rkey = 1\<rparr>), cm_mem_resp = (\<lambda>n. Some \<lparr>rm_buf = 8192, rm_size = n, rm_rkey = 2\<rparr>),
     cm_mem_keys = (\<lambda>n. Some \<lparr>rm_buf = 12288, rm_size = 64, rm_rkey = 3\<rparr>), cm_post_recv = (\<lambda>_. True)\<rparr>"

definition demo_rep :: priskv_rdma_cm_rep where
  "demo_rep = \<lparr>rep_version = 1, rep_max_sgl = 4, rep_max_key_length = 16, rep_max_inflight_command = 1, rep_capacity = 4096\<rparr>"

definition demo_client_env :: cl_env where
  "demo_client_env = \<lparr>ce_post = (\<lambda>_. True), ce_rkey = (\<lambda>_. Some 9), ce_mem_new = (\<lambda>n. Some \<lparr>rm_buf = 16384, rm_size = 128, rm_rkey = 4\<rparr>), ce_calloc = True\<rparr>"

text \<open>One slot: the second command waits for the first, and the response of one comes before its send.\<close>

definition demo_events :: "cl_event list" where
  "demo_events =
     [C_command 7 [97] [\<lparr>cs_iova = 65536, cs_length = 8, cs_mem = NoMem\<rparr>] 0 PRISKV_COMMAND_GET, C_command 8 [98] [] 0 PRISKV_COMMAND_TEST,
      C_poll [WC_send 0], C_poll [WC_recv 0 0 5 32 []], C_poll [WC_recv 1 0x106 0 32 [], WC_send 0]]"

definition demo_client :: cl_conn where
  "demo_client = snd (cl_connect_response demo_cm 32 demo_rep priskv_conn_new)"

lemma demo_client:
  "cl_connect_response demo_cm 32 demo_rep priskv_conn_new = (0, demo_client)" "limits_ok demo_client" "0 < cc_max_inflight_command demo_client"
  "\<forall>n rm. cm_mem_keys demo_cm n = Some rm \<longrightarrow> rmem_typed rm" "cl_env_ok demo_client_env"
proof -
  have "fst (cl_connect_response demo_cm 32 demo_rep priskv_conn_new) = 0"
    by (simp add: cl_connect_response_def priskv_rdma_responsed_def demo_cm_def demo_rep_def priskv_rdma_modify_max_inflight_command_def
        cl_mem_new_all_def priskv_conn_new_def Let_def)
  then show "cl_connect_response demo_cm 32 demo_rep priskv_conn_new = (0, demo_client)" unfolding demo_client_def by (metis prod.collapse)
qed (simp_all add: demo_client_def cl_connect_response_def priskv_rdma_responsed_def demo_cm_def demo_rep_def
    priskv_rdma_modify_max_inflight_command_def cl_mem_new_all_def priskv_conn_new_def limits_ok_def rmem_typed_def demo_client_env_def cl_env_ok_def
    Let_def)

lemma demo_valid: "valid_run demo_client_env demo_events demo_client"
  by code_simp




section \<open>Faults\<close>

text \<open>
  C39: A command with an empty key is answered with KEY_EMPTY and posted all the same, so that its
  request will be answered a second time; one whose key is longer than a slot is answered with
  KEY_TOO_BIG and then written past the end of the slot.
\<close>

theorem client_refused_still_sent:
  assumes "cl_inv conn" "cl_env_ok env" "\<not> full conn" "cl_request_size_aligend conn < length key" "length key < 2 ^ 16"
    "cc_max_key_length conn < length key"
  shows "(\<exists>conn' msg. priskv_test_async env [] request_id conn = Some conn'
       \<and> cc_callbacks conn' = cc_callbacks conn @ [(request_id, PRISKV_STATUS_KEY_EMPTY, No_result)]
       \<and> cc_posted conn' = cc_posted conn @ [msg] \<and> map_option cr_request_id (cc_reqs conn' (rq_request_id msg)) = Some request_id)
     \<and> priskv_test_async env key request_id conn = None"
proof -
  have e: "cc_established conn" "ce_calloc env" "\<And>r. ce_post env r" "limits_ok conn"
    using assms(1,2) by (auto simp: cl_inv_def cl_wf_def conn_ok_def cl_env_ok_def)
  obtain s where s: "first_free (cc_slots conn) = Some s" "take (cc_max_inflight_command conn) (cc_slots conn) = cc_slots conn"
    using assms(1,3) by (cases "first_free (cc_slots conn)") (auto simp: first_free_None full_def cl_inv_def cl_wf_def conn_ok_def)
  have f: "128 \<le> cl_request_size_aligend conn" using slot_size [OF e(4)] by simp
  have z: "cl_request_size_aligend (conn\<lparr>cc_callbacks := a, cc_next := b, cc_reqs := c\<rparr>) = cl_request_size_aligend conn" for a b c
    by (simp add: cl_request_size_aligend_def)
  have k: "u16n (length key) = length key" "u16n 0 = 0" using assms(5) by (simp_all add: wrap_simps)
  show ?thesis using e s f k assms(4,6)
    by (auto simp: priskv_test_async_def priskv_send_command_def priskv_rdma_req_new_def priskv_rdma_req_send_def cl_user_cb_def
        priskv_rdma_unused_command_def fits_slot_def priskv_request_key_off_def cl_message_def z Let_def wrap_simps)
qed

lemmas demo_client_inv = response_inv(1) [OF demo_client(1,2,4)]

theorem client_refused_still_sent_witness:
  "(\<exists>conn'. priskv_test_async demo_client_env [] 7 demo_client = Some conn' \<and> cc_callbacks conn' = [(7, PRISKV_STATUS_KEY_EMPTY, No_result)])
     \<and> priskv_test_async demo_client_env (replicate 300 0) 8 demo_client = None"
proof -
  have f: "cc_slots demo_client = [Free]" "cl_request_size_aligend demo_client = 256" "cc_max_key_length demo_client = 16"
    "cc_callbacks demo_client = []" by code_simp+
  then have "\<not> full demo_client" by (simp add: full_def)
  with client_refused_still_sent [OF demo_client_inv demo_client(5), of "replicate 300 0" 7]
    client_refused_still_sent [OF demo_client_inv demo_client(5), of "replicate 300 0" 8] f show ?thesis by auto
qed

text \<open>
  Closing a connection on which a request waits for a slot fails the assertion of
  \<open>priskv_request_free\<close>, as such a request has no slot. Without waiting requests it ends and frees
  the buffers, but the requests in flight are never answered.
\<close>

theorem client_close_aborts:
  assumes "cl_inv conn"
  shows "(cl_close_conn env conn = None \<longleftrightarrow> cc_inflight_list conn \<noteq> [])
     \<and> (\<forall>conn'. cl_close_conn env conn = Some conn' \<longrightarrow> cc_callbacks conn' = cc_callbacks conn \<and> cc_reqs conn' = cc_reqs conn)"
proof -
  have c: "priskv_rdma_req_complete env (conn\<lparr>cc_established := False\<rparr>) = Some (conn\<lparr>cc_established := False\<rparr>)"
    using assms by (simp add: priskv_rdma_req_complete_def cl_inv_def)
  show ?thesis
  proof (cases "cc_inflight_list conn")
    case (Cons r rs)
    then have "r \<in> dom (cc_reqs conn)" using assms by (auto simp: cl_inv_def cl_wf_def reqs_ok_def)
    then obtain req where "cc_reqs conn r = Some req" by blast
    moreover from this have "cr_req req = None" using assms Cons by (auto simp: cl_inv_def cl_wf_def reqs_ok_def no_slot_def)
    ultimately have "cl_close_conn env conn = None" using c Cons by (simp add: cl_close_conn_def priskv_request_free_def)
    with Cons show ?thesis by simp
  qed (use c in \<open>simp add: cl_close_conn_def\<close>)
qed

text \<open>A connection with one slot after two commands.\<close>

definition demo_busy_client :: cl_conn where
  "demo_busy_client = the (cl_run demo_client_env (take 2 demo_events) demo_client)"

theorem client_close_aborts_witness:
  "cc_inflight_list demo_busy_client = [1] \<and> cl_close_conn demo_client_env demo_busy_client = None"
proof -
  have "valid_run demo_client_env (take 2 demo_events) demo_client" by code_simp
  from client_run_inv [OF demo_client(5) demo_client_inv this] have "cl_inv demo_busy_client" by (auto simp: demo_busy_client_def)
  moreover have "cc_inflight_list demo_busy_client = [1]" by code_simp
  ultimately show ?thesis using client_close_aborts [of demo_busy_client demo_client_env] by simp
qed

text \<open>A second KEYS is answered BUSY, and its callback forgets that the first one runs: a third one
  is sent beside the first and shares its buffer.\<close>

lemma keys_busy_forgets:
  assumes "cl_inv conn" "ce_calloc env" "cc_keys_running_req conn = Some r" "r < cc_next conn" "0 < length regex" "length regex \<le> cc_max_key_length conn"
    "cc_max_key_length conn < 2 ^ 16"
  shows "\<exists>conn'. priskv_keys_async env regex request_id conn = Some conn' \<and> cc_keys_running_req conn' = None \<and> cc_reqs conn' r = cc_reqs conn r
     \<and> cc_callbacks conn' = cc_callbacks conn @ [(request_id, PRISKV_STATUS_BUSY, No_result)]"
proof -
  have "cc_established conn" using assms(1) by (simp add: cl_inv_def cl_wf_def conn_ok_def)
  moreover have "u16n (length regex) = length regex" using assms(6,7) by (simp add: wrap_simps)
  ultimately show ?thesis using assms(2-)
    by (simp add: priskv_keys_async_def priskv_send_command_def priskv_rdma_req_new_def priskv_rdma_req_send_def cl_fail_def
        priskv_rdma_req_cb_def priskv_rdma_req_free_def cl_user_cb_def Let_def)
qed

end
