(* ===== verification/Cluster.thy ===== *)
theory Cluster
  imports Client
begin

unbundle bit_operations_syntax

text \<open>
  The cluster client (\<open>cluster/client/client.c\<close>, \<open>crc16.h\<close>): keys are hashed to 4096 slots, the
  meta data assigns ranges of slots to nodes, and every node has a client of its own. Requests
  that fail or are submitted while an update of the meta data is pending wait in
  \<open>retry_req_list\<close>. Node clients, registered memories and requests are named by numbers that are
  never used twice, so that a use after free is the use of a number that is not in the state any
  more. \<open>None\<close> is a failed assertion, an access out of bounds, or the use of a null, uninitialised
  or freed pointer. Callbacks of the user do not call the cluster client. Keys are byte strings
  without their final zero, shorter than \<open>2 ^ 31\<close>.
\<close>

section \<open>Hash slots\<close>

definition crc16tab :: "16 word list" where
  "crc16tab =
    [0x0000, 0x1021, 0x2042, 0x3063, 0x4084, 0x50a5, 0x60c6, 0x70e7, 0x8108, 0x9129, 0xa14a, 0xb16b,
     0xc18c, 0xd1ad, 0xe1ce, 0xf1ef, 0x1231, 0x0210, 0x3273, 0x2252, 0x52b5, 0x4294, 0x72f7, 0x62d6,
     0x9339, 0x8318, 0xb37b, 0xa35a, 0xd3bd, 0xc39c, 0xf3ff, 0xe3de, 0x2462, 0x3443, 0x0420, 0x1401,
     0x64e6, 0x74c7, 0x44a4, 0x5485, 0xa56a, 0xb54b, 0x8528, 0x9509, 0xe5ee, 0xf5cf, 0xc5ac, 0xd58d,
     0x3653, 0x2672, 0x1611, 0x0630, 0x76d7, 0x66f6, 0x5695, 0x46b4, 0xb75b, 0xa77a, 0x9719, 0x8738,
     0xf7df, 0xe7fe, 0xd79d, 0xc7bc, 0x48c4, 0x58e5, 0x6886, 0x78a7, 0x0840, 0x1861, 0x2802, 0x3823,
     0xc9cc, 0xd9ed, 0xe98e, 0xf9af, 0x8948, 0x9969, 0xa90a, 0xb92b, 0x5af5, 0x4ad4, 0x7ab7, 0x6a96,
     0x1a71, 0x0a50, 0x3a33, 0x2a12, 0xdbfd, 0xcbdc, 0xfbbf, 0xeb9e, 0x9b79, 0x8b58, 0xbb3b, 0xab1a,
     0x6ca6, 0x7c87, 0x4ce4, 0x5cc5, 0x2c22, 0x3c03, 0x0c60, 0x1c41, 0xedae, 0xfd8f, 0xcdec, 0xddcd,
     0xad2a, 0xbd0b, 0x8d68, 0x9d49, 0x7e97, 0x6eb6, 0x5ed5, 0x4ef4, 0x3e13, 0x2e32, 0x1e51, 0x0e70,
     0xff9f, 0xefbe, 0xdfdd, 0xcffc, 0xbf1b, 0xaf3a, 0x9f59, 0x8f78, 0x9188, 0x81a9, 0xb1ca, 0xa1eb,
     0xd10c, 0xc12d, 0xf14e, 0xe16f, 0x1080, 0x00a1, 0x30c2, 0x20e3, 0x5004, 0x4025, 0x7046, 0x6067,
     0x83b9, 0x9398, 0xa3fb, 0xb3da, 0xc33d, 0xd31c, 0xe37f, 0xf35e, 0x02b1, 0x1290, 0x22f3, 0x32d2,
     0x4235, 0x5214, 0x6277, 0x7256, 0xb5ea, 0xa5cb, 0x95a8, 0x8589, 0xf56e, 0xe54f, 0xd52c, 0xc50d,
     0x34e2, 0x24c3, 0x14a0, 0x0481, 0x7466, 0x6447, 0x5424, 0x4405, 0xa7db, 0xb7fa, 0x8799, 0x97b8,
     0xe75f, 0xf77e, 0xc71d, 0xd73c, 0x26d3, 0x36f2, 0x0691, 0x16b0, 0x6657, 0x7676, 0x4615, 0x5634,
     0xd94c, 0xc96d, 0xf90e, 0xe92f, 0x99c8, 0x89e9, 0xb98a, 0xa9ab, 0x5844, 0x4865, 0x7806, 0x6827,
     0x18c0, 0x08e1, 0x3882, 0x28a3, 0xcb7d, 0xdb5c, 0xeb3f, 0xfb1e, 0x8bf9, 0x9bd8, 0xabbb, 0xbb9a,
     0x4a75, 0x5a54, 0x6a37, 0x7a16, 0x0af1, 0x1ad0, 0x2ab3, 0x3a92, 0xfd2e, 0xed0f, 0xdd6c, 0xcd4d,
     0xbdaa, 0xad8b, 0x9de8, 0x8dc9, 0x7c26, 0x6c07, 0x5c64, 0x4c45, 0x3ca2, 0x2c83, 0x1ce0, 0x0cc1,
     0xef1f, 0xff3e, 0xcf5d, 0xdf7c, 0xaf9b, 0xbfba, 0x8fd9, 0x9ff8, 0x6e17, 0x7e36, 0x4e55, 0x5e74,
     0x2e93, 0x3eb2, 0x0ed1, 0x1ef0]"

definition crc16_step :: "16 word \<Rightarrow> u8 \<Rightarrow> 16 word" where
  "crc16_step crc b = push_bit 8 crc XOR crc16tab ! unat ((drop_bit 8 crc XOR ucast b) AND 0x00FF)"

definition crc16 :: "bytes \<Rightarrow> 16 word" where
  "crc16 buf = foldl crc16_step 0 buf"

text \<open>The index of the first \<open>c\<close> at or after \<open>i\<close>, or the length.\<close>

function scan_for :: "u8 \<Rightarrow> bytes \<Rightarrow> nat \<Rightarrow> nat" where
  "scan_for c key i = (if length key \<le> i then i else if key ! i = c then i else scan_for c key (Suc i))"
  by auto
termination by (relation "measure (\<lambda>(c, key, i). length key - i)") auto

declare scan_for.simps [simp del]

abbreviation brace_open :: u8 where "brace_open \<equiv> 0x7b"
abbreviation brace_close :: u8 where "brace_close \<equiv> 0x7d"

definition clusterManagerKeyHashSlot :: "bytes \<Rightarrow> 16 word" where
  "clusterManagerKeyHashSlot key =
     (let s = scan_for brace_open key 0 in
      if s = length key then crc16 key AND 0x0FFF
      else let e = scan_for brace_close key (s + 1) in
        if e = length key \<or> e = s + 1 then crc16 key AND 0x0FFF
        else crc16 (take (e - s - 1) (drop (s + 1) key)) AND 0x0FFF)"

section \<open>State\<close>

definition PRISKV_CLUSTER_SLOTS :: nat where
  "PRISKV_CLUSTER_SLOTS = 4096"

abbreviation PRISKV_CLUSTER_STATUS_NO_SUCH_KEY :: nat where "PRISKV_CLUSTER_STATUS_NO_SUCH_KEY \<equiv> 0x106"

record slot_range =
  sr_start :: int
  sr_end :: int

record node_info =
  ni_addr :: string
  ni_port :: int
  ni_slotRanges :: "slot_range list"

record meta_info =
  mi_version :: int
  mi_nodes :: "node_info list"

record cluster_node =
  cn_id :: nat
  cn_addr :: string
  cn_port :: int
  cn_client :: nat
  cn_refCount :: int

text \<open>\<open>priskvClusterMemory\<close>: for each node the client its memory is registered with; \<open>None\<close> is a
  registration that failed.\<close>

type_synonym cluster_memory = "nat option list"

datatype RequestType = GET | SET | TEST | DELETE

record cluster_sgl =
  gs_iova :: nat
  gs_length :: nat
  gs_mem :: "nat option"

text \<open>\<open>cq_sgl\<close> holds the list of the node's client; its memory is a null pointer where the cluster's is.\<close>

record node_sgl =
  ns_iova :: nat
  ns_length :: nat
  ns_mem :: "nat option"

record cluster_request =
  cq_sgl :: "node_sgl list"
  cq_cbarg :: nat
  cq_type :: RequestType
  cq_key :: bytes
  cq_cluster_sgl :: "cluster_sgl list"
  cq_timeout :: nat
  cq_node :: nat

record cluster =
  cu_slots :: "nat option list"
  cu_nodes :: "cluster_node list"
  cu_metaUpdating :: bool
  cu_metaVersion :: int
  cu_memCtx :: "nat option"
  cu_mems :: "nat \<Rightarrow> cluster_memory option"
  cu_nmem :: nat
  cu_clients :: "nat list"
  cu_nclient :: nat
  cu_reqs :: "nat \<Rightarrow> cluster_request option"
  cu_nreq :: nat
  cu_retry :: "nat list"
  cu_flight :: "(nat \<times> nat) list"
  cu_answers :: "(nat \<times> nat \<times> nat) list"

text \<open>What the node clients do: whether \<open>priskv_connect\<close> succeeds, whether
  \<open>priskv_close\<close> of a client returns (it fails an assertion when a request waits for a slot), whether \<open>priskv_reg_memory\<close> of a
  client succeeds, and for a request that is handed over the callbacks that are made before the
  asynchronous command returns (status and value length) and whether the command stays
  outstanding.\<close>

record cluster_env =
  cx_connect :: "string \<Rightarrow> int \<Rightarrow> bool"
  cx_close :: "nat \<Rightarrow> bool"
  cx_reg :: "nat \<Rightarrow> bool"
  cx_now :: "nat \<Rightarrow> (nat \<times> nat option) list \<times> bool"

section \<open>Meta data\<close>

definition priskvClusterSlotAdd :: "nat \<Rightarrow> int \<Rightarrow> cluster \<Rightarrow> cluster option" where
  "priskvClusterSlotAdd n slot cl =
     (if 0 \<le> slot \<and> slot < int PRISKV_CLUSTER_SLOTS \<and> cu_slots cl ! nat slot = None
      then Some (cl\<lparr>cu_slots := (cu_slots cl)[nat slot := Some n]\<rparr>) else None)"

definition priskvClusterSlotDelete :: "nat \<Rightarrow> cluster \<Rightarrow> cluster option" where
  "priskvClusterSlotDelete slot cl =
     (if slot < PRISKV_CLUSTER_SLOTS \<and> cu_slots cl ! slot \<noteq> None
      then Some (cl\<lparr>cu_slots := (cu_slots cl)[slot := None]\<rparr>) else None)"

text \<open>Nodes are opened in the order of their numbers, so the new one goes to the end.\<close>

definition priskvClusterNodeOpen :: "cluster_env \<Rightarrow> node_info \<Rightarrow> nat \<Rightarrow> cluster \<Rightarrow> int \<times> cluster" where
  "priskvClusterNodeOpen env info n cl =
     (if cx_connect env (ni_addr info) (ni_port info)
      then (0, cl\<lparr>cu_nodes := cu_nodes cl @ [\<lparr>cn_id = n, cn_addr = ni_addr info, cn_port = ni_port info,
                                               cn_client = cu_nclient cl, cn_refCount = 0\<rparr>],
                  cu_clients := cu_nclient cl # cu_clients cl, cu_nclient := Suc (cu_nclient cl)\<rparr>)
      else (- 1, cl))"

fun slots_add :: "nat \<Rightarrow> int list \<Rightarrow> cluster \<Rightarrow> cluster option" where
  "slots_add n [] cl = Some cl"
| "slots_add n (slot # ss) cl = do { cl1 \<leftarrow> priskvClusterSlotAdd n slot cl; slots_add n ss cl1 }"

fun ranges_add :: "nat \<Rightarrow> slot_range list \<Rightarrow> cluster \<Rightarrow> cluster option" where
  "ranges_add n [] cl = Some cl"
| "ranges_add n (r # rs) cl =
     (if sr_start r \<le> sr_end r \<and> sr_end r < int PRISKV_CLUSTER_SLOTS
      then do { cl1 \<leftarrow> slots_add n [sr_start r..sr_end r] cl; ranges_add n rs cl1 } else None)"

definition priskvClusterMetaDataNodeLoad ::
  "cluster_env \<Rightarrow> node_info \<Rightarrow> nat \<Rightarrow> cluster \<Rightarrow> (int \<times> cluster) option"
where
  "priskvClusterMetaDataNodeLoad env info n cl =
     (let (ret, cl1) = priskvClusterNodeOpen env info n cl in
      if ret \<noteq> 0 then Some (- 1, cl1)
      else do { cl2 \<leftarrow> ranges_add n (ni_slotRanges info) cl1; Some (0, cl2) })"

text \<open>The load is the argument of an \<open>assert\<close>.\<close>

fun nodes_load :: "cluster_env \<Rightarrow> node_info list \<Rightarrow> nat \<Rightarrow> cluster \<Rightarrow> cluster option" where
  "nodes_load env [] n cl = Some cl"
| "nodes_load env (info # is) n cl = do {
     (ret, cl1) \<leftarrow> priskvClusterMetaDataNodeLoad env info n cl;
     if ret = 0 then nodes_load env is (Suc n) cl1 else None }"

definition priskvClusterMetaDataLoad :: "cluster_env \<Rightarrow> meta_info \<Rightarrow> cluster \<Rightarrow> cluster option" where
  "priskvClusterMetaDataLoad env info cl =
     nodes_load env (mi_nodes info) 0 (cl\<lparr>cu_nodes := [], cu_metaVersion := mi_version info\<rparr>)"

text \<open>Closing a client ends its commands without answering them.\<close>

definition priskvClusterNodeClose :: "cluster_env \<Rightarrow> nat \<Rightarrow> cluster \<Rightarrow> cluster option" where
  "priskvClusterNodeClose env n cl =
     (let h = cn_client (cu_nodes cl ! n) in
      if h \<in> set (cu_clients cl) \<and> cx_close env h
      then Some (cl\<lparr>cu_clients := removeAll h (cu_clients cl),
                    cu_flight := filter (\<lambda>(h', r). h' \<noteq> h) (cu_flight cl)\<rparr>) else None)"

fun slots_delete :: "nat \<Rightarrow> nat list \<Rightarrow> cluster \<Rightarrow> cluster option" where
  "slots_delete n [] cl = Some cl"
| "slots_delete n (i # is) cl =
     (if cu_slots cl ! i = Some n then do { cl1 \<leftarrow> priskvClusterSlotDelete i cl; slots_delete n is cl1 }
      else slots_delete n is cl)"

definition priskvClusterMetaDataNodeUnload :: "cluster_env \<Rightarrow> nat \<Rightarrow> cluster \<Rightarrow> cluster option" where
  "priskvClusterMetaDataNodeUnload env n cl = do {
     cl1 \<leftarrow> slots_delete n [0..<PRISKV_CLUSTER_SLOTS] cl;
     priskvClusterNodeClose env n cl1
   }"

fun nodes_unload :: "cluster_env \<Rightarrow> nat list \<Rightarrow> cluster \<Rightarrow> cluster option" where
  "nodes_unload env [] cl = Some cl"
| "nodes_unload env (n # ns) cl = do { cl1 \<leftarrow> priskvClusterMetaDataNodeUnload env n cl; nodes_unload env ns cl1 }"

definition priskvClusterMetaDataUnload :: "cluster_env \<Rightarrow> cluster \<Rightarrow> cluster option" where
  "priskvClusterMetaDataUnload env cl = do {
     cl1 \<leftarrow> nodes_unload env [0..<length (cu_nodes cl)] cl;
     Some (cl1\<lparr>cu_nodes := []\<rparr>)
   }"

section \<open>Requests\<close>

text \<open>The outer \<open>None\<close> is the failed assertion, an inner one a null pointer.\<close>

definition priskvClusterGetMemory :: "cluster \<Rightarrow> nat option \<Rightarrow> nat \<Rightarrow> nat option option" where
  "priskvClusterGetMemory cl mem nodeIdx =
     (case mem of None \<Rightarrow> Some None
      | Some m \<Rightarrow> do {
          mems \<leftarrow> cu_mems cl m;
          if nodeIdx < length mems then Some (mems ! nodeIdx) else None
        })"

definition priskvClusterGetNode :: "cluster \<Rightarrow> bytes \<Rightarrow> nat option" where
  "priskvClusterGetNode cl key = cu_slots cl ! unat (clusterManagerKeyHashSlot key)"

fun node_sgls :: "cluster \<Rightarrow> nat \<Rightarrow> cluster_sgl list \<Rightarrow> node_sgl list option" where
  "node_sgls cl n [] = Some []"
| "node_sgls cl n (g # gs) = do {
     mem \<leftarrow> priskvClusterGetMemory cl (gs_mem g) n;
     ns \<leftarrow> node_sgls cl n gs;
     Some (\<lparr>ns_iova = gs_iova g, ns_length = gs_length g, ns_mem = mem\<rparr> # ns)
   }"

definition priskvClusterRequestNew ::
  "cluster \<Rightarrow> nat \<Rightarrow> cluster_sgl list \<Rightarrow> nat \<Rightarrow> RequestType \<Rightarrow> bytes \<Rightarrow> nat \<Rightarrow> cluster_request option"
where
  "priskvClusterRequestNew cl node sgl cbarg type key timeout = do {
     ns \<leftarrow> node_sgls cl (cn_id (cu_nodes cl ! node)) sgl;
     Some \<lparr>cq_sgl = ns, cq_cbarg = cbarg, cq_type = type, cq_key = key, cq_cluster_sgl = sgl,
           cq_timeout = timeout, cq_node = node\<rparr>
   }"

text \<open>The count of commands in flight is an \<open>int\<close> of the node a request points to.\<close>

definition upd_refCount :: "nat \<Rightarrow> int \<Rightarrow> cluster \<Rightarrow> cluster option" where
  "upd_refCount n d cl =
     (if n < length (cu_nodes cl)
      then Some (cl\<lparr>cu_nodes := (cu_nodes cl)[n := (cu_nodes cl ! n)\<lparr>cn_refCount := cn_refCount (cu_nodes cl ! n) + d\<rparr>]\<rparr>)
      else None)"

definition cluster_cb :: "nat \<Rightarrow> nat \<Rightarrow> nat \<Rightarrow> cluster \<Rightarrow> cluster" where
  "cluster_cb status valuelen cbarg cl = cl\<lparr>cu_answers := cu_answers cl @ [(cbarg, status, valuelen)]\<rparr>"

definition priskvClusterRequestFree :: "nat \<Rightarrow> cluster \<Rightarrow> cluster" where
  "priskvClusterRequestFree r cl = cl\<lparr>cu_reqs := (cu_reqs cl)(r := None)\<rparr>"

definition priskvClusterRequestCallback :: "nat \<Rightarrow> nat \<Rightarrow> nat option \<Rightarrow> cluster \<Rightarrow> cluster option" where
  "priskvClusterRequestCallback r status result cl = do {
     req \<leftarrow> cu_reqs cl r;
     let valuelen = (case result of Some len \<Rightarrow> if status = PRISKV_STATUS_OK then len else 0 | None \<Rightarrow> 0);
     if cu_metaUpdating cl \<and> status \<noteq> PRISKV_STATUS_OK
     then upd_refCount (cq_node req) (- 1) (cl\<lparr>cu_retry := cu_retry cl @ [r]\<rparr>)
     else do {
       cl1 \<leftarrow> upd_refCount (cq_node req) (- 1) (cluster_cb status valuelen (cq_cbarg req) cl);
       Some (priskvClusterRequestFree r cl1)
     }
   }"

text \<open>Rebinds a request to the node that now has its key; the flag tells whether there is one.\<close>

definition priskvClusterUpdateRequest :: "nat \<Rightarrow> cluster \<Rightarrow> (bool \<times> cluster) option" where
  "priskvClusterUpdateRequest r cl = do {
     req \<leftarrow> cu_reqs cl r;
     case priskvClusterGetNode cl (cq_key req) of
       None \<Rightarrow> Some (False, cluster_cb PRISKV_CLUSTER_STATUS_NO_SUCH_KEY 0 (cq_cbarg req) cl)
     | Some n \<Rightarrow> do {
         ns \<leftarrow> node_sgls cl (cn_id (cu_nodes cl ! n)) (cq_cluster_sgl req);
         Some (True, cl\<lparr>cu_reqs := (cu_reqs cl)(r := Some (req\<lparr>cq_node := n, cq_sgl := ns\<rparr>))\<rparr>)
       }
   }"

definition priskvClusterGetRequest ::
  "bytes \<Rightarrow> cluster_sgl list \<Rightarrow> nat \<Rightarrow> nat \<Rightarrow> RequestType \<Rightarrow> cluster \<Rightarrow> (nat option \<times> cluster) option"
where
  "priskvClusterGetRequest key sgl cbarg timeout type cl =
     (case priskvClusterGetNode cl key of
        None \<Rightarrow> Some (None, cluster_cb PRISKV_CLUSTER_STATUS_NO_SUCH_KEY 0 cbarg cl)
      | Some n \<Rightarrow> do {
          req \<leftarrow> priskvClusterRequestNew cl n sgl cbarg type key timeout;
          let r = cu_nreq cl;
          Some (Some r, cl\<lparr>cu_reqs := (cu_reqs cl)(r := Some req), cu_nreq := Suc r\<rparr>)
        })"

fun callbacks_now :: "nat \<Rightarrow> (nat \<times> nat option) list \<Rightarrow> cluster \<Rightarrow> cluster option" where
  "callbacks_now r [] cl = Some cl"
| "callbacks_now r ((status, result) # cbs) cl = do {
     cl1 \<leftarrow> priskvClusterRequestCallback r status result cl;
     callbacks_now r cbs cl1
   }"

text \<open>The four asynchronous commands of \<open>client/rdma.c\<close> differ only in the message they send; the
  node's client must be open.\<close>

definition priskvClusterSubmitRequest :: "cluster_env \<Rightarrow> nat \<Rightarrow> cluster \<Rightarrow> cluster option" where
  "priskvClusterSubmitRequest env r cl = do {
     req \<leftarrow> cu_reqs cl r;
     if cu_metaUpdating cl then Some (cl\<lparr>cu_retry := cu_retry cl @ [r]\<rparr>)
     else do {
       cl1 \<leftarrow> upd_refCount (cq_node req) 1 cl;
       let h = cn_client (cu_nodes cl1 ! cq_node req);
       if h \<in> set (cu_clients cl1) then do {
         let (cbs, outstanding) = cx_now env r;
         cl2 \<leftarrow> callbacks_now r cbs cl1;
         Some (if outstanding then cl2\<lparr>cu_flight := cu_flight cl2 @ [(h, r)]\<rparr> else cl2)
       } else None
     }
   }"

section \<open>Registered memory\<close>

definition reg_all :: "cluster_env \<Rightarrow> cluster \<Rightarrow> cluster_memory" where
  "reg_all env cl = map (\<lambda>n. if cx_reg env (cn_client n) then Some (cn_client n) else None) (cu_nodes cl)"

definition priskvClusterRegMemory :: "cluster_env \<Rightarrow> cluster \<Rightarrow> nat \<times> cluster" where
  "priskvClusterRegMemory env cl =
     (let m = cu_nmem cl in
      (m, cl\<lparr>cu_mems := (cu_mems cl)(m := Some (reg_all env cl)), cu_nmem := Suc m, cu_memCtx := Some m\<rparr>))"

text \<open>\<open>priskv_dereg_memory\<close> goes through the memory to its client's operations.\<close>

definition dereg_all :: "cluster \<Rightarrow> cluster_memory \<Rightarrow> unit option" where
  "dereg_all cl mems =
     (if list_all (\<lambda>m. case m of Some h \<Rightarrow> h \<in> set (cu_clients cl) | None \<Rightarrow> False) mems then Some () else None)"

definition priskvClusterDeregMemory :: "nat \<Rightarrow> cluster \<Rightarrow> cluster option" where
  "priskvClusterDeregMemory m cl = do {
     mems \<leftarrow> cu_mems cl m;
     _ \<leftarrow> dereg_all cl mems;
     Some (cl\<lparr>cu_mems := (cu_mems cl)(m := None)\<rparr>)
   }"

definition priskvClusterRegMemoryInternal :: "cluster_env \<Rightarrow> cluster \<Rightarrow> cluster option" where
  "priskvClusterRegMemoryInternal env cl = do {
     m \<leftarrow> cu_memCtx cl;
     _ \<leftarrow> cu_mems cl m;
     Some (cl\<lparr>cu_mems := (cu_mems cl)(m := Some (reg_all env cl))\<rparr>)
   }"

definition priskvClusterDeregMemoryInternal :: "cluster \<Rightarrow> cluster option" where
  "priskvClusterDeregMemoryInternal cl = do {
     m \<leftarrow> cu_memCtx cl;
     mems \<leftarrow> cu_mems cl m;
     _ \<leftarrow> dereg_all cl mems;
     Some (cl\<lparr>cu_mems := (cu_mems cl)(m := Some [])\<rparr>)
   }"

section \<open>Update of the meta data\<close>

text \<open>The loop over the waiting requests. A request that finds no node makes the loop unlink a null
  pointer; one whose callback ran within the submission is unlinked after it was freed.\<close>

fun retry_loop :: "cluster_env \<Rightarrow> nat list \<Rightarrow> cluster \<Rightarrow> cluster option" where
  "retry_loop env [] cl = Some cl"
| "retry_loop env (r # rs) cl = do {
     (found, cl1) \<leftarrow> priskvClusterUpdateRequest r cl;
     if \<not> found then None
     else do {
       cl2 \<leftarrow> priskvClusterSubmitRequest env r cl1;
       _ \<leftarrow> cu_reqs cl2 r;
       retry_loop env rs (cl2\<lparr>cu_retry := remove1 r (cu_retry cl2)\<rparr>)
     }
   }"

text \<open>\<open>newMeta\<close> is what the meta server returns, decoded.\<close>

definition priskvClusterTimerHandler :: "cluster_env \<Rightarrow> meta_info option \<Rightarrow> cluster \<Rightarrow> cluster option" where
  "priskvClusterTimerHandler env newMeta cl =
     (case newMeta of
        None \<Rightarrow> Some cl
      | Some info \<Rightarrow>
          if mi_version info \<le> cu_metaVersion cl then Some cl
          else
            let cl1 = cl\<lparr>cu_metaUpdating := True\<rparr> in
            if list_ex (\<lambda>n. 0 < cn_refCount n) (cu_nodes cl1) then Some cl1
            else do {
              cl2 \<leftarrow> priskvClusterMetaDataUnload env cl1;
              cl3 \<leftarrow> priskvClusterDeregMemoryInternal cl2;
              cl4 \<leftarrow> priskvClusterMetaDataLoad env info cl3;
              cl5 \<leftarrow> priskvClusterRegMemoryInternal env cl4;
              let cl6 = cl5\<lparr>cu_metaUpdating := False\<rparr>;
              retry_loop env (cu_retry cl6) cl6
            })"

text \<open>\<open>priskvClusterConnect\<close> from the point where the meta server is connected: the client is zeroed,
  the memory context is not.\<close>

definition cluster_init :: cluster where
  "cluster_init = \<lparr>cu_slots = replicate PRISKV_CLUSTER_SLOTS None, cu_nodes = [], cu_metaUpdating = False,
     cu_metaVersion = 0, cu_memCtx = None, cu_mems = Map.empty, cu_nmem = 0, cu_clients = [],
     cu_nclient = 0, cu_reqs = Map.empty, cu_nreq = 0, cu_retry = [], cu_flight = [], cu_answers = []\<rparr>"

definition priskvClusterMetaDataUpdate :: "cluster_env \<Rightarrow> meta_info option \<Rightarrow> cluster \<Rightarrow> (int \<times> cluster) option" where
  "priskvClusterMetaDataUpdate env newMeta cl =
     (case newMeta of None \<Rightarrow> Some (- 1, cl)
      | Some info \<Rightarrow> do { cl1 \<leftarrow> priskvClusterMetaDataLoad env info cl; Some (0, cl1) })"

text \<open>The result is the client, or \<open>Inl\<close> of what is left when it could not be created.\<close>

definition priskvClusterClose :: "cluster_env \<Rightarrow> cluster \<Rightarrow> cluster option" where
  "priskvClusterClose env cl = priskvClusterMetaDataUnload env cl"

definition priskvClusterConnect :: "cluster_env \<Rightarrow> meta_info option \<Rightarrow> (cluster + cluster) option" where
  "priskvClusterConnect env newMeta = do {
     (ret, cl) \<leftarrow> priskvClusterMetaDataUpdate env newMeta cluster_init;
     if ret \<noteq> 0 then do { cl1 \<leftarrow> priskvClusterClose env cl; Some (Inl cl1) } else Some (Inr cl)
   }"

section \<open>Commands\<close>

definition cluster_async ::
  "cluster_env \<Rightarrow> RequestType \<Rightarrow> bytes \<Rightarrow> cluster_sgl list \<Rightarrow> nat \<Rightarrow> nat \<Rightarrow> cluster \<Rightarrow> (int \<times> cluster) option"
where
  "cluster_async env type key sgl timeout cbarg cl = do {
     (req, cl1) \<leftarrow> priskvClusterGetRequest key sgl cbarg timeout type cl;
     case req of
       None \<Rightarrow> Some (- 1, cl1)
     | Some r \<Rightarrow> do { cl2 \<leftarrow> priskvClusterSubmitRequest env r cl1; Some (0, cl2) }
   }"

definition priskvClusterAsyncGet where
  "priskvClusterAsyncGet env key sgl cbarg cl = cluster_async env GET key sgl 0 cbarg cl"

text \<open>\<open>priskvClusterGetRequest\<close> takes the time-out as an \<open>int\<close>, which goes back to \<open>uint64_t\<close> with its sign.\<close>

definition int_timeout :: "nat \<Rightarrow> nat" where
  "int_timeout t = (let w = u32n t in if w < 2 ^ 31 then w else 2 ^ 64 - 2 ^ 32 + w)"

definition priskvClusterAsyncSet where
  "priskvClusterAsyncSet env key sgl timeout cbarg cl = cluster_async env SET key sgl (int_timeout timeout) cbarg cl"

definition priskvClusterAsyncTest where
  "priskvClusterAsyncTest env key cbarg cl = cluster_async env TEST key [] 0 cbarg cl"

definition priskvClusterAsyncDelete where
  "priskvClusterAsyncDelete env key cbarg cl = cluster_async env DELETE key [] 0 cbarg cl"

text \<open>The synchronous commands ask the node's client, a parameter, and wait for its answer.\<close>

definition priskvClusterGet ::
  "(nat \<Rightarrow> bytes \<Rightarrow> node_sgl list \<Rightarrow> nat \<times> nat) \<Rightarrow> bytes \<Rightarrow> cluster_sgl list \<Rightarrow> cluster \<Rightarrow> (nat \<times> nat option) option"
where
  "priskvClusterGet priskv_get key sgl cl =
     (case priskvClusterGetNode cl key of
        None \<Rightarrow> Some (PRISKV_CLUSTER_STATUS_NO_SUCH_KEY, None)
      | Some n \<Rightarrow> do {
          req \<leftarrow> priskvClusterRequestNew cl n sgl 0 GET key 0;
          let (status, len) = priskv_get (cn_client (cu_nodes cl ! n)) key (cq_sgl req);
          Some (status, Some len)
        })"

definition priskvClusterSet ::
  "(nat \<Rightarrow> bytes \<Rightarrow> node_sgl list \<Rightarrow> nat \<Rightarrow> nat) \<Rightarrow> bytes \<Rightarrow> cluster_sgl list \<Rightarrow> nat \<Rightarrow> cluster \<Rightarrow> nat option"
where
  "priskvClusterSet priskv_set key sgl timeout cl =
     (case priskvClusterGetNode cl key of
        None \<Rightarrow> Some PRISKV_CLUSTER_STATUS_NO_SUCH_KEY
      | Some n \<Rightarrow> do {
          req \<leftarrow> priskvClusterRequestNew cl n sgl 0 SET key timeout;
          Some (priskv_set (cn_client (cu_nodes cl ! n)) key (cq_sgl req) timeout)
        })"

definition priskvClusterTest :: "(nat \<Rightarrow> bytes \<Rightarrow> nat \<times> nat) \<Rightarrow> bytes \<Rightarrow> cluster \<Rightarrow> nat \<times> nat option" where
  "priskvClusterTest priskv_test key cl =
     (case priskvClusterGetNode cl key of
        None \<Rightarrow> (PRISKV_CLUSTER_STATUS_NO_SUCH_KEY, None)
      | Some n \<Rightarrow> let (status, len) = priskv_test (cn_client (cu_nodes cl ! n)) key in (status, Some len))"

definition priskvClusterDelete :: "(nat \<Rightarrow> bytes \<Rightarrow> nat) \<Rightarrow> bytes \<Rightarrow> cluster \<Rightarrow> nat" where
  "priskvClusterDelete priskv_delete key cl =
     (case priskvClusterGetNode cl key of
        None \<Rightarrow> PRISKV_CLUSTER_STATUS_NO_SUCH_KEY
      | Some n \<Rightarrow> priskv_delete (cn_client (cu_nodes cl ! n)) key)"

type_synonym keyset = "(bytes \<times> nat) list"

definition priskvAppendKeyset :: "keyset \<Rightarrow> keyset option \<Rightarrow> keyset" where
  "priskvAppendKeyset dst src = (case src of None \<Rightarrow> dst | Some ks \<Rightarrow> dst @ ks)"

text \<open>The loop over the nodes: the status is that of the node asked last.\<close>

fun keys_loop ::
  "(nat \<Rightarrow> bytes \<Rightarrow> nat \<times> keyset option) \<Rightarrow> bytes \<Rightarrow> cluster_node list \<Rightarrow> nat \<Rightarrow> keyset option \<Rightarrow> nat \<times> keyset option"
where
  "keys_loop priskv_keys regex [] status all = (status, all)"
| "keys_loop priskv_keys regex (n # ns) _ all =
     (let (status, ks) = priskv_keys (cn_client n) regex in
      keys_loop priskv_keys regex ns status
        (if status \<noteq> PRISKV_STATUS_OK then all
         else case all of None \<Rightarrow> ks | Some dst \<Rightarrow> Some (priskvAppendKeyset dst ks)))"

definition priskvClusterKeys ::
  "(nat \<Rightarrow> bytes \<Rightarrow> nat \<times> keyset option) \<Rightarrow> bytes \<Rightarrow> cluster \<Rightarrow> nat \<times> keyset option"
where
  "priskvClusterKeys priskv_keys regex cl = keys_loop priskv_keys regex (cu_nodes cl) PRISKV_STATUS_OK None"

end
