(* ===== verification/Cluster_Run.thy ===== *)
theory Cluster_Run
  imports Cluster_Props
begin

text \<open>
  Runs of the cluster client: registration of memory, asynchronous commands, answers of the node
  clients and ticks of the meta data timer. The invariant ties requests to the lists they are in and
  reference counts to commands in flight; it gives that requests are neither lost nor answered
  twice, and that an update of the meta data that is carried out uses freed clients.
\<close>

section \<open>Runs\<close>

datatype cluster_event =
    Ev_Reg
  | Ev_Dereg nat
  | Ev_Async RequestType bytes "cluster_sgl list" nat nat
  | Ev_Answer nat nat nat "nat option"
  | Ev_Timer "meta_info option"

fun cluster_step :: "cluster_env \<Rightarrow> cluster_event \<Rightarrow> cluster \<Rightarrow> cluster option" where
  "cluster_step env Ev_Reg cl = Some (snd (priskvClusterRegMemory env cl))"
| "cluster_step env (Ev_Dereg m) cl = priskvClusterDeregMemory m cl"
| "cluster_step env (Ev_Async type key sgl timeout cbarg) cl = map_option snd (cluster_async env type key sgl timeout cbarg cl)"
| "cluster_step env (Ev_Answer h r status result) cl =
     priskvClusterRequestCallback r status result (cl\<lparr>cu_flight := remove1 (h, r) (cu_flight cl)\<rparr>)"
| "cluster_step env (Ev_Timer newMeta) cl = priskvClusterTimerHandler env newMeta cl"

fun cluster_run :: "cluster_env \<Rightarrow> cluster_event list \<Rightarrow> cluster \<Rightarrow> cluster option" where
  "cluster_run env [] cl = Some cl"
| "cluster_run env (e # es) cl = do { cl1 \<leftarrow> cluster_step env e cl; cluster_run env es cl1 }"

text \<open>Memory that is used is registered, memory that is deregistered was registered with every node,
  a node answers only commands in flight, and no tick carries an update out.\<close>

fun event_ok :: "cluster_event \<Rightarrow> cluster \<Rightarrow> bool" where
  "event_ok Ev_Reg cl \<longleftrightarrow> True"
| "event_ok (Ev_Dereg m) cl \<longleftrightarrow> (case cu_mems cl m of None \<Rightarrow> False | Some mems \<Rightarrow> None \<notin> set mems)"
| "event_ok (Ev_Async type key sgl timeout cbarg) cl \<longleftrightarrow>
     list_all (\<lambda>g. case gs_mem g of None \<Rightarrow> True | Some m \<Rightarrow> cu_mems cl m \<noteq> None) sgl"
| "event_ok (Ev_Answer h r status result) cl \<longleftrightarrow> (h, r) \<in> set (cu_flight cl)"
| "event_ok (Ev_Timer newMeta) cl \<longleftrightarrow>
     (case newMeta of None \<Rightarrow> True
      | Some info \<Rightarrow> mi_version info \<le> cu_metaVersion cl \<or> list_ex (\<lambda>n. 0 < cn_refCount n) (cu_nodes cl))"

fun cluster_valid :: "cluster_env \<Rightarrow> cluster_event list \<Rightarrow> cluster \<Rightarrow> bool" where
  "cluster_valid env [] cl \<longleftrightarrow> True"
| "cluster_valid env (e # es) cl \<longleftrightarrow>
     event_ok e cl \<and> (case cluster_step env e cl of None \<Rightarrow> True | Some cl1 \<Rightarrow> cluster_valid env es cl1)"

fun asked :: "cluster_event list \<Rightarrow> nat list" where
  "asked [] = []"
| "asked (Ev_Async type key sgl timeout cbarg # es) = cbarg # asked es"
| "asked (_ # es) = asked es"

text \<open>What a node client promises of a command: one callback, now or later.\<close>

definition calls_once :: "cluster_env \<Rightarrow> bool" where
  "calls_once env \<longleftrightarrow> (\<forall>r. case cx_now env r of (cbs, outstanding) \<Rightarrow> length cbs = (if outstanding then 0 else 1))"

section \<open>Invariant\<close>

definition mems_ok :: "cluster_node list \<Rightarrow> (nat \<Rightarrow> cluster_memory option) \<Rightarrow> bool" where
  "mems_ok nodes mems \<longleftrightarrow>
     (\<forall>m ms. mems m = Some ms \<longrightarrow> length ms = length nodes \<and> set ms \<subseteq> insert None (Some ` cn_client ` set nodes))"

definition reqs_in :: "cluster_node list \<Rightarrow> (nat \<Rightarrow> cluster_request option) \<Rightarrow> (nat \<times> nat) list \<Rightarrow> nat list \<Rightarrow> nat \<Rightarrow> bool" where
  "reqs_in nodes reqs flight retry nreq \<longleftrightarrow>
     distinct (map snd flight @ retry) \<and> set (map snd flight @ retry) = dom reqs \<and> (\<forall>r \<in> dom reqs. r < nreq)
     \<and> (\<forall>r q. reqs r = Some q \<longrightarrow> cq_node q < length nodes)
     \<and> (\<forall>h r q. (h, r) \<in> set flight \<longrightarrow> reqs r = Some q \<longrightarrow> h = cn_client (nodes ! cq_node q))"

definition counts_ok :: "cluster_node list \<Rightarrow> (nat \<times> nat) list \<Rightarrow> bool" where
  "counts_ok nodes flight \<longleftrightarrow>
     (\<forall>n < length nodes. cn_refCount (nodes ! n) = int (count_list (map fst flight) (cn_client (nodes ! n))))"

definition cluster_inv :: "cluster \<Rightarrow> bool" where
  "cluster_inv cl \<longleftrightarrow> cluster_shape (cu_nodes cl) (cu_clients cl) (cu_slots cl) \<and> mems_ok (cu_nodes cl) (cu_mems cl)
     \<and> reqs_in (cu_nodes cl) (cu_reqs cl) (cu_flight cl) (cu_retry cl) (cu_nreq cl) \<and> counts_ok (cu_nodes cl) (cu_flight cl)"

text \<open>The callback arguments of the requests that still owe an answer.\<close>

definition owed :: "cluster \<Rightarrow> nat multiset" where
  "owed cl = image_mset (\<lambda>r. cq_cbarg (the (cu_reqs cl r))) (mset (map snd (cu_flight cl) @ cu_retry cl))"

definition told :: "cluster \<Rightarrow> nat multiset" where
  "told cl = mset (map fst (cu_answers cl))"

subsection \<open>Reference counts\<close>

definition bump :: "nat \<Rightarrow> int \<Rightarrow> cluster_node list \<Rightarrow> cluster_node list" where
  "bump n d nodes = nodes[n := (nodes ! n)\<lparr>cn_refCount := cn_refCount (nodes ! n) + d\<rparr>]"

lemma nth_update_any: "xs[n := x] ! i = (if i = n \<and> n < length xs then x else xs ! i)"
  by (cases "n < length xs") (auto simp: list_update_beyond)

lemma bump_simps [simp]:
  "length (bump n d nodes) = length nodes"
  "cn_client (bump n d nodes ! i) = cn_client (nodes ! i)"
  "cn_id (bump n d nodes ! i) = cn_id (nodes ! i)"
  "i < length nodes \<Longrightarrow> cn_refCount (bump n d nodes ! i) = cn_refCount (nodes ! i) + (if i = n then d else 0)"
  by (simp_all add: bump_def nth_update_any)

lemma bump_clients [simp]: "map cn_client (bump n d nodes) = map cn_client nodes"
  by (rule nth_equalityI) auto

lemma bump_client_set [simp]: "cn_client ` set (bump n d nodes) = cn_client ` set nodes"
  by (metis bump_clients set_map)

lemma bump_keeps [simp]:
  "cluster_shape (bump n d nodes) clients slots = cluster_shape nodes clients slots"
  "mems_ok (bump n d nodes) mems = mems_ok nodes mems"
  "reqs_in (bump n d nodes) reqs flight retry nreq = reqs_in nodes reqs flight retry nreq"
  by (simp_all add: cluster_shape_def mems_ok_def reqs_in_def)

lemma upd_refCount_eq: "n < length (cu_nodes cl) \<Longrightarrow> upd_refCount n d cl = Some (cl\<lparr>cu_nodes := bump n d (cu_nodes cl)\<rparr>)"
  by (simp add: upd_refCount_def bump_def)

lemma count_list_remove1: "x \<in> set xs \<Longrightarrow> count_list (map f (remove1 x xs)) y + (if f x = y then 1 else 0) = count_list (map f xs) y"
  by (induction xs) auto

lemma clients_inj:
  "distinct (map cn_client nodes) \<Longrightarrow> i < length nodes \<Longrightarrow> j < length nodes \<Longrightarrow> cn_client (nodes ! i) = cn_client (nodes ! j) \<longleftrightarrow> i = j"
  using nth_eq_iff_index_eq [of "map cn_client nodes" i j] by simp

lemma counts_add:
  assumes "counts_ok nodes flight" "n < length nodes" "distinct (map cn_client nodes)"
  shows "counts_ok (bump n 1 nodes) (flight @ [(cn_client (nodes ! n), r)])"
  using assms clients_inj [OF assms(3) assms(2)] by (simp add: counts_ok_def)

lemma counts_drop:
  assumes "counts_ok nodes flight" "n < length nodes" "distinct (map cn_client nodes)" "(cn_client (nodes ! n), r) \<in> set flight"
  shows "counts_ok (bump n (- 1) nodes) (remove1 (cn_client (nodes ! n), r) flight)"
proof -
  have "int (count_list (map fst (remove1 (cn_client (nodes ! n), r) flight)) (cn_client (nodes ! i))) =
      int (count_list (map fst flight) (cn_client (nodes ! i))) + (if i = n then - 1 else 0)" if "i < length nodes" for i
    using count_list_remove1 [OF assms(4), of fst "cn_client (nodes ! i)"] clients_inj [OF assms(3,2) that] by (simp split: if_splits)
  with assms(1) show ?thesis by (simp add: counts_ok_def)
qed

subsection \<open>Steps\<close>

lemma remove1_flight:
  assumes "distinct (map snd flight)" "(h, r) \<in> set flight"
  shows "map snd (remove1 (h, r) flight) = remove1 r (map snd flight)"
  using assms
proof (induction flight)
  case (Cons x flight)
  then show ?case by (cases x) (force simp: image_iff)
qed simp

lemma reqs_in_flight:
  assumes "reqs_in nodes reqs flight retry nreq" "(h, r) \<in> set flight"
  obtains q where "reqs r = Some q" "cq_node q < length nodes" "h = cn_client (nodes ! cq_node q)" "r \<notin> set retry"
    "distinct (map snd flight)" "r \<in> set (map snd flight)"
proof -
  have r: "r \<in> set (map snd flight)" using assms(2) by (metis image_eqI list.set_map snd_conv)
  then have "r \<in> dom reqs" "r \<notin> set retry" "distinct (map snd flight)" using assms(1) by (auto simp: reqs_in_def)
  moreover from this obtain q where "reqs r = Some q" by blast
  ultimately show ?thesis using that [of q] assms r unfolding reqs_in_def by blast
qed

lemma reqs_in_shrink:
  assumes "reqs_in nodes reqs flight retry nreq" "reqs' \<subseteq>\<^sub>m reqs" "set flight' \<subseteq> set flight"
    "distinct (map snd flight' @ retry')" "set (map snd flight' @ retry') = dom reqs'"
  shows "reqs_in nodes reqs' flight' retry' nreq"
proof -
  have sub: "reqs x = Some q" if "reqs' x = Some q" for x q using assms(2) that by (force simp: map_le_def dom_def)
  have node: "cq_node q < length nodes" if "reqs' x = Some q" for x q using assms(1) sub [OF that] by (simp add: reqs_in_def)
  have lt: "x < nreq" if "reqs' x = Some q" for x q using assms(1) sub [OF that] by (auto simp: reqs_in_def)
  have client: "h = cn_client (nodes ! cq_node q)" if "(h, x) \<in> set flight'" "reqs' x = Some q" for h x q
    using assms(1,3) that(1) sub [OF that(2)] unfolding reqs_in_def by blast
  show ?thesis unfolding reqs_in_def using assms(4,5) node lt client by blast
qed

lemma reqs_in_wait:
  assumes "reqs_in nodes reqs flight retry nreq" "(h, r) \<in> set flight"
  shows "reqs_in nodes reqs (remove1 (h, r) flight) (retry @ [r]) nreq"
proof (rule reqs_in_shrink [OF assms(1) map_le_refl set_remove1_subset])
  have f: "r \<notin> set retry" "distinct (map snd flight)" "r \<in> set (map snd flight)"
    using reqs_in_flight [OF assms] by metis+
  then show "distinct (map snd (remove1 (h, r) flight) @ retry @ [r])"
    "set (map snd (remove1 (h, r) flight) @ retry @ [r]) = dom reqs"
    using assms(1) unfolding remove1_flight [OF f(2) assms(2)] reqs_in_def by auto
qed

lemma reqs_in_done:
  assumes "reqs_in nodes reqs flight retry nreq" "(h, r) \<in> set flight"
  shows "reqs_in nodes (reqs(r := None)) (remove1 (h, r) flight) retry nreq"
proof (rule reqs_in_shrink [OF assms(1) _ set_remove1_subset])
  have f: "r \<notin> set retry" "distinct (map snd flight)" "r \<in> set (map snd flight)"
    using reqs_in_flight [OF assms] by metis+
  then show "distinct (map snd (remove1 (h, r) flight) @ retry)"
    "set (map snd (remove1 (h, r) flight) @ retry) = dom (reqs(r := None))"
    using assms(1) unfolding remove1_flight [OF f(2) assms(2)] reqs_in_def by auto
qed (auto simp: map_le_def)

definition cbargs :: "(nat \<Rightarrow> cluster_request option) \<Rightarrow> nat list \<Rightarrow> nat multiset" where
  "cbargs reqs rs = image_mset (\<lambda>r. cq_cbarg (the (reqs r))) (mset rs)"

lemma cbargs_simps [simp]:
  "cbargs reqs [] = {#}" "cbargs reqs (r # rs) = add_mset (cq_cbarg (the (reqs r))) (cbargs reqs rs)"
  "cbargs reqs (rs @ ss) = cbargs reqs rs + cbargs reqs ss"
  "r \<notin> set rs \<Longrightarrow> cbargs (reqs(r := v)) rs = cbargs reqs rs"
  by (auto simp: cbargs_def intro!: image_mset_cong)

lemma cbargs_remove1: "r \<in> set rs \<Longrightarrow> cbargs reqs rs = add_mset (cq_cbarg (the (reqs r))) (cbargs reqs (remove1 r rs))"
  by (induction rs) auto

lemma owed_eq: "owed cl = cbargs (cu_reqs cl) (map snd (cu_flight cl)) + cbargs (cu_reqs cl) (cu_retry cl)"
  by (simp add: owed_def cbargs_def)

text \<open>A callback takes its request out of the commands in flight, and either answers it or lets it wait.\<close>

lemma callback_step:
  assumes inv: "cluster_inv cl" and hr: "(h, r) \<in> set (cu_flight cl)"
  shows "\<exists>cl'. priskvClusterRequestCallback r status result (cl\<lparr>cu_flight := remove1 (h, r) (cu_flight cl)\<rparr>) = Some cl'
    \<and> cluster_inv cl' \<and> told cl' + owed cl' = told cl + owed cl"
proof -
  let ?f = "remove1 (h, r) (cu_flight cl)"
  have ri: "reqs_in (cu_nodes cl) (cu_reqs cl) (cu_flight cl) (cu_retry cl) (cu_nreq cl)" using inv by (simp add: cluster_inv_def)
  obtain q where q: "cu_reqs cl r = Some q" "cq_node q < length (cu_nodes cl)" "h = cn_client (cu_nodes cl ! cq_node q)"
    "r \<notin> set (cu_retry cl)" "distinct (map snd (cu_flight cl))" "r \<in> set (map snd (cu_flight cl))"
    using reqs_in_flight [OF ri hr] by metis
  have counts: "counts_ok (bump (cq_node q) (- 1) (cu_nodes cl)) ?f"
    using counts_drop [of "cu_nodes cl" "cu_flight cl" "cq_node q" r] inv q hr by (simp add: cluster_inv_def cluster_shape_def)
  note owed = cbargs_remove1 [OF q(6), of "cu_reqs cl", folded remove1_flight [OF q(5) hr]]
  have r_notin: "r \<notin> set (map snd ?f)" using q(5) by (simp only: remove1_flight [OF q(5) hr] set_remove1_eq) simp
  show ?thesis
  proof (cases "cu_metaUpdating cl \<and> status \<noteq> PRISKV_STATUS_OK")
    case True
    let ?cl = "cl\<lparr>cu_flight := ?f, cu_retry := cu_retry cl @ [r], cu_nodes := bump (cq_node q) (- 1) (cu_nodes cl)\<rparr>"
    have "priskvClusterRequestCallback r status result (cl\<lparr>cu_flight := ?f\<rparr>) = Some ?cl"
      using True q(1,2) by (simp add: priskvClusterRequestCallback_def upd_refCount_eq Let_def)
    moreover have "cluster_inv ?cl" using inv counts reqs_in_wait [OF ri hr] by (simp add: cluster_inv_def)
    moreover have "told ?cl + owed ?cl = told cl + owed cl" using owed by (simp add: told_def owed_eq)
    ultimately show ?thesis by blast
  next
    case False
    let ?v = "case result of Some len \<Rightarrow> if status = PRISKV_STATUS_OK then len else 0 | None \<Rightarrow> 0"
    let ?cl = "cl\<lparr>cu_flight := ?f, cu_answers := cu_answers cl @ [(cq_cbarg q, status, ?v)], cu_nodes := bump (cq_node q) (- 1) (cu_nodes cl),
      cu_reqs := (cu_reqs cl)(r := None)\<rparr>"
    have "priskvClusterRequestCallback r status result (cl\<lparr>cu_flight := ?f\<rparr>) = Some ?cl"
      using False q(1,2) by (auto simp: priskvClusterRequestCallback_def upd_refCount_eq Let_def cluster_cb_def priskvClusterRequestFree_def)
    moreover have "cluster_inv ?cl" using inv counts reqs_in_done [OF ri hr] by (simp add: cluster_inv_def)
    moreover have "told ?cl + owed ?cl = told cl + owed cl" using owed q(1,4) r_notin by (simp add: told_def owed_eq)
    ultimately show ?thesis by blast
  qed
qed

lemma reqs_in_new: "reqs_in nodes reqs flight retry nreq \<Longrightarrow> nreq \<notin> set (map snd flight) \<and> nreq \<notin> set retry"
  unfolding reqs_in_def by (metis UnCI less_irrefl set_append)

lemma reqs_in_add:
  assumes "reqs_in nodes reqs flight retry nreq" "cq_node q < length nodes"
    "flight' = flight @ [(cn_client (nodes ! cq_node q), nreq)] \<and> retry' = retry \<or> flight' = flight \<and> retry' = retry @ [nreq]"
  shows "reqs_in nodes (reqs(nreq \<mapsto> q)) flight' retry' (Suc nreq)"
proof -
  have d: "distinct (map snd flight @ retry)" "set (map snd flight @ retry) = dom reqs" "\<And>x. x \<in> dom reqs \<Longrightarrow> x < nreq"
    using assms(1) unfolding reqs_in_def by blast+
  then have new: "nreq \<notin> set (map snd flight @ retry)" by blast
  have lists: "distinct (map snd flight' @ retry')" "set (map snd flight' @ retry') = insert nreq (dom reqs)"
    unfolding d(2) [symmetric] using assms(3) new d(1) by (elim disjE conjE; simp; blast)+
  have node: "cq_node p < length nodes" if "(reqs(nreq \<mapsto> q)) x = Some p" for x p
    using assms(1,2) that by (auto simp: reqs_in_def split: if_splits)
  have client: "h = cn_client (nodes ! cq_node p)" if "(h, x) \<in> set flight'" "(reqs(nreq \<mapsto> q)) x = Some p" for h x p
  proof (cases "(h, x) \<in> set flight")
    case True
    then have "x \<noteq> nreq" using new by (metis UnCI image_eqI list.set_map set_append snd_conv)
    with True assms(1) that(2) show ?thesis unfolding reqs_in_def by auto
  next
    case False
    with that assms(3) show ?thesis by auto
  qed
  have lt: "x < Suc nreq" if "x \<in> dom (reqs(nreq \<mapsto> q))" for x
  proof -
    have "x = nreq \<or> x \<in> dom reqs" using that by auto
    with d(3) show ?thesis by (blast intro: less_SucI)
  qed
  have "dom (reqs(nreq \<mapsto> q)) = insert nreq (dom reqs)" by simp
  then show ?thesis unfolding reqs_in_def using lists lt node client by metis
qed

lemma told_simps [simp]: "told (cl\<lparr>cu_flight := f\<rparr>) = told cl" "told (cl\<lparr>cu_retry := w\<rparr>) = told cl" "told (cl\<lparr>cu_nodes := ns\<rparr>) = told cl"
    "told (cl\<lparr>cu_reqs := rs\<rparr>) = told cl" "told (cl\<lparr>cu_nreq := k\<rparr>) = told cl"
  by (simp_all add: told_def)

lemma bind_callbacks_now_Nil [simp]: "x \<bind> callbacks_now r [] = x"
  by (cases x) simp_all

text \<open>A new request that is submitted waits, goes into flight, or is answered at once.\<close>

lemma submit_step:
  fixes q :: cluster_request
  assumes inv: "cluster_inv cl" and "calls_once env" and n: "cq_node q < length (cu_nodes cl)"
  defines "cl1 \<equiv> cl\<lparr>cu_reqs := (cu_reqs cl)(cu_nreq cl \<mapsto> q), cu_nreq := Suc (cu_nreq cl)\<rparr>"
  shows "\<exists>cl'. priskvClusterSubmitRequest env (cu_nreq cl) cl1 = Some cl' \<and> cluster_inv cl'
    \<and> told cl' + owed cl' = add_mset (cq_cbarg q) (told cl + owed cl)"
proof -
  let ?r = "cu_nreq cl" and ?h = "cn_client (cu_nodes cl ! cq_node q)"
  have ri: "reqs_in (cu_nodes cl) (cu_reqs cl) (cu_flight cl) (cu_retry cl) ?r" using inv by (simp add: cluster_inv_def)
  then have new: "?r \<notin> set (map snd (cu_flight cl))" "?r \<notin> set (cu_retry cl)" using reqs_in_new by blast+
  have shape: "cluster_shape (cu_nodes cl) (cu_clients cl) (cu_slots cl)" "counts_ok (cu_nodes cl) (cu_flight cl)"
    using inv by (simp_all add: cluster_inv_def)
  then have open_h: "?h \<in> set (cu_clients cl)" using n by (auto simp: cluster_shape_def)
  show ?thesis
  proof (cases "cu_metaUpdating cl")
    case True
    let ?cl = "cl1\<lparr>cu_retry := cu_retry cl @ [?r]\<rparr>"
    have "priskvClusterSubmitRequest env ?r cl1 = Some ?cl" using True by (simp add: priskvClusterSubmitRequest_def cl1_def)
    moreover have "cluster_inv ?cl" using inv reqs_in_add [OF ri n, of "cu_flight cl" "cu_retry cl @ [?r]"] by (simp add: cluster_inv_def cl1_def)
    moreover have "told ?cl + owed ?cl = add_mset (cq_cbarg q) (told cl + owed cl)" using new by (simp add: cl1_def owed_eq)
    ultimately show ?thesis by blast
  next
    case False
    let ?cl = "cl1\<lparr>cu_nodes := bump (cq_node q) 1 (cu_nodes cl), cu_flight := cu_flight cl @ [(?h, ?r)]\<rparr>"
    have cinv: "cluster_inv ?cl"
      using inv reqs_in_add [OF ri n, of "cu_flight cl @ [(?h, ?r)]" "cu_retry cl"] counts_add [OF shape(2) n, of ?r] shape(1)
      by (simp add: cluster_inv_def cl1_def cluster_shape_def)
    have bal: "told ?cl + owed ?cl = add_mset (cq_cbarg q) (told cl + owed cl)" using new by (simp add: cl1_def owed_eq)
    have submit: "priskvClusterSubmitRequest env ?r cl1 = do {
        cl2 \<leftarrow> callbacks_now ?r (fst (cx_now env ?r)) (cl1\<lparr>cu_nodes := bump (cq_node q) 1 (cu_nodes cl)\<rparr>);
        Some (if snd (cx_now env ?r) then cl2\<lparr>cu_flight := cu_flight cl2 @ [(?h, ?r)]\<rparr> else cl2) }"
      using False n open_h by (simp add: priskvClusterSubmitRequest_def cl1_def upd_refCount_eq Let_def case_prod_beta cong del: if_weak_cong)
    have len: "length (fst (cx_now env ?r)) = (if snd (cx_now env ?r) then 0 else 1)"
      using assms(2) by (simp add: calls_once_def case_prod_beta)
    show ?thesis
    proof (cases "snd (cx_now env ?r)")
      case True
      with len have "priskvClusterSubmitRequest env ?r cl1 = Some ?cl" using submit by (simp add: cl1_def)
      with cinv bal show ?thesis by blast
    next
      case False
      with len obtain st res where cb: "fst (cx_now env ?r) = [(st, res)]" by (auto simp: length_Suc_conv)
      have "remove1 (?h, ?r) (cu_flight cl @ [(?h, ?r)]) = cu_flight cl"
        using new(1) by (force simp: remove1_append)
      then have "priskvClusterSubmitRequest env ?r cl1 = priskvClusterRequestCallback ?r st res (?cl\<lparr>cu_flight := remove1 (?h, ?r) (cu_flight ?cl)\<rparr>)"
        using submit cb False by (simp add: cl1_def)
      with callback_step [OF cinv, of ?h ?r st res] bal show ?thesis by simp
    qed
  qed
qed

lemma get_node_bound: "cluster_inv cl \<Longrightarrow> priskvClusterGetNode cl key = Some n \<Longrightarrow> n < length (cu_nodes cl)"
  using hash_slot_bound [of key] by (auto simp: cluster_inv_def cluster_shape_def priskvClusterGetNode_def) (metis nth_mem)

lemma node_sgls_returns:
  "mems_ok (cu_nodes cl) (cu_mems cl) \<Longrightarrow> n < length (cu_nodes cl) \<Longrightarrow>
   list_all (\<lambda>g. case gs_mem g of None \<Rightarrow> True | Some m \<Rightarrow> cu_mems cl m \<noteq> None) sgl \<Longrightarrow> \<exists>ns. node_sgls cl n sgl = Some ns"
proof (induction sgl)
  case (Cons g sgl)
  then obtain ns where ns: "node_sgls cl n sgl = Some ns" by auto
  show ?case
  proof (cases "gs_mem g")
    case (Some m)
    then obtain ms where "cu_mems cl m = Some ms" "length ms = length (cu_nodes cl)" using Cons.prems by (auto simp: mems_ok_def)
    with Some ns Cons.prems(2) show ?thesis by (simp add: priskvClusterGetMemory_def)
  qed (simp add: ns priskvClusterGetMemory_def)
qed simp

lemma async_step:
  assumes "cluster_inv cl" "calls_once env" "event_ok (Ev_Async type key sgl timeout cbarg) cl"
  shows "\<exists>ret cl'. cluster_async env type key sgl timeout cbarg cl = Some (ret, cl') \<and> cluster_inv cl'
    \<and> told cl' + owed cl' = add_mset cbarg (told cl + owed cl)"
proof (cases "priskvClusterGetNode cl key")
  case None
  then show ?thesis using assms(1)
    by (simp add: cluster_async_def priskvClusterGetRequest_def cluster_cb_def cluster_inv_def told_def owed_eq)
next
  case (Some n)
  have n: "n < length (cu_nodes cl)" using get_node_bound [OF assms(1) Some] .
  then have "cn_id (cu_nodes cl ! n) = n" using assms(1) by (simp add: cluster_inv_def cluster_shape_def)
  with node_sgls_returns [OF _ n, of sgl] assms(1,3) obtain ns where ns: "node_sgls cl (cn_id (cu_nodes cl ! n)) sgl = Some ns"
    by (auto simp: cluster_inv_def)
  define q where "q = \<lparr>cq_sgl = ns, cq_cbarg = cbarg, cq_type = type, cq_key = key, cq_cluster_sgl = sgl, cq_timeout = timeout, cq_node = n\<rparr>"
  from submit_step [OF assms(1,2), of q] n obtain cl' where
    "priskvClusterSubmitRequest env (cu_nreq cl) (cl\<lparr>cu_reqs := (cu_reqs cl)(cu_nreq cl \<mapsto> q), cu_nreq := Suc (cu_nreq cl)\<rparr>) = Some cl'"
    "cluster_inv cl'" "told cl' + owed cl' = add_mset cbarg (told cl + owed cl)" by (auto simp: q_def)
  moreover from this(1) have "cluster_async env type key sgl timeout cbarg cl = Some (0, cl')"
    using Some ns by (simp add: cluster_async_def priskvClusterGetRequest_def priskvClusterRequestNew_def q_def Let_def)
  ultimately show ?thesis by blast
qed

lemma dereg_step:
  assumes "cluster_inv cl" "event_ok (Ev_Dereg m) cl"
  shows "\<exists>cl'. priskvClusterDeregMemory m cl = Some cl' \<and> cluster_inv cl' \<and> told cl' + owed cl' = told cl + owed cl"
proof -
  obtain ms where ms: "cu_mems cl m = Some ms" "None \<notin> set ms" using assms(2) by (auto split: option.splits)
  moreover have "set ms \<subseteq> insert None (Some ` cn_client ` set (cu_nodes cl))"
    using assms(1) ms(1) unfolding cluster_inv_def mems_ok_def by blast
  moreover have "cn_client ` set (cu_nodes cl) \<subseteq> set (cu_clients cl)" using assms(1) by (simp add: cluster_inv_def cluster_shape_def)
  ultimately have "\<forall>m \<in> set ms. \<exists>h. m = Some h \<and> h \<in> set (cu_clients cl)" by blast
  then have "dereg_all cl ms = Some ()" by (auto simp: dereg_all_def list_all_iff)
  with ms assms(1) show ?thesis
    by (simp add: priskvClusterDeregMemory_def cluster_inv_def mems_ok_def told_def owed_eq)
qed

lemma reg_step:
  assumes "cluster_inv cl"
  shows "cluster_inv (snd (priskvClusterRegMemory env cl)) \<and> told (snd (priskvClusterRegMemory env cl)) + owed (snd (priskvClusterRegMemory env cl)) = told cl + owed cl"
proof -
  have "length (reg_all env cl) = length (cu_nodes cl)" "set (reg_all env cl) \<subseteq> insert None (Some ` cn_client ` set (cu_nodes cl))"
    by (auto simp: reg_all_def)
  with assms show ?thesis by (simp add: priskvClusterRegMemory_def Let_def cluster_inv_def mems_ok_def told_def owed_eq)
qed

lemma cluster_step_inv:
  assumes "cluster_inv cl" "calls_once env" "event_ok e cl"
  shows "\<exists>cl'. cluster_step env e cl = Some cl' \<and> cluster_inv cl' \<and> told cl' + owed cl' = told cl + owed cl + mset (asked [e])"
proof (cases e)
  case Ev_Reg
  with reg_step [OF assms(1), of env] show ?thesis by simp
next
  case (Ev_Dereg m)
  with dereg_step [OF assms(1), of m] assms(3) show ?thesis by simp
next
  case (Ev_Async type key sgl timeout cbarg)
  with async_step [OF assms(1,2), of type key sgl timeout cbarg] assms(3) show ?thesis by (auto simp del: event_ok.simps)
next
  case (Ev_Answer h r status result)
  with callback_step [OF assms(1), of h r status result] assms(3) show ?thesis by simp
next
  case (Ev_Timer newMeta)
  with assms(1,3) show ?thesis
    by (auto simp: priskvClusterTimerHandler_def Let_def cluster_inv_def told_def owed_eq split: option.splits)
qed

lemma asked_Cons: "asked (e # es) = asked [e] @ asked es"
  by (cases e) simp_all

lemma cluster_run_inv:
  "cluster_inv cl \<Longrightarrow> calls_once env \<Longrightarrow> cluster_valid env es cl \<Longrightarrow>
   \<exists>cl'. cluster_run env es cl = Some cl' \<and> cluster_inv cl' \<and> told cl' + owed cl' = told cl + owed cl + mset (asked es)"
proof (induction es arbitrary: cl)
  case (Cons e es)
  then obtain cl1 where 1: "cluster_step env e cl = Some cl1" "cluster_inv cl1" "told cl1 + owed cl1 = told cl + owed cl + mset (asked [e])"
    using cluster_step_inv [of cl env e] by auto
  with Cons.IH [of cl1] Cons.prems obtain cl' where
    "cluster_run env es cl1 = Some cl'" "cluster_inv cl'" "told cl' + owed cl' = told cl1 + owed cl1 + mset (asked es)" by auto
  with 1 show ?case by (simp add: asked_Cons [of e es] add.assoc)
qed simp

subsection \<open>Connecting\<close>

lemma opened_clients: "map cn_client (opened_nodes is n h) = [h..<h + length is]"
  by (rule nth_equalityI) (simp_all add: opened_node_def)

lemma connect_inv:
  assumes "priskvClusterConnect env newMeta = Some (Inr cl)"
  shows "cluster_inv cl" "told cl = {#}" "owed cl = {#}"
proof -
  obtain info where load: "priskvClusterMetaDataLoad env info cluster_init = Some cl"
    using assms by (auto simp: priskvClusterConnect_def priskvClusterMetaDataUpdate_def split: option.splits bind_splits if_splits)
  let ?is = "mi_nodes info"
  have valid: "valid_meta env ?is" using load by (simp add: load_eq cluster_init_def split: if_splits)
  have cl: "cu_nodes cl = opened_nodes ?is 0 0" "cu_clients cl = rev [0..<length ?is]" "cu_mems cl = Map.empty" "cu_reqs cl = Map.empty"
    "cu_flight cl = []" "cu_retry cl = []" "cu_answers cl = []" "cu_slots cl = claim ?is 0 (replicate PRISKV_CLUSTER_SLOTS None)"
    using load valid by (auto simp: load_eq cluster_init_def)
  have "n < length ?is" if "Some n \<in> set (cu_slots cl)" for n
    using that valid owner_Some [of ?is 0] by (auto simp: cl(8) claim_def valid_meta_def split: option.splits)
  moreover have "length (cu_slots cl) = PRISKV_CLUSTER_SLOTS" by (simp add: cl(8) claim_def)
  moreover have "cn_client ` set (opened_nodes ?is 0 0) = {0..<length ?is}"
    using arg_cong [OF opened_clients [of ?is 0 0], of set] by simp
  ultimately have "cluster_shape (cu_nodes cl) (cu_clients cl) (cu_slots cl)"
    by (simp add: cluster_shape_def cl(1,2) opened_clients opened_node_def)
  then show "cluster_inv cl"
    by (simp add: cluster_inv_def mems_ok_def reqs_in_def counts_ok_def cl opened_node_def)
  show "told cl = {#}" "owed cl = {#}" by (simp_all add: told_def owed_eq cl)
qed

section \<open>Properties\<close>

text \<open>
  C13: From empty slots, loading meta data succeeds exactly when every node answers, every range has
  \<open>0 \<le> start \<le> end < 4096\<close> and no slot is in two ranges; otherwise an assertion fails. After a
  successful load a key goes to node \<open>n\<close> exactly when a range of \<open>n\<close> holds the key's slot, and node
  \<open>n\<close> is connected to the address of the meta data with no command in flight.
\<close>

theorem cluster_load_routes:
  assumes "cu_slots cl = replicate PRISKV_CLUSTER_SLOTS None"
  shows "(priskvClusterMetaDataLoad env info cl \<noteq> None \<longleftrightarrow> valid_meta env (mi_nodes info))
    \<and> (\<forall>cl'. priskvClusterMetaDataLoad env info cl = Some cl' \<longrightarrow>
         length (cu_nodes cl') = length (mi_nodes info)
       \<and> (\<forall>key n. priskvClusterGetNode cl' key = Some n \<longleftrightarrow>
            n < length (mi_nodes info) \<and> uint (clusterManagerKeyHashSlot key) \<in> set (range_slots (ni_slotRanges (mi_nodes info ! n))))
       \<and> (\<forall>n < length (mi_nodes info). cn_addr (cu_nodes cl' ! n) = ni_addr (mi_nodes info ! n)
            \<and> cn_port (cu_nodes cl' ! n) = ni_port (mi_nodes info ! n) \<and> cn_client (cu_nodes cl' ! n) \<in> set (cu_clients cl')
            \<and> cn_refCount (cu_nodes cl' ! n) = 0))"
  using assms claim_route [of "mi_nodes info"]
  by (auto simp: load_eq valid_meta_def priskvClusterGetNode_def opened_node_def)


lemma update_faults:
  assumes "cluster_inv cl" "cu_nodes cl \<noteq> []" "cu_metaVersion cl < mi_version info" "\<not> list_ex (\<lambda>n. 0 < cn_refCount n) (cu_nodes cl)"
  shows "priskvClusterTimerHandler env (Some info) cl = None"
proof (cases "priskvClusterMetaDataUnload env (cl\<lparr>cu_metaUpdating := True\<rparr>)")
  case (Some cl2)
  have shape: "cluster_shape (cu_nodes cl) (cu_clients cl) (cu_slots cl)" using assms(1) by (simp add: cluster_inv_def)
  note u = unload_empties [of "cl\<lparr>cu_metaUpdating := True\<rparr>" env cl2, simplified, OF shape Some]
  have "dereg_all cl2 ms = None" if "cu_mems cl m = Some ms" for m ms
  proof -
    have "length ms = length (cu_nodes cl)" "set ms \<subseteq> insert None (Some ` cn_client ` set (cu_nodes cl))"
      using assms(1) that unfolding cluster_inv_def mems_ok_def by blast+
    moreover from this(1) obtain x xs where "ms = x # xs" using assms(2) by (cases ms) auto
    ultimately show ?thesis using u(4) by (auto simp: dereg_all_def split: option.splits)
  qed
  then have "priskvClusterDeregMemoryInternal cl2 = None"
    using u(2,3) by (cases "cu_memCtx cl"; cases "cu_mems cl (the (cu_memCtx cl))") (auto simp: priskvClusterDeregMemoryInternal_def)
  with Some assms(3,4) show ?thesis by (simp add: priskvClusterTimerHandler_def Let_def)
qed (use assms(3,4) in \<open>simp add: priskvClusterTimerHandler_def Let_def\<close>)

text \<open>
  C38: In every state that such a run reaches with at least one node, a timer tick that carries an
  update of the meta data out stops the process: \<open>priskvClusterDeregMemoryInternal\<close> reads an
  uninitialised pointer when no memory was registered, and otherwise goes through node clients that
  \<open>priskvClusterMetaDataUnload\<close> has just freed.
\<close>

theorem cluster_update_never_returns:
  assumes "priskvClusterConnect env newMeta = Some (Inr cl)" "calls_once env" "cluster_valid env es cl" "cluster_run env es cl = Some cl'"
    "cu_nodes cl' \<noteq> []" "cu_metaVersion cl' < mi_version info" "\<not> list_ex (\<lambda>n. 0 < cn_refCount n) (cu_nodes cl')"
  shows "priskvClusterTimerHandler env (Some info) cl' = None"
proof -
  have "cluster_inv cl'" using connect_inv [OF assms(1)] cluster_run_inv [OF _ assms(2,3)] assms(4) by auto
  then show ?thesis using assms(5-7) by (rule update_faults)
qed

subsection \<open>A cluster of two nodes\<close>

definition demo_cluster_env :: cluster_env where
  "demo_cluster_env = \<lparr>cx_connect = \<lambda>_ _. True, cx_close = \<lambda>_. True, cx_reg = \<lambda>_. True,
     cx_now = \<lambda>r. if r = 1 then ([(PRISKV_STATUS_VALUE_EMPTY, None)], False) else ([], True)\<rparr>"

definition demo_meta :: "int \<Rightarrow> meta_info" where
  "demo_meta v = \<lparr>mi_version = v, mi_nodes =
     [\<lparr>ni_addr = ''a'', ni_port = 1, ni_slotRanges = [\<lparr>sr_start = 3200, sr_end = 3207\<rparr>]\<rparr>,
      \<lparr>ni_addr = ''b'', ni_port = 2, ni_slotRanges = [\<lparr>sr_start = 3300, sr_end = 3300\<rparr>]\<rparr>]\<rparr>"

text \<open>The client that is connected to them, with version 1 of the meta data.\<close>

definition demo_cluster :: cluster where
  "demo_cluster = cluster_init\<lparr>cu_metaVersion := 1, cu_slots := claim (mi_nodes (demo_meta 1)) 0 (cu_slots cluster_init),
     cu_nodes := opened_nodes (mi_nodes (demo_meta 1)) 0 0, cu_clients := [1, 0], cu_nclient := 2\<rparr>"

lemma demo_valid_meta: "valid_meta demo_cluster_env (mi_nodes (demo_meta 1))"
  by code_simp

lemma demo_connect: "priskvClusterConnect demo_cluster_env (Some (demo_meta 1)) = Some (Inr demo_cluster)"
proof -
  have "cu_slots cluster_init = replicate PRISKV_CLUSTER_SLOTS None" by (simp add: cluster_init_def)
  note load_eq [OF this, of demo_cluster_env "demo_meta 1"]
  moreover have "mi_version (demo_meta 1) = 1" "length (mi_nodes (demo_meta 1)) = 2" "cu_nclient cluster_init = 0" "cu_clients cluster_init = []"
    by (simp_all add: demo_meta_def cluster_init_def)
  ultimately have "priskvClusterMetaDataLoad demo_cluster_env (demo_meta 1) cluster_init = Some demo_cluster"
    using demo_valid_meta by (simp add: demo_cluster_def upt_rec)
  then show ?thesis by (simp add: priskvClusterConnect_def priskvClusterMetaDataUpdate_def)
qed

lemma demo_keys: "clusterManagerKeyHashSlot [97] = 3207" "clusterManagerKeyHashSlot [98] = 3300" "clusterManagerKeyHashSlot [99] = 3269"
  by code_simp+

lemma demo_slots:
  "claim (mi_nodes (demo_meta 1)) 0 (replicate PRISKV_CLUSTER_SLOTS None) ! 3207 = Some 0"
  "claim (mi_nodes (demo_meta 1)) 0 (replicate PRISKV_CLUSTER_SLOTS None) ! 3300 = Some 1"
  "claim (mi_nodes (demo_meta 1)) 0 (replicate PRISKV_CLUSTER_SLOTS None) ! 3269 = None"
  by (simp_all add: demo_meta_def claim_def PRISKV_CLUSTER_SLOTS_def)

lemma demo_opened: "opened_nodes (mi_nodes (demo_meta 1)) 0 0 = [opened_node (mi_nodes (demo_meta 1) ! 0) 0 0, opened_node (mi_nodes (demo_meta 1) ! 1) 1 1]"
  by (simp add: demo_meta_def)

lemma demo_calls_once: "calls_once demo_cluster_env"
  by (simp add: calls_once_def demo_cluster_env_def)

text \<open>A GET of registered memory, a SET that its node refuses at once, a TEST of a key no node has, an
  update that is deferred because of the GET, a DELETE that waits for it, and a failed answer to the GET.\<close>

definition demo_cluster_events :: "cluster_event list" where
  "demo_cluster_events =
     [Ev_Reg, Ev_Async GET [97] [\<lparr>gs_iova = 64, gs_length = 8, gs_mem = Some 0\<rparr>] 0 10, Ev_Async SET [98] [] 0 11,
      Ev_Async TEST [99] [] 0 12, Ev_Timer (Some (demo_meta 2)), Ev_Async DELETE [97] [] 0 13,
      Ev_Answer 0 0 PRISKV_STATUS_RDMA_ERROR None]"

lemmas cluster_ops = priskvClusterRegMemory_def reg_all_def cluster_async_def priskvClusterGetRequest_def priskvClusterGetNode_def
  priskvClusterRequestNew_def priskvClusterGetMemory_def priskvClusterSubmitRequest_def upd_refCount_def cluster_cb_def
  priskvClusterRequestCallback_def priskvClusterRequestFree_def priskvClusterTimerHandler_def

lemmas demo_cluster_defs = demo_cluster_def cluster_init_def demo_keys demo_slots demo_opened opened_node_def demo_cluster_env_def

lemma demo_version: "mi_version (demo_meta v) = v"
  by (simp add: demo_meta_def)

lemma demo_cluster_valid: "cluster_valid demo_cluster_env demo_cluster_events demo_cluster"
  by (simp add: demo_cluster_events_def cluster_ops demo_cluster_defs demo_version Let_def)

theorem cluster_load_routes_witness:
  "\<exists>cl'. priskvClusterMetaDataLoad demo_cluster_env (demo_meta 1) cluster_init = Some cl'
     \<and> priskvClusterGetNode cl' [97] = Some 0 \<and> priskvClusterGetNode cl' [98] = Some 1 \<and> priskvClusterGetNode cl' [99] = None"
proof -
  have "cu_slots cluster_init = replicate PRISKV_CLUSTER_SLOTS None" by (simp add: cluster_init_def)
  note load = cluster_load_routes [OF this, of demo_cluster_env "demo_meta 1"]
  then obtain cl' where cl': "priskvClusterMetaDataLoad demo_cluster_env (demo_meta 1) cluster_init = Some cl'"
    using demo_valid_meta by auto
  have "length (mi_nodes (demo_meta 1)) = 2" by (simp add: demo_meta_def)
  with load cl' have route: "priskvClusterGetNode cl' key = Some n \<longleftrightarrow> n < 2 \<and>
      uint (clusterManagerKeyHashSlot key) \<in> set (range_slots (ni_slotRanges (mi_nodes (demo_meta 1) ! n)))" for key n
    by simp
  have "priskvClusterGetNode cl' [97] = Some 0" "priskvClusterGetNode cl' [98] = Some 1" "priskvClusterGetNode cl' [99] \<noteq> Some n" for n
    unfolding route demo_keys by (auto simp: demo_meta_def nth_Cons' split: if_splits)
  with cl' show ?thesis by (metis option.exhaust)
qed


theorem cluster_update_never_returns_witness:
  "\<exists>cl'. cluster_run demo_cluster_env [Ev_Reg] demo_cluster = Some cl' \<and> priskvClusterTimerHandler demo_cluster_env (Some (demo_meta 2)) cl' = None"
proof -
  have "cluster_valid demo_cluster_env [Ev_Reg] demo_cluster" by simp
  from cluster_update_never_returns [OF demo_connect demo_calls_once this, of _ "demo_meta 2"] show ?thesis
    by (simp add: cluster_ops(1) Let_def demo_cluster_defs demo_version)
qed

end
