(* ===== verification/Workqueue.thy ===== *)
theory Workqueue
  imports Prelude
begin

text \<open>
  The work queue (\<open>lib/workqueue.c\<close>): threads add works to a list under a spin lock and kick an
  event descriptor; the thread of the queue acknowledges the event and runs the works with the
  lock released. The steps of the model are the critical sections and the system calls, so the
  runs are all interleavings of any number of threads with the thread of the queue. The loop of
  \<open>priskv_workqueue_process\<close> holds the successor it read before it released the lock. Works are
  named by numbers that stand for addresses; \<open>None\<close> is the use of a work that is not in the list
  or was freed. \<open>run\<close>, the functions of the works, is a parameter.
\<close>

section \<open>Model\<close>

record priskv_work =
  pw_func :: nat
  pw_sync :: bool
  pw_retval :: int
  pw_done :: bool

text \<open>Where the thread of the queue is: waiting for an event, past the acknowledgement, or running a
  work with the saved successor, \<open>None\<close> for the list head.\<close>

datatype process_pc = P_idle | P_acked | P_run nat "nat option"

record priskv_workqueue =
  wq_works :: "nat list"
  wq_eventfd :: nat
  wq_work :: "nat \<Rightarrow> priskv_work option"
  wq_pc :: process_pc
  wq_next :: nat
  wq_unkicked :: "nat list"
  wq_submitted :: "(nat \<times> nat) list"
  wq_executed :: "(nat \<times> nat \<times> int) list"
  wq_returned :: "(nat \<times> nat \<times> int) list"

definition priskv_workqueue_create :: priskv_workqueue where
  "priskv_workqueue_create = \<lparr>wq_works = [], wq_eventfd = 0, wq_work = Map.empty, wq_pc = P_idle, wq_next = 0,
     wq_unkicked = [], wq_submitted = [], wq_executed = [], wq_returned = []\<rparr>"

definition priskv_work_init :: "nat \<Rightarrow> bool \<Rightarrow> priskv_work" where
  "priskv_work_init func sync = \<lparr>pw_func = func, pw_sync = sync, pw_retval = 0, pw_done = False\<rparr>"

text \<open>The first part of \<open>priskv_workqueue_call\<close> (\<open>sync\<close>) and of \<open>priskv_workqueue_submit\<close>.\<close>

definition workqueue_add :: "nat \<Rightarrow> bool \<Rightarrow> priskv_workqueue \<Rightarrow> priskv_workqueue" where
  "workqueue_add func sync q =
     (let w = wq_next q in
      q\<lparr>wq_work := (wq_work q)(w \<mapsto> priskv_work_init func sync), wq_works := wq_works q @ [w], wq_next := Suc w,
        wq_unkicked := wq_unkicked q @ [w], wq_submitted := wq_submitted q @ [(w, func)]\<rparr>)"

definition priskv_workqueue_kick :: "nat \<Rightarrow> priskv_workqueue \<Rightarrow> priskv_workqueue" where
  "priskv_workqueue_kick w q = q\<lparr>wq_eventfd := wq_eventfd q + 1, wq_unkicked := remove1 w (wq_unkicked q)\<rparr>"

text \<open>The end of \<open>priskv_workqueue_call\<close>: the work was on the stack of the caller.\<close>

definition call_return :: "nat \<Rightarrow> priskv_workqueue \<Rightarrow> priskv_workqueue option" where
  "call_return w q = do {
     p \<leftarrow> wq_work q w;
     Some (q\<lparr>wq_work := (wq_work q)(w := None), wq_returned := wq_returned q @ [(w, pw_func p, pw_retval p)]\<rparr>)
   }"

definition priskv_workqueue_ack :: "priskv_workqueue \<Rightarrow> priskv_workqueue" where
  "priskv_workqueue_ack q = q\<lparr>wq_eventfd := 0, wq_pc := P_acked\<rparr>"

fun list_next :: "nat \<Rightarrow> nat list \<Rightarrow> nat option" where
  "list_next w [] = None"
| "list_next w (x # xs) = (if x = w then (case xs of [] \<Rightarrow> None | y # _ \<Rightarrow> Some y) else list_next w xs)"

text \<open>The head of the loop at entry \<open>i\<close>: reads the successor, unlinks the entry, releases the lock.\<close>

definition loop_at :: "nat option \<Rightarrow> priskv_workqueue \<Rightarrow> priskv_workqueue option" where
  "loop_at i q =
     (case i of
        None \<Rightarrow> Some (q\<lparr>wq_pc := P_idle\<rparr>)
      | Some w \<Rightarrow>
          if w \<in> set (wq_works q) \<and> wq_work q w \<noteq> None
          then Some (q\<lparr>wq_works := remove1 w (wq_works q), wq_pc := P_run w (list_next w (wq_works q))\<rparr>)
          else None)"

text \<open>One step of \<open>priskv_workqueue_process\<close>. A synchronous work is marked as done, another one is freed.\<close>

definition priskv_workqueue_process :: "(nat \<Rightarrow> int) \<Rightarrow> priskv_workqueue \<Rightarrow> priskv_workqueue option" where
  "priskv_workqueue_process run q =
     (case wq_pc q of
        P_idle \<Rightarrow> Some (if 0 < wq_eventfd q then priskv_workqueue_ack q else q)
      | P_acked \<Rightarrow> loop_at (case wq_works q of [] \<Rightarrow> None | w # _ \<Rightarrow> Some w) q
      | P_run w nxt \<Rightarrow> do {
          p \<leftarrow> wq_work q w;
          let v = run (pw_func p);
          loop_at nxt (q\<lparr>wq_executed := wq_executed q @ [(w, pw_func p, v)],
            wq_work := (wq_work q)(w := if pw_sync p then Some (p\<lparr>pw_retval := v, pw_done := True\<rparr>) else None)\<rparr>)
        })"

text \<open>A caller waits for its work only after its kick.\<close>

definition may_return :: "nat \<Rightarrow> priskv_workqueue \<Rightarrow> bool" where
  "may_return w q \<longleftrightarrow> w \<notin> set (wq_unkicked q) \<and> (case wq_work q w of None \<Rightarrow> False | Some p \<Rightarrow> pw_sync p \<and> pw_done p)"

inductive wq_reach :: "(nat \<Rightarrow> int) \<Rightarrow> priskv_workqueue \<Rightarrow> bool" for run where
  create: "wq_reach run priskv_workqueue_create"
| add: "wq_reach run q \<Longrightarrow> wq_reach run (workqueue_add func sync q)"
| kick: "wq_reach run q \<Longrightarrow> w \<in> set (wq_unkicked q) \<Longrightarrow> wq_reach run (priskv_workqueue_kick w q)"
| ret: "wq_reach run q \<Longrightarrow> may_return w q \<Longrightarrow> call_return w q = Some q' \<Longrightarrow> wq_reach run q'"
| process: "wq_reach run q \<Longrightarrow> priskv_workqueue_process run q = Some q' \<Longrightarrow> wq_reach run q'"

fun process_steps :: "(nat \<Rightarrow> int) \<Rightarrow> nat \<Rightarrow> priskv_workqueue \<Rightarrow> priskv_workqueue option" where
  "process_steps run 0 q = Some q"
| "process_steps run (Suc n) q = do { q1 \<leftarrow> priskv_workqueue_process run q; process_steps run n q1 }"

section \<open>Invariant\<close>

fun running :: "process_pc \<Rightarrow> nat list" where
  "running (P_run w nxt) = [w]"
| "running _ = []"

text \<open>The loop still reaches the works that are in the list.\<close>

fun looks_at :: "process_pc \<Rightarrow> bool" where
  "looks_at P_idle = False"
| "looks_at P_acked = True"
| "looks_at (P_run w nxt) = (nxt \<noteq> None)"

definition func_of :: "(nat \<Rightarrow> priskv_work option) \<Rightarrow> nat \<Rightarrow> nat \<times> nat" where
  "func_of work w = (w, pw_func (the (work w)))"

definition done_part :: "(nat \<times> nat \<times> int) list \<Rightarrow> (nat \<times> nat) list" where
  "done_part ex = map (\<lambda>(w, f, v). (w, f)) ex"

definition ids_ok :: "nat \<Rightarrow> (nat \<times> nat) list \<Rightarrow> bool" where
  "ids_ok nxt submitted \<longleftrightarrow> distinct (map fst submitted) \<and> (\<forall>w \<in> fst ` set submitted. w < nxt)"

definition queue_ok :: "(nat \<Rightarrow> int) \<Rightarrow> nat list \<Rightarrow> (nat \<Rightarrow> priskv_work option) \<Rightarrow> nat \<Rightarrow> (nat \<times> nat) list \<Rightarrow> (nat \<times> nat \<times> int) list \<Rightarrow> bool" where
  "queue_ok run todo work nxt submitted executed \<longleftrightarrow>
     submitted = done_part executed @ map (func_of work) todo
     \<and> ids_ok nxt submitted \<and> (\<forall>w \<in> set todo. \<exists>p. work w = Some p \<and> \<not> pw_done p)
     \<and> (\<forall>w f v. (w, f, v) \<in> set executed \<longrightarrow> v = run f)
     \<and> (\<forall>w p. work w = Some p \<and> pw_done p \<longrightarrow> (w, pw_func p, pw_retval p) \<in> set executed)"

definition wake_ok :: "nat list \<Rightarrow> process_pc \<Rightarrow> nat \<Rightarrow> nat list \<Rightarrow> bool" where
  "wake_ok works pc eventfd unkicked \<longleftrightarrow>
     (works \<noteq> [] \<and> \<not> looks_at pc \<longrightarrow> 0 < eventfd \<or> set works \<inter> set unkicked \<noteq> {})
     \<and> (\<forall>w x. pc = P_run w (Some x) \<longrightarrow> works \<noteq> [] \<and> hd works = x)"

definition wq_inv :: "(nat \<Rightarrow> int) \<Rightarrow> priskv_workqueue \<Rightarrow> bool" where
  "wq_inv run q \<longleftrightarrow> queue_ok run (running (wq_pc q) @ wq_works q) (wq_work q) (wq_next q) (wq_submitted q) (wq_executed q)
     \<and> wake_ok (wq_works q) (wq_pc q) (wq_eventfd q) (wq_unkicked q) \<and> set (wq_returned q) \<subseteq> set (wq_executed q)"

lemma func_of_upd [simp]: "w \<notin> set ws \<Longrightarrow> map (func_of (work(w := x))) ws = map (func_of work) ws"
  by (auto simp: func_of_def)

lemma done_part_simps [simp]: "done_part [] = []" "done_part (ex @ [(w, f, v)]) = done_part ex @ [(w, f)]"
  by (simp_all add: done_part_def)

lemma ids_ok_add: "ids_ok nxt submitted \<Longrightarrow> ids_ok (Suc nxt) (submitted @ [(nxt, func)])"
  by (auto simp: ids_ok_def less_Suc_eq image_iff)

lemma queue_ok_todo:
  assumes "queue_ok run todo work nxt submitted executed"
  shows "distinct todo" "nxt \<notin> set todo"
proof -
  have "map fst submitted = map fst executed @ todo"
    using assms by (simp add: queue_ok_def done_part_def func_of_def comp_def case_prod_beta)
  moreover from this have "fst ` set submitted = fst ` set executed \<union> set todo" by (metis list.set_map set_append)
  moreover have "ids_ok nxt submitted" using assms unfolding queue_ok_def by blast
  ultimately show "distinct todo" "nxt \<notin> set todo" by (auto simp: ids_ok_def)
qed

lemma queue_ok_add:
  assumes "queue_ok run todo work nxt submitted executed"
  shows "queue_ok run (todo @ [nxt]) (work(nxt \<mapsto> priskv_work_init func sync)) (Suc nxt) (submitted @ [(nxt, func)]) executed"
proof -
  have "submitted @ [(nxt, func)] = done_part executed @ map (func_of (work(nxt \<mapsto> priskv_work_init func sync))) (todo @ [nxt])"
    using assms queue_ok_todo(2) [OF assms] by (simp add: queue_ok_def) (simp add: func_of_def priskv_work_init_def)
  with assms show ?thesis unfolding queue_ok_def
    by (intro conjI ids_ok_add) (auto simp: priskv_work_init_def split: if_splits)
qed

text \<open>The work in front has run.\<close>

lemma queue_ok_run:
  assumes "queue_ok run (w # todo) work nxt submitted executed" "work w = Some p"
  shows "queue_ok run todo (work(w := if pw_sync p then Some (p\<lparr>pw_retval := run (pw_func p), pw_done := True\<rparr>) else None))
    nxt submitted (executed @ [(w, pw_func p, run (pw_func p))])"
proof -
  have "w \<notin> set todo" using queue_ok_todo(1) [OF assms(1)] by simp
  moreover have "func_of work w = (w, pw_func p)" using assms(2) by (simp add: func_of_def)
  ultimately show ?thesis using assms unfolding queue_ok_def by (auto split: if_splits)
qed

lemma queue_ok_return:
  assumes "queue_ok run todo work nxt submitted executed" "work w = Some p" "pw_done p"
  shows "queue_ok run todo (work(w := None)) nxt submitted executed" "(w, pw_func p, pw_retval p) \<in> set executed"
proof -
  have "w \<notin> set todo" using assms by (auto simp: queue_ok_def)
  with assms(1) show "queue_ok run todo (work(w := None)) nxt submitted executed" by (auto simp: queue_ok_def split: if_splits)
  show "(w, pw_func p, pw_retval p) \<in> set executed" using assms by (auto simp: queue_ok_def)
qed

text \<open>Entering the loop, or going on with it, at the work in front of the list.\<close>

lemma loop_at_front:
  assumes "queue_ok run (wq_works q) (wq_work q) (wq_next q) (wq_submitted q) (wq_executed q)" "set (wq_returned q) \<subseteq> set (wq_executed q)"
    "wq_works q = w # ws"
  shows "\<exists>q'. loop_at (Some w) q = Some q' \<and> wq_inv run q' \<and> wq_unkicked q' = wq_unkicked q \<and> wq_works q' = ws
    \<and> (\<exists>nxt. wq_pc q' = P_run w nxt) \<and> wq_submitted q' = wq_submitted q"
proof -
  have "wq_work q w \<noteq> None" using assms(1,3) by (auto simp: queue_ok_def)
  then have "loop_at (Some w) q = Some (q\<lparr>wq_works := ws, wq_pc := P_run w (case ws of [] \<Rightarrow> None | x # _ \<Rightarrow> Some x)\<rparr>)"
    using assms(3) by (simp add: loop_at_def)
  then show ?thesis using assms by (auto simp: wq_inv_def wake_ok_def split: list.splits)
qed

lemma process_inv:
  assumes "wq_inv run q"
  shows "\<exists>q'. priskv_workqueue_process run q = Some q' \<and> wq_inv run q' \<and> wq_unkicked q' = wq_unkicked q \<and> wq_submitted q' = wq_submitted q"
proof (cases "wq_pc q")
  case P_idle
  with assms show ?thesis by (auto simp: priskv_workqueue_process_def priskv_workqueue_ack_def wq_inv_def wake_ok_def)
next
  case P_acked
  show ?thesis
  proof (cases "wq_works q")
    case Nil
    with P_acked assms show ?thesis by (auto simp: priskv_workqueue_process_def loop_at_def wq_inv_def wake_ok_def)
  next
    case (Cons w ws)
    with P_acked assms loop_at_front [of run q w ws] show ?thesis by (auto simp: priskv_workqueue_process_def wq_inv_def)
  qed
next
  case (P_run w nxt)
  then have ok: "queue_ok run (w # wq_works q) (wq_work q) (wq_next q) (wq_submitted q) (wq_executed q)" using assms by (simp add: wq_inv_def)
  then obtain p where p: "wq_work q w = Some p" by (auto simp: queue_ok_def)
  let ?q = "q\<lparr>wq_executed := wq_executed q @ [(w, pw_func p, run (pw_func p))],
    wq_work := (wq_work q)(w := if pw_sync p then Some (p\<lparr>pw_retval := run (pw_func p), pw_done := True\<rparr>) else None)\<rparr>"
  have step: "priskv_workqueue_process run q = loop_at nxt ?q" using P_run p by (simp add: priskv_workqueue_process_def Let_def)
  have ok': "queue_ok run (wq_works ?q) (wq_work ?q) (wq_next ?q) (wq_submitted ?q) (wq_executed ?q)"
    "set (wq_returned ?q) \<subseteq> set (wq_executed ?q)" using queue_ok_run [OF ok p] assms by (auto simp: wq_inv_def)
  show ?thesis
  proof (cases nxt)
    case None
    with ok' assms P_run show ?thesis unfolding step by (auto simp: loop_at_def wq_inv_def wake_ok_def)
  next
    case (Some x)
    then obtain ws where "wq_works ?q = x # ws" using assms P_run by (cases "wq_works q") (auto simp: wq_inv_def wake_ok_def)
    with loop_at_front [OF ok', of x ws] Some show ?thesis unfolding step by auto
  qed
qed

lemma wq_reach_inv: "wq_reach run q \<Longrightarrow> wq_inv run q"
proof (induction rule: wq_reach.induct)
  case create
  then show ?case by (simp add: wq_inv_def priskv_workqueue_create_def queue_ok_def wake_ok_def ids_ok_def)
next
  case (add q func sync)
  then show ?case using queue_ok_add [of run "running (wq_pc q) @ wq_works q" "wq_work q" "wq_next q" "wq_submitted q" "wq_executed q" func sync]
    by (auto simp: wq_inv_def workqueue_add_def Let_def wake_ok_def)
next
  case (kick q w)
  then show ?case by (auto simp: wq_inv_def priskv_workqueue_kick_def wake_ok_def)
next
  case (ret q w q')
  then obtain p where "wq_work q w = Some p" "pw_done p" by (auto simp: may_return_def split: option.splits)
  with ret queue_ok_return [of run "running (wq_pc q) @ wq_works q" "wq_work q" "wq_next q" "wq_submitted q" "wq_executed q" w p]
  show ?case by (auto simp: wq_inv_def call_return_def)
next
  case (process q q')
  with process_inv [of run q] show ?case by simp
qed

section \<open>Progress\<close>

definition quiescent :: "priskv_workqueue \<Rightarrow> bool" where
  "quiescent q \<longleftrightarrow> wq_pc q = P_idle \<and> wq_works q = []"

fun pc_rank :: "process_pc \<Rightarrow> nat" where
  "pc_rank P_idle = 2"
| "pc_rank P_acked = 1"
| "pc_rank (P_run w nxt) = 3"

definition wq_rank :: "priskv_workqueue \<Rightarrow> nat" where
  "wq_rank q = (if quiescent q then 0 else 4 * length (wq_works q) + pc_rank (wq_pc q))"

lemma Suc_length_remove1: "w \<in> set ws \<Longrightarrow> Suc (length (remove1 w ws)) = length ws"
  by (induction ws) auto

lemma loop_at_rank:
  "loop_at i q = Some q' \<Longrightarrow> (i = None \<and> wq_works q' = wq_works q \<and> wq_pc q' = P_idle)
     \<or> (\<exists>w nxt. Suc (length (wq_works q')) = length (wq_works q) \<and> wq_pc q' = P_run w nxt)"
  by (auto simp: loop_at_def Suc_length_remove1 split: option.splits if_splits)

lemma process_rank:
  assumes "wq_inv run q" "wq_unkicked q = []" "\<not> quiescent q" "priskv_workqueue_process run q = Some q'"
  shows "wq_rank q' < wq_rank q"
proof (cases "wq_pc q")
  case P_idle
  then have "0 < wq_eventfd q" using assms(1-3) by (auto simp: wq_inv_def wake_ok_def quiescent_def)
  with P_idle assms(3,4) show ?thesis by (auto simp: wq_rank_def priskv_workqueue_process_def priskv_workqueue_ack_def quiescent_def)
next
  case P_acked
  show ?thesis
  proof (cases "wq_works q")
    case Nil
    with P_acked loop_at_rank [of None q q'] assms(4) show ?thesis
      by (auto simp: wq_rank_def priskv_workqueue_process_def quiescent_def)
  next
    case (Cons w ws)
    with P_acked loop_at_rank [of "Some w" q q'] assms(4) show ?thesis
      by (auto simp: wq_rank_def priskv_workqueue_process_def quiescent_def)
  qed
next
  case (P_run w nxt)
  then obtain p where "wq_work q w = Some p" using assms(1) by (auto simp: wq_inv_def queue_ok_def)
  then obtain q1 where "loop_at nxt q1 = Some q'" "wq_works q1 = wq_works q"
    using assms(4) P_run by (auto simp: priskv_workqueue_process_def Let_def)
  with loop_at_rank [of nxt q1 q'] P_run show ?thesis
    by (auto simp: wq_rank_def quiescent_def)
qed

lemma process_drains:
  "wq_inv run q \<Longrightarrow> wq_unkicked q = [] \<Longrightarrow>
   \<exists>n q'. process_steps run n q = Some q' \<and> quiescent q' \<and> wq_inv run q' \<and> wq_submitted q' = wq_submitted q"
proof (induction "wq_rank q" arbitrary: q rule: less_induct)
  case less
  show ?case
  proof (cases "quiescent q")
    case True
    then have "process_steps run 0 q = Some q \<and> quiescent q" by simp
    with less.prems show ?thesis by blast
  next
    case False
    obtain q1 where q1: "priskv_workqueue_process run q = Some q1" "wq_inv run q1" "wq_unkicked q1 = []" "wq_submitted q1 = wq_submitted q"
      using process_inv [OF less.prems(1)] less.prems(2) by auto
    from less.hyps [OF process_rank [OF less.prems False q1(1)] q1(2,3)] obtain n q' where
      "process_steps run n q1 = Some q'" "quiescent q'" "wq_inv run q'" "wq_submitted q' = wq_submitted q" using q1(4) by auto
    moreover from this q1(1) have "process_steps run (Suc n) q = Some q'" by simp
    ultimately show ?thesis by blast
  qed
qed

text \<open>
  C15: In every interleaving of the threads, works run in the order in which they were added, each at
  most once and with its own function; the thread of the queue never touches a work that is gone; a
  call returns the value of its function. And no wake-up is lost: once every thread that added a work
  has kicked, the thread of the queue, running alone, reaches a state in which every work has run.
\<close>

theorem workqueue_runs_all:
  assumes "wq_reach run q"
  shows "wq_submitted q = done_part (wq_executed q) @ map (func_of (wq_work q)) (running (wq_pc q) @ wq_works q)
    \<and> distinct (map fst (wq_submitted q))
    \<and> priskv_workqueue_process run q \<noteq> None
    \<and> (\<forall>w f v. (w, f, v) \<in> set (wq_returned q) \<longrightarrow> v = run f \<and> (w, f) \<in> set (wq_submitted q))
    \<and> (wq_unkicked q = [] \<longrightarrow> (\<exists>n q'. process_steps run n q = Some q' \<and> quiescent q' \<and> done_part (wq_executed q') = wq_submitted q))"
proof -
  have inv: "wq_inv run q" using assms by (rule wq_reach_inv)
  then have fifo: "wq_submitted q = done_part (wq_executed q) @ map (func_of (wq_work q)) (running (wq_pc q) @ wq_works q)"
    and ids: "ids_ok (wq_next q) (wq_submitted q)" unfolding wq_inv_def queue_ok_def by blast+
  have ret: "v = run f \<and> (w, f) \<in> set (wq_submitted q)" if "(w, f, v) \<in> set (wq_returned q)" for w f v
  proof -
    have ex: "(w, f, v) \<in> set (wq_executed q)" using inv that by (auto simp: wq_inv_def)
    then have "(w, f) \<in> set (done_part (wq_executed q))" by (force simp: done_part_def)
    with ex inv fifo show ?thesis by (auto simp: wq_inv_def queue_ok_def)
  qed
  have live: "\<exists>n q'. process_steps run n q = Some q' \<and> quiescent q' \<and> done_part (wq_executed q') = wq_submitted q" if no: "wq_unkicked q = []"
  proof -
    obtain n q' where "process_steps run n q = Some q'" "quiescent q'" "wq_inv run q'" "wq_submitted q' = wq_submitted q"
      using process_drains [OF inv no] by blast
    moreover from this have "wq_submitted q' = done_part (wq_executed q')" by (simp add: wq_inv_def queue_ok_def quiescent_def)
    ultimately show ?thesis by metis
  qed
  show ?thesis using fifo ids ret live process_inv [OF inv] by (auto simp: ids_ok_def)
qed

text \<open>A call and a submission: the second work is added while the first one runs, after the loop has read
  the list head as its successor.\<close>

definition demo_queue :: "priskv_workqueue" where
  "demo_queue = (let q = priskv_workqueue_kick 0 (workqueue_add 5 True priskv_workqueue_create);
     q = the (process_steps (\<lambda>f. int f) 2 q)
     in priskv_workqueue_kick 1 (workqueue_add 6 False q))"

lemma process_steps_reach: "wq_reach run q \<Longrightarrow> process_steps run n q = Some q' \<Longrightarrow> wq_reach run q'"
  by (induction n arbitrary: q) (auto split: bind_splits intro: wq_reach.process)

lemma demo_queue_reach: "wq_reach (\<lambda>f. int f) demo_queue"
proof -
  define q where "q = priskv_workqueue_kick 0 (workqueue_add 5 True priskv_workqueue_create)"
  have "wq_reach (\<lambda>f. int f) q" unfolding q_def
    by (intro wq_reach.kick wq_reach.add wq_reach.create) (simp add: workqueue_add_def priskv_workqueue_create_def Let_def)
  moreover obtain q' where "process_steps (\<lambda>f. int f) 2 q = Some q'" "wq_next q' = 1"
    by (simp add: numeral_2_eq_2 q_def priskv_workqueue_process_def loop_at_def priskv_workqueue_kick_def priskv_workqueue_ack_def
        workqueue_add_def priskv_workqueue_create_def Let_def)
  moreover from this calculation have "wq_reach (\<lambda>f. int f) q'" by (blast intro: process_steps_reach)
  moreover from this have "wq_reach (\<lambda>f. int f) (workqueue_add 6 False q')" by (rule wq_reach.add)
  moreover have "1 \<in> set (wq_unkicked (workqueue_add 6 False q'))" using \<open>wq_next q' = 1\<close> by (simp add: workqueue_add_def Let_def)
  ultimately show ?thesis unfolding demo_queue_def Let_def q_def [symmetric] by (simp add: wq_reach.kick)
qed

theorem workqueue_runs_all_witness:
  "wq_pc demo_queue = P_run 0 None \<and> wq_works demo_queue = [1]
   \<and> (\<exists>n q'. process_steps (\<lambda>f. int f) n demo_queue = Some q' \<and> quiescent q' \<and> done_part (wq_executed q') = [(0, 5), (1, 6)])"
proof -
  have f: "wq_pc demo_queue = P_run 0 None" "wq_works demo_queue = [1]" "wq_unkicked demo_queue = []" "wq_submitted demo_queue = [(0, 5), (1, 6)]"
    by (simp_all add: demo_queue_def numeral_2_eq_2 priskv_workqueue_process_def loop_at_def priskv_workqueue_kick_def priskv_workqueue_ack_def
        workqueue_add_def priskv_workqueue_create_def Let_def)
  have "\<exists>n q'. process_steps (\<lambda>f. int f) n demo_queue = Some q' \<and> quiescent q' \<and> done_part (wq_executed q') = wq_submitted demo_queue"
    using workqueue_runs_all [OF demo_queue_reach] f(3) by blast
  with f show ?thesis by metis
qed

end
