(* ===== verification/Memory.thy ===== *)
theory Memory
  imports Utils Buddy KV
begin

unbundle bit_operations_syntax

text \<open>
  Memory of the store (\<open>server/memory.c\<close>, \<open>memory.h\<close>): creation of a memory file, its mapping when the
  server starts, and anonymous memory between guard pages. A file is its size and what its first
  bytes hold as a header; the rest of a new file is zero. The results of the system calls and of
  libmount are the fields of \<open>mem_env\<close>. \<open>None\<close> is a failed assertion. The regions that are unmapped
  or cleared are results, as pairs of an address and a length.
\<close>

section \<open>Model\<close>

definition PRISKV_MEM_MAGIC :: nat where "PRISKV_MEM_MAGIC = 0x48504B56"
definition PRISKV_MEM_ALIGN_UP :: nat where "PRISKV_MEM_ALIGN_UP = 4096"
definition PRISKV_MEM_HEADER_SIZE :: nat where "PRISKV_MEM_HEADER_SIZE = 4096"

record priskv_mem_header =
  mh_magic :: nat
  mh_max_key_length :: nat
  mh_max_keys :: nat
  mh_value_block_size :: nat
  mh_value_blocks :: nat
  mh_feature0 :: nat

record mem_data =
  md_size :: nat
  md_header :: priskv_mem_header

type_synonym mem_fs = "string \<Rightarrow> mem_data option"

datatype priskv_mem_file =
    Mem_mapped addr nat priskv_mem_header
  | Mem_anon addr nat addr nat

text \<open>\<open>me_stat\<close> is the error of \<open>stat\<close> on a missing file. \<open>me_fstype\<close> is the type of the file system of
  a path with its mount options, or the error of the lookup.\<close>

record mem_env =
  me_stat :: int
  me_open :: "int option"
  me_fstype :: "string \<Rightarrow> int + (string \<times> string)"
  me_getpagesize :: nat
  me_ftruncate :: bool
  me_mmap :: "nat \<Rightarrow> int + addr"
  me_calloc :: bool

abbreviation MEM_ENOENT :: int where "MEM_ENOENT \<equiv> 2"
abbreviation MEM_EEXIST :: int where "MEM_EEXIST \<equiv> 17"
abbreviation MEM_ENODEV :: int where "MEM_ENODEV \<equiv> 19"
abbreviation MEM_ENOTSUP :: int where "MEM_ENOTSUP \<equiv> 95"

fun starts_with :: "string \<Rightarrow> string \<Rightarrow> bool" where
  "starts_with [] s = True"
| "starts_with (c # cs) [] = False"
| "starts_with (c # cs) (d # ds) = (c = d \<and> starts_with cs ds)"

fun strstr :: "string \<Rightarrow> string \<Rightarrow> bool" where
  "strstr [] needle = starts_with needle []"
| "strstr (c # cs) needle = (starts_with needle (c # cs) \<or> strstr cs needle)"

definition priskv_mem_file_page_size :: "mem_env \<Rightarrow> string \<Rightarrow> int" where
  "priskv_mem_file_page_size env path =
     (case me_fstype env path of
        Inl err \<Rightarrow> - err
      | Inr (fstype, pagesize) \<Rightarrow>
          if fstype = ''hugetlbfs'' then
            if strstr pagesize ''pagesize=2M'' then 1024 * 1024 * 2
            else if strstr pagesize ''pagesize=1G'' then 1024 * 1024 * 1024
            else - MEM_ENOTSUP
          else if fstype = ''tmpfs'' then int (me_getpagesize env)
          else - MEM_ENODEV)"

definition align64 :: "nat \<Rightarrow> nat \<Rightarrow> nat" where
  "align64 x a = unat (ALIGN_UP (of_nat x :: u64) (of_nat a))"

definition key_size_of :: "nat \<Rightarrow> nat \<Rightarrow> nat" where
  "key_size_of max_key_length' max_keys' = u64n ((key_struct_size + max_key_length') * max_keys')"

definition value_size_of :: "nat \<Rightarrow> nat \<Rightarrow> nat" where
  "value_size_of value_blocks' value_block_size' = priskv_buddy_mem_size (u32n value_blocks') value_block_size'"

definition mem_file_size :: "priskv_mem_header \<Rightarrow> nat \<Rightarrow> nat" where
  "mem_file_size hdr pagesize =
     align64 (u64n (PRISKV_MEM_HEADER_SIZE + align64 (key_size_of (mh_max_key_length hdr) (mh_max_keys hdr)) PRISKV_MEM_ALIGN_UP
                    + value_size_of (mh_value_blocks hdr) (mh_value_block_size hdr))) pagesize"

text \<open>The regions that the threads clear, one batch each.\<close>

definition priskv_mem_clear :: "addr \<Rightarrow> nat \<Rightarrow> nat \<Rightarrow> (addr \<times> nat) list" where
  "priskv_mem_clear a sz nthreads =
     (if nthreads = 0 \<or> nthreads = 1 then [(a, sz)]
      else let batch_size = sz div nthreads in map (\<lambda>i. (a + batch_size * i, batch_size)) [0..<nthreads])"

definition priskv_mem_create ::
  "mem_env \<Rightarrow> string option \<Rightarrow> nat \<Rightarrow> nat \<Rightarrow> nat \<Rightarrow> nat \<Rightarrow> mem_fs \<Rightarrow> (int \<times> mem_fs) option"
where
  "priskv_mem_create env path max_key_length' max_keys' value_block_size' value_blocks' fs = do {
     path \<leftarrow> path;
     if max_key_length' = 0 \<or> max_keys' = 0 \<or> value_block_size' = 0 \<or> value_blocks' = 0
       \<or> \<not> IS_POWER_OF_2 (of_nat value_blocks' :: u64) then None
     else Some (
       if fs path \<noteq> None then (- MEM_EEXIST, fs)
       else if me_stat env \<noteq> MEM_ENOENT then (- me_stat env, fs)
       else case me_open env of
         Some err \<Rightarrow> (- err, fs)
       | None \<Rightarrow>
           let pagesize = priskv_mem_file_page_size env path;
               hdr = \<lparr>mh_magic = PRISKV_MEM_MAGIC, mh_max_key_length = max_key_length', mh_max_keys = max_keys',
                      mh_value_block_size = value_block_size', mh_value_blocks = value_blocks', mh_feature0 = 0\<rparr>;
               file_size = mem_file_size hdr (nat pagesize);
               removed = fs(path := None)
           in if pagesize < 0 then (pagesize, removed)
              else if \<not> me_ftruncate env then (- 1, removed)
              else case me_mmap env file_size of
                Inl err \<Rightarrow> (- err, removed)
              | Inr a \<Rightarrow> (0, fs(path \<mapsto> \<lparr>md_size = file_size, md_header = hdr\<rparr>)))
   }"

text \<open>The result \<open>None\<close> inside \<open>Some\<close> is the null pointer.\<close>

definition priskv_mem_load :: "mem_env \<Rightarrow> string option \<Rightarrow> mem_fs \<Rightarrow> priskv_mem_file option option" where
  "priskv_mem_load env path fs =
     (case path of None \<Rightarrow> Some None
      | Some path \<Rightarrow>
         (case fs path of None \<Rightarrow> Some None
          | Some file \<Rightarrow>
              if me_open env \<noteq> None then Some None
              else let pagesize = priskv_mem_file_page_size env path; hdr = md_header file in
                if pagesize < 0 then Some None
                else case me_mmap env (md_size file) of
                  Inl err \<Rightarrow> Some None
                | Inr a \<Rightarrow>
                    if mh_magic hdr \<noteq> PRISKV_MEM_MAGIC then Some None
                    else if mh_feature0 hdr \<noteq> 0 then Some None
                    else if \<not> IS_POWER_OF_2 (of_nat (mh_value_blocks hdr) :: u64) then Some None
                    else if \<not> IS_POWER_OF_2 (of_nat (mh_value_block_size hdr) :: u32) then Some None
                    else if mem_file_size hdr (nat pagesize) \<noteq> md_size file then Some None
                    else if \<not> me_calloc env then None
                    else Some (Some (Mem_mapped a (md_size file) hdr))))"

definition priskv_mem_malloc :: "mem_env \<Rightarrow> nat \<Rightarrow> bool \<Rightarrow> addr option" where
  "priskv_mem_malloc env sz guard =
     (let page_size = me_getpagesize env;
          real_size = align64 sz page_size + (if guard then 2 * page_size else 0)
      in case me_mmap env (u64n real_size) of
           Inl err \<Rightarrow> None
         | Inr ptr \<Rightarrow> Some (if guard then ptr + page_size else ptr))"

text \<open>The region that is unmapped.\<close>

definition priskv_mem_free :: "mem_env \<Rightarrow> addr option \<Rightarrow> nat \<Rightarrow> bool \<Rightarrow> (addr \<times> nat) list" where
  "priskv_mem_free env ptr sz guard =
     (case ptr of None \<Rightarrow> []
      | Some ptr \<Rightarrow>
          let page_size = me_getpagesize env; sz' = align64 sz page_size
          in if guard then [(ptr - page_size, u64n (sz' + 2 * page_size))] else [(ptr, sz')])"

definition priskv_mem_anon :: "mem_env \<Rightarrow> nat \<Rightarrow> nat \<Rightarrow> nat \<Rightarrow> nat \<Rightarrow> priskv_mem_file option" where
  "priskv_mem_anon env max_key_length' max_keys' value_block_size' value_blocks' =
     (let aligned_key_size = align64 (key_size_of max_key_length' max_keys') PRISKV_MEM_ALIGN_UP;
          value_size = value_size_of value_blocks' value_block_size'
      in if \<not> me_calloc env then None
         else do {
           key_addr \<leftarrow> priskv_mem_malloc env aligned_key_size True;
           value_addr \<leftarrow> priskv_mem_malloc env value_size True;
           Some (Mem_anon key_addr aligned_key_size value_addr value_size)
         })"

fun priskv_mem_close :: "mem_env \<Rightarrow> priskv_mem_file \<Rightarrow> (addr \<times> nat) list" where
  "priskv_mem_close env (Mem_mapped a len hdr) = [(a, len)]"
| "priskv_mem_close env (Mem_anon ka kl va vl) = priskv_mem_free env (Some ka) kl True @ priskv_mem_free env (Some va) vl True"

fun priskv_mem_header_addr :: "priskv_mem_file \<Rightarrow> addr option" where
  "priskv_mem_header_addr (Mem_mapped a len hdr) = Some a"
| "priskv_mem_header_addr (Mem_anon ka kl va vl) = None"

fun priskv_mem_key_addr :: "priskv_mem_file \<Rightarrow> addr" where
  "priskv_mem_key_addr (Mem_mapped a len hdr) = a + PRISKV_MEM_HEADER_SIZE"
| "priskv_mem_key_addr (Mem_anon ka kl va vl) = ka"

fun priskv_mem_value_addr :: "priskv_mem_file \<Rightarrow> addr" where
  "priskv_mem_value_addr (Mem_mapped a len hdr) =
     a + PRISKV_MEM_HEADER_SIZE + align64 (key_size_of (mh_max_key_length hdr) (mh_max_keys hdr)) PRISKV_MEM_ALIGN_UP"
| "priskv_mem_value_addr (Mem_anon ka kl va vl) = va"

section \<open>Sizes\<close>

lemma align64_eq:
  assumes "k < 64" "x + 2 ^ k \<le> 2 ^ 64"
  shows "align64 x (2 ^ k) = (x + 2 ^ k - 1) div 2 ^ k * 2 ^ k"
proof -
  have p: "0 < (2 :: nat) ^ k" by simp
  then have "x < 2 ^ 64" by (rule less_le_trans [OF less_add_same_cancel1 [THEN iffD2] assms(2)])
  then have "unat (of_nat x :: u64) = x" by (simp add: unsigned_of_nat take_bit_nat_eq_self)
  moreover have "x + 2 ^ k - 1 < 2 ^ 64" using p by (intro less_le_trans [OF _ assms(2)]) simp
  ultimately show ?thesis using assms(1) unat_ALIGN_UP [of k "of_nat x :: u64"] by (simp add: align64_def)
qed

lemma round_up_bounds: "0 < m \<Longrightarrow> x \<le> (x + m - 1) div m * m \<and> (x + m - 1) div m * m < x + (m :: nat)"
proof -
  assume m: "0 < m"
  define d r where "d = (x + m - 1) div m * m" and "r = (x + m - 1) mod m"
  have "d + r = x + m - 1" unfolding d_def r_def by (rule div_mult_mod_eq)
  moreover have "r < m" using m by (simp add: r_def)
  ultimately have "x \<le> d \<and> d < x + m" using m by linarith
  then show ?thesis by (simp add: d_def)
qed

lemma align64_bounds:
  assumes "k < 64" "x + 2 ^ k \<le> 2 ^ 64"
  shows "x \<le> align64 x (2 ^ k)" "align64 x (2 ^ k) < x + 2 ^ k" "2 ^ k dvd align64 x (2 ^ k)"
  using round_up_bounds [of "2 ^ k" x] by (simp_all add: align64_eq [OF assms])

text \<open>The limits of \<open>server/rdma.h\<close> that the command lines check.\<close>

definition mem_limits :: "nat \<Rightarrow> nat \<Rightarrow> nat \<Rightarrow> nat \<Rightarrow> bool" where
  "mem_limits len keys bsize nblocks \<longleftrightarrow> 0 < len \<and> len \<le> 1024 \<and> 0 < keys \<and> keys \<le> 2 ^ 30 \<and> 0 < bsize \<and> bsize \<le> 2 ^ 20 \<and> 0 < nblocks \<and> nblocks \<le> 2 ^ 30"

lemma mem_sizes:
  assumes "mem_limits len keys bsize nblocks"
  shows "key_size_of len keys = priskv_mem_key_size len * keys" "key_size_of len keys < 2 ^ 41"
    "value_size_of nblocks bsize = nblocks * (bsize + 8)" "value_size_of nblocks bsize < 2 ^ 51"
    "priskv_buddy_mem_size nblocks bsize = value_size_of nblocks bsize"
proof -
  have l: "len \<le> 1024" "keys \<le> 2 ^ 30" "bsize \<le> 2 ^ 20" "nblocks \<le> 2 ^ 30" using assms by (auto simp: mem_limits_def)
  have k: "(key_struct_size + len) * keys \<le> (88 + 1024) * 2 ^ 30" using l by (intro mult_le_mono) auto
  then show "key_size_of len keys = priskv_mem_key_size len * keys" "key_size_of len keys < 2 ^ 41"
    using l by (simp_all add: key_size_of_def priskv_mem_key_size_def wrap_simps)
  have v: "nblocks * (bsize + 8) \<le> 2 ^ 30 * (2 ^ 20 + 8)" using l by (intro mult_le_mono) auto
  then show "value_size_of nblocks bsize = nblocks * (bsize + 8)" "value_size_of nblocks bsize < 2 ^ 51"
    "priskv_buddy_mem_size nblocks bsize = value_size_of nblocks bsize"
    using l by (simp_all add: value_size_of_def priskv_buddy_mem_size_def wrap_simps)
qed

text \<open>Header, keys and values fit into the file one after the other.\<close>

lemma mem_layout:
  assumes "mem_limits (mh_max_key_length hdr) (mh_max_keys hdr) (mh_value_block_size hdr) (mh_value_blocks hdr)" "k \<le> 30"
  defines "ka \<equiv> align64 (key_size_of (mh_max_key_length hdr) (mh_max_keys hdr)) PRISKV_MEM_ALIGN_UP"
  shows "key_size_of (mh_max_key_length hdr) (mh_max_keys hdr) \<le> ka"
    "PRISKV_MEM_HEADER_SIZE + ka + value_size_of (mh_value_blocks hdr) (mh_value_block_size hdr) \<le> mem_file_size hdr (2 ^ k)"
    "4096 dvd ka" "2 ^ k dvd mem_file_size hdr (2 ^ k)"
proof -
  note sz = mem_sizes [OF assms(1)]
  have "key_size_of (mh_max_key_length hdr) (mh_max_keys hdr) + 2 ^ 12 \<le> 2 ^ 64" using sz(2) by simp
  from align64_bounds [OF _ this] have ka: "key_size_of (mh_max_key_length hdr) (mh_max_keys hdr) \<le> ka"
    "ka < key_size_of (mh_max_key_length hdr) (mh_max_keys hdr) + 4096" "4096 dvd ka"
    by (simp_all add: ka_def PRISKV_MEM_ALIGN_UP_def)
  then show "key_size_of (mh_max_key_length hdr) (mh_max_keys hdr) \<le> ka" "4096 dvd ka" by simp_all
  let ?n = "PRISKV_MEM_HEADER_SIZE + ka + value_size_of (mh_value_blocks hdr) (mh_value_block_size hdr)"
  have n: "?n < 2 ^ 52" using ka(2) sz(2,4) by (simp add: PRISKV_MEM_HEADER_SIZE_def)
  moreover have "(2 :: nat) ^ k \<le> 2 ^ 30" using assms(2) by (rule power_increasing) simp
  ultimately have "?n + 2 ^ k \<le> 2 ^ 64" by simp
  from align64_bounds [OF _ this] n assms(2) show "?n \<le> mem_file_size hdr (2 ^ k)" "2 ^ k dvd mem_file_size hdr (2 ^ k)"
    by (simp_all add: mem_file_size_def ka_def u64n_id)
qed

section \<open>Properties\<close>

text \<open>
  C26: Within the limits of the command line and on a supported file system, creating a memory file
  succeeds, and loading it afterwards succeeds exactly when the block size is a power of 2, which
  creation does not check. A loaded file has the page-aligned area of keys behind the header, large
  enough for the slab, and behind it the area of values, large enough for the buddy with its tree;
  both end within the mapping, and closing unmaps the whole of it.
\<close>

theorem mem_create_load:
  assumes "mem_limits len keys bsize nblocks" "IS_POWER_OF_2 (of_nat nblocks :: u64)" "fs path = None"
    "me_stat env = MEM_ENOENT" "me_open env = None" "me_ftruncate env" "me_calloc env" "\<forall>n. \<exists>a. me_mmap env n = Inr a"
    "priskv_mem_file_page_size env path = 2 ^ k" "k \<le> 30"
  shows "\<exists>fs'. priskv_mem_create env (Some path) len keys bsize nblocks fs = Some (0, fs')
    \<and> (\<not> IS_POWER_OF_2 (of_nat bsize :: u32) \<longrightarrow> priskv_mem_load env (Some path) fs' = Some None)
    \<and> (IS_POWER_OF_2 (of_nat bsize :: u32) \<longrightarrow> (\<exists>m a sz. priskv_mem_load env (Some path) fs' = Some (Some m) \<and> me_mmap env sz = Inr a
        \<and> priskv_mem_header_addr m = Some a \<and> priskv_mem_key_addr m = a + PRISKV_MEM_HEADER_SIZE
        \<and> priskv_mem_key_addr m + priskv_mem_key_size len * keys \<le> priskv_mem_value_addr m
        \<and> 4096 dvd priskv_mem_value_addr m - a
        \<and> priskv_mem_value_addr m + priskv_buddy_mem_size nblocks bsize \<le> a + sz \<and> priskv_mem_close env m = [(a, sz)]))"
proof -
  define hdr where "hdr = \<lparr>mh_magic = PRISKV_MEM_MAGIC, mh_max_key_length = len, mh_max_keys = keys,
    mh_value_block_size = bsize, mh_value_blocks = nblocks, mh_feature0 = 0\<rparr>"
  define sz where "sz = mem_file_size hdr (2 ^ k)"
  define fs' where "fs' = fs(path \<mapsto> \<lparr>md_size = sz, md_header = hdr\<rparr>)"
  obtain a where a: "me_mmap env sz = Inr a" using assms(8) by blast
  have nat_k: "nat ((2 :: int) ^ k) = 2 ^ k" by (simp add: nat_power_eq)
  have create: "priskv_mem_create env (Some path) len keys bsize nblocks fs = Some (0, fs')"
    using assms(1-6,9) a by (auto simp: priskv_mem_create_def mem_limits_def nat_k hdr_def sz_def fs'_def Let_def)
  have load: "priskv_mem_load env (Some path) fs' = (if IS_POWER_OF_2 (of_nat bsize :: u32) then Some (Some (Mem_mapped a sz hdr)) else Some None)"
    using assms(2,5,7,9) a by (simp add: priskv_mem_load_def fs'_def nat_k sz_def hdr_def Let_def)
  have lim: "mem_limits (mh_max_key_length hdr) (mh_max_keys hdr) (mh_value_block_size hdr) (mh_value_blocks hdr)"
    using assms(1) by (simp add: hdr_def)
  have "priskv_mem_key_addr (Mem_mapped a sz hdr) + priskv_mem_key_size len * keys \<le> priskv_mem_value_addr (Mem_mapped a sz hdr)"
    "4096 dvd priskv_mem_value_addr (Mem_mapped a sz hdr) - a"
    "priskv_mem_value_addr (Mem_mapped a sz hdr) + priskv_buddy_mem_size nblocks bsize \<le> a + sz"
    using mem_layout [OF lim assms(10)] mem_sizes [OF assms(1)] by (simp_all add: hdr_def sz_def PRISKV_MEM_HEADER_SIZE_def)
  with create load a show ?thesis by (cases "IS_POWER_OF_2 (of_nat bsize :: u32)") auto
qed

text \<open>Guarded memory: what is freed is what was mapped.\<close>

lemma mem_malloc_free:
  assumes "priskv_mem_malloc env sz guard = Some ptr"
  shows "\<exists>a len. me_mmap env len = Inr a \<and> priskv_mem_free env (Some ptr) sz guard = [(a, len)]"
proof -
  have "align64 sz p < 18446744073709551616" for p
    using unsigned_less [of "ALIGN_UP (of_nat sz :: u64) (of_nat p)"] by (simp add: align64_def)
  with assms show ?thesis
    by (auto simp: priskv_mem_malloc_def priskv_mem_free_def Let_def u64n_id split: sum.splits if_splits)
qed

text \<open>With more than one thread the bytes behind the last full batch are not cleared.\<close>

lemma mem_clear_remainder:
  "1 < nthreads \<Longrightarrow> sum_list (map snd (priskv_mem_clear a sz nthreads)) = sz - sz mod nthreads"
  by (simp add: priskv_mem_clear_def Let_def sum_list_triv comp_def minus_mod_eq_mult_div)

definition demo_mem_env :: mem_env where
  "demo_mem_env = \<lparr>me_stat = MEM_ENOENT, me_open = None, me_fstype = \<lambda>_. Inr (''hugetlbfs'', ''rw,pagesize=2M''), me_getpagesize = 4096,
     me_ftruncate = True, me_mmap = \<lambda>n. Inr 0x10000000, me_calloc = True\<rparr>"

theorem mem_create_load_witness:
  "\<exists>fs' m. priskv_mem_create demo_mem_env (Some ''m'') 128 1000 4096 1024 Map.empty = Some (0, fs')
     \<and> priskv_mem_load demo_mem_env (Some ''m'') fs' = Some (Some m) \<and> priskv_mem_key_addr m = 0x10001000"
proof -
  have lim: "mem_limits 128 1000 4096 1024" by (simp add: mem_limits_def)
  have pow: "IS_POWER_OF_2 (of_nat 1024 :: u64)" "IS_POWER_OF_2 (of_nat 4096 :: u32)" by (simp_all add: IS_POWER_OF_2_def)
  have env: "me_stat demo_mem_env = MEM_ENOENT" "me_open demo_mem_env = None" "me_ftruncate demo_mem_env" "me_calloc demo_mem_env"
    "\<forall>n. \<exists>a. me_mmap demo_mem_env n = Inr a" "\<And>n. me_mmap demo_mem_env n = Inr 0x10000000"
    by (simp_all add: demo_mem_env_def)
  have page: "priskv_mem_file_page_size demo_mem_env ''m'' = 2 ^ 21" by (simp add: priskv_mem_file_page_size_def demo_mem_env_def)
  have new: "(Map.empty :: mem_fs) ''m'' = None" and k: "(21 :: nat) \<le> 30" by simp_all
  from mem_create_load [OF lim pow(1) new env(1-5) page k] pow(2) obtain fs' m a sz where
    "priskv_mem_create demo_mem_env (Some ''m'') 128 1000 4096 1024 Map.empty = Some (0, fs')"
    "priskv_mem_load demo_mem_env (Some ''m'') fs' = Some (Some m)" "me_mmap demo_mem_env sz = Inr a"
    "priskv_mem_key_addr m = a + PRISKV_MEM_HEADER_SIZE" by blast
  moreover from this(3,4) have "priskv_mem_key_addr m = 0x10001000" by (simp add: env(6) PRISKV_MEM_HEADER_SIZE_def)
  ultimately show ?thesis by blast
qed

end
