(* ===== verification/Spec2Isabelle.thy ===== *)
theory Spec2Isabelle
  imports Utils Crc Slab Buddy Protocol KV_Props Ilist Rdma_Conn Rdma_Faults Acl Policy_Lru Backend Localfs Client_Props Cluster_Run Workqueue Memory
begin

text \<open>
  A verification development of PrisKV, a key-value store for large values that clients read
  and write over RDMA.

  \<^bold>\<open>The program and its model.\<close> A server process holds a region for keys, cut into the objects of
  a slab, and a region for values, handed out by a buddy allocator. Keys are found through a
  hash table and kept on a list in the order of last use. Worker threads receive requests on
  RDMA connections, look keys up, start transfers between the client's memory and the value
  blocks, and answer when the transfers complete. Values that are not in memory may live on a
  chain of backend devices. A client library sends requests over a connection and runs callbacks
  when they are answered; a cluster client spreads keys over the servers of a cluster, with one
  client for each. Every theory models one part, with the names of the source:

  \<^item> \<open>Prelude\<close>: types, arithmetic of machine integers, lemmas that all parts share.
  \<^item> \<open>Utils\<close>, \<open>Crc\<close>, \<open>Ilist\<close>: \<open>include/priskv-utils.h\<close>, \<open>server/crc.c\<close>, \<open>include/list.h\<close>. The lists are
    modelled twice, on a heap of links and on HOL lists; \<open>ilist_refines\<close> relates the two, and
    the other theories use whichever the code's claims depend on.
  \<^item> \<open>Alloc\<close>, \<open>Slab\<close>, \<open>Buddy\<close>: the locale \<open>allocator\<close> with its runs, and its two interpretations
    \<open>server/slab.c\<close> and \<open>server/buddy.c\<close>.
  \<^item> \<open>Memory\<close>: \<open>server/memory.c\<close>, files that hold keys and values and their layout. \<open>Workqueue\<close>:
    \<open>lib/workqueue.c\<close>, as an inductive set of states under all interleavings of its threads.
  \<^item> \<open>Protocol\<close>: \<open>include/priskv-protocol.h\<close> and \<open>-helper.h\<close>, the layout of requests and responses.
  \<^item> \<open>KV\<close>, \<open>KV_Inv\<close>, \<open>KV_Ops\<close>, \<open>KV_Bulk\<close>, \<open>KV_Run\<close>, \<open>KV_Props\<close>, \<open>KV_Good\<close>: \<open>server/kv.c\<close>. The record of the
    store has the slab, the buddy, the nodes by address, the buckets, the list of last use and
    the statistics. A call is one atomic step, as each runs under the locks of its bucket and
    of the list.
  \<^item> \<open>Rdma\<close>, \<open>Rdma_Server\<close>, \<open>Rdma_Run\<close>, \<open>Rdma_Props\<close>, \<open>Rdma_Conn\<close>, \<open>Rdma_Faults\<close>: \<open>server/rdma.c\<close>. A
    connection is a record with its limits, registered buffers and counters, what it has
    posted and what has completed; a handler maps a completion to the next state. A run
    interleaves completions of all connections and the expire routine.
  \<^item> \<open>Tiering\<close>: requests with a backend, from \<open>server/rdma.c\<close> and \<open>server/kv.c\<close>.
  \<^item> \<open>Acl\<close>: \<open>server/acl.c\<close>. \<open>Backend\<close>: \<open>server/backend/backend.c\<close>, where a driver that answers later
    is a machine that stops at the call of the driver and goes on with the answer.
    \<open>Policy_Lru\<close>: \<open>policy.c\<close> and \<open>policy_lru.c\<close>. \<open>Localfs\<close>: \<open>be_localfs.c\<close>.
  \<^item> \<open>Client\<close>, \<open>Client_Run\<close>, \<open>Client_Props\<close>: \<open>client/rdma.c\<close>. A connection is a record with its request slots,
    the requests by address, those that wait for a slot, the posted messages and the callbacks
    made so far. A run interleaves commands of the user and completions.
  \<^item> \<open>Cluster\<close>, \<open>Cluster_Hash\<close>, \<open>Cluster_Props\<close>, \<open>Cluster_Run\<close>: \<open>cluster/client/client.c\<close> and \<open>crc16.h\<close>. The
    record has the table of slots, the nodes with their clients and reference counts, registered
    memories, requests and the retry list. A run interleaves commands, answers of node clients,
    registrations of memory and ticks of the meta data timer.

  \<^bold>\<open>What is shown.\<close>
  \<^item> Server: in every interleaving no assertion fails, no freed node is used and the invariant
    holds; each accepted request is answered exactly once; the block of a GET belongs to its
    key until the transfer is complete. A connection request always ends, and an accepted
    connection has limits within the listener's and disjoint buffers inside registered memory.
    The work requests of a transfer cover the value exactly.
  \<^item> Store: the invariant in every reachable state, no leak of objects or blocks, each call
    against a map from keys to entries on every branch, the round trip of SET and GET, KEYS
    and its parser, that a GET's block stays in place.
  \<^item> Allocators: live blocks are disjoint and in range in every run, a free gives back exactly
    its block, the buddy fails only when no aligned run of blocks is free.
  \<^item> Memory and work queue: a memory file that was created can be loaded when its block size is a
    power of 2, with areas for keys and values that are disjoint and within the mapping; works
    run in order, once, and no wake-up is lost.
  \<^item> Protocol, CRC, lists, policy: round trip of requests, equality with the bit-by-bit CRC-32,
    refinement of heap operations by operations on lists, the policy as a list in the order of
    last use.
  \<^item> Backends: a chain of caches stays coherent with the last device; the file system driver is
    a list of files in the order of last use, with an exact account of the free space.
  \<^item> Access list: an address is let in exactly when a rule admits it.
  \<^item> Client: commands and completions are handled without a fault, no command is answered twice,
    and all are answered once the server has answered all that was posted; every message has
    fields of their widths, fits its slot and is read back by the server.
  \<^item> Cluster client: the checksum is the bitwise CRC-16; keys with the same hash tag share a slot;
    meta data loads exactly when its ranges are in bounds and disjoint, and then routes every
    key to the owner of its slot; between updates no request is lost or answered twice.
  \<^item> Faults: theorems whose names say what goes wrong give the inputs for which the code does
    not do what its comments or its other parts expect. They are listed as findings.

  \<^bold>\<open>Conventions.\<close> A result \<open>None\<close> of a function of the model is a failed assertion, an access out
  of bounds, a use of freed memory, an endless loop or a deadlock; errors that the code returns
  are values. So a theorem that a call is \<open>Some\<close> says that the call ends and that none of this
  happens. Sizes are natural numbers, with the wrap-around of the C type written out
  (\<open>u16n\<close>, \<open>u32n\<close>, \<open>u64n\<close>, \<open>s64\<close>); bit operations are on words. Loops are recursive on their data, except
  for these bounds: the loop of \<open>lru_policy_evict\<close> has the 128 rounds the code gives it; the
  restart loop of \<open>Localfs\<close> has one round more than requests wait, and each round takes one;
  the loops over tree levels of the buddy have the depth of the tree.

  \<^bold>\<open>Parameters.\<close> Code outside the repository is an argument: the verbs library and the connection
  manager (\<open>env\<close>, \<open>cm_env\<close>: which calls fail, which keys registration returns), name resolution in
  \<open>Acl\<close>, the regular expressions of KEYS and FLUSH, \<open>malloc\<close>, the clock, the drivers of \<open>Backend\<close>
  (\<open>driver_ok\<close> is what the interface documents), the system calls and io_uring of \<open>Localfs\<close>, the system
  calls and libmount of \<open>Memory\<close>, the functions of works, the verbs of
  the client (\<open>cl_env\<close>, \<open>cl_cm_env\<close>), and in \<open>Cluster\<close> what the meta server returns and what the node
  clients answer (\<open>cluster_env\<close>; \<open>calls_once\<close> is that a command has one callback, now or later). uthash
  is the association list of its entries. Callbacks of a user do not call the client again.

  \<^bold>\<open>Not modelled.\<close>
  \<^item> \<open>client/sync.c\<close>, which waits for the callbacks of the asynchronous commands, the threads of the
    client's multi-queue mode, which run the modelled functions for one connection each, and
    the address resolution before a connection is requested. The benchmarks, command lines and
    examples of \<open>client/\<close> and \<open>cluster/client/\<close> only call the libraries. \<open>pypriskv/\<close> binds them to Python.
  \<^item> \<open>cluster/client/jsonobjs.c\<close> and the connection to the meta server, which are tables for a decoder
    built on json-c and calls of hiredis.
  \<^item> \<open>server/memfile.c\<close>: a command line over \<open>memory.c\<close>.
  \<^item> \<open>server/http.c\<close>, \<open>info.c\<close>, \<open>jsonobjs.c\<close>, \<open>kvmanage.c\<close>, \<open>lib/codec.c\<close>: the management interface, JSON
    over evhtp and json-c, whose sources are not in the repository.
  \<^item> \<open>server/server.c\<close>: options of the command line and start-up.
  \<^item> \<open>lib/threads.c\<close>, \<open>event.c\<close>, \<open>log.c\<close>: threads, epoll and output. What the theorems need of
    them is that a handler runs to its end before the next one of its thread.
  \<^item> \<open>server/backend/be_redis.c\<close>: commands of libvalkey, which is not in the repository.
  \<^item> \<open>include/uthash.h\<close>: third-party macros, modelled by what they keep.
\<close>

end
